(* ===== verification/Prelude.thy ===== *)
theory Prelude
  imports Main "HOL-Library.Word"
begin

unbundle bit_operations_syntax

text \<open>
  The vocabulary every component of the Tachyon model shares: the machine integers of
  Rust with the checked, saturating and rounding operations the code calls on them, the
  \<open>?\<close> operator on results, and generic lemmas about lists and maps.

  Plain \<open>+\<close>, \<open>-\<close> and \<open>*\<close> of the source are the wrapping operations of
  \<^typ>\<open>'a word\<close>: the release profile of the workspace sets \<open>overflow-checks = false\<close>
  (\<open>src/Cargo.toml\<close>). \<open>usize\<close> has 64 bits, as on every target the repository builds.
\<close>

section \<open>Machine integers\<close>

type_synonym u8 = "8 word"
type_synonym u16 = "16 word"
type_synonym u32 = "32 word"
type_synonym u64 = "64 word"
type_synonym usize = "64 word"

definition checked_add :: "'a::len word \<Rightarrow> 'a word \<Rightarrow> 'a word option" where
  "checked_add a b = (if unat a + unat b < 2 ^ LENGTH('a) then Some (a + b) else None)"

definition checked_sub :: "'a::len word \<Rightarrow> 'a word \<Rightarrow> 'a word option" where
  "checked_sub a b = (if b \<le> a then Some (a - b) else None)"

definition saturating_sub :: "'a::len word \<Rightarrow> 'a word \<Rightarrow> 'a word" where
  "saturating_sub a b = (if b \<le> a then a - b else 0)"

definition saturating_add :: "'a::len word \<Rightarrow> 'a word \<Rightarrow> 'a word" where
  "saturating_add a b = (if unat a + unat b < 2 ^ LENGTH('a) then a + b else - 1)"

text \<open>\<open>div_ceil\<close> of the standard library: quotient, plus one when there is a remainder.\<close>

definition div_ceil :: "'a::len word \<Rightarrow> 'a word \<Rightarrow> 'a word" where
  "div_ceil a b = (if a mod b > 0 then a div b + 1 else a div b)"

text \<open>
  \<open>Ord::clamp\<close> panics when the bounds are crossed; \<^term>\<open>None\<close> stands for the panic.
\<close>

definition clamp_word :: "'a::len word \<Rightarrow> 'a word \<Rightarrow> 'a word \<Rightarrow> 'a word option" where
  "clamp_word x lo hi =
     (if lo > hi then None else Some (if x < lo then lo else if x > hi then hi else x))"

named_theorems rust_arith \<open>unsigned values of the Rust integer operations\<close>

lemma checked_add_Some_iff [rust_arith]:
  "checked_add a b = Some c \<longleftrightarrow> unat c = unat a + unat b"
proof
  assume "unat c = unat a + unat b"
  moreover from this have "unat a + unat b < 2 ^ LENGTH('a)"
    by (metis unsigned_less)
  moreover from this have "unat (a + b) = unat a + unat b"
    by (simp add: unat_word_ariths)
  ultimately show "checked_add a b = Some c"
    by (simp add: checked_add_def) (metis word_unat_eq_iff)
qed (auto simp: checked_add_def unat_word_ariths split: if_splits)

lemma checked_add_None_iff:
  "checked_add (a :: 'a::len word) b = None \<longleftrightarrow> 2 ^ LENGTH('a) \<le> unat a + unat b"
  by (auto simp: checked_add_def)

lemma checked_sub_Some_iff [rust_arith]:
  "checked_sub a b = Some c \<longleftrightarrow> b \<le> a \<and> c = a - b"
  by (auto simp: checked_sub_def)

lemma unat_of_nat_eq: "n < 2 ^ LENGTH('a) \<Longrightarrow> unat (of_nat n :: 'a::len word) = n"
  by (simp add: unat_of_nat take_bit_nat_eq_self)

lemma unat_of_int_eq:
  "0 \<le> i \<Longrightarrow> i < 2 ^ LENGTH('a) \<Longrightarrow> unat (word_of_int i :: 'a::len word) = nat i"
  by (simp add: unat_eq_nat_uint uint_word_of_int take_bit_int_eq_self)

lemma unat_add_no_overflow:
  "unat a + unat b < 2 ^ LENGTH('a) \<Longrightarrow> unat (a + b) = unat a + unat (b :: 'a::len word)"
  by (rule unat_add_lem[THEN iffD1])

lemma unat_sub_le [rust_arith]: "b \<le> a \<Longrightarrow> unat (a - b) = unat a - unat b"
  by (simp add: unat_sub)

lemma unat_saturating_sub [rust_arith, simp]:
  "unat (saturating_sub a b) = unat a - unat b"
  by (auto simp: saturating_sub_def unat_sub word_le_nat_alt)

lemma unat_saturating_add [rust_arith]:
  "unat (saturating_add a b :: 'a::len word) = min (unat a + unat b) (2 ^ LENGTH('a) - 1)"
proof (cases "unat a + unat b < 2 ^ LENGTH('a)")
  case True
  then show ?thesis by (simp add: saturating_add_def unat_word_ariths)
next
  case False
  then show ?thesis
    by (simp add: saturating_add_def unsigned_minus_1_eq_mask mask_eq_exp_minus_1)
qed

lemma unat_min [rust_arith]: "unat (min a b) = min (unat a) (unat b)"
  by (simp add: min_def word_le_nat_alt)

lemma unat_max [rust_arith]: "unat (max a b) = max (unat a) (unat b)"
  by (simp add: max_def word_le_nat_alt)

lemma unat_div_ceil [rust_arith]:
  assumes "b \<noteq> 0"
  shows "unat (div_ceil a b) = (unat a + unat b - 1) div unat b"
proof -
  let ?a = "unat a" and ?b = "unat b"
  have b: "0 < ?b" using assms by (simp add: unat_gt_0)
  have dec: "?a = (?a div ?b) * ?b + ?a mod ?b" by simp
  show ?thesis
  proof (cases "?a mod ?b = 0")
    case True
    then have z: "a mod b = 0" by (simp add: word_unat_eq_iff unat_mod)
    have "(?a + ?b - 1) div ?b = ((?b - 1) + (?a div ?b) * ?b) div ?b"
      using dec True b by (intro arg_cong[where f = "\<lambda>n. n div ?b"]) (simp add: algebra_simps)
    also have "\<dots> = ?a div ?b" using b by (subst div_mult_self1) auto
    finally show ?thesis using z by (simp add: div_ceil_def unat_div)
  next
    case False
    then have pos: "0 < a mod b" by (simp add: word_less_nat_alt unat_mod)
    have "(?a + ?b - 1) div ?b = ((?a mod ?b - 1) + (?a div ?b + 1) * ?b) div ?b"
    proof -
      define q r where "q = ?a div ?b" and "r = ?a mod ?b"
      have "?a = q * ?b + r" "0 < r" using dec False by (auto simp: q_def r_def)
      then have "?a + ?b - 1 = (r - 1) + (q * ?b + ?b)" by linarith
      then have "?a + ?b - 1 = (r - 1) + (q + 1) * ?b" by (simp add: add_mult_distrib)
      then show ?thesis by (simp add: q_def r_def)
    qed
    also have "\<dots> = ?a div ?b + 1"
      using b by (subst div_mult_self1) (auto simp: less_imp_diff_less)
    finally have eq: "(?a + ?b - 1) div ?b = ?a div ?b + 1" .
    have "?b \<noteq> 1" using False by (metis mod_by_1)
    then have "?a div ?b < ?a"
      using b False by (intro div_less_dividend) (auto intro: gr0I)
    then have "unat (a div b) + 1 \<le> unat a" by (simp add: unat_div)
    moreover have "unat a < 2 ^ LENGTH('a)" by (rule unsigned_less)
    ultimately have "unat (a div b) + 1 < 2 ^ LENGTH('a)" by linarith
    then have "unat (a div b) + unat (1 :: 'a word) < 2 ^ LENGTH('a)" by simp
    then have "unat (a div b + 1) = unat (a div b) + unat (1 :: 'a word)"
      by (rule unat_add_lem[THEN iffD1])
    then have "unat (a div b + 1) = ?a div ?b + 1"
      by (simp add: unat_div)
    then show ?thesis using pos eq by (simp add: div_ceil_def)
  qed
qed

lemma unat_suc_below:
  "unat (a :: 'a::len word) < unat (b :: 'a word) \<Longrightarrow> unat (a + 1) = unat a + 1"
proof -
  assume "unat a < unat b"
  moreover have "unat b < 2 ^ LENGTH('a)" by (rule unsigned_less)
  ultimately have "unat a + 1 < 2 ^ LENGTH('a)" by linarith
  then have "unat a + unat (1 :: 'a word) < 2 ^ LENGTH('a)" by simp
  from unat_add_no_overflow[OF this] show ?thesis by simp
qed

lemma unat_suc:
  assumes "(a :: 'a::len word) \<noteq> - 1"
  shows "unat (a + 1) = unat a + 1"
proof -
  have "a < - 1" using assms by (metis word_order.not_eq_extremum)
  then have "unat a < unat (- 1 :: 'a word)" by (simp only: word_less_nat_alt)
  then show ?thesis by (rule unat_suc_below)
qed

lemma u8_bound: "unat (x :: u8) < 256"
  using unsigned_less[of x] by simp

lemma u16_bound: "unat (x :: u16) < 65536"
  using unsigned_less[of x] by simp

lemma clamp_word_Some:
  "lo \<le> hi \<Longrightarrow> clamp_word x lo hi = Some (max lo (min x hi))"
  by (auto simp: clamp_word_def min_def max_def)

lemma clamp_word_None_iff: "clamp_word x lo hi = None \<longleftrightarrow> hi < lo"
  by (auto simp: clamp_word_def)

section \<open>Results and the question mark\<close>

text \<open>
  A \<open>Result<T, E>\<close> is \<^typ>\<open>'e + 'a\<close> with \<^term>\<open>Inl\<close> the error. \<open>and_then r f\<close> is
  \<open>f(r?)\<close>: an error returns early.
\<close>

fun and_then :: "'e + 'a \<Rightarrow> ('a \<Rightarrow> 'e + 'b) \<Rightarrow> 'e + 'b" where
  "and_then (Inl e) f = Inl e"
| "and_then (Inr a) f = f a"

fun map_err :: "('e \<Rightarrow> 'f) \<Rightarrow> 'e + 'a \<Rightarrow> 'f + 'a" where
  "map_err g (Inl e) = Inl (g e)"
| "map_err g (Inr a) = Inr a"

definition ok_or :: "'a option \<Rightarrow> 'e \<Rightarrow> 'e + 'a" where
  "ok_or x e = (case x of None \<Rightarrow> Inl e | Some a \<Rightarrow> Inr a)"

definition is_ok :: "'e + 'a \<Rightarrow> bool" where
  "is_ok r = (case r of Inl _ \<Rightarrow> False | Inr _ \<Rightarrow> True)"

lemma is_ok_simps [simp]: "is_ok (Inr a)" "\<not> is_ok (Inl e)"
  by (simp_all add: is_ok_def)

lemma is_ok_iff: "is_ok r \<longleftrightarrow> (\<exists>a. r = Inr a)"
  by (cases r) auto

lemma and_then_Inr_iff [simp]:
  "and_then r f = Inr b \<longleftrightarrow> (\<exists>a. r = Inr a \<and> f a = Inr b)"
  by (cases r) auto

lemma and_then_Inl_iff:
  "and_then r f = Inl e \<longleftrightarrow> r = Inl e \<or> (\<exists>a. r = Inr a \<and> f a = Inl e)"
  by (cases r) auto

lemma map_err_Inr_iff [simp]: "map_err g r = Inr a \<longleftrightarrow> r = Inr a"
  by (cases r) auto

lemma ok_or_Inr_iff [simp]: "ok_or x e = Inr a \<longleftrightarrow> x = Some a"
  by (simp add: ok_or_def split: option.splits)

lemma ok_or_simps [simp]: "ok_or None e = Inl e" "ok_or (Some a) e = Inr a"
  by (simp_all add: ok_or_def)

section \<open>Lists\<close>

text \<open>\<open>position\<close> of an iterator: the first index that satisfies the predicate.\<close>

fun position :: "('a \<Rightarrow> bool) \<Rightarrow> 'a list \<Rightarrow> nat option" where
  "position P [] = None"
| "position P (x # xs) = (if P x then Some 0 else map_option Suc (position P xs))"

text \<open>\<open>Vec::remove\<close> at an index in range.\<close>

definition remove_nth :: "nat \<Rightarrow> 'a list \<Rightarrow> 'a list" where
  "remove_nth i xs = take i xs @ drop (Suc i) xs"

lemma position_None_iff [simp]: "position P xs = None \<longleftrightarrow> (\<forall>x \<in> set xs. \<not> P x)"
  by (induction xs) auto

lemma position_SomeD:
  "position P xs = Some i \<Longrightarrow> i < length xs \<and> P (xs ! i) \<and> (\<forall>j < i. \<not> P (xs ! j))"
proof (induction xs arbitrary: i)
  case (Cons x xs)
  show ?case
  proof (cases "P x")
    case True
    with Cons.prems show ?thesis by simp
  next
    case False
    with Cons.prems obtain k where k: "position P xs = Some k" "i = Suc k" by auto
    from Cons.IH[OF k(1)] False k(2) show ?thesis
      by (auto simp: nth_Cons split: nat.split)
  qed
qed simp

lemma length_remove_nth [simp]: "i < length xs \<Longrightarrow> length (remove_nth i xs) = length xs - 1"
  by (simp add: remove_nth_def)

lemma set_remove_nth: "set (remove_nth i xs) \<subseteq> set xs"
  by (auto simp: remove_nth_def dest: in_set_takeD in_set_dropD)

lemma in_set_remove_nth:
  "i < length xs \<Longrightarrow> x \<in> set xs \<Longrightarrow> x \<noteq> xs ! i \<Longrightarrow> x \<in> set (remove_nth i xs)"
  by (subst (asm) (2) id_take_nth_drop[of i xs]) (auto simp: remove_nth_def)

lemma distinct_map_remove_nth:
  assumes "distinct (map f xs)" "i < length xs"
  shows "distinct (map f (remove_nth i xs))" "f (xs ! i) \<notin> f ` set (remove_nth i xs)"
proof -
  from assms(2) have "xs = take i xs @ xs ! i # drop (Suc i) xs"
    by (simp add: id_take_nth_drop)
  with assms(1) have "distinct (map f (take i xs @ xs ! i # drop (Suc i) xs))" by simp
  then show "distinct (map f (remove_nth i xs))" "f (xs ! i) \<notin> f ` set (remove_nth i xs)"
    by (auto simp: remove_nth_def)
qed

section \<open>Counting list entries\<close>

text \<open>How many of a list of tasks are in a phase; the models of interleaved code count permits with it.\<close>

definition count_if :: "('a \<Rightarrow> bool) \<Rightarrow> 'a list \<Rightarrow> nat" where
  "count_if P xs = length (filter P xs)"

lemma count_if_update:
  "t < length xs \<Longrightarrow>
   count_if P (xs[t := y]) + (if P (xs ! t) then 1 else 0) = count_if P xs + (if P y then 1 else 0)"
proof (induction xs arbitrary: t)
  case (Cons x xs)
  then show ?case
    by (cases t) (auto simp: count_if_def split: if_splits)
qed simp

lemma count_if_le: "count_if P xs \<le> length xs"
  by (simp add: count_if_def)

lemma count_if_mono: "(\<And>x. P x \<Longrightarrow> Q x) \<Longrightarrow> count_if P xs \<le> count_if Q xs"
  by (induction xs) (auto simp: count_if_def)

end
