(* ===== verification/F64.thy ===== *)
theory F64
  imports Prelude Complex_Main "HOL-Library.Log_Nat"
begin

text \<open>
  The type \<open>f64\<close> of Rust: IEEE 754 binary64 with round-to-nearest-even. A value is a
  NaN, an infinity (the flag is its sign) or a finite rational. The two zeros are one
  value: the code observes the sign of a zero nowhere (no division by a zero, no
  \<open>to_bits\<close>, no \<open>is_sign_negative\<close>).

  Every operation is the exact rational operation followed by \<open>rnd\<close>, the rounding to
  the grid of 53 significant bits with exponents from -1074. The definitions compute; the
  lemmas show that rounding is monotone, exact on integers up to \<open>2 ^ 53\<close> and never
  changes a sign.
\<close>

datatype f64 = NaN | Inf bool | Fin rat

section \<open>Rounding\<close>

text \<open>The binary exponent of a positive rational: \<open>2 ^ k \<le> x < 2 ^ (k + 1)\<close>.\<close>

definition ilog2 :: "rat \<Rightarrow> int" where
  "ilog2 x =
     (let (a, b) = quotient_of x;
          k = int (floorlog 2 (nat a)) - int (floorlog 2 (nat b))
      in if x < 2 powi k then k - 1 else k)"

definition round_half_even :: "rat \<Rightarrow> int" where
  "round_half_even z =
     (let f = \<lfloor>z\<rfloor>; d = z - of_int f
      in if d < 1 / 2 then f else if d > 1 / 2 then f + 1 else if even f then f else f + 1)"

text \<open>The exponent of the unit in the last place; -1074 is that of the subnormals.\<close>

definition ulp_exp :: "rat \<Rightarrow> int" where
  "ulp_exp x = max (ilog2 x - 52) (- 1074)"

definition rnd_pos :: "rat \<Rightarrow> rat" where
  "rnd_pos x = of_int (round_half_even (x / 2 powi (ulp_exp x))) * 2 powi (ulp_exp x)"

definition rnd_exact :: "rat \<Rightarrow> rat" where
  "rnd_exact x = (if x = 0 then 0 else if x > 0 then rnd_pos x else - rnd_pos (- x))"

definition rnd :: "rat \<Rightarrow> f64" where
  "rnd x =
     (let r = rnd_exact x
      in if r \<ge> 2 ^ 1024 then Inf False else if r \<le> - (2 ^ 1024) then Inf True else Fin r)"

section \<open>Operations\<close>

fun f64_neg :: "f64 \<Rightarrow> f64" where
  "f64_neg NaN = NaN"
| "f64_neg (Inf s) = Inf (\<not> s)"
| "f64_neg (Fin x) = Fin (- x)"

fun f64_add :: "f64 \<Rightarrow> f64 \<Rightarrow> f64" where
  "f64_add (Fin x) (Fin y) = rnd (x + y)"
| "f64_add (Inf s) (Fin _) = Inf s"
| "f64_add (Fin _) (Inf s) = Inf s"
| "f64_add (Inf s) (Inf t) = (if s = t then Inf s else NaN)"
| "f64_add _ _ = NaN"

definition f64_sub :: "f64 \<Rightarrow> f64 \<Rightarrow> f64" where
  "f64_sub a b = f64_add a (f64_neg b)"

fun f64_mul :: "f64 \<Rightarrow> f64 \<Rightarrow> f64" where
  "f64_mul (Fin x) (Fin y) = rnd (x * y)"
| "f64_mul (Inf s) (Fin y) = (if y = 0 then NaN else Inf (s \<noteq> (y < 0)))"
| "f64_mul (Fin x) (Inf t) = (if x = 0 then NaN else Inf ((x < 0) \<noteq> t))"
| "f64_mul (Inf s) (Inf t) = Inf (s \<noteq> t)"
| "f64_mul _ _ = NaN"

text \<open>Division of a finite value by zero takes the zero as positive (see above).\<close>

fun f64_div :: "f64 \<Rightarrow> f64 \<Rightarrow> f64" where
  "f64_div (Fin x) (Fin y) =
     (if y = 0 then (if x = 0 then NaN else Inf (x < 0)) else rnd (x / y))"
| "f64_div (Inf s) (Fin y) = Inf (s \<noteq> (y < 0))"
| "f64_div (Fin _) (Inf _) = Fin 0"
| "f64_div _ _ = NaN"

text \<open>The comparisons are false on a NaN.\<close>

fun f64_lt :: "f64 \<Rightarrow> f64 \<Rightarrow> bool" where
  "f64_lt (Fin x) (Fin y) = (x < y)"
| "f64_lt (Inf s) (Inf t) = (s \<and> \<not> t)"
| "f64_lt (Inf s) (Fin _) = s"
| "f64_lt (Fin _) (Inf t) = (\<not> t)"
| "f64_lt _ _ = False"

definition f64_eq :: "f64 \<Rightarrow> f64 \<Rightarrow> bool" where
  "f64_eq a b = (a = b \<and> a \<noteq> NaN)"

definition f64_le :: "f64 \<Rightarrow> f64 \<Rightarrow> bool" where
  "f64_le a b = (f64_lt a b \<or> f64_eq a b)"

fun is_nan :: "f64 \<Rightarrow> bool" where
  "is_nan NaN = True"
| "is_nan _ = False"

fun is_finite :: "f64 \<Rightarrow> bool" where
  "is_finite (Fin _) = True"
| "is_finite _ = False"

text \<open>\<open>f64::max\<close> and \<open>f64::min\<close> return the other argument when one is a NaN.\<close>

definition f64_max :: "f64 \<Rightarrow> f64 \<Rightarrow> f64" where
  "f64_max a b = (if is_nan a then b else if is_nan b then a else if f64_lt a b then b else a)"

definition f64_min :: "f64 \<Rightarrow> f64 \<Rightarrow> f64" where
  "f64_min a b = (if is_nan a then b else if is_nan b then a else if f64_lt b a then b else a)"

text \<open>\<open>f64::clamp\<close> with bounds in order; a NaN stays a NaN.\<close>

definition f64_clamp :: "f64 \<Rightarrow> f64 \<Rightarrow> f64 \<Rightarrow> f64" where
  "f64_clamp x lo hi = (if f64_lt x lo then lo else if f64_lt hi x then hi else x)"

text \<open>Conversions: \<open>as f64\<close> rounds, \<open>as u64\<close> truncates and saturates, a NaN gives 0.\<close>

definition f64_of_nat :: "nat \<Rightarrow> f64" where
  "f64_of_nat n = rnd (of_nat n)"

definition f64_of_word :: "'a::len word \<Rightarrow> f64" where
  "f64_of_word w = f64_of_nat (unat w)"

fun word_of_f64 :: "f64 \<Rightarrow> 'a::len word" where
  "word_of_f64 NaN = 0"
| "word_of_f64 (Inf s) = (if s then 0 else - 1)"
| "word_of_f64 (Fin x) =
     (if x < 1 then 0 else if x \<ge> 2 ^ LENGTH('a) then - 1 else word_of_int \<lfloor>x\<rfloor>)"

section \<open>The exponent\<close>

lemma powi_add2: "(2 :: rat) powi (i + j) = 2 powi i * 2 powi j"
  by (simp add: power_int_add)

lemma powi_pos [simp]: "0 < (2 :: rat) powi k"
  by (simp add: zero_less_power_int)

lemma powi_mono: "i \<le> j \<Longrightarrow> (2 :: rat) powi i \<le> 2 powi j"
  by (rule power_int_increasing) auto

lemma powi_less_cancel: "(2 :: rat) powi i < 2 powi j \<Longrightarrow> i < j"
  using powi_mono[of j i] by linarith

lemma ilog2_bounds:
  assumes "0 < x"
  shows "2 powi (ilog2 x) \<le> x" "x < 2 powi (ilog2 x + 1)"
proof -
  obtain a b where q: "quotient_of x = (a, b)" by (cases "quotient_of x")
  have b: "0 < b" using quotient_of_denom_pos[OF q] .
  have x: "x = of_int a / of_int b" using quotient_of_div[OF q] .
  have a: "0 < a" using assms b x by (simp add: zero_less_divide_iff)
  define la lb where "la = floorlog 2 (nat a)" and "lb = floorlog 2 (nat b)"
  have fa: "2 ^ (la - 1) \<le> nat a" "nat a < 2 ^ la"
    using floorlog_bounds[of "nat a" 2] a by (auto simp: la_def)
  have fb: "2 ^ (lb - 1) \<le> nat b" "nat b < 2 ^ lb"
    using floorlog_bounds[of "nat b" 2] b by (auto simp: lb_def)
  have la: "0 < la" and lb: "0 < lb"
    using fa fb a b by (auto intro!: gr0I)
  have A: "(2 :: rat) powi (int la - 1) \<le> of_int a" "of_int a < (2 :: rat) powi (int la)"
  proof -
    have "(2 :: rat) powi (int la - 1) = of_nat (2 ^ (la - 1))"
      using la by (simp add: power_int_def nat_diff_distrib)
    also have "\<dots> \<le> of_nat (nat a)" using fa(1) by (simp only: of_nat_le_iff)
    finally show "(2 :: rat) powi (int la - 1) \<le> of_int a" using a by simp
    have "of_int a = (of_nat (nat a) :: rat)" using a by simp
    also have "\<dots> < of_nat (2 ^ la)" using fa(2) by (simp only: of_nat_less_iff)
    finally show "of_int a < (2 :: rat) powi (int la)" by simp
  qed
  have B: "(2 :: rat) powi (int lb - 1) \<le> of_int b" "of_int b < (2 :: rat) powi (int lb)"
  proof -
    have "(2 :: rat) powi (int lb - 1) = of_nat (2 ^ (lb - 1))"
      using lb by (simp add: power_int_def nat_diff_distrib)
    also have "\<dots> \<le> of_nat (nat b)" using fb(1) by (simp only: of_nat_le_iff)
    finally show "(2 :: rat) powi (int lb - 1) \<le> of_int b" using b by simp
    have "of_int b = (of_nat (nat b) :: rat)" using b by simp
    also have "\<dots> < of_nat (2 ^ lb)" using fb(2) by (simp only: of_nat_less_iff)
    finally show "of_int b < (2 :: rat) powi (int lb)" by simp
  qed
  have bq: "0 < (of_int b :: rat)" using b by simp
  let ?k = "int la - int lb"
  have up: "x < 2 powi (?k + 1)"
  proof -
    have "of_int a < (2 :: rat) powi (int la)" by (rule A)
    also have "\<dots> = 2 powi (?k + 1) * 2 powi (int lb - 1)"
      by (simp flip: powi_add2)
    also have "\<dots> \<le> 2 powi (?k + 1) * of_int b"
      using B(1) by (intro mult_left_mono) (auto simp: less_imp_le)
    finally show ?thesis using bq by (simp add: x pos_divide_less_eq)
  qed
  have low: "2 powi (?k - 1) \<le> x"
  proof -
    have "2 powi (?k - 1) * of_int b \<le> 2 powi (?k - 1) * (2 :: rat) powi (int lb)"
      using B(2) by (intro mult_left_mono) (auto simp: less_imp_le)
    also have "\<dots> = 2 powi (?k - 1 + int lb)" by (rule powi_add2[symmetric])
    also have "\<dots> = 2 powi (int la - 1)" by simp
    also have "\<dots> \<le> of_int a" by (rule A)
    finally show ?thesis using bq by (simp add: x pos_le_divide_eq)
  qed
  have "ilog2 x = (if x < 2 powi ?k then ?k - 1 else ?k)"
    by (simp add: ilog2_def q la_def lb_def Let_def)
  then show "2 powi (ilog2 x) \<le> x" "x < 2 powi (ilog2 x + 1)"
    using up low by (auto simp: not_less)
qed

lemma ilog2_unique:
  assumes "2 powi k \<le> x" "x < 2 powi (k + 1)"
  shows "ilog2 x = k"
proof -
  have pos: "0 < x" using assms(1) powi_pos[of k] by linarith
  note b = ilog2_bounds[OF pos]
  have "(2::rat) powi k < 2 powi (ilog2 x + 1)" using assms(1) b(2) by linarith
  then have "k < ilog2 x + 1" by (rule powi_less_cancel)
  moreover have "(2::rat) powi (ilog2 x) < 2 powi (k + 1)" using assms(2) b(1) by linarith
  then have "ilog2 x < k + 1" by (rule powi_less_cancel)
  ultimately show ?thesis by linarith
qed

lemma ilog2_mono:
  assumes "0 < x" "x \<le> y"
  shows "ilog2 x \<le> ilog2 y"
proof -
  have "(2::rat) powi (ilog2 x) < 2 powi (ilog2 y + 1)"
    using ilog2_bounds(1)[OF assms(1)] ilog2_bounds(2)[of y] assms by linarith
  then show ?thesis using powi_less_cancel by force
qed

section \<open>Rounding to an integer\<close>

lemma round_half_even_of_int [simp]: "round_half_even (of_int n) = n"
  by (simp add: round_half_even_def)

lemma round_half_even_bounds: "\<lfloor>z\<rfloor> \<le> round_half_even z" "round_half_even z \<le> \<lfloor>z\<rfloor> + 1"
  by (auto simp: round_half_even_def Let_def)

lemma round_half_even_mono:
  assumes "z \<le> w"
  shows "round_half_even z \<le> round_half_even w"
proof (cases "\<lfloor>z\<rfloor> = \<lfloor>w\<rfloor>")
  case True
  then show ?thesis using assms by (auto simp: round_half_even_def Let_def)
next
  case False
  then have "\<lfloor>z\<rfloor> + 1 \<le> \<lfloor>w\<rfloor>" using floor_mono[OF assms] by linarith
  then show ?thesis
    using round_half_even_bounds(2)[of z] round_half_even_bounds(1)[of w] by linarith
qed

lemma round_half_even_le_int: "z \<le> of_int n \<Longrightarrow> round_half_even z \<le> n"
  using round_half_even_mono[of z "of_int n"] by simp

lemma round_half_even_ge_int: "of_int n \<le> z \<Longrightarrow> n \<le> round_half_even z"
  using round_half_even_mono[of "of_int n" z] by simp

section \<open>Rounding to the grid\<close>

lemma rnd_pos_le_pow:
  assumes "x \<le> of_int n * 2 powi (ulp_exp x)"
  shows "rnd_pos x \<le> of_int n * 2 powi (ulp_exp x)"
proof -
  have "x / 2 powi (ulp_exp x) \<le> of_int n"
    using assms by (simp add: pos_divide_le_eq)
  then have "round_half_even (x / 2 powi (ulp_exp x)) \<le> n" by (rule round_half_even_le_int)
  then show ?thesis
    unfolding rnd_pos_def by (intro mult_right_mono) (auto simp: less_imp_le)
qed

lemma rnd_pos_ge_pow:
  assumes "of_int n * 2 powi (ulp_exp x) \<le> x"
  shows "of_int n * 2 powi (ulp_exp x) \<le> rnd_pos x"
proof -
  have "of_int n \<le> x / 2 powi (ulp_exp x)"
    using assms by (simp add: pos_le_divide_eq)
  then have "n \<le> round_half_even (x / 2 powi (ulp_exp x))" by (rule round_half_even_ge_int)
  then show ?thesis
    unfolding rnd_pos_def by (intro mult_right_mono) (auto simp: less_imp_le)
qed

lemma rnd_pos_nonneg: "0 < x \<Longrightarrow> 0 \<le> rnd_pos x"
  using rnd_pos_ge_pow[of 0 x] by simp

lemma ulp_exp_mono: "0 < x \<Longrightarrow> x \<le> y \<Longrightarrow> ulp_exp x \<le> ulp_exp y"
  using ilog2_mono[of x y] by (auto simp: ulp_exp_def)

text \<open>Across a change of exponent both sides are separated by a power of two of the grid.\<close>

lemma rnd_pos_mono:
  assumes x: "0 < x" and xy: "x \<le> y"
  shows "rnd_pos x \<le> rnd_pos y"
proof (cases "ulp_exp x = ulp_exp y")
  case True
  have "x / 2 powi (ulp_exp x) \<le> y / 2 powi (ulp_exp x)"
    using xy by (intro divide_right_mono) (auto simp: less_imp_le)
  then have "round_half_even (x / 2 powi (ulp_exp x)) \<le> round_half_even (y / 2 powi (ulp_exp x))"
    by (rule round_half_even_mono)
  then show ?thesis
    unfolding rnd_pos_def True[symmetric] by (intro mult_right_mono) (auto simp: less_imp_le)
next
  case False
  let ?ex = "ulp_exp x" and ?ey = "ulp_exp y"
  have lt: "?ex < ?ey" using False ulp_exp_mono[OF x xy] by linarith
  then have ey: "?ey = ilog2 y - 52" by (auto simp: ulp_exp_def split: if_splits)
  have lxy: "ilog2 x < ilog2 y" using lt ey by (auto simp: ulp_exp_def)
  define d where "d = nat (?ey + 52 - ?ex)"
  have dd: "int d = ?ey + 52 - ?ex" using lt by (simp add: d_def)
  have sep: "of_int (2 ^ d) * 2 powi ?ex = (2 :: rat) powi (?ey + 52)"
  proof -
    have "of_int (2 ^ d) * 2 powi ?ex = (2 :: rat) powi (int d) * 2 powi ?ex" by simp
    also have "\<dots> = 2 powi (int d + ?ex)" by (rule powi_add2[symmetric])
    also have "int d + ?ex = ?ey + 52" using dd by simp
    finally show ?thesis .
  qed
  have "x < 2 powi (ilog2 x + 1)" by (rule ilog2_bounds[OF x])
  also have "\<dots> \<le> 2 powi (?ey + 52)" using lxy ey by (intro powi_mono) linarith
  finally have "x \<le> of_int (2 ^ d) * 2 powi ?ex" by (simp only: sep less_imp_le)
  then have 1: "rnd_pos x \<le> 2 powi (?ey + 52)" using rnd_pos_le_pow sep by metis
  have sepy: "of_int (2 ^ 52) * 2 powi ?ey = (2 :: rat) powi (?ey + 52)"
    by (simp only: powi_add2) simp
  have "2 powi (?ey + 52) \<le> y"
    using ilog2_bounds(1)[of y] x xy ey by simp
  then have "2 powi (?ey + 52) \<le> rnd_pos y" using rnd_pos_ge_pow sepy by metis
  with 1 show ?thesis by linarith
qed

lemma rnd_exact_mono:
  assumes "x \<le> y"
  shows "rnd_exact x \<le> rnd_exact y"
proof -
  consider "0 < x" | "x \<le> 0" "0 \<le> y" | "y < 0" by linarith
  then show ?thesis
  proof cases
    case 1
    then show ?thesis using assms rnd_pos_mono by (auto simp: rnd_exact_def)
  next
    case 2
    have "rnd_exact x \<le> 0" using 2 rnd_pos_nonneg[of "- x"] by (auto simp: rnd_exact_def)
    moreover have "0 \<le> rnd_exact y" using 2 rnd_pos_nonneg[of y] by (auto simp: rnd_exact_def)
    ultimately show ?thesis by linarith
  next
    case 3
    then show ?thesis using assms rnd_pos_mono[of "- y" "- x"] by (auto simp: rnd_exact_def)
  qed
qed

text \<open>A number of the grid is its own rounding; integers up to \<open>2 ^ 53\<close> are on the grid.\<close>

lemma rnd_pos_grid:
  assumes "x = of_int n * 2 powi (ulp_exp x)"
  shows "rnd_pos x = x"
  using rnd_pos_le_pow[of x n] rnd_pos_ge_pow[of n x] assms by (metis order.antisym order.refl)

lemma rnd_pos_dyadic:
  assumes pos: "0 < x" and x: "x = of_int m * 2 powi e" and e: "- 1074 \<le> e"
    and m: "x < 2 powi (e + 53)"
  shows "rnd_pos x = x"
proof -
  have "2 powi (ilog2 x) < (2 :: rat) powi (e + 53)"
    using ilog2_bounds(1)[OF pos] m by linarith
  then have "ilog2 x < e + 53" by (rule powi_less_cancel)
  then have le: "ulp_exp x \<le> e" using e by (simp add: ulp_exp_def)
  define d where "d = nat (e - ulp_exp x)"
  have "(2 :: rat) powi e = 2 powi (int d + ulp_exp x)" using le by (simp add: d_def)
  also have "\<dots> = 2 ^ d * 2 powi (ulp_exp x)" by (simp only: powi_add2) simp
  finally have "x = of_int (m * 2 ^ d) * 2 powi (ulp_exp x)" using x by simp
  then show ?thesis by (rule rnd_pos_grid)
qed

lemma rnd_exact_dyadic:
  assumes "x = of_int m * 2 powi e" "- 1074 \<le> e" "\<bar>x\<bar> < 2 powi (e + 53)"
  shows "rnd_exact x = x"
proof -
  consider "x = 0" | "0 < x" | "x < 0" by linarith
  then show ?thesis
  proof cases
    case 2
    then show ?thesis using rnd_pos_dyadic[of x m e] assms by (simp add: rnd_exact_def)
  next
    case 3
    then have "rnd_pos (- x) = - x"
      using assms by (intro rnd_pos_dyadic[of "- x" "- m" e]) auto
    then show ?thesis using 3 by (simp add: rnd_exact_def)
  qed (simp add: rnd_exact_def)
qed

lemma rnd_exact_of_nat:
  assumes "n < 2 ^ 53"
  shows "rnd_exact (of_nat n) = of_nat n"
proof (rule rnd_exact_dyadic[where m = "int n" and e = 0])
  have "(of_nat n :: rat) < of_nat (2 ^ 53)" using assms by (simp only: of_nat_less_iff)
  then show "\<bar>of_nat n\<bar> < (2 :: rat) powi (0 + 53)" by (simp add: power_int_def)
qed simp_all

lemma rnd_exact_0 [simp]: "rnd_exact 0 = 0"
  by (simp add: rnd_exact_def)

lemma rnd_exact_1 [simp]: "rnd_exact 1 = 1"
  using rnd_exact_of_nat[of 1] by simp

lemma rnd_exact_nonneg: "0 \<le> x \<Longrightarrow> 0 \<le> rnd_exact x"
  using rnd_exact_mono[of 0 x] by simp

lemma rnd_exact_pow2:
  assumes "0 \<le> k"
  shows "rnd_exact (2 powi k) = 2 powi k"
  by (rule rnd_exact_dyadic[where m = 1 and e = k]) (use assms in \<open>simp_all add: powi_add2\<close>)

end
