(* ===== verification/Errors.thy ===== *)
theory Errors
  imports Prelude
begin

text \<open>
  The error type of \<open>tachyon-core\<close> (\<open>error.rs\<close>). The constructors are the
  variants of \<open>DownloadError\<close>. Message texts, which the source writes in Chinese, are
  short ASCII tags that identify the message; the boxed sources of \<open>Io\<close>,
  \<open>UrlParse\<close>, \<open>Serialization\<close> and \<open>Other\<close> are their text.
\<close>

datatype download_error =
    Network string
  | Protocol string
  | Io string
  | Fragment string
  | ChecksumMismatch string string
  | NoExpectedChecksum
  | Config string
  | Cancelled_Error
  | TaskNotFound string
  | ConnectionPoolExhausted
  | Timeout string
  | Throttled "u64 option"
  | Forbidden u16
  | Http u16 string
  | UrlParse string
  | Serialization string
  | Other string

type_synonym 'a download_result = "download_error + 'a"

text \<open>The retry decision of the engine's loop; the last equation is the wildcard arm.\<close>

fun is_retryable :: "download_error \<Rightarrow> bool" where
  "is_retryable Cancelled_Error = False"
| "is_retryable (Forbidden _) = False"
| "is_retryable (ChecksumMismatch _ _) = False"
| "is_retryable NoExpectedChecksum = False"
| "is_retryable (TaskNotFound _) = False"
| "is_retryable (Config _) = False"
| "is_retryable (Http status _) = (status = 429 \<or> status = 408 \<or> status \<ge> 500)"
| "is_retryable (Other _) = False"
| "is_retryable _ = True"

text \<open>The constructors \<open>network_with_source\<close> and \<open>protocol_with_source\<close>.\<close>

definition network_with_source :: "string \<Rightarrow> string \<Rightarrow> download_error" where
  "network_with_source msg source = Network (msg @ '': '' @ source)"

definition protocol_with_source :: "string \<Rightarrow> string \<Rightarrow> download_error" where
  "protocol_with_source msg source = Protocol (msg @ '': '' @ source)"

definition error_from_string :: "string \<Rightarrow> download_error" where
  "error_from_string s = Other s"

text \<open>
  The wildcard arm is a default of \<^const>\<open>True\<close>: a variant is retried unless the code
  names it. The exact set, as a check on the order of the arms.
\<close>

lemma is_retryable_iff:
  "is_retryable e \<longleftrightarrow>
     (case e of
        Network _ \<Rightarrow> True | Protocol _ \<Rightarrow> True | Io _ \<Rightarrow> True | Fragment _ \<Rightarrow> True
      | ConnectionPoolExhausted \<Rightarrow> True | Timeout _ \<Rightarrow> True | Throttled _ \<Rightarrow> True
      | UrlParse _ \<Rightarrow> True | Serialization _ \<Rightarrow> True
      | Http s _ \<Rightarrow> s = 429 \<or> s = 408 \<or> 500 \<le> s
      | _ \<Rightarrow> False)"
  by (cases e) auto

lemma is_retryable_http_4xx:
  "400 \<le> s \<Longrightarrow> s < 500 \<Longrightarrow> is_retryable (Http s r) \<longleftrightarrow> s = 408 \<or> s = 429"
  by auto

lemma retryable_constructors [simp]:
  "is_retryable (network_with_source m s)" "is_retryable (protocol_with_source m s)"
  "\<not> is_retryable (error_from_string m)"
  by (simp_all add: network_with_source_def protocol_with_source_def error_from_string_def)

end
