(* ===== verification/Core_Types.thy ===== *)
theory Core_Types
  imports Errors "HOL-Library.Sublist"
begin

text \<open>
  \<open>tachyon-core/src/types.rs\<close>: the state machine of a download task, the pause
  window, the description of a fragment and the metadata of a file; and the metrics
  counters and hex encoding of \<open>lib.rs\<close>. \<open>now\<close> arguments are the UNIX time
  \<open>now_unix_secs\<close> reads.
\<close>

section \<open>The state of a download\<close>

datatype download_state =
  Pending | Connecting | Downloading | Paused | Resuming | Verifying | Completed | Failed | Cancelled

text \<open>The pairs of the \<open>matches!\<close> in \<open>try_transition\<close>.\<close>

definition transition_table :: "(download_state \<times> download_state) list" where
  "transition_table =
     [(Pending, Connecting),
      (Connecting, Downloading), (Connecting, Failed), (Connecting, Cancelled),
      (Downloading, Paused), (Downloading, Verifying), (Downloading, Failed),
      (Downloading, Cancelled),
      (Paused, Resuming), (Paused, Cancelled),
      (Resuming, Downloading), (Resuming, Failed), (Resuming, Cancelled),
      (Verifying, Completed), (Verifying, Failed), (Verifying, Cancelled),
      (Failed, Pending), (Cancelled, Pending)]"

definition valid_transition :: "download_state \<Rightarrow> download_state \<Rightarrow> bool" where
  "valid_transition s next_s = ((s, next_s) \<in> set transition_table)"

lemmas transition_simps = valid_transition_def transition_table_def

definition try_transition :: "download_state \<Rightarrow> download_state \<Rightarrow> download_state download_result" where
  "try_transition s next_s =
     (if valid_transition s next_s then Inr next_s
      else Inl (Config ''illegal state transition''))"

fun is_terminal :: "download_state \<Rightarrow> bool" where
  "is_terminal Completed = True"
| "is_terminal Failed = True"
| "is_terminal Cancelled = True"
| "is_terminal _ = False"

text \<open>The \<open>strum\<close> names (\<open>Display\<close> and \<open>FromStr\<close>, \<open>serialize_all = "lowercase"\<close>).\<close>

fun state_to_string :: "download_state \<Rightarrow> string" where
  "state_to_string Pending = ''pending''"
| "state_to_string Connecting = ''connecting''"
| "state_to_string Downloading = ''downloading''"
| "state_to_string Paused = ''paused''"
| "state_to_string Resuming = ''resuming''"
| "state_to_string Verifying = ''verifying''"
| "state_to_string Completed = ''completed''"
| "state_to_string Failed = ''failed''"
| "state_to_string Cancelled = ''cancelled''"

definition all_states :: "download_state list" where
  "all_states =
     [Pending, Connecting, Downloading, Paused, Resuming, Verifying, Completed, Failed, Cancelled]"

definition state_from_string :: "string \<Rightarrow> download_state option" where
  "state_from_string s = List.find (\<lambda>st. state_to_string st = s) all_states"

lemma set_all_states [simp]: "set all_states = UNIV"
  by (auto simp: all_states_def intro: download_state.exhaust)

lemma state_to_string_inject [simp]: "state_to_string s = state_to_string t \<longleftrightarrow> s = t"
  by (cases s; cases t) simp_all

lemma state_from_to_string [simp]: "state_from_string (state_to_string s) = Some s"
  by (cases s) (simp_all add: state_from_string_def all_states_def)

lemma state_from_string_SomeD: "state_from_string t = Some s \<Longrightarrow> t = state_to_string s"
  by (auto simp: state_from_string_def find_Some_iff)

lemma try_transition_Inr_iff [simp]:
  "try_transition s t = Inr u \<longleftrightarrow> valid_transition s t \<and> u = t"
  by (auto simp: try_transition_def)

subsection \<open>Runs\<close>

text \<open>
  A run is the sequence of states a task is in when each change goes through
  \<^const>\<open>try_transition\<close>.
\<close>

inductive run :: "download_state list \<Rightarrow> bool" where
  start: "run [Pending]"
| step: "run ss \<Longrightarrow> try_transition (last ss) t = Inr t \<Longrightarrow> run (ss @ [t])"

inductive_cases run_snocE: "run (ss @ [t])"

lemma run_not_Nil: "run ss \<Longrightarrow> ss \<noteq> []"
  by (induction rule: run.induct) auto

lemma valid_into:
  "valid_transition s Completed \<Longrightarrow> s = Verifying"
  "valid_transition s Verifying \<Longrightarrow> s = Downloading"
  "valid_transition s Downloading \<Longrightarrow> s = Connecting \<or> s = Resuming"
  "valid_transition s Resuming \<Longrightarrow> s = Paused"
  "valid_transition s Paused \<Longrightarrow> s = Downloading"
  "valid_transition s Connecting \<Longrightarrow> s = Pending"
  by (auto simp: transition_simps)

lemma valid_from_terminal:
  "valid_transition s t \<Longrightarrow> is_terminal s \<Longrightarrow> t = Pending \<and> s \<noteq> Completed"
  by (auto simp: transition_simps)

text \<open>
  The invariant of runs: what must have happened before the current state can be reached.
\<close>

definition progressed :: "download_state list \<Rightarrow> bool" where
  "progressed ss \<longleftrightarrow>
     (last ss = Connecting \<longrightarrow> subseq [Pending, Connecting] ss) \<and>
     (last ss \<in> {Downloading, Paused, Resuming} \<longrightarrow> subseq [Pending, Connecting, Downloading] ss) \<and>
     (last ss = Verifying \<longrightarrow> subseq [Pending, Connecting, Downloading, Verifying] ss) \<and>
     (last ss = Completed \<longrightarrow> subseq [Pending, Connecting, Downloading, Verifying, Completed] ss) \<and>
     (last ss = Pending \<longrightarrow> subseq [Pending] ss)"

lemma subseq_snoc_same: "subseq xs ss \<Longrightarrow> subseq (xs @ [t]) (ss @ [t])"
  by (simp add: list_emb_append_mono)

lemma subseq_snoc_keep: "subseq xs ss \<Longrightarrow> subseq xs (ss @ [t])"
  using list_emb_append_mono[of "(=)" xs ss "[]" "[t]"] by simp

lemma progressed_step:
  assumes run: "progressed ss" and "ss \<noteq> []" and step: "valid_transition (last ss) t"
  shows "progressed (ss @ [t])"
proof (cases t)
  case Pending
  then show ?thesis
    by (simp add: progressed_def subseq_singleton_left)
next
  case Connecting
  then have "last ss = Pending" using step valid_into by blast
  then show ?thesis
    using run Connecting subseq_snoc_same[of "[Pending]" ss] by (simp add: progressed_def)
next
  case Downloading
  then have "last ss = Connecting \<or> last ss = Resuming" using step valid_into by blast
  then show ?thesis
    using run Downloading subseq_snoc_same[of "[Pending, Connecting]" ss]
      subseq_snoc_keep[of "[Pending, Connecting, Downloading]" ss]
    by (auto simp: progressed_def)
next
  case Paused
  then have "last ss = Downloading" using step valid_into by blast
  then show ?thesis
    using run Paused subseq_snoc_keep by (simp add: progressed_def)
next
  case Resuming
  then have "last ss = Paused" using step valid_into by blast
  then show ?thesis
    using run Resuming subseq_snoc_keep by (simp add: progressed_def)
next
  case Verifying
  then have "last ss = Downloading" using step valid_into by blast
  then show ?thesis
    using run Verifying subseq_snoc_same[of "[Pending, Connecting, Downloading]" ss]
    by (simp add: progressed_def)
next
  case Completed
  then have "last ss = Verifying" using step valid_into by blast
  then show ?thesis
    using run Completed subseq_snoc_same[of "[Pending, Connecting, Downloading, Verifying]" ss]
    by (simp add: progressed_def)
qed (auto simp: progressed_def)

lemma run_progressed: "run ss \<Longrightarrow> progressed ss"
proof (induction rule: run.induct)
  case start
  show ?case by (simp add: progressed_def)
next
  case (step ss t)
  then show ?case using progressed_step run_not_Nil by simp
qed

text \<open>A \<open>Completed\<close> task has no way on: it stays the last state of every run.\<close>

lemma run_completed_last: "run (ss @ [t]) \<Longrightarrow> Completed \<notin> set ss"
proof (induction "ss @ [t]" arbitrary: ss t rule: run.induct)
  case start
  then show ?case by simp
next
  case (step us u)
  then have us: "us = ss" "u = t" by auto
  from step.hyps(1) have "us \<noteq> []" by (rule run_not_Nil)
  then obtain vs v where vs: "us = vs @ [v]" by (metis append_butlast_last_id)
  then have "Completed \<notin> set vs" using step.hyps(2) by simp
  moreover have "v \<noteq> Completed"
    using step.hyps(3) vs us by (auto simp: transition_simps)
  ultimately show ?case using vs us by auto
qed

section \<open>The pause window\<close>

record pause_info =
  paused_at_secs :: u64
  max_duration_secs :: u64

definition pause_new :: "u64 \<Rightarrow> u64 \<Rightarrow> pause_info" where
  "pause_new now max_duration = \<lparr>paused_at_secs = now, max_duration_secs = max_duration\<rparr>"

definition is_expired :: "u64 \<Rightarrow> pause_info \<Rightarrow> bool" where
  "is_expired now p = (saturating_sub now (paused_at_secs p) \<ge> max_duration_secs p)"

definition remaining_secs :: "u64 \<Rightarrow> pause_info \<Rightarrow> u64" where
  "remaining_secs now p =
     (let elapsed = saturating_sub now (paused_at_secs p)
      in saturating_sub (max_duration_secs p) elapsed)"

lemma unat_remaining_secs:
  "unat (remaining_secs now p) =
     unat (max_duration_secs p) - (unat now - unat (paused_at_secs p))"
  by (simp add: remaining_secs_def Let_def)

lemma is_expired_iff_remaining: "is_expired now p \<longleftrightarrow> remaining_secs now p = 0"
proof -
  have "is_expired now p \<longleftrightarrow> unat (max_duration_secs p) \<le> unat now - unat (paused_at_secs p)"
    by (simp add: is_expired_def word_le_nat_alt)
  also have "\<dots> \<longleftrightarrow> unat (remaining_secs now p) = 0"
    by (auto simp: unat_remaining_secs)
  finally show ?thesis by (simp add: unat_eq_0)
qed

section \<open>Files and fragments\<close>

record file_metadata =
  md_file_name :: string
  md_file_size :: "u64 option"
  md_content_type :: "string option"
  md_supports_range :: bool
  md_etag :: "string option"
  md_last_modified :: "string option"

record fragment_info =
  fi_index :: u32
  fi_start :: u64
  fi_end :: u64
  fi_size :: u64
  fi_downloaded :: u64
  fi_hash :: "string option"

text \<open>
  \<open>FragmentInfo::new\<close> panics (\<^term>\<open>None\<close>) on the two overflows it checks and when the
  inclusive end does not match start and size.
\<close>

definition fragment_info_new :: "u32 \<Rightarrow> u64 \<Rightarrow> u64 \<Rightarrow> u64 \<Rightarrow> fragment_info option" where
  "fragment_info_new index start fend sz =
     (case checked_add fend 1 of
        None \<Rightarrow> None
      | Some end_plus_1 \<Rightarrow>
          (case checked_add start sz of
             None \<Rightarrow> None
           | Some start_plus_size \<Rightarrow>
               if end_plus_1 = start_plus_size then
                 Some \<lparr>fi_index = index, fi_start = start, fi_end = fend, fi_size = sz,
                       fi_downloaded = 0, fi_hash = None\<rparr>
               else None))"

lemma fragment_info_new_Some_iff:
  "fragment_info_new i s e n = Some f \<longleftrightarrow>
     unat e + 1 < 2 ^ 64 \<and> unat s + unat n = unat e + 1 \<and>
     f = \<lparr>fi_index = i, fi_start = s, fi_end = e, fi_size = n, fi_downloaded = 0, fi_hash = None\<rparr>"
proof -
  have add: "checked_add a b = (if unat a + unat b < 2 ^ 64 then Some (a + b) else None)"
    for a b :: u64 by (simp add: checked_add_def)
  have eq: "e + 1 = s + n \<longleftrightarrow> unat e + 1 = unat s + unat n"
    if "unat e + 1 < 2 ^ 64" "unat s + unat n < 2 ^ 64"
    using that by (simp add: word_unat_eq_iff unat_word_ariths)
  show ?thesis
    by (auto simp: fragment_info_new_def add eq split: if_splits)
qed

section \<open>Metrics\<close>

text \<open>The counters are atomic; \<open>fetch_add\<close> wraps.\<close>

record metrics =
  bytes_downloaded :: u64
  fragments_completed :: u64
  errors :: u64

definition metrics_new :: metrics where
  "metrics_new = \<lparr>bytes_downloaded = 0, fragments_completed = 0, errors = 0\<rparr>"

definition add_bytes :: "u64 \<Rightarrow> metrics \<Rightarrow> metrics" where
  "add_bytes n m = m\<lparr>bytes_downloaded := bytes_downloaded m + n\<rparr>"

definition inc_fragment :: "metrics \<Rightarrow> metrics" where
  "inc_fragment m = m\<lparr>fragments_completed := fragments_completed m + 1\<rparr>"

definition inc_error :: "metrics \<Rightarrow> metrics" where
  "inc_error m = m\<lparr>errors := errors m + 1\<rparr>"

definition metrics_snapshot :: "metrics \<Rightarrow> u64 \<times> u64 \<times> u64" where
  "metrics_snapshot m = (bytes_downloaded m, fragments_completed m, errors m)"

end
