(* ===== verification/Config_Types.thy ===== *)
theory Config_Types
  imports Errors F64
begin

text \<open>
  \<open>tachyon-core/src/config.rs\<close>: the configuration records, their defaults, the
  conversion from the deserialised form and the \<open>validate\<close> methods. A \<open>HashMap\<close>
  of headers is an association list (its iteration order). The default download
  directory, which the code reads from the environment, is an argument.
\<close>

section \<open>Limits\<close>

definition USER_AGENT :: string where "USER_AGENT = ''Tachyon/0.1.0''"

definition MAX_FULL_DOWNLOAD_SIZE :: usize where "MAX_FULL_DOWNLOAD_SIZE = 64 * 1024 * 1024"

definition MAX_CONCURRENT_FRAGMENTS_LIMIT :: u32 where "MAX_CONCURRENT_FRAGMENTS_LIMIT = 256"
definition MAX_RETRIES_LIMIT :: u32 where "MAX_RETRIES_LIMIT = 100"
definition REQUEST_TIMEOUT_SECS_LIMIT :: u64 where "REQUEST_TIMEOUT_SECS_LIMIT = 3600"
definition CONNECT_TIMEOUT_SECS_LIMIT :: u64 where "CONNECT_TIMEOUT_SECS_LIMIT = 300"
definition PAUSE_TIMEOUT_SECS_LIMIT :: u64 where "PAUSE_TIMEOUT_SECS_LIMIT = 86400"
definition MAX_CONNECTIONS_PER_HOST_LIMIT :: u32 where "MAX_CONNECTIONS_PER_HOST_LIMIT = 128"
definition MAX_GLOBAL_CONNECTIONS_LIMIT :: u32 where "MAX_GLOBAL_CONNECTIONS_LIMIT = 4096"
definition MAX_CONCURRENT_TASKS_LIMIT :: u32 where "MAX_CONCURRENT_TASKS_LIMIT = 100"

lemmas config_limits =
  MAX_CONCURRENT_FRAGMENTS_LIMIT_def MAX_RETRIES_LIMIT_def REQUEST_TIMEOUT_SECS_LIMIT_def
  CONNECT_TIMEOUT_SECS_LIMIT_def PAUSE_TIMEOUT_SECS_LIMIT_def MAX_CONNECTIONS_PER_HOST_LIMIT_def
  MAX_GLOBAL_CONNECTIONS_LIMIT_def MAX_CONCURRENT_TASKS_LIMIT_def

section \<open>Records\<close>

datatype io_strategy = Standard | WinAligned | Iocp | IoUring

record download_config =
  download_dir :: string
  max_concurrent_fragments :: u32
  max_retries :: u32
  request_timeout_secs :: u64
  dl_connect_timeout_secs :: u64
  verify_checksum :: bool
  user_agent :: string
  headers :: "(string \<times> string) list"
  pause_timeout_secs :: u64
  authorized_dirs :: "string list"
  rate_limit_bytes_per_sec :: "u64 option"
  max_full_stream_bytes :: u64
  io_strategy :: io_strategy

record download_config_serde =
  s_download_dir :: string
  s_max_concurrent_fragments :: u32
  s_max_retries :: u32
  s_request_timeout_secs :: u64
  s_connect_timeout_secs :: u64
  s_verify_checksum :: bool
  s_user_agent :: string
  s_headers :: "(string \<times> string) list"
  s_pause_timeout_secs :: u64
  s_authorized_dirs :: "string list option"
  s_rate_limit_bytes_per_sec :: "u64 option"
  s_max_full_stream_bytes :: u64
  s_io_strategy :: io_strategy

definition default_pause_timeout_secs :: u64 where "default_pause_timeout_secs = 300"
definition default_connect_timeout_secs :: u64 where "default_connect_timeout_secs = 10"
definition default_max_full_stream_bytes :: u64 where
  "default_max_full_stream_bytes = 64 * 1024 * 1024 * 1024"

definition download_config_from_serde :: "download_config_serde \<Rightarrow> download_config" where
  "download_config_from_serde v =
     (let dirs = (case s_authorized_dirs v of
                    None \<Rightarrow> [s_download_dir v]
                  | Some ds \<Rightarrow> if ds \<noteq> [] then ds else [s_download_dir v])
      in \<lparr>download_dir = s_download_dir v,
          max_concurrent_fragments = s_max_concurrent_fragments v,
          max_retries = s_max_retries v,
          request_timeout_secs = s_request_timeout_secs v,
          dl_connect_timeout_secs = s_connect_timeout_secs v,
          verify_checksum = s_verify_checksum v,
          user_agent = s_user_agent v,
          headers = s_headers v,
          pause_timeout_secs = s_pause_timeout_secs v,
          authorized_dirs = dirs,
          rate_limit_bytes_per_sec = s_rate_limit_bytes_per_sec v,
          max_full_stream_bytes = s_max_full_stream_bytes v,
          io_strategy = s_io_strategy v\<rparr>)"

definition download_config_default :: "string \<Rightarrow> download_config" where
  "download_config_default dir =
     \<lparr>download_dir = dir,
      max_concurrent_fragments = 16,
      max_retries = 3,
      request_timeout_secs = 30,
      dl_connect_timeout_secs = 10,
      verify_checksum = True,
      user_agent = USER_AGENT,
      headers = [],
      pause_timeout_secs = 300,
      authorized_dirs = [dir],
      rate_limit_bytes_per_sec = None,
      max_full_stream_bytes = default_max_full_stream_bytes,
      io_strategy = Standard\<rparr>"

record connection_config =
  max_connections_per_host :: u32
  max_global_connections :: u32
  keep_alive_timeout_secs :: u64
  cc_connect_timeout_secs :: u64
  enable_http2 :: bool
  enable_quic :: bool

definition connection_config_default :: connection_config where
  "connection_config_default =
     \<lparr>max_connections_per_host = 16, max_global_connections = 256, keep_alive_timeout_secs = 30,
      cc_connect_timeout_secs = 10, enable_http2 = True, enable_quic = False\<rparr>"

record scheduler_config =
  min_fragment_size :: u64
  max_fragment_size :: u64
  sampling_interval_secs :: u64
  ewma_alpha :: f64
  default_target_fragments :: u32
  high_bandwidth_threshold :: u64
  medium_bandwidth_threshold :: u64

definition default_high_bw_threshold :: u64 where "default_high_bw_threshold = 100 * 1024 * 1024"
definition default_medium_bw_threshold :: u64 where "default_medium_bw_threshold = 10 * 1024 * 1024"

definition scheduler_config_default :: scheduler_config where
  "scheduler_config_default =
     \<lparr>min_fragment_size = 1024 * 1024, max_fragment_size = 64 * 1024 * 1024,
      sampling_interval_secs = 60, ewma_alpha = rnd (3 / 10), default_target_fragments = 16,
      high_bandwidth_threshold = default_high_bw_threshold,
      medium_bandwidth_threshold = default_medium_bw_threshold\<rparr>"

record app_config =
  max_concurrent_tasks :: u32
  download :: download_config
  connection :: connection_config
  scheduler :: scheduler_config

definition app_config_default :: "string \<Rightarrow> app_config" where
  "app_config_default dir =
     \<lparr>max_concurrent_tasks = 5, download = download_config_default dir,
      connection = connection_config_default, scheduler = scheduler_config_default\<rparr>"

section \<open>Validation\<close>

definition download_config_validate :: "download_config \<Rightarrow> unit download_result" where
  "download_config_validate c =
     (if max_concurrent_fragments c = 0 then Inl (Config ''max_concurrent_fragments >= 1'')
      else if max_concurrent_fragments c > MAX_CONCURRENT_FRAGMENTS_LIMIT then
        Inl (Config ''max_concurrent_fragments limit'')
      else if max_retries c > MAX_RETRIES_LIMIT then Inl (Config ''max_retries limit'')
      else if request_timeout_secs c = 0 then Inl (Config ''request_timeout_secs >= 1'')
      else if request_timeout_secs c > REQUEST_TIMEOUT_SECS_LIMIT then
        Inl (Config ''request_timeout_secs limit'')
      else if dl_connect_timeout_secs c = 0 then Inl (Config ''connect_timeout_secs >= 1'')
      else if dl_connect_timeout_secs c > CONNECT_TIMEOUT_SECS_LIMIT then
        Inl (Config ''connect_timeout_secs limit'')
      else if download_dir c = [] then Inl (Config ''download_dir empty'')
      else if pause_timeout_secs c = 0 then Inl (Config ''pause_timeout_secs >= 1'')
      else if pause_timeout_secs c > PAUSE_TIMEOUT_SECS_LIMIT then
        Inl (Config ''pause_timeout_secs limit'')
      else if rate_limit_bytes_per_sec c = Some 0 then
        Inl (Config ''rate_limit_bytes_per_sec zero'')
      else if max_full_stream_bytes c = 0 then Inl (Config ''max_full_stream_bytes >= 1'')
      else if user_agent c = [] then Inl (Config ''user_agent empty'')
      else if authorized_dirs c = [] then Inl (Config ''authorized_dirs empty'')
      else Inr ())"

definition connection_config_validate :: "connection_config \<Rightarrow> unit download_result" where
  "connection_config_validate c =
     (if max_connections_per_host c = 0 then Inl (Config ''max_connections_per_host >= 1'')
      else if max_connections_per_host c > MAX_CONNECTIONS_PER_HOST_LIMIT then
        Inl (Config ''max_connections_per_host limit'')
      else if max_global_connections c = 0 then Inl (Config ''max_global_connections >= 1'')
      else if max_global_connections c > MAX_GLOBAL_CONNECTIONS_LIMIT then
        Inl (Config ''max_global_connections limit'')
      else Inr ())"

definition scheduler_config_validate :: "scheduler_config \<Rightarrow> unit download_result" where
  "scheduler_config_validate c =
     (if min_fragment_size c = 0 then Inl (Config ''min_fragment_size >= 1'')
      else if max_fragment_size c = 0 then Inl (Config ''max_fragment_size >= 1'')
      else if min_fragment_size c > max_fragment_size c then
        Inl (Config ''min_fragment_size > max_fragment_size'')
      else if \<not> (f64_le (Fin 0) (ewma_alpha c) \<and> f64_le (ewma_alpha c) (Fin 1)) then
        Inl (Config ''ewma_alpha range'')
      else if default_target_fragments c = 0 then
        Inl (Config ''default_target_fragments >= 1'')
      else if sampling_interval_secs c = 0 then Inl (Config ''sampling_interval_secs >= 1'')
      else Inr ())"

definition app_config_validate :: "app_config \<Rightarrow> unit download_result" where
  "app_config_validate c =
     (if max_concurrent_tasks c = 0 then Inl (Config ''max_concurrent_tasks >= 1'')
      else if max_concurrent_tasks c > MAX_CONCURRENT_TASKS_LIMIT then
        Inl (Config ''max_concurrent_tasks limit'')
      else and_then (download_config_validate (download c)) (\<lambda>_.
           and_then (connection_config_validate (connection c)) (\<lambda>_.
           scheduler_config_validate (scheduler c))))"

section \<open>What validation guarantees\<close>

text \<open>The range of each field, read off the limits rather than the order of the checks.\<close>

definition download_config_ok :: "download_config \<Rightarrow> bool" where
  "download_config_ok c \<longleftrightarrow>
     unat (max_concurrent_fragments c) \<in> {1..256} \<and> unat (max_retries c) \<le> 100 \<and>
     unat (request_timeout_secs c) \<in> {1..3600} \<and> unat (dl_connect_timeout_secs c) \<in> {1..300} \<and>
     unat (pause_timeout_secs c) \<in> {1..86400} \<and>
     rate_limit_bytes_per_sec c \<noteq> Some 0 \<and> 0 < max_full_stream_bytes c \<and>
     download_dir c \<noteq> [] \<and> user_agent c \<noteq> [] \<and> authorized_dirs c \<noteq> []"

definition connection_config_ok :: "connection_config \<Rightarrow> bool" where
  "connection_config_ok c \<longleftrightarrow>
     unat (max_connections_per_host c) \<in> {1..128} \<and> unat (max_global_connections c) \<in> {1..4096}"

definition scheduler_config_ok :: "scheduler_config \<Rightarrow> bool" where
  "scheduler_config_ok c \<longleftrightarrow>
     0 < min_fragment_size c \<and> min_fragment_size c \<le> max_fragment_size c \<and>
     (\<exists>a. ewma_alpha c = Fin a \<and> 0 \<le> a \<and> a \<le> 1) \<and>
     0 < default_target_fragments c \<and> 0 < sampling_interval_secs c"

definition app_config_ok :: "app_config \<Rightarrow> bool" where
  "app_config_ok c \<longleftrightarrow>
     unat (max_concurrent_tasks c) \<in> {1..100} \<and> download_config_ok (download c) \<and>
     connection_config_ok (connection c) \<and> scheduler_config_ok (scheduler c)"

lemma word_range_iff:
  fixes x :: "'a::len word"
  shows "unat x \<in> {1..n} \<longleftrightarrow> x \<noteq> 0 \<and> unat x \<le> n"
  using unat_eq_0[of x] by (cases "unat x") auto

lemma download_config_validate_iff:
  "download_config_validate c = Inr () \<longleftrightarrow> download_config_ok c"
  unfolding download_config_ok_def word_range_iff
  by (auto simp: download_config_validate_def config_limits word_less_nat_alt unat_gt_0
      split: if_splits)

lemma connection_config_validate_iff:
  "connection_config_validate c = Inr () \<longleftrightarrow> connection_config_ok c"
  unfolding connection_config_ok_def word_range_iff
  by (auto simp: connection_config_validate_def config_limits word_less_nat_alt)

lemma f64_unit_interval_iff:
  "f64_le (Fin 0) a \<and> f64_le a (Fin 1) \<longleftrightarrow> (\<exists>x. a = Fin x \<and> 0 \<le> x \<and> x \<le> 1)"
  by (cases a) (auto simp: f64_le_def f64_eq_def)

lemma scheduler_config_validate_iff:
  "scheduler_config_validate c = Inr () \<longleftrightarrow> scheduler_config_ok c"
  unfolding scheduler_config_validate_def scheduler_config_ok_def f64_unit_interval_iff
  by (auto simp: word_gt_0 not_less)

lemma app_config_validate_iff_ok: "app_config_validate c = Inr () \<longleftrightarrow> app_config_ok c"
  unfolding app_config_ok_def word_range_iff
  by (auto simp: app_config_validate_def config_limits word_less_nat_alt
      download_config_validate_iff connection_config_validate_iff scheduler_config_validate_iff
      split: if_splits)

lemma scheduler_config_default_ok: "scheduler_config_ok scheduler_config_default"
proof -
  have "rnd (3 / 10) = Fin (rnd_exact (3 / 10))"
    using rnd_exact_mono[of "3 / 10" 1] rnd_exact_nonneg[of "3 / 10"] by (auto simp: rnd_def Let_def)
  then show ?thesis
    using rnd_exact_mono[of "3 / 10" 1] rnd_exact_nonneg[of "3 / 10"]
    by (auto simp: scheduler_config_ok_def scheduler_config_default_def word_less_nat_alt word_le_nat_alt)
qed

end
