(* ===== verification/Rate_Limit.thy ===== *)
theory Rate_Limit
  imports Prelude
begin

text \<open>
  The lock-free token bucket of \<open>tachyon-core/src/rate_limit.rs\<close>. The state is the
  three atomics; \<open>now_ns\<close> is \<open>anchor.elapsed().as_nanos()\<close>, read by each operation.
  \<open>acquire\<close> returns the length of the sleep in nanoseconds. \<open>i64\<close> and \<open>u64\<close>
  are 64-bit words, read with \<^const>\<open>sint\<close> or \<^const>\<open>unat\<close>; \<open>u128\<close> products of two
  \<open>u64\<close> do not overflow and are natural numbers.

  Each operation is modelled as one atomic step: the fields are separate atomics, so the
  interleavings inside an operation are not in the model.
\<close>

section \<open>State and operations\<close>

record rate_limiter =
  baseline_ns :: "64 word"
  debt :: u64
  bytes_per_sec :: u64

definition limiter_new :: "u64 \<Rightarrow> rate_limiter" where
  "limiter_new bps = \<lparr>baseline_ns = - 1000000000, debt = 0, bytes_per_sec = bps\<rparr>"

text \<open>\<open>i64::saturating_sub\<close>, then \<open>as u64\<close>.\<close>

definition i64_saturating_sub :: "64 word \<Rightarrow> 64 word \<Rightarrow> 64 word" where
  "i64_saturating_sub a b =
     (let d = sint a - sint b
      in if d > 2 ^ 63 - 1 then word_of_int (2 ^ 63 - 1)
         else if d < - (2 ^ 63) then word_of_int (- (2 ^ 63)) else word_of_int d)"

definition elapsed_ns :: "64 word \<Rightarrow> rate_limiter \<Rightarrow> u64" where
  "elapsed_ns now_ns l = i64_saturating_sub now_ns (baseline_ns l)"

text \<open>The bytes the rate admits in a number of nanoseconds: the \<open>u128\<close> expression \<open>as u64\<close>.\<close>

definition allowed_bytes :: "u64 \<Rightarrow> u64 \<Rightarrow> u64" where
  "allowed_bytes elapsed rate = of_nat (unat elapsed * unat rate div 1000000000)"

definition MAX_ACQUIRE_WAIT_NS :: u64 where "MAX_ACQUIRE_WAIT_NS = 5000000000"

definition acquire :: "64 word \<Rightarrow> u64 \<Rightarrow> rate_limiter \<Rightarrow> rate_limiter \<times> u64" where
  "acquire now_ns bytes l =
     (let rate = bytes_per_sec l in
      if rate = 0 \<or> bytes = 0 then (l, 0)
      else let total_debt = debt l + bytes;
               l' = l\<lparr>debt := total_debt\<rparr>;
               allowed = allowed_bytes (elapsed_ns now_ns l) rate
           in if total_debt > allowed then
                let deficit = total_debt - allowed;
                    wait_ns = of_nat (unat deficit * 1000000000 div unat rate)
                in (l', min wait_ns MAX_ACQUIRE_WAIT_NS)
              else (l', 0))"

definition update_rate :: "64 word \<Rightarrow> u64 \<Rightarrow> rate_limiter \<Rightarrow> rate_limiter" where
  "update_rate now_ns bps l =
     (let old_rate = bytes_per_sec l in
      if bps = 0 then l\<lparr>bytes_per_sec := 0\<rparr>
      else if old_rate = 0 then
        l\<lparr>baseline_ns := now_ns, debt := 0, bytes_per_sec := bps\<rparr>
      else
        let used = allowed_bytes (elapsed_ns now_ns l) old_rate
        in l\<lparr>baseline_ns := now_ns, debt := used, bytes_per_sec := bps\<rparr>)"

section \<open>Arithmetic within range\<close>

text \<open>
  The times the clock can show: nanoseconds since the anchor, up to 146 years.
\<close>

definition clock_ok :: "64 word \<Rightarrow> bool" where
  "clock_ok t \<longleftrightarrow> 0 \<le> sint t \<and> sint t < 2 ^ 62"

definition limiter_ok :: "64 word \<Rightarrow> rate_limiter \<Rightarrow> bool" where
  "limiter_ok now_ns l \<longleftrightarrow>
     clock_ok now_ns \<and> - 1000000000 \<le> sint (baseline_ns l) \<and> sint (baseline_ns l) \<le> sint now_ns"

text \<open>The budget of the bucket at a time: what the rate has admitted since the baseline.\<close>

definition budget :: "64 word \<Rightarrow> rate_limiter \<Rightarrow> nat" where
  "budget now_ns l =
     nat (sint now_ns - sint (baseline_ns l)) * unat (bytes_per_sec l) div 1000000000"

lemma unat_elapsed_ns:
  assumes "limiter_ok now_ns l"
  shows "unat (elapsed_ns now_ns l) = nat (sint now_ns - sint (baseline_ns l))"
proof -
  let ?d = "sint now_ns - sint (baseline_ns l)"
  have d: "0 \<le> ?d" "?d < 2 ^ 63" using assms by (auto simp: limiter_ok_def clock_ok_def)
  then have "elapsed_ns now_ns l = word_of_int ?d"
    by (simp add: elapsed_ns_def i64_saturating_sub_def)
  moreover have "unat (word_of_int ?d :: 64 word) = nat ?d"
    by (rule unat_of_int_eq) (use d in simp_all)
  ultimately show ?thesis by (simp only:)
qed

lemma unat_allowed_bytes:
  assumes "limiter_ok now_ns l" "budget now_ns l < 2 ^ 64"
  shows "unat (allowed_bytes (elapsed_ns now_ns l) (bytes_per_sec l)) = budget now_ns l"
  using assms by (simp add: allowed_bytes_def unat_elapsed_ns budget_def unat_of_nat_eq)

text \<open>Every sleep is at most five seconds, whatever the state.\<close>

lemma acquire_wait_le: "unat (snd (acquire now_ns bytes l)) \<le> 5000000000"
proof -
  have "snd (acquire now_ns bytes l) \<le> MAX_ACQUIRE_WAIT_NS"
    by (auto simp: acquire_def Let_def MAX_ACQUIRE_WAIT_NS_def)
  then show ?thesis by (simp add: MAX_ACQUIRE_WAIT_NS_def word_le_nat_alt)
qed

lemma acquire_unlimited: "bytes_per_sec l = 0 \<Longrightarrow> acquire now_ns bytes l = (l, 0)"
  by (simp add: acquire_def)

lemma acquire_debt:
  "debt (fst (acquire now_ns bytes l)) =
     (if bytes_per_sec l = 0 then debt l else debt l + bytes)"
  by (auto simp: acquire_def Let_def)

text \<open>
  The sleep of \<open>acquire\<close> as exact arithmetic: the deficit against the budget, in
  nanoseconds at the current rate, capped.
\<close>

lemma acquire_wait_exact:
  assumes ok: "limiter_ok now_ns l" and rate: "0 < bytes_per_sec l" and b: "0 < bytes"
    and no_wrap: "unat (debt l) + unat bytes < 2 ^ 34" and bud: "budget now_ns l < 2 ^ 64"
  shows "unat (snd (acquire now_ns bytes l)) =
           min ((unat (debt l) + unat bytes - budget now_ns l) * 1000000000
                  div unat (bytes_per_sec l)) 5000000000"
proof -
  let ?T = "debt l + bytes"
  let ?A = "allowed_bytes (elapsed_ns now_ns l) (bytes_per_sec l)"
  have T: "unat ?T = unat (debt l) + unat bytes"
    using no_wrap by (simp add: unat_word_ariths)
  have A: "unat ?A = budget now_ns l" using unat_allowed_bytes[OF ok bud] .
  have r: "0 < unat (bytes_per_sec l)" using rate by (simp add: unat_gt_0)
  show ?thesis
  proof (cases "?T > ?A")
    case True
    then have lt: "budget now_ns l < unat (debt l) + unat bytes"
      by (simp add: word_less_nat_alt A T)
    have D: "unat (?T - ?A) = unat (debt l) + unat bytes - budget now_ns l"
      using True by (simp add: unat_sub_le A T less_imp_le)
    let ?w = "(unat (debt l) + unat bytes - budget now_ns l) * 1000000000 div unat (bytes_per_sec l)"
    have "?w \<le> (unat (debt l) + unat bytes - budget now_ns l) * 1000000000"
      by (rule div_le_dividend)
    also have "\<dots> \<le> (2 ^ 34) * 1000000000" using no_wrap by (intro mult_right_mono) linarith+
    also have "\<dots> < 2 ^ 64" by simp
    finally have w: "unat (of_nat ?w :: u64) = ?w" by (simp add: unat_of_nat_eq)
    have "snd (acquire now_ns bytes l) = min (of_nat ?w) MAX_ACQUIRE_WAIT_NS"
      using True rate b by (simp add: acquire_def Let_def D)
    then show ?thesis by (simp add: unat_min w MAX_ACQUIRE_WAIT_NS_def)
  next
    case False
    then have "unat (debt l) + unat bytes \<le> budget now_ns l"
      by (simp add: word_less_nat_alt A T)
    then show ?thesis using False rate b by (simp add: acquire_def Let_def)
  qed
qed

text \<open>
  \<open>update_rate\<close> moves the baseline to the present, where the budget is empty, and
  charges the whole elapsed budget as debt, whether or not it was used.
\<close>

lemma update_rate_debt:
  assumes "limiter_ok now_ns l" "budget now_ns l < 2 ^ 64" "0 < bytes_per_sec l" "0 < bps"
  shows "unat (debt (update_rate now_ns bps l)) = budget now_ns l"
    and "budget now_ns (update_rate now_ns bps l) = 0"
    and "limiter_ok now_ns (update_rate now_ns bps l)"
  using assms unat_allowed_bytes[OF assms(1,2)]
  by (auto simp: update_rate_def Let_def budget_def limiter_ok_def clock_ok_def)

end
