(* ===== verification/Net_Addr.thy ===== *)
theory Net_Addr
  imports Prelude
begin

text \<open>
  What the code uses of \<open>std::net\<close>: IPv4 and IPv6 addresses, the classification
  methods and the parser behind \<open>str::parse::<IpAddr>()\<close>. A parser takes the rest of
  the input and returns the value with what follows it, or \<^term>\<open>None\<close> with nothing
  consumed.
\<close>

section \<open>Addresses\<close>

datatype ipv4 = V4Addr u8 u8 u8 u8

datatype ipv6 = V6Addr u16 u16 u16 u16 u16 u16 u16 u16

datatype ip_addr = V4 ipv4 | V6 ipv6

fun octets :: "ipv4 \<Rightarrow> u8 list" where
  "octets (V4Addr a b c d) = [a, b, c, d]"

fun segments :: "ipv6 \<Rightarrow> u16 list" where
  "segments (V6Addr a b c d e f g h) = [a, b, c, d, e, f, g, h]"

fun v4_is_loopback :: "ipv4 \<Rightarrow> bool" where
  "v4_is_loopback (V4Addr a _ _ _) = (a = 127)"

fun v4_is_private :: "ipv4 \<Rightarrow> bool" where
  "v4_is_private (V4Addr a b _ _) =
     (a = 10 \<or> (a = 172 \<and> 16 \<le> b \<and> b \<le> 31) \<or> (a = 192 \<and> b = 168))"

fun v4_is_link_local :: "ipv4 \<Rightarrow> bool" where
  "v4_is_link_local (V4Addr a b _ _) = (a = 169 \<and> b = 254)"

fun v4_is_unspecified :: "ipv4 \<Rightarrow> bool" where
  "v4_is_unspecified (V4Addr a b c d) = (a = 0 \<and> b = 0 \<and> c = 0 \<and> d = 0)"

fun v6_is_loopback :: "ipv6 \<Rightarrow> bool" where
  "v6_is_loopback ip = (segments ip = [0, 0, 0, 0, 0, 0, 0, 1])"

fun v6_is_unspecified :: "ipv6 \<Rightarrow> bool" where
  "v6_is_unspecified ip = (segments ip = [0, 0, 0, 0, 0, 0, 0, 0])"

fun v6_is_multicast :: "ipv6 \<Rightarrow> bool" where
  "v6_is_multicast (V6Addr a _ _ _ _ _ _ _) = (a AND 0xff00 = 0xff00)"

fun to_ipv4_mapped :: "ipv6 \<Rightarrow> ipv4 option" where
  "to_ipv4_mapped (V6Addr a b c d e f g h) =
     (if a = 0 \<and> b = 0 \<and> c = 0 \<and> d = 0 \<and> e = 0 \<and> f = 0xffff then
        Some (V4Addr (ucast (drop_bit 8 g)) (ucast g) (ucast (drop_bit 8 h)) (ucast h))
      else None)"

section \<open>The address parser\<close>

definition dec_digit :: "char \<Rightarrow> nat option" where
  "dec_digit c =
     (let n = of_char c in if 48 \<le> n \<and> n \<le> 57 then Some (n - 48) else None)"

definition hex_digit_val :: "char \<Rightarrow> nat option" where
  "hex_digit_val c =
     (let n = of_char c
      in if 48 \<le> n \<and> n \<le> 57 then Some (n - 48)
         else if 97 \<le> n \<and> n \<le> 102 then Some (n - 87)
         else if 65 \<le> n \<and> n \<le> 70 then Some (n - 55) else None)"

fun digits_value :: "nat \<Rightarrow> (char \<Rightarrow> nat option) \<Rightarrow> nat \<Rightarrow> string \<Rightarrow> nat" where
  "digits_value radix dig acc [] = acc"
| "digits_value radix dig acc (c # cs) =
     digits_value radix dig (acc * radix + the (dig c)) cs"

text \<open>
  \<open>read_number(radix, Some(max_digits), allow_zero_prefix)\<close> into a type below \<open>bound\<close>.
\<close>

definition read_number ::
    "nat \<Rightarrow> (char \<Rightarrow> nat option) \<Rightarrow> nat \<Rightarrow> bool \<Rightarrow> nat \<Rightarrow> string \<Rightarrow> (nat \<times> string) option" where
  "read_number radix dig max_digits allow_zero_prefix bound s =
     (let ds = takeWhile (\<lambda>c. dig c \<noteq> None) s;
          rest = dropWhile (\<lambda>c. dig c \<noteq> None) s;
          v = digits_value radix dig 0 ds
      in if ds = [] \<or> length ds > max_digits \<or> v \<ge> bound then None
         else if \<not> allow_zero_prefix \<and> hd ds = CHR ''0'' \<and> length ds > 1 then None
         else Some (v, rest))"

fun read_given_char :: "char \<Rightarrow> string \<Rightarrow> string option" where
  "read_given_char c [] = None"
| "read_given_char c (x # xs) = (if x = c then Some xs else None)"

definition read_separator ::
    "char \<Rightarrow> nat \<Rightarrow> (string \<Rightarrow> ('a \<times> string) option) \<Rightarrow> string \<Rightarrow> ('a \<times> string) option" where
  "read_separator sep index inner s =
     (if index > 0 then
        (case read_given_char sep s of None \<Rightarrow> None | Some s' \<Rightarrow> inner s')
      else inner s)"

definition read_u8 :: "string \<Rightarrow> (nat \<times> string) option" where
  "read_u8 = read_number 10 dec_digit 3 False 256"

definition read_u16_hex :: "string \<Rightarrow> (nat \<times> string) option" where
  "read_u16_hex = read_number 16 hex_digit_val 4 True 65536"

fun read_octets :: "nat \<Rightarrow> nat \<Rightarrow> string \<Rightarrow> (nat list \<times> string) option" where
  "read_octets 0 i s = Some ([], s)"
| "read_octets (Suc k) i s =
     (case read_separator (CHR ''.'') i read_u8 s of
        None \<Rightarrow> None
      | Some (v, s') \<Rightarrow>
          (case read_octets k (Suc i) s' of
             None \<Rightarrow> None
           | Some (vs, s'') \<Rightarrow> Some (v # vs, s'')))"

definition read_ipv4_addr :: "string \<Rightarrow> (nat list \<times> string) option" where
  "read_ipv4_addr s = read_octets 4 0 s"

text \<open>
  \<open>read_groups\<close> fills at most \<open>limit\<close> groups from index \<open>i\<close>: the groups read, whether
  they end in an embedded IPv4 address, and the rest.
\<close>

fun read_groups :: "nat \<Rightarrow> nat \<Rightarrow> string \<Rightarrow> nat list \<times> bool \<times> string" where
  "read_groups 0 i s = ([], False, s)"
| "read_groups (Suc k) i s =
     (case (if 0 < k then read_separator (CHR '':'') i read_ipv4_addr s else None) of
        Some (os, s') \<Rightarrow> ([os ! 0 * 256 + os ! 1, os ! 2 * 256 + os ! 3], True, s')
      | None \<Rightarrow>
          (case read_separator (CHR '':'') i read_u16_hex s of
             None \<Rightarrow> ([], False, s)
           | Some (g, s') \<Rightarrow>
               (case read_groups k (Suc i) s' of (gs, v4, s'') \<Rightarrow> (g # gs, v4, s''))))"

definition read_ipv6_addr :: "string \<Rightarrow> (nat list \<times> string) option" where
  "read_ipv6_addr s =
     (case read_groups 8 0 s of (head, head_ipv4, s1) \<Rightarrow>
        if length head = 8 then Some (head, s1)
        else if head_ipv4 then None
        else (case read_given_char (CHR '':'') s1 of
                None \<Rightarrow> None
              | Some s2 \<Rightarrow>
                  (case read_given_char (CHR '':'') s2 of
                     None \<Rightarrow> None
                   | Some s3 \<Rightarrow>
                       (case read_groups (8 - (length head + 1)) 0 s3 of (tail, _, s4) \<Rightarrow>
                          Some (head @ replicate (8 - length head - length tail) 0 @ tail, s4)))))"

definition ipv4_of :: "nat list \<Rightarrow> ipv4" where
  "ipv4_of os = V4Addr (of_nat (os ! 0)) (of_nat (os ! 1)) (of_nat (os ! 2)) (of_nat (os ! 3))"

definition ipv6_of :: "nat list \<Rightarrow> ipv6" where
  "ipv6_of gs =
     V6Addr (of_nat (gs ! 0)) (of_nat (gs ! 1)) (of_nat (gs ! 2)) (of_nat (gs ! 3))
       (of_nat (gs ! 4)) (of_nat (gs ! 5)) (of_nat (gs ! 6)) (of_nat (gs ! 7))"

text \<open>\<open>parse::<IpAddr>()\<close>: IPv4, else IPv6, and the whole input is consumed.\<close>

definition read_ip_addr :: "string \<Rightarrow> (ip_addr \<times> string) option" where
  "read_ip_addr s =
     (case read_ipv4_addr s of
        Some (os, r) \<Rightarrow> Some (V4 (ipv4_of os), r)
      | None \<Rightarrow>
          (case read_ipv6_addr s of
             Some (gs, r) \<Rightarrow> Some (V6 (ipv6_of gs), r)
           | None \<Rightarrow> None))"

definition parse_ip_addr :: "string \<Rightarrow> ip_addr option" where
  "parse_ip_addr s =
     (case read_ip_addr s of Some (ip, []) \<Rightarrow> Some ip | _ \<Rightarrow> None)"

section \<open>Facts about the parser\<close>

text \<open>No address starts with a bracket, so a bracketed IPv6 literal does not parse.\<close>

lemma read_u8_bracket: "read_u8 (CHR ''['' # s) = None"
  by (simp add: read_u8_def read_number_def dec_digit_def Let_def)

lemma read_u16_hex_bracket: "read_u16_hex (CHR ''['' # s) = None"
  by (simp add: read_u16_hex_def read_number_def hex_digit_val_def Let_def)

lemma read_ipv4_bracket: "read_ipv4_addr (CHR ''['' # s) = None"
  by (simp add: read_ipv4_addr_def read_separator_def read_u8_bracket numeral_eq_Suc)

lemma parse_ip_addr_bracket: "parse_ip_addr (CHR ''['' # s) = None"
proof -
  have "read_groups 8 0 (CHR ''['' # s) = ([], False, CHR ''['' # s)"
    by (simp add: numeral_eq_Suc read_separator_def read_ipv4_bracket[unfolded numeral_eq_Suc]
        read_u16_hex_bracket read_ipv4_bracket)
  then have "read_ipv6_addr (CHR ''['' # s) = None"
    by (simp add: read_ipv6_addr_def)
  then show ?thesis
    by (simp add: parse_ip_addr_def read_ip_addr_def read_ipv4_bracket)
qed

lemma parse_ip_addr_not_hex:
  assumes "dec_digit c = None" "hex_digit_val c = None" "c \<noteq> CHR '':''"
  shows "parse_ip_addr (c # s) = None"
proof -
  have 1: "read_u8 (c # s) = None" "read_u16_hex (c # s) = None" using assms
    by (simp_all add: read_u8_def read_u16_hex_def read_number_def Let_def)
  have 2: "read_ipv4_addr (c # s) = None"
    by (simp add: read_ipv4_addr_def read_separator_def 1 numeral_eq_Suc)
  have "read_groups 8 0 (c # s) = ([], False, c # s)"
    by (simp add: numeral_eq_Suc read_separator_def 2[unfolded numeral_eq_Suc] 1 2)
  then have "read_ipv6_addr (c # s) = None"
    using assms(3) by (simp add: read_ipv6_addr_def)
  then show ?thesis
    by (simp add: parse_ip_addr_def read_ip_addr_def 2)
qed

end
