(* ===== verification/Url_Safety.thy ===== *)
theory Url_Safety
  imports Errors Net_Addr
begin

text \<open>
  The SSRF guard of \<open>tachyon-core/src/url_safety.rs\<close>. A parsed \<open>url::Url\<close> (a third-party
  crate) is the record of what the code asks it; parsing and DNS resolution are
  parameters of the operations that call them.
\<close>

record url_view =
  u_scheme :: string
  u_username :: string
  u_password :: "string option"
  u_host :: "string option"
  u_port :: "u16 option"  \<comment> \<open>\<open>port_or_known_default\<close>\<close>
  u_path_segments :: "string list option"

section \<open>Addresses\<close>

definition doc_ranges :: "(u8 \<times> u8 \<times> u8) list" where
  "doc_ranges = [(192, 0, 2), (198, 51, 100), (203, 0, 113)]"

fun reject_forbidden_ipv4 :: "ipv4 \<Rightarrow> unit download_result" where
  "reject_forbidden_ipv4 (V4Addr a b c d) =
     (if v4_is_loopback (V4Addr a b c d) \<or> v4_is_private (V4Addr a b c d) \<or>
         v4_is_link_local (V4Addr a b c d) \<or> v4_is_unspecified (V4Addr a b c d) \<or>
         V4Addr a b c d = V4Addr 169 254 169 254 then Inl (Config ''forbidden IPv4'')
      else if a \<ge> 224 then Inl (Config ''forbidden IPv4'')
      else if a = 100 \<and> b AND 0xC0 = 0x40 then Inl (Config ''forbidden IPv4'')
      else if list_ex (\<lambda>(x, y, z). a = x \<and> b = y \<and> c = z) doc_ranges then
        Inl (Config ''forbidden IPv4 (RFC 5737)'')
      else if a = 198 \<and> (b = 18 \<or> b = 19) then Inl (Config ''forbidden IPv4 (RFC 2544)'')
      else if a = 192 \<and> b = 0 \<and> c = 0 then
        Inl (Config ''forbidden IPv4 (IETF Protocol Assignments)'')
      else Inr ())"

definition reject_forbidden_ipv6 :: "ipv6 \<Rightarrow> unit download_result" where
  "reject_forbidden_ipv6 ip =
     (case to_ipv4_mapped ip of
        Some mapped \<Rightarrow> reject_forbidden_ipv4 mapped
      | None \<Rightarrow>
          (let first_segment = hd (segments ip);
               unique_local = (first_segment AND 0xfe00 = 0xfc00);
               link_local = (first_segment AND 0xffc0 = 0xfe80)
           in if v6_is_loopback ip \<or> v6_is_unspecified ip \<or> v6_is_multicast ip \<or>
                 unique_local \<or> link_local then Inl (Config ''forbidden IPv6'')
              else if first_segment AND 0xFFC0 = 0xFEC0 then Inl (Config ''forbidden IPv6'')
              else Inr ()))"

fun reject_forbidden_ip :: "ip_addr \<Rightarrow> unit download_result" where
  "reject_forbidden_ip (V4 v4) = reject_forbidden_ipv4 v4"
| "reject_forbidden_ip (V6 v6) = reject_forbidden_ipv6 v6"

section \<open>URLs\<close>

definition trim_end_dots :: "string \<Rightarrow> string" where
  "trim_end_dots s = rev (dropWhile (\<lambda>c. c = CHR ''.'') (rev s))"

definition ascii_lower :: "char \<Rightarrow> char" where
  "ascii_lower c =
     (if 65 \<le> (of_char c :: nat) \<and> (of_char c :: nat) \<le> 90 then char_of (of_char c + 32 :: nat)
      else c)"

definition eq_ignore_ascii_case :: "string \<Rightarrow> string \<Rightarrow> bool" where
  "eq_ignore_ascii_case s t = (map ascii_lower s = map ascii_lower t)"

definition validate_public_http_url :: "url_view \<Rightarrow> unit download_result" where
  "validate_public_http_url url =
     (if u_scheme url \<noteq> ''http'' \<and> u_scheme url \<noteq> ''https'' then
        Inl (Config (''unsupported scheme: '' @ u_scheme url))
      else if u_username url \<noteq> [] \<or> u_password url \<noteq> None then
        Inl (Config ''credentials in URL'')
      else
        and_then (ok_or (u_host url) (Config ''empty host'')) (\<lambda>host.
          let normalized_host = trim_end_dots host in
          if eq_ignore_ascii_case normalized_host ''localhost'' then
            Inl (Config ''localhost'')
          else (case parse_ip_addr normalized_host of
                  Some ip \<Rightarrow> reject_forbidden_ip ip
                | None \<Rightarrow> Inr ())))"

text \<open>
  The loop over the resolved addresses stops at the first forbidden one.
\<close>

fun check_resolved :: "ip_addr list \<Rightarrow> ip_addr list \<Rightarrow> ip_addr list download_result" where
  "check_resolved [] acc = Inr acc"
| "check_resolved (ip # ips) acc =
     and_then (reject_forbidden_ip ip) (\<lambda>_. check_resolved ips (acc @ [ip]))"

definition validate_resolved_ip ::
    "(string \<Rightarrow> u16 \<Rightarrow> string + ip_addr list) \<Rightarrow> url_view \<Rightarrow> ip_addr list download_result" where
  "validate_resolved_ip to_socket_addrs url =
     and_then (ok_or (u_host url) (Config ''empty host'')) (\<lambda>host.
       case parse_ip_addr host of
         Some ip \<Rightarrow> and_then (reject_forbidden_ip ip) (\<lambda>_. Inr [ip])
       | None \<Rightarrow>
           (let port = (case u_port url of Some p \<Rightarrow> p | None \<Rightarrow> 443) in
            and_then (map_err (\<lambda>e. Network (''DNS: '' @ e)) (to_socket_addrs host port)) (\<lambda>addrs.
            and_then (check_resolved addrs []) (\<lambda>resolved_ips.
              if resolved_ips = [] then Inl (Network ''DNS: no result'')
              else Inr resolved_ips))))"

definition validate_redirect ::
    "(string \<Rightarrow> u16 \<Rightarrow> string + ip_addr list) \<Rightarrow> url_view \<Rightarrow> u32 \<Rightarrow> u32 \<Rightarrow> ip_addr list download_result"
  where
  "validate_redirect to_socket_addrs redirect_url max_redirects current_redirect =
     (if current_redirect \<ge> max_redirects then Inl (Protocol ''too many redirects'')
      else and_then (validate_public_http_url redirect_url) (\<lambda>_.
           and_then (validate_resolved_ip to_socket_addrs redirect_url) (\<lambda>safe_ips.
             Inr safe_ips)))"

text \<open>
  \<open>redact_url_for_log\<close>: scheme, host and last path segment; \<open>parse\<close> is \<open>Url::parse\<close>.
\<close>

definition redact_url_for_log :: "(string \<Rightarrow> url_view option) \<Rightarrow> string \<Rightarrow> string" where
  "redact_url_for_log parse url =
     (case parse url of
        None \<Rightarrow> ''<invalid-url>''
      | Some parsed \<Rightarrow>
          (case u_host parsed of
             None \<Rightarrow> ''<invalid-url>''
           | Some host \<Rightarrow>
               (let basename = (case u_path_segments parsed of
                                  None \<Rightarrow> []
                                | Some segs \<Rightarrow> if segs = [] then [] else last segs)
                in if basename = [] then u_scheme parsed @ ''://'' @ host
                   else u_scheme parsed @ ''://'' @ host @ ''/'' @ basename)))"

section \<open>The forbidden IPv4 addresses as CIDR blocks\<close>

text \<open>
  The reference: an address is a 32-bit number and a block is a base address with a
  prefix length. The list is that of the RFCs the source cites.
\<close>

fun v4_number :: "ipv4 \<Rightarrow> nat" where
  "v4_number (V4Addr a b c d) = ((unat a * 256 + unat b) * 256 + unat c) * 256 + unat d"

definition in_block :: "nat \<Rightarrow> nat list \<times> nat \<Rightarrow> bool" where
  "in_block n = (\<lambda>(base, len).
     n div 2 ^ (32 - len) =
     (((base ! 0 * 256 + base ! 1) * 256 + base ! 2) * 256 + base ! 3) div 2 ^ (32 - len))"

definition forbidden_blocks :: "(nat list \<times> nat) list" where
  "forbidden_blocks =
     [([127, 0, 0, 0], 8), ([10, 0, 0, 0], 8), ([172, 16, 0, 0], 12), ([192, 168, 0, 0], 16),
      ([169, 254, 0, 0], 16), ([0, 0, 0, 0], 32), ([224, 0, 0, 0], 4), ([240, 0, 0, 0], 4),
      ([100, 64, 0, 0], 10), ([192, 0, 2, 0], 24), ([198, 51, 100, 0], 24),
      ([203, 0, 113, 0], 24), ([198, 18, 0, 0], 15), ([192, 0, 0, 0], 24)]"

lemma u8_eq_iff: "(x :: u8) = y \<longleftrightarrow> unat x = unat y"
  by (simp add: word_unat_eq_iff)

lemma div_eq_nat_iff: "0 < k \<Longrightarrow> (n :: nat) div k = q \<longleftrightarrow> q * k \<le> n \<and> n < q * k + k"
  by (metis add.commute div_nat_eqI dividend_less_div_times div_times_less_eq_dividend
      mult.commute mult_Suc_right)

lemma and_high_mask_iff:
  assumes "m = NOT (mask k)"
  shows "(a :: 'a::len word) AND m = c \<longleftrightarrow> unat a div 2 ^ k * 2 ^ k = unat c"
proof -
  have "a AND m = push_bit k (drop_bit k a)"
    using assms by (auto simp: bit_eq_iff bit_simps)
  moreover have "unat (push_bit k (drop_bit k a)) = unat a div 2 ^ k * 2 ^ k"
  proof -
    have le: "unat a div 2 ^ k * 2 ^ k < 2 ^ LENGTH('a)"
      by (rule le_less_trans[OF _ unsigned_less[of a]]) simp
    have "unat (push_bit k (drop_bit k a)) = take_bit LENGTH('a) (push_bit k (drop_bit k (unat a)))"
      by (simp only: unsigned_push_bit_eq unat_drop_bit_eq)
    with le show ?thesis by (simp add: push_bit_eq_mult drop_bit_eq_div take_bit_nat_eq_self)
  qed
  ultimately show ?thesis by (simp add: word_unat_eq_iff)
qed

lemma and_C0_eq_40: "(b :: u8) AND 0xC0 = 0x40 \<longleftrightarrow> unat b div 64 = 1"
  by (subst and_high_mask_iff[where k = 6]) (code_simp, simp)

lemma div_byte: "(x * 256 + unat (d :: u8)) div 256 = x"
  using u8_bound[of d] by simp

lemma v4_number_div:
  "v4_number (V4Addr a b c d) div 2 ^ 8 = (unat a * 256 + unat b) * 256 + unat c"
  "v4_number (V4Addr a b c d) div 2 ^ 16 = unat a * 256 + unat b"
  "v4_number (V4Addr a b c d) div 2 ^ 17 = (unat a * 256 + unat b) div 2"
  "v4_number (V4Addr a b c d) div 2 ^ 20 = (unat a * 256 + unat b) div 16"
  "v4_number (V4Addr a b c d) div 2 ^ 22 = (unat a * 256 + unat b) div 64"
  "v4_number (V4Addr a b c d) div 2 ^ 24 = unat a"
  "v4_number (V4Addr a b c d) div 2 ^ 28 = unat a div 16"
proof -
  let ?n = "v4_number (V4Addr a b c d)"
  have 1: "?n div 256 = (unat a * 256 + unat b) * 256 + unat c" by (simp only: v4_number.simps div_byte)
  have 2: "?n div (256 * 256) = unat a * 256 + unat b" by (simp only: div_mult2_eq 1 div_byte)
  have 3: "?n div (256 * 256 * 256) = unat a" by (simp only: div_mult2_eq[of _ "256 * 256"] 2 div_byte)
  show "?n div 2 ^ 8 = (unat a * 256 + unat b) * 256 + unat c" using 1 by simp
  show "?n div 2 ^ 16 = unat a * 256 + unat b" using 2 by simp
  show "?n div 2 ^ 24 = unat a" using 3 by simp
  show "?n div 2 ^ 17 = (unat a * 256 + unat b) div 2"
    using div_mult2_eq[of ?n "256 * 256" 2] 2 by simp
  show "?n div 2 ^ 20 = (unat a * 256 + unat b) div 16"
    using div_mult2_eq[of ?n "256 * 256" 16] 2 by simp
  show "?n div 2 ^ 22 = (unat a * 256 + unat b) div 64"
    using div_mult2_eq[of ?n "256 * 256" 64] 2 by simp
  show "?n div 2 ^ 28 = unat a div 16"
    using div_mult2_eq[of ?n "256 * 256 * 256" 16] 3 by simp
qed

lemma digits_eq_iff:
  assumes "(b :: nat) < m" "B < m"
  shows "x * m + b = A * m + B \<longleftrightarrow> x = A \<and> b = B"
proof
  assume eq: "x * m + b = A * m + B"
  have "(x * m + b) div m = x" "(A * m + B) div m = A" using assms by simp_all
  with eq have "x = A" by simp
  with eq show "x = A \<and> b = B" by simp
qed simp

text \<open>Membership in each block, as conditions on the octets.\<close>

lemma in_forbidden_block_iff:
  "list_ex (in_block (v4_number (V4Addr a b c d))) forbidden_blocks \<longleftrightarrow>
     a = 127 \<or> a = 10 \<or> (a = 172 \<and> unat b div 16 = 1) \<or> (a = 192 \<and> b = 168) \<or>
     (a = 169 \<and> b = 254) \<or> (a = 0 \<and> b = 0 \<and> c = 0 \<and> d = 0) \<or> unat a div 16 = 14 \<or>
     unat a div 16 = 15 \<or> (a = 100 \<and> unat b div 64 = 1) \<or> (a = 192 \<and> b = 0 \<and> c = 2) \<or>
     (a = 198 \<and> b = 51 \<and> c = 100) \<or> (a = 203 \<and> b = 0 \<and> c = 113) \<or>
     (a = 198 \<and> unat b div 2 = 9) \<or> (a = 192 \<and> b = 0 \<and> c = 0)"
proof -
  have two: "unat a * 256 + unat b = A * 256 + B \<longleftrightarrow> unat a = A \<and> unat b = B"
    if "B < 256" for A B
    using that u8_bound[of b] by (simp add: digits_eq_iff)
  have three: "(unat a * 256 + unat b) * 256 + unat c = (A * 256 + B) * 256 + C \<longleftrightarrow>
      unat a = A \<and> unat b = B \<and> unat c = C" if "B < 256" "C < 256" for A B C
    using that u8_bound[of b] u8_bound[of c] by (simp only: digits_eq_iff conj_assoc)
  have zero: "v4_number (V4Addr a b c d) = 0 \<longleftrightarrow> unat a = 0 \<and> unat b = 0 \<and> unat c = 0 \<and> unat d = 0"
    by auto
  have part: "(unat a * 256 + unat b) div k = A * (256 div k) + B \<longleftrightarrow> unat a = A \<and> unat b div k = B"
    if "k \<in> {2, 16, 64}" "B < 256 div k" for A B k
  proof -
    have k: "256 = (256 div k) * k" "0 < k" using that(1) by auto
    have "(unat a * 256 + unat b) div k = (unat b + (unat a * (256 div k)) * k) div k"
      using k(1) by (metis add.commute mult.assoc)
    also have "\<dots> = unat a * (256 div k) + unat b div k" using k(2) by simp
    finally have *: "(unat a * 256 + unat b) div k = unat a * (256 div k) + unat b div k" .
    have "unat b div k < 256 div k" using u8_bound[of b] that(1) by auto
    then show ?thesis using * that(2) by (simp add: digits_eq_iff)
  qed
  show ?thesis
    unfolding forbidden_blocks_def
    using two[of 168 192] two[of 254 169] three[of 0 2 192] three[of 51 100 198]
      three[of 0 113 203] three[of 0 0 192] part[of 16 1 172] part[of 64 1 100] part[of 2 9 198] zero
    by (simp add: in_block_def v4_number_div[simplified] u8_eq_iff)
qed

text \<open>\<open>reject_forbidden_ipv4\<close> decides exactly membership in the blocks.\<close>

lemma reject_forbidden_ipv4_iff:
  "reject_forbidden_ipv4 ip = Inr () \<longleftrightarrow> \<not> list_ex (in_block (v4_number ip)) forbidden_blocks"
proof (cases ip)
  case (V4Addr a b c d)
  have priv: "16 \<le> b \<and> b \<le> 31 \<longleftrightarrow> unat b div 16 = 1"
    by (auto simp: word_le_nat_alt div_eq_nat_iff)
  have high: "224 \<le> a \<longleftrightarrow> unat a div 16 = 14 \<or> unat a div 16 = 15"
    using u8_bound[of a] by (auto simp: word_le_nat_alt div_eq_nat_iff)
  have bench: "b = 18 \<or> b = 19 \<longleftrightarrow> unat b div 2 = 9"
    by (auto simp: u8_eq_iff div_eq_nat_iff)
  show ?thesis
    unfolding V4Addr in_forbidden_block_iff
    by (simp add: doc_ranges_def priv high bench and_C0_eq_40)
qed


section \<open>IPv6\<close>

definition v6_number :: "ipv6 \<Rightarrow> nat" where
  "v6_number ip = foldl (\<lambda>n s. n * 65536 + unat s) 0 (segments ip)"

definition in_block6 :: "nat \<Rightarrow> nat \<times> nat \<Rightarrow> bool" where
  "in_block6 n = (\<lambda>(prefix, len). n div 2 ^ (128 - len) = prefix)"

text \<open>
  Each block by the value of its first \<open>len\<close> bits: the unspecified and loopback addresses,
  \<open>ff00::/8\<close>, \<open>fc00::/7\<close>, \<open>fe80::/10\<close> and \<open>fec0::/10\<close>.
\<close>

definition forbidden_blocks6 :: "(nat \<times> nat) list" where
  "forbidden_blocks6 =
     [(0, 128), (1, 128), (0xff, 8), (0xfc div 2, 7), (0xfe80 div 64, 10), (0xfec0 div 64, 10)]"

fun public_ip :: "ip_addr \<Rightarrow> bool" where
  "public_ip (V4 ip) = (\<not> list_ex (in_block (v4_number ip)) forbidden_blocks)"
| "public_ip (V6 ip) =
     (case to_ipv4_mapped ip of
        Some m \<Rightarrow> \<not> list_ex (in_block (v4_number m)) forbidden_blocks
      | None \<Rightarrow> \<not> list_ex (in_block6 (v6_number ip)) forbidden_blocks6)"

lemma v6_number_div: "v6_number (V6Addr a b c d e f g h) div 2 ^ 112 = unat a"
proof -
  have step: "(n * 65536 + unat s) div (65536 * k) = n div k" for n k and s :: u16
    using u16_bound[of s] by (simp add: div_mult2_eq)
  have p: "(2 :: nat) ^ 112 =
      65536 * (65536 * (65536 * (65536 * (65536 * (65536 * (65536 * 1))))))" by simp
  show ?thesis unfolding p v6_number_def segments.simps foldl.simps step by simp
qed

lemma v6_number_small:
  "v6_number ip = 0 \<longleftrightarrow> segments ip = [0, 0, 0, 0, 0, 0, 0, 0]"
  "v6_number ip = 1 \<longleftrightarrow> segments ip = [0, 0, 0, 0, 0, 0, 0, 1]"
proof -
  have step: "n * 65536 + unat s = k \<longleftrightarrow> n = 0 \<and> unat s = k" if "k < 65536" for n k and s :: u16
    using digits_eq_iff[of "unat s" 65536 k n 0] u16_bound[of s] that by simp
  have one: "unat s = Suc 0 \<longleftrightarrow> s = 1" "unat s = 0 \<longleftrightarrow> s = 0" for s :: u16 by (simp_all add: word_unat_eq_iff)
  show "v6_number ip = 0 \<longleftrightarrow> segments ip = [0, 0, 0, 0, 0, 0, 0, 0]"
    by (cases ip) (simp only: v6_number_def segments.simps foldl.simps step, simp add: one)
  show "v6_number ip = 1 \<longleftrightarrow> segments ip = [0, 0, 0, 0, 0, 0, 0, 1]"
    by (cases ip) (simp only: v6_number_def segments.simps foldl.simps step, simp add: one)
qed

lemma in_forbidden_block6_iff:
  fixes a b c d e f g h :: u16
  defines "ip \<equiv> V6Addr a b c d e f g h"
  shows "list_ex (in_block6 (v6_number ip)) forbidden_blocks6 \<longleftrightarrow>
     v6_is_unspecified ip \<or> v6_is_loopback ip \<or> a AND 0xff00 = 0xff00 \<or>
     a AND 0xfe00 = 0xfc00 \<or> a AND 0xffc0 = 0xfe80 \<or> a AND 0xffc0 = 0xfec0"
proof -
  have div: "v6_number ip div 2 ^ (112 + k) = unat a div 2 ^ k" for k
    by (simp only: power_add div_mult2_eq v6_number_div[of a b c d e f g h, folded ip_def])
  have ff: "a AND 0xff00 = 0xff00 \<longleftrightarrow> unat a div 256 = 255"
    by (subst and_high_mask_iff[where k = 8]) (code_simp, simp)
  have fc: "a AND 0xfe00 = 0xfc00 \<longleftrightarrow> unat a div 512 = 126"
    by (subst and_high_mask_iff[where k = 9]) (code_simp, simp)
  have fe: "a AND 0xffc0 = 0xfe80 \<longleftrightarrow> unat a div 64 = 1018"
    by (subst and_high_mask_iff[where k = 6]) (code_simp, simp)
  have fec: "a AND 0xffc0 = 0xfec0 \<longleftrightarrow> unat a div 64 = 1019"
    by (subst and_high_mask_iff[where k = 6]) (code_simp, simp)
  show ?thesis
    using div[of 8] div[of 9] div[of 6]
    by (simp add: forbidden_blocks6_def in_block6_def ff fc fe fec v6_number_small[simplified])
qed

lemma reject_forbidden_ip_iff: "reject_forbidden_ip ip = Inr () \<longleftrightarrow> public_ip ip"
proof (cases ip)
  case (V4 v)
  then show ?thesis by (simp add: reject_forbidden_ipv4_iff)
next
  case (V6 v)
  obtain a b c d e f g h where v: "v = V6Addr a b c d e f g h" by (cases v)
  show ?thesis
    unfolding V6 public_ip.simps reject_forbidden_ip.simps reject_forbidden_ipv6_def
    by (cases "to_ipv4_mapped v")
       (auto simp: v in_forbidden_block6_iff Let_def reject_forbidden_ipv4_iff simp del: v6_is_loopback.simps v6_is_unspecified.simps to_ipv4_mapped.simps)
qed


section \<open>What an accepted URL guarantees\<close>

lemma check_resolved_Inr_iff:
  "check_resolved ips acc = Inr out \<longleftrightarrow> out = acc @ ips \<and> (\<forall>ip \<in> set ips. public_ip ip)"
  by (induction ips arbitrary: acc) (auto simp: reject_forbidden_ip_iff)

lemma validate_resolved_ip_Inr:
  assumes "validate_resolved_ip dns url = Inr ips"
  shows "ips \<noteq> [] \<and> (\<forall>ip \<in> set ips. public_ip ip)"
  using assms
  by (auto simp: validate_resolved_ip_def Let_def check_resolved_Inr_iff reject_forbidden_ip_iff
      split: option.splits if_splits)

lemma validate_public_http_url_Inr:
  assumes "validate_public_http_url url = Inr ()"
  shows "(u_scheme url = ''http'' \<or> u_scheme url = ''https'') \<and> u_username url = [] \<and>
    u_password url = None \<and> u_host url \<noteq> None"
  using assms
  by (auto simp: validate_public_http_url_def split: if_splits)

text \<open>
  C2. A redirect target that passes \<open>validate_redirect\<close> is within the redirect limit, is a
  plain HTTP(S) URL with no credentials, and every address it may be connected to is
  outside the loopback, private, link-local, multicast, reserved, documentation and
  benchmark blocks, IPv4-mapped IPv6 addresses included; there is at least one address.
\<close>

theorem validate_redirect_safe:
  assumes "validate_redirect dns url max_redirects current = Inr ips"
  shows "current < max_redirects \<and> (u_scheme url = ''http'' \<or> u_scheme url = ''https'') \<and>
    u_username url = [] \<and> u_password url = None \<and> ips \<noteq> [] \<and> (\<forall>ip \<in> set ips. public_ip ip)"
proof -
  from assms have lim: "current < max_redirects"
    and url: "validate_public_http_url url = Inr ()"
    and ips: "validate_resolved_ip dns url = Inr ips"
    by (auto simp: validate_redirect_def not_le split: if_splits)
  show ?thesis
    using lim validate_public_http_url_Inr[OF url] validate_resolved_ip_Inr[OF ips] by blast
qed

definition sample_url :: "string \<Rightarrow> url_view" where
  "sample_url host =
     \<lparr>u_scheme = ''https'', u_username = [], u_password = None, u_host = Some host,
      u_port = Some 443, u_path_segments = None\<rparr>"

definition sample_dns :: "string \<Rightarrow> u16 \<Rightarrow> string + ip_addr list" where
  "sample_dns host port = Inr [V4 (V4Addr 8 8 8 8)]"


lemma eval_host:
  "parse_ip_addr ''host.io'' = None" "\<not> eq_ignore_ascii_case ''host.io'' ''localhost''"
  by (rule parse_ip_addr_not_hex)
    (simp_all add: dec_digit_def hex_digit_val_def Let_def eq_ignore_ascii_case_def)

lemma eval_addr: "reject_forbidden_ipv4 (V4Addr 8 8 8 8) = Inr ()"
  by (simp add: doc_ranges_def)

theorem validate_redirect_safe_witness:
  "validate_redirect sample_dns (sample_url ''host.io'') 5 0 = Inr [V4 (V4Addr 8 8 8 8)] \<and>
   public_ip (V4 (V4Addr 8 8 8 8))"
proof -
  have 1: "validate_redirect sample_dns (sample_url ''host.io'') 5 0 = Inr [V4 (V4Addr 8 8 8 8)]"
    by (simp add: validate_redirect_def validate_public_http_url_def validate_resolved_ip_def
        sample_url_def sample_dns_def trim_end_dots_def eval_host eval_addr[simplified] Let_def)
  from validate_redirect_safe[OF 1] 1 show ?thesis by simp
qed

text \<open>
  The check of a literal address does not see IPv6 hosts: \<open>Url::host_str\<close> returns them in
  brackets, which \<open>parse::<IpAddr>\<close> refuses, so a URL such as \<open>http://[::1]/\<close> passes
  \<open>validate_public_http_url\<close> whatever the address between the brackets is.
\<close>

theorem validate_public_http_url_ipv6_literal:
  assumes "u_scheme url = ''http''" "u_username url = []" "u_password url = None"
    and "u_host url = Some (CHR ''['' # addr @ '']'')"
  shows "validate_public_http_url url = Inr ()"
proof -
  have trim: "trim_end_dots (CHR ''['' # addr @ '']'') = CHR ''['' # addr @ '']''"
    by (simp add: trim_end_dots_def)
  have lower: "ascii_lower (CHR ''['') = CHR ''[''" by (simp add: ascii_lower_def)
  show ?thesis
    using assms
    by (simp add: validate_public_http_url_def trim parse_ip_addr_bracket
        eq_ignore_ascii_case_def lower) (simp add: ascii_lower_def)
qed

theorem validate_public_http_url_ipv6_literal_witness:
  "validate_public_http_url (sample_url ''[::1]''\<lparr>u_scheme := ''http''\<rparr>) = Inr () \<and>
   \<not> public_ip (V6 (V6Addr 0 0 0 0 0 0 0 1))"
  using validate_public_http_url_ipv6_literal[of "sample_url ''[::1]''\<lparr>u_scheme := ''http''\<rparr>" "''::1''"]
  by (simp add: sample_url_def v6_number_def in_block6_def forbidden_blocks6_def)

end
