(* ===== verification/Utf8.thy ===== *)
theory Utf8
  imports Prelude
begin

text \<open>
  What the code uses of \<open>str\<close>: text as a list of Unicode scalar values, UTF-8 encoding,
  \<open>String::from_utf8\<close>, white space, trimming and splitting.
\<close>

type_synonym ustr = "nat list"

definition scalar :: "nat \<Rightarrow> bool" where
  "scalar c = (c < 0xD800 \<or> (0xE000 \<le> c \<and> c < 0x110000))"

section \<open>UTF-8\<close>

definition utf8_char :: "nat \<Rightarrow> nat list" where
  "utf8_char c =
     (if c < 0x80 then [c]
      else if c < 0x800 then [0xC0 + c div 64, 0x80 + c mod 64]
      else if c < 0x10000 then [0xE0 + c div 4096, 0x80 + c div 64 mod 64, 0x80 + c mod 64]
      else [0xF0 + c div 262144, 0x80 + c div 4096 mod 64, 0x80 + c div 64 mod 64,
            0x80 + c mod 64])"

definition utf8_encode :: "ustr \<Rightarrow> u8 list" where
  "utf8_encode s = map of_nat (concat (map utf8_char s))"

definition is_cont :: "nat \<Rightarrow> bool" where
  "is_cont b = (0x80 \<le> b \<and> b < 0xC0)"

text \<open>Overlong forms, surrogates and values above \<open>10FFFF\<close> are errors.\<close>

fun utf8_dec :: "nat list \<Rightarrow> ustr option" where
  "utf8_dec [] = Some []"
| "utf8_dec (b # bs) =
     (if b < 0x80 then map_option ((#) b) (utf8_dec bs)
      else if 0xC2 \<le> b \<and> b < 0xE0 then
        (case bs of
           c1 # r \<Rightarrow>
             (if is_cont c1 then map_option ((#) ((b - 0xC0) * 64 + (c1 - 0x80))) (utf8_dec r)
              else None)
         | _ \<Rightarrow> None)
      else if 0xE0 \<le> b \<and> b < 0xF0 then
        (case bs of
           c1 # c2 # r \<Rightarrow>
             (let v = (b - 0xE0) * 4096 + (c1 - 0x80) * 64 + (c2 - 0x80)
              in if is_cont c1 \<and> is_cont c2 \<and> 0x800 \<le> v \<and> scalar v
                 then map_option ((#) v) (utf8_dec r) else None)
         | _ \<Rightarrow> None)
      else if 0xF0 \<le> b \<and> b < 0xF5 then
        (case bs of
           c1 # c2 # c3 # r \<Rightarrow>
             (let v = (b - 0xF0) * 262144 + (c1 - 0x80) * 4096 + (c2 - 0x80) * 64 + (c3 - 0x80)
              in if is_cont c1 \<and> is_cont c2 \<and> is_cont c3 \<and> 0x10000 \<le> v \<and> scalar v
                 then map_option ((#) v) (utf8_dec r) else None)
         | _ \<Rightarrow> None)
      else None)"

definition from_utf8 :: "u8 list \<Rightarrow> ustr option" where
  "from_utf8 bs = utf8_dec (map unat bs)"

lemma utf8_dec_char:
  assumes "scalar c"
  shows "utf8_dec (utf8_char c @ r) = map_option ((#) c) (utf8_dec r)"
proof -
  have m: "c mod 64 < 64" "c div 64 mod 64 < 64" "c div 4096 mod 64 < 64" by simp_all
  have d2: "c div 64 * 64 + c mod 64 = c" by simp
  have d3: "c div 4096 * 64 + c div 64 mod 64 = c div 64"
    using div_mult_mod_eq[of "c div 64" 64] by (simp flip: div_mult2_eq)
  have d4: "c div 262144 * 64 + c div 4096 mod 64 = c div 4096"
    using div_mult_mod_eq[of "c div 4096" 64] by (simp flip: div_mult2_eq)
  have v3: "c div 4096 * 4096 + c div 64 mod 64 * 64 + c mod 64 = c"
    using d2 d3 by linarith
  have v4: "c div 262144 * 262144 + c div 4096 mod 64 * 4096 + c div 64 mod 64 * 64 + c mod 64 = c"
    using v3 d4 by linarith
  consider "c < 0x80" | "0x80 \<le> c" "c < 0x800" | "0x800 \<le> c" "c < 0x10000"
    | "0x10000 \<le> c" "c < 0x110000"
    using assms unfolding scalar_def by linarith
  then show ?thesis
  proof cases
    case 1
    then show ?thesis by (simp add: utf8_char_def)
  next
    case 2
    then have "2 \<le> c div 64" "c div 64 < 32" by auto
    then show ?thesis using 2 by (simp add: utf8_char_def is_cont_def d2)
  next
    case 3
    then have "c div 4096 < 16" by auto
    then show ?thesis using 3 assms m by (simp add: utf8_char_def is_cont_def v3 Let_def)
  next
    case 4
    then have "c div 262144 < 5" by auto
    then show ?thesis using 4 assms m by (simp add: utf8_char_def is_cont_def v4 Let_def)
  qed
qed

lemma utf8_char_byte: "scalar c \<Longrightarrow> b \<in> set (utf8_char c) \<Longrightarrow> b < 256"
  by (auto simp: utf8_char_def scalar_def split: if_splits)

lemma unat_utf8_encode:
  assumes "\<forall>c \<in> set s. scalar c"
  shows "map unat (utf8_encode s) = concat (map utf8_char s)"
proof -
  have "\<forall>b \<in> set (concat (map utf8_char s)). b < 256"
    using assms utf8_char_byte by fastforce
  then show ?thesis
    unfolding utf8_encode_def by (induction "concat (map utf8_char s)") (auto simp: unat_of_nat_eq o_def intro!: map_idI)
qed

lemma from_utf8_encode:
  assumes "\<forall>c \<in> set s. scalar c"
  shows "from_utf8 (utf8_encode s) = Some s"
proof -
  have "utf8_dec (concat (map utf8_char s)) = Some s"
    using assms by (induction s) (simp_all add: utf8_dec_char)
  then show ?thesis by (simp add: from_utf8_def unat_utf8_encode[OF assms])
qed

section \<open>White space, trimming and splitting\<close>

text \<open>The Unicode property \<open>White_Space\<close>.\<close>

definition is_whitespace :: "nat \<Rightarrow> bool" where
  "is_whitespace c =
     ((9 \<le> c \<and> c \<le> 13) \<or> c = 32 \<or> c = 0x85 \<or> c = 0xA0 \<or> c = 0x1680 \<or>
      (0x2000 \<le> c \<and> c \<le> 0x200A) \<or> c = 0x2028 \<or> c = 0x2029 \<or> c = 0x202F \<or>
      c = 0x205F \<or> c = 0x3000)"

definition trim_matches :: "('a \<Rightarrow> bool) \<Rightarrow> 'a list \<Rightarrow> 'a list" where
  "trim_matches P s = rev (dropWhile P (rev (dropWhile P s)))"

definition trim :: "ustr \<Rightarrow> ustr" where
  "trim = trim_matches is_whitespace"

text \<open>\<open>split\<close> on a pattern keeps empty pieces and yields at least one piece.\<close>

fun split_on :: "('a \<Rightarrow> bool) \<Rightarrow> 'a list \<Rightarrow> 'a list list" where
  "split_on P [] = [[]]"
| "split_on P (c # cs) =
     (if P c then [] # split_on P cs
      else (case split_on P cs of [] \<Rightarrow> [[c]] | p # ps \<Rightarrow> (c # p) # ps))"

definition split_whitespace :: "ustr \<Rightarrow> ustr list" where
  "split_whitespace s = filter (\<lambda>p. p \<noteq> []) (split_on is_whitespace s)"

fun strip_prefix :: "'a list \<Rightarrow> 'a list \<Rightarrow> 'a list option" where
  "strip_prefix [] s = Some s"
| "strip_prefix (p # ps) [] = None"
| "strip_prefix (p # ps) (c # cs) = (if p = c then strip_prefix ps cs else None)"

fun join :: "'a list \<Rightarrow> 'a list list \<Rightarrow> 'a list" where
  "join sep [] = []"
| "join sep [p] = p"
| "join sep (p # q # ps) = p @ sep @ join sep (q # ps)"

definition to_ustr :: "string \<Rightarrow> ustr" where
  "to_ustr = map of_char"

lemma split_on_not_Nil [simp]: "split_on P s \<noteq> []"
  by (induction s) (auto split: list.splits)

lemma split_on_pieces: "p \<in> set (split_on P s) \<Longrightarrow> set p \<subseteq> {c \<in> set s. \<not> P c}"
proof (induction s arbitrary: p)
  case (Cons c s)
  obtain q qs where q: "split_on P s = q # qs" by (cases "split_on P s") auto
  have IH: "set q \<subseteq> {c \<in> set s. \<not> P c}" "\<And>p. p \<in> set qs \<Longrightarrow> set p \<subseteq> {c \<in> set s. \<not> P c}"
    using Cons.IH q by auto
  show ?case using Cons.prems IH q by (auto split: if_splits)
qed simp

lemma split_whitespace_pieces:
  "p \<in> set (split_whitespace s) \<Longrightarrow> p \<noteq> [] \<and> set p \<subseteq> {c \<in> set s. \<not> is_whitespace c}"
  by (auto simp: split_whitespace_def dest: split_on_pieces)

lemma set_join: "set (join sep ps) \<subseteq> set sep \<union> (\<Union>p \<in> set ps. set p)"
  by (induction sep ps rule: join.induct) auto

lemma split_on_piece_append:
  "\<forall>c \<in> set p. \<not> P c \<Longrightarrow> P d \<Longrightarrow> split_on P (p @ d # s) = p # split_on P s"
  by (induction p) auto

lemma split_on_single: "\<forall>c \<in> set p. \<not> P c \<Longrightarrow> split_on P p = [p]"
  by (induction p) auto

text \<open>Splitting what was joined with a separator gives the pieces back.\<close>

lemma split_on_join:
  assumes "P d" "ps \<noteq> []" "\<forall>p \<in> set ps. \<forall>c \<in> set p. \<not> P c"
  shows "split_on P (join [d] ps) = ps"
  using assms
  by (induction "[d]" ps rule: join.induct) (simp_all add: split_on_piece_append split_on_single)

lemma join_eq_Nil: "\<forall>p \<in> set ps. p \<noteq> [] \<Longrightarrow> join sep ps = [] \<longleftrightarrow> ps = []"
  by (induction sep ps rule: join.induct) auto

section \<open>Hexadecimal\<close>

definition hex_upper :: "nat \<Rightarrow> nat" where
  "hex_upper n = (if n < 10 then 48 + n else 55 + n)"

definition hex_val :: "nat \<Rightarrow> nat option" where
  "hex_val c =
     (if 48 \<le> c \<and> c \<le> 57 then Some (c - 48)
      else if 97 \<le> c \<and> c \<le> 102 then Some (c - 87)
      else if 65 \<le> c \<and> c \<le> 70 then Some (c - 55) else None)"

text \<open>\<open>u8::from_str_radix(_, 16)\<close> on two characters: a leading plus sign is accepted.\<close>

fun from_hex2 :: "ustr \<Rightarrow> nat option" where
  "from_hex2 [h, l] =
     (if h = 43 then hex_val l
      else (case hex_val h of
              None \<Rightarrow> None
            | Some x \<Rightarrow> (case hex_val l of None \<Rightarrow> None | Some y \<Rightarrow> Some (x * 16 + y))))"
| "from_hex2 _ = None"

lemma hex_upper_small: "n < 16 \<Longrightarrow> hex_upper n < 128"
  by (simp add: hex_upper_def)

lemma hex_val_upper: "n < 16 \<Longrightarrow> hex_val (hex_upper n) = Some n"
  by (auto simp: hex_val_def hex_upper_def)

lemma from_hex2_upper:
  assumes "n < 256"
  shows "from_hex2 [hex_upper (n div 16), hex_upper (n mod 16)] = Some n"
proof -
  have "n div 16 < 16" "n mod 16 < 16" using assms by auto
  moreover have "hex_upper m \<noteq> 43" for m by (simp add: hex_upper_def)
  ultimately show ?thesis by (simp add: hex_val_upper)
qed

section \<open>\<open>from_utf8_lossy\<close>\<close>

text \<open>
  An ill-formed sequence becomes one replacement character per maximal subpart: \<open>bad_len\<close> is
  the length of the subpart at the front.
\<close>

definition second_ok :: "nat \<Rightarrow> nat \<Rightarrow> bool" where
  "second_ok b c =
     (if b = 0xE0 then 0xA0 \<le> c \<and> c < 0xC0
      else if b = 0xED then 0x80 \<le> c \<and> c < 0xA0
      else if b = 0xF0 then 0x90 \<le> c \<and> c < 0xC0
      else if b = 0xF4 then 0x80 \<le> c \<and> c < 0x90
      else is_cont c)"

fun bad_len :: "nat list \<Rightarrow> nat" where
  "bad_len (b # c1 # c2 # r) =
     (if 0xE0 \<le> b \<and> b < 0xF0 \<and> second_ok b c1 then 2
      else if 0xF0 \<le> b \<and> b < 0xF5 \<and> second_ok b c1 then (if is_cont c2 then 3 else 2)
      else 1)"
| "bad_len [b, c1] = (if 0xE0 \<le> b \<and> b < 0xF5 \<and> second_ok b c1 then 2 else 1)"
| "bad_len _ = 1"

text \<open>The length of the well-formed character at the front, or 0.\<close>

definition good_len :: "nat list \<Rightarrow> nat" where
  "good_len bs =
     (case bs of [] \<Rightarrow> 0 | b # _ \<Rightarrow>
        (let n = (if b < 0x80 then 1 else if b < 0xE0 then 2 else if b < 0xF0 then 3 else 4)
         in if length bs \<ge> n \<and> utf8_dec (take n bs) \<noteq> None then n else 0))"

function utf8_lossy :: "nat list \<Rightarrow> ustr" where
  "utf8_lossy [] = []"
| "utf8_lossy (b # bs) =
     (let n = good_len (b # bs)
      in if n > 0 then the (utf8_dec (take n (b # bs))) @ utf8_lossy (drop n (b # bs))
         else 0xFFFD # utf8_lossy (drop (max 1 (bad_len (b # bs))) (b # bs)))"
  by pat_completeness auto
termination
  by (relation "measure length") auto

declare utf8_lossy.simps(2) [simp del]

definition from_utf8_lossy :: "u8 list \<Rightarrow> ustr" where
  "from_utf8_lossy bs = utf8_lossy (map unat bs)"

lemma utf8_lossy_char:
  assumes "scalar c"
  shows "utf8_lossy (utf8_char c @ r) = c # utf8_lossy r"
proof -
  obtain b bs where ch: "utf8_char c = b # bs" by (cases "utf8_char c") (auto simp: utf8_char_def split: if_splits)
  have dec: "utf8_dec (b # bs) = Some [c]" using utf8_dec_char[OF assms, of "[]"] by (simp add: ch)
  define n where "n = (if b < 0x80 then 1 else if b < 0xE0 then 2 else if b < 0xF0 then 3 else 4 :: nat)"
  have n: "n = length (b # bs)"
  proof -
    consider "c < 0x80" | "0x80 \<le> c" "c < 0x800" | "0x800 \<le> c" "c < 0x10000"
      | "0x10000 \<le> c" "c < 0x110000"
      using assms unfolding scalar_def by linarith
    then show ?thesis
    proof cases
      case 2
      then have "c div 64 < 32" by auto
      then show ?thesis using ch 2 by (auto simp: n_def utf8_char_def)
    next
      case 3
      then have "c div 4096 < 16" by auto
      then show ?thesis using ch 3 by (auto simp: n_def utf8_char_def)
    next
      case 4
      then show ?thesis using ch by (auto simp: n_def utf8_char_def)
    qed (use ch in \<open>auto simp: n_def utf8_char_def\<close>)
  qed
  have "take n (b # bs @ r) = b # bs" "drop n (b # bs @ r) = r" "0 < n" by (simp_all add: n)
  moreover have "good_len (b # bs @ r) = n"
    unfolding good_len_def Let_def n_def[symmetric] list.case using calculation dec n by simp
  ultimately show ?thesis
    unfolding ch append_Cons utf8_lossy.simps(2) Let_def using dec by simp
qed

lemma from_utf8_lossy_encode:
  assumes "\<forall>c \<in> set s. scalar c"
  shows "from_utf8_lossy (utf8_encode s) = s"
proof -
  have "utf8_lossy (concat (map utf8_char s)) = s"
    using assms by (induction s) (simp_all add: utf8_lossy_char)
  then show ?thesis by (simp add: from_utf8_lossy_def unat_utf8_encode[OF assms])
qed

end
