(* ===== verification/Filename.thy ===== *)
theory Filename
  imports Errors Utf8
begin

text \<open>
  \<open>tachyon-core/src/filename.rs\<close>: cleaning a server-supplied file name, and extracting one
  from a \<open>Content-Disposition\<close> header or the path of a URL. Text is a list of scalar
  values; \<open>Url::parse(url).ok().path()\<close> is a parameter.
\<close>

section \<open>sanitize_filename\<close>

abbreviation "c_dot \<equiv> (46 :: nat)"
abbreviation "c_space \<equiv> (32 :: nat)"
abbreviation "c_slash \<equiv> (47 :: nat)"
abbreviation "c_backslash \<equiv> (92 :: nat)"
abbreviation "c_quote \<equiv> (34 :: nat)"

definition unknown_name :: ustr where
  "unknown_name = to_ustr ''unknown''"

text \<open>The characters slash, backslash, \<open>: * ? " < > |\<close>.\<close>

definition is_dangerous :: "nat \<Rightarrow> bool" where
  "is_dangerous c = (c \<in> {47, 92, 58, 42, 63, 34, 60, 62, 124})"

text \<open>
  The first pass. \<open>buf\<close> is reversed: its head is the character pushed last.
\<close>

fun replace_separators :: "ustr \<Rightarrow> ustr \<Rightarrow> ustr" where
  "replace_separators buf [] = rev buf"
| "replace_separators buf (ch # rest) =
     (if ch = c_slash \<or> ch = c_backslash then replace_separators (c_space # buf) rest
      else if ch = c_dot \<and> rest \<noteq> [] \<and> hd rest = c_dot then
        (let before = (case buf of [] \<Rightarrow> True | c # _ \<Rightarrow> c = c_space);
             after_is_boundary =
               (case tl rest of [] \<Rightarrow> True
                | c # _ \<Rightarrow> c = c_space \<or> c = c_slash \<or> c = c_backslash)
         in if before \<and> after_is_boundary then replace_separators buf (tl rest)
            else replace_separators (ch # buf) rest)
      else replace_separators (ch # buf) rest)"

definition sanitize_filename :: "ustr \<Rightarrow> ustr" where
  "sanitize_filename name =
     (let trimmed = trim (replace_separators [] name)
      in if trimmed = [] then unknown_name
         else
           (let filtered = filter (\<lambda>c. \<not> is_dangerous c) trimmed;
                result = join [c_space]
                  (filter (\<lambda>token. \<not> list_all (\<lambda>c. c = c_dot) token) (split_whitespace filtered))
            in if result = [] then unknown_name else result))"

section \<open>Percent decoding\<close>

definition hex_digit :: "u8 \<Rightarrow> u8 option" where
  "hex_digit byte =
     (if 48 \<le> byte \<and> byte \<le> 57 then Some (byte - 48)
      else if 97 \<le> byte \<and> byte \<le> 102 then Some (byte - 97 + 10)
      else if 65 \<le> byte \<and> byte \<le> 70 then Some (byte - 65 + 10)
      else None)"

definition parse_hex_pair :: "u8 \<Rightarrow> u8 \<Rightarrow> u8 option" where
  "parse_hex_pair high low =
     (case hex_digit high of
        None \<Rightarrow> None
      | Some h \<Rightarrow> (case hex_digit low of None \<Rightarrow> None | Some l \<Rightarrow> Some (h * 16 + l)))"

fun decode_bytes :: "u8 list \<Rightarrow> u8 list" where
  "decode_bytes (b # h # l # rest) =
     (if b = 37 then
        (case parse_hex_pair h l of
           Some byte \<Rightarrow> byte # decode_bytes rest
         | None \<Rightarrow> b # decode_bytes (h # l # rest))
      else b # decode_bytes (h # l # rest))"
| "decode_bytes (b # rest) = b # decode_bytes rest"
| "decode_bytes [] = []"

definition percent_decode :: "ustr \<Rightarrow> ustr option" where
  "percent_decode input = from_utf8 (decode_bytes (utf8_encode input))"

section \<open>Sources of a file name\<close>

text \<open>
  \<open>splitn(3, '\'')\<close> and its third piece: what follows the second quote.
\<close>

fun after_nth :: "nat \<Rightarrow> nat \<Rightarrow> ustr \<Rightarrow> ustr option" where
  "after_nth 0 d s = Some s"
| "after_nth (Suc n) d s =
     (case dropWhile (\<lambda>c. c \<noteq> d) s of [] \<Rightarrow> None | _ # rest \<Rightarrow> after_nth n d rest)"

fun content_disposition_params :: "ustr option \<Rightarrow> ustr list \<Rightarrow> ustr option" where
  "content_disposition_params fallback [] = fallback"
| "content_disposition_params fallback (p # ps) =
     (let param = trim p in
      case strip_prefix (to_ustr ''filename*='') param of
        Some encoded \<Rightarrow>
          (case Option.bind (after_nth 2 39 encoded) percent_decode of
             Some decoded \<Rightarrow>
               if decoded \<noteq> [] then Some decoded else content_disposition_params fallback ps
           | None \<Rightarrow> content_disposition_params fallback ps)
      | None \<Rightarrow>
          (case strip_prefix (to_ustr ''filename='') param of
             Some n \<Rightarrow>
               (let name = trim_matches (\<lambda>c. c = c_quote) (trim n)
                in if name \<noteq> [] \<and> fallback = None
                   then content_disposition_params (Some name) ps
                   else content_disposition_params fallback ps)
           | None \<Rightarrow> content_disposition_params fallback ps))"

definition parse_content_disposition :: "ustr \<Rightarrow> ustr option" where
  "parse_content_disposition value =
     content_disposition_params None (split_on (\<lambda>c. c = 59) value)"

definition extract_filename_from_url :: "(ustr \<Rightarrow> ustr option) \<Rightarrow> ustr \<Rightarrow> ustr" where
  "extract_filename_from_url url_path url =
     (let raw_name =
        (case url_path url of
           None \<Rightarrow> None
         | Some path \<Rightarrow>
             (let segment = last (split_on (\<lambda>c. c = c_slash) path)
              in if segment = [] then None else percent_decode segment))
      in sanitize_filename (case raw_name of None \<Rightarrow> unknown_name | Some n \<Rightarrow> n))"

definition extract_filename :: "(ustr \<Rightarrow> ustr option) \<Rightarrow> ustr \<Rightarrow> ustr option \<Rightarrow> ustr" where
  "extract_filename url_path url content_disposition =
     (let raw_name =
        (case Option.bind content_disposition parse_content_disposition of
           Some n \<Rightarrow> n
         | None \<Rightarrow> extract_filename_from_url url_path url)
      in sanitize_filename raw_name)"

section \<open>A cleaned name is a single, visible path component\<close>

definition safe_token :: "ustr \<Rightarrow> bool" where
  "safe_token t =
     (t \<noteq> [] \<and> (\<exists>c \<in> set t. c \<noteq> c_dot) \<and>
      (\<forall>c \<in> set t. \<not> is_whitespace c \<and> \<not> is_dangerous c))"

text \<open>
  Tokens of visible characters, none of them made of dots alone, with single spaces between
  them.
\<close>

definition safe_name :: "ustr \<Rightarrow> bool" where
  "safe_name s = (\<exists>ts. ts \<noteq> [] \<and> (\<forall>t \<in> set ts. safe_token t) \<and> s = join [c_space] ts)"

lemma whitespace_space [simp]: "is_whitespace c_space"
  by (simp add: is_whitespace_def)

lemma safe_token_char:
  assumes "safe_token t" "c \<in> set t"
  shows "c \<noteq> c_slash" "c \<noteq> c_backslash" "c \<noteq> c_space"
  using assms whitespace_space by (force simp: safe_token_def is_dangerous_def)+

lemma safe_token_unknown: "safe_token unknown_name"
  by (simp add: safe_token_def unknown_name_def to_ustr_def is_whitespace_def is_dangerous_def)

lemma safe_name_unknown: "safe_name unknown_name"
  unfolding safe_name_def
  by (rule exI[of _ "[unknown_name]"]) (simp add: safe_token_unknown)

text \<open>
  C13. \<open>sanitize_filename\<close> always returns a safe name: nonempty tokens with no path
  separator, no reserved character and no white space, none of which is a run of dots,
  separated by single spaces.
\<close>

theorem sanitize_filename_safe: "safe_name (sanitize_filename name)"
proof -
  define filtered where
    "filtered = filter (\<lambda>c. \<not> is_dangerous c) (trim (replace_separators [] name))"
  define ts where
    "ts = filter (\<lambda>token. \<not> list_all (\<lambda>c. c = c_dot) token) (split_whitespace filtered)"
  have tok: "\<forall>t \<in> set ts. safe_token t"
    using split_whitespace_pieces[of _ filtered]
    by (fastforce simp: ts_def filtered_def safe_token_def list_all_iff)
  have "sanitize_filename name = unknown_name \<or>
      (ts \<noteq> [] \<and> sanitize_filename name = join [c_space] ts)"
    by (auto simp: sanitize_filename_def Let_def ts_def filtered_def)
  with tok safe_name_unknown show ?thesis
    unfolding safe_name_def by (cases "sanitize_filename name = unknown_name") auto
qed

lemma safe_name_chars:
  assumes "safe_name s"
  shows "s \<noteq> []" "\<forall>c \<in> set s. \<not> is_dangerous c \<and> (is_whitespace c \<longrightarrow> c = c_space)"
    "\<exists>c \<in> set s. c \<noteq> c_dot \<and> c \<noteq> c_space"
proof -
  from assms obtain ts where ts: "ts \<noteq> []" "\<forall>t \<in> set ts. safe_token t" "s = join [c_space] ts"
    by (auto simp: safe_name_def)
  from ts show "s \<noteq> []" by (simp add: join_eq_Nil safe_token_def)
  show "\<forall>c \<in> set s. \<not> is_dangerous c \<and> (is_whitespace c \<longrightarrow> c = c_space)"
    using set_join[of "[c_space]" ts] ts(2,3)
    by (fastforce simp: safe_token_def is_dangerous_def)
  obtain t us where t: "ts = t # us" using ts(1) by (cases ts) auto
  have "set t \<subseteq> set s" unfolding ts(3) t by (cases us) auto
  moreover obtain c where "c \<in> set t" "c \<noteq> c_dot" "c \<noteq> c_space"
    using ts(2) t by (fastforce simp: safe_token_def)
  ultimately show "\<exists>c \<in> set s. c \<noteq> c_dot \<and> c \<noteq> c_space" by blast
qed

text \<open>The passes leave a safe name alone.\<close>

lemma replace_separators_push:
  "c \<noteq> c_slash \<Longrightarrow> c \<noteq> c_backslash \<Longrightarrow> b \<noteq> c_space \<Longrightarrow>
   replace_separators (b # bs) (c # rest) = replace_separators (c # b # bs) rest"
  by (subst replace_separators.simps) simp

lemma replace_separators_inside:
  assumes "\<forall>c \<in> set t. c \<noteq> c_slash \<and> c \<noteq> c_backslash \<and> c \<noteq> c_space" "buf \<noteq> []" "hd buf \<noteq> c_space"
  shows "replace_separators buf (t @ r) = replace_separators (rev t @ buf) r"
  using assms
proof (induction t arbitrary: buf)
  case (Cons c t)
  have "replace_separators buf ((c # t) @ r) = replace_separators (c # buf) (t @ r)"
  proof -
    obtain b bs where buf: "buf = b # bs" "b \<noteq> c_space" using Cons.prems by (cases buf) auto
    have c: "c \<noteq> c_slash" "c \<noteq> c_backslash" using Cons.prems by auto
    from replace_separators_push[OF c buf(2)] show ?thesis by (simp only: buf(1) append_Cons)
  qed
  also have "\<dots> = replace_separators (rev t @ c # buf) r"
    using Cons.prems by (intro Cons.IH) auto
  finally show ?case by simp
qed simp

lemma replace_separators_token:
  assumes t: "safe_token t" and buf: "buf = [] \<or> hd buf = c_space"
  shows "replace_separators buf (t @ r) = replace_separators (rev t @ buf) r"
proof -
  obtain c u where cu: "t = c # u" using t by (cases t) (auto simp: safe_token_def)
  have ok: "\<forall>c \<in> set t. c \<noteq> c_slash \<and> c \<noteq> c_backslash \<and> c \<noteq> c_space"
    using safe_token_char[OF t] by blast
  have "replace_separators buf ((c # u) @ r) = replace_separators (c # buf) (u @ r)"
  proof (cases "c = c_dot \<and> u @ r \<noteq> [] \<and> hd (u @ r) = c_dot")
    case True
    show ?thesis
    proof (cases u)
      case Nil
      then show ?thesis using t cu True by (simp add: safe_token_def)
    next
      case (Cons d v)
      then have d: "d = c_dot" using True by simp
      obtain e w where "v = e # w" using t cu Cons d True by (cases v) (auto simp: safe_token_def)
      then show ?thesis using ok cu Cons True by (simp add: Let_def)
    qed
  next
    case False
    then show ?thesis using ok cu by auto
  qed
  also have "\<dots> = replace_separators (rev u @ c # buf) r"
    using ok cu by (intro replace_separators_inside) auto
  finally show ?thesis by (simp add: cu)
qed

lemma replace_separators_join:
  assumes "\<forall>t \<in> set ts. safe_token t" "buf = [] \<or> hd buf = c_space"
  shows "replace_separators buf (join [c_space] ts) = rev buf @ join [c_space] ts"
  using assms
proof (induction "[c_space]" ts arbitrary: buf rule: join.induct)
  case (2 p)
  then show ?case using replace_separators_token[of p buf "[]"] by simp
next
  case (3 p q ps)
  have "replace_separators buf (join [c_space] (p # q # ps)) =
      replace_separators (c_space # rev p @ buf) (join [c_space] (q # ps))"
    using 3(2,3) by (simp add: replace_separators_token)
  also have "\<dots> = rev (c_space # rev p @ buf) @ join [c_space] (q # ps)"
    using 3(2) by (intro 3(1)) simp_all
  finally show ?case by simp
qed simp

lemma trim_id: "s \<noteq> [] \<Longrightarrow> \<not> is_whitespace (hd s) \<Longrightarrow> \<not> is_whitespace (last s) \<Longrightarrow> trim s = s"
  by (simp add: trim_def trim_matches_def dropWhile_eq_self_iff[THEN iffD2] hd_rev)

lemma safe_tokens_join_ends:
  assumes "ts \<noteq> []" "\<forall>t \<in> set ts. safe_token t"
  shows "join [c_space] ts \<noteq> [] \<and> \<not> is_whitespace (hd (join [c_space] ts)) \<and>
    \<not> is_whitespace (last (join [c_space] ts))"
  using assms
proof (induction "[c_space]" ts rule: join.induct)
  case (3 p q ps)
  from 3(3) have p: "p \<noteq> []" "\<not> is_whitespace (hd p)" by (auto simp: safe_token_def)
  from 3(1,3) have "join [c_space] (q # ps) \<noteq> []" "\<not> is_whitespace (last (join [c_space] (q # ps)))"
    by auto
  with p show ?case by simp
qed (auto simp: safe_token_def)

lemma sanitize_filename_safe_id:
  assumes "safe_name s"
  shows "sanitize_filename s = s"
proof -
  from assms obtain ts where ts: "ts \<noteq> []" "\<forall>t \<in> set ts. safe_token t" "s = join [c_space] ts"
    by (auto simp: safe_name_def)
  have "replace_separators [] s = s"
    using replace_separators_join[of ts "[]"] ts by simp
  moreover have "trim s = s" and ne: "s \<noteq> []"
    using safe_tokens_join_ends[OF ts(1,2)] trim_id ts(3) by auto
  moreover have "filter (\<lambda>c. \<not> is_dangerous c) s = s"
    using safe_name_chars(2)[OF assms] by (simp add: filter_id_conv)
  moreover have "split_whitespace s = ts"
  proof -
    have "split_on is_whitespace s = ts"
      unfolding ts(3) using ts(1,2) by (intro split_on_join) (auto simp: safe_token_def)
    then show ?thesis using ts(2) by (simp add: split_whitespace_def filter_id_conv safe_token_def)
  qed
  moreover have "filter (\<lambda>token. \<not> list_all (\<lambda>c. c = c_dot) token) ts = ts"
    using ts(2) by (auto simp: filter_id_conv safe_token_def list_all_iff)
  ultimately show ?thesis using ne by (simp add: sanitize_filename_def ts(3)[symmetric])
qed

text \<open>
  Whatever the header and the URL are, the extracted name is safe, and cleaning it a second
  time (as \<open>extract_filename\<close> does on the fallback path) changes nothing.
\<close>

theorem extract_filename_safe_idempotent:
  "safe_name (extract_filename url_path url cd) \<and>
   sanitize_filename (extract_filename url_path url cd) = extract_filename url_path url cd"
proof -
  have safe: "safe_name (extract_filename url_path url cd)"
    unfolding extract_filename_def Let_def by (simp add: sanitize_filename_def)
      (metis sanitize_filename_def sanitize_filename_safe)
  with sanitize_filename_safe_id show ?thesis by blast
qed

section \<open>Percent decoding inverts percent encoding\<close>

text \<open>The reference encoder: every byte as \<open>%XX\<close>.\<close>

definition percent_encode :: "ustr \<Rightarrow> ustr" where
  "percent_encode s =
     concat (map (\<lambda>b. [37, hex_upper (unat b div 16), hex_upper (unat b mod 16)]) (utf8_encode s))"

lemma hex_digit_upper: "n < 16 \<Longrightarrow> hex_digit (of_nat (hex_upper n)) = Some (of_nat n)"
proof -
  assume "n < 16"
  then have "n \<in> set (upt 0 16)" by simp
  then show ?thesis
    unfolding upt_rec_numeral by (auto simp: hex_digit_def hex_upper_def upt_rec)
qed

lemma decode_bytes_encoded:
  "decode_bytes (of_nat 37 # of_nat (hex_upper (unat b div 16)) # of_nat (hex_upper (unat b mod 16)) # r)
   = b # decode_bytes r"
proof -
  have b: "unat b < 256" by (rule u8_bound)
  have "(of_nat (unat b div 16) * 16 + of_nat (unat b mod 16) :: u8) =
      of_nat (unat b div 16 * 16 + unat b mod 16)"
    by (simp only: of_nat_add of_nat_mult of_nat_numeral)
  also have "\<dots> = b" by (simp only: div_mult_mod_eq) simp
  finally have "parse_hex_pair (of_nat (hex_upper (unat b div 16))) (of_nat (hex_upper (unat b mod 16)))
      = Some b"
    using b by (simp add: parse_hex_pair_def hex_digit_upper)
  then show ?thesis by simp
qed

text \<open>
  \<open>percent_decode\<close> inverts percent encoding of the UTF-8 bytes of any text.
\<close>

theorem percent_decode_encode:
  assumes "\<forall>c \<in> set s. scalar c"
  shows "percent_decode (percent_encode s) = Some s"
proof -
  have ascii: "utf8_encode cs = map of_nat cs" if "\<forall>c \<in> set cs. c < 128" for cs
    using that by (induction cs) (simp_all add: utf8_encode_def utf8_char_def)
  have small: "\<forall>c \<in> set (percent_encode s). c < 128"
  proof -
    have "unat b div 16 < 16" for b :: u8
      using u8_bound[of b] by simp
    then have "hex_upper (unat b div 16) < 128" "hex_upper (unat b mod 16) < 128" for b :: u8
      by (simp_all add: hex_upper_small)
    then show ?thesis by (auto simp: percent_encode_def)
  qed
  have "decode_bytes (map of_nat (concat (map
      (\<lambda>b. [37, hex_upper (unat b div 16), hex_upper (unat b mod 16)]) bs))) = bs" for bs :: "u8 list"
  proof (induction bs)
    case (Cons b bs)
    then show ?case using decode_bytes_encoded[of b] by (simp only: list.map concat.simps append.simps)
  qed simp
  then have "decode_bytes (map of_nat (percent_encode s)) = utf8_encode s"
    unfolding percent_encode_def .
  then show ?thesis
    by (simp add: percent_decode_def ascii[OF small] from_utf8_encode[OF assms])
qed

theorem percent_decode_encode_witness:
  "percent_decode (percent_encode [0x4E2D, 0x6587, 46, 98]) = Some [0x4E2D, 0x6587, 46, 98]"
  by (rule percent_decode_encode) (simp add: scalar_def del: One_nat_def)

end
