(* ===== verification/File_System.thy ===== *)
theory File_System
  imports Errors "HOL-Library.Sublist"
begin

text \<open>
  What the code uses of \<open>std::path\<close> and \<open>std::fs\<close> on a POSIX system: paths as lists of
  components, a file system with directories, files and symbolic links, path resolution
  (\<open>canonicalize\<close>, \<open>exists\<close>) and \<open>create_dir_all\<close>.
\<close>

section \<open>Paths\<close>

datatype component = RootDir | CurDir | ParentDir | Normal string

type_synonym path = "component list"

text \<open>A resolved path: the names below the root, with no link among them.\<close>

type_synonym real_path = "string list"

definition path_of :: "real_path \<Rightarrow> path" where
  "path_of p = RootDir # map Normal p"

definition path_parent :: "path \<Rightarrow> path option" where
  "path_parent p = (if p = [] \<or> last p = RootDir then None else Some (butlast p))"

definition path_file_name :: "path \<Rightarrow> string option" where
  "path_file_name p = (if p = [] then None else (case last p of Normal s \<Rightarrow> Some s | _ \<Rightarrow> None))"

definition starts_with :: "real_path \<Rightarrow> real_path \<Rightarrow> bool" where
  "starts_with p base = prefix base p"

text \<open>Paths from text.\<close>

fun path_segments :: "string \<Rightarrow> string \<Rightarrow> string list" where
  "path_segments acc [] = [acc]"
| "path_segments acc (c # s) = (if c = CHR ''/'' then acc # path_segments [] s else path_segments (acc @ [c]) s)"

definition segment_component :: "string \<Rightarrow> component" where
  "segment_component s = (if s = ''..'' then ParentDir else Normal s)"

text \<open>\<open>Path::components\<close>: a dot counts only at the start of a relative path.\<close>

definition parse_path :: "string \<Rightarrow> path" where
  "parse_path s =
     (let segs = path_segments [] s;
          root = (if s \<noteq> [] \<and> hd s = CHR ''/'' then [RootDir]
                  else if hd segs = ''.'' then [CurDir] else [])
      in root @ map segment_component (filter (\<lambda>x. x \<noteq> [] \<and> x \<noteq> ''.'') segs))"

definition path_join :: "path \<Rightarrow> path \<Rightarrow> path" where
  "path_join p q =
     (case q of
        RootDir # _ \<Rightarrow> q
      | CurDir # r \<Rightarrow> p @ r
      | _ \<Rightarrow> p @ q)"

text \<open>The text of a resolved path.\<close>

definition show_path :: "real_path \<Rightarrow> string" where
  "show_path p = (if p = [] then ''/'' else concat (map (\<lambda>s. CHR ''/'' # s) p))"

section \<open>The file system\<close>

datatype fnode = FDir | FFile | FLink path

text \<open>The root is a directory in every file system.\<close>

type_synonym fs = "real_path \<Rightarrow> fnode option"

definition node_at :: "fs \<Rightarrow> real_path \<Rightarrow> fnode option" where
  "node_at fs p = (if p = [] then Some FDir else fs p)"

text \<open>
  Resolution of the components \<open>cs\<close> from the directory \<open>cur\<close>. At most \<open>links\<close> symbolic links
  are followed (the kernel stops at 40 with \<open>ELOOP\<close>); \<^term>\<open>None\<close> is any error.
\<close>

function resolve :: "nat \<Rightarrow> fs \<Rightarrow> real_path \<Rightarrow> path \<Rightarrow> real_path option" where
  "resolve links fs cur [] = Some cur"
| "resolve links fs cur (RootDir # cs) = resolve links fs [] cs"
| "resolve links fs cur (CurDir # cs) = resolve links fs cur cs"
| "resolve links fs cur (ParentDir # cs) = resolve links fs (butlast cur) cs"
| "resolve links fs cur (Normal s # cs) =
     (case node_at fs (cur @ [s]) of
        None \<Rightarrow> None
      | Some FFile \<Rightarrow> if cs = [] then Some (cur @ [s]) else None
      | Some FDir \<Rightarrow> resolve links fs (cur @ [s]) cs
      | Some (FLink t) \<Rightarrow>
          (case links of 0 \<Rightarrow> None | Suc n \<Rightarrow> resolve n fs cur (t @ cs)))"
  by pat_completeness auto
termination
  by (relation "measures [\<lambda>(links, fs, cur, cs). links, \<lambda>(links, fs, cur, cs). length cs]") auto

definition max_links :: nat where
  "max_links = 40"

definition canonicalize :: "fs \<Rightarrow> real_path \<Rightarrow> path \<Rightarrow> real_path option" where
  "canonicalize fs cwd p = (if p = [] then None else resolve max_links fs cwd p)"

text \<open>\<open>exists\<close> follows links: a link whose target is missing does not exist.\<close>

definition path_exists :: "fs \<Rightarrow> real_path \<Rightarrow> path \<Rightarrow> bool" where
  "path_exists fs cwd p = (canonicalize fs cwd p \<noteq> None)"

definition is_dir :: "fs \<Rightarrow> real_path \<Rightarrow> path \<Rightarrow> bool" where
  "is_dir fs cwd p =
     (case canonicalize fs cwd p of None \<Rightarrow> False | Some r \<Rightarrow> node_at fs r = Some FDir)"

text \<open>\<open>symlink_metadata\<close>: the last component is not followed.\<close>

definition lstat :: "fs \<Rightarrow> real_path \<Rightarrow> path \<Rightarrow> fnode option" where
  "lstat fs cwd p =
     (if p = [] then None
      else case last p of
        Normal s \<Rightarrow>
          (case resolve max_links fs cwd (butlast p) of
             None \<Rightarrow> None
           | Some d \<Rightarrow> if node_at fs d = Some FDir then node_at fs (d @ [s]) else None)
      | _ \<Rightarrow> Option.bind (resolve max_links fs cwd p) (node_at fs))"

datatype mkdir_error = NotFound | AlreadyExists | OtherIo

definition mkdir :: "fs \<Rightarrow> real_path \<Rightarrow> path \<Rightarrow> mkdir_error + fs" where
  "mkdir fs cwd p =
     (if p = [] then Inl NotFound
      else case last p of
        Normal s \<Rightarrow>
          (case resolve max_links fs cwd (butlast p) of
             None \<Rightarrow> Inl NotFound
           | Some d \<Rightarrow>
               if node_at fs d \<noteq> Some FDir then Inl OtherIo
               else if node_at fs (d @ [s]) \<noteq> None then Inl AlreadyExists
               else Inr (fs(d @ [s] \<mapsto> FDir)))
      | _ \<Rightarrow> (if resolve max_links fs cwd p = None then Inl NotFound else Inl AlreadyExists))"

text \<open>
  \<open>create_dir_all\<close>: try, create the parent when it is missing, try again. The file system is
  returned also on failure: directories made on the way stay.
\<close>

function create_dir_all :: "fs \<Rightarrow> real_path \<Rightarrow> path \<Rightarrow> fs \<times> (download_error + unit)" where
  "create_dir_all fs cwd p =
     (if p = [] then (fs, Inr ())
      else case mkdir fs cwd p of
        Inr fs' \<Rightarrow> (fs', Inr ())
      | Inl NotFound \<Rightarrow>
          (case path_parent p of
             None \<Rightarrow> (fs, Inl (Io ''failed to create whole tree''))
           | Some parent \<Rightarrow>
               (case create_dir_all fs cwd parent of
                  (fs1, Inl e) \<Rightarrow> (fs1, Inl e)
                | (fs1, Inr _) \<Rightarrow>
                    (case mkdir fs1 cwd p of
                       Inr fs2 \<Rightarrow> (fs2, Inr ())
                     | Inl _ \<Rightarrow> if is_dir fs1 cwd p then (fs1, Inr ())
                                else (fs1, Inl (Io ''mkdir'')))))
      | Inl _ \<Rightarrow> if is_dir fs cwd p then (fs, Inr ()) else (fs, Inl (Io ''mkdir'')))"
  by auto
termination
  by (relation "measure (\<lambda>(fs, cwd, p). length p)") (auto simp: path_parent_def split: if_splits)

declare create_dir_all.simps [simp del]

section \<open>Resolved paths have no links\<close>

definition link_free :: "fs \<Rightarrow> real_path \<Rightarrow> bool" where
  "link_free fs p =
     (\<forall>q. prefix q p \<longrightarrow> (case node_at fs q of Some (FLink _) \<Rightarrow> False | None \<Rightarrow> False | _ \<Rightarrow> True))"

lemma link_free_Nil [simp]: "link_free fs []"
  by (simp add: link_free_def node_at_def)

lemma link_free_snoc:
  "link_free fs (p @ [s]) \<longleftrightarrow>
     link_free fs p \<and> (node_at fs (p @ [s]) = Some FDir \<or> node_at fs (p @ [s]) = Some FFile)"
  by (auto simp: link_free_def prefix_snoc split: option.splits fnode.splits)

lemma link_free_prefix: "link_free fs p \<Longrightarrow> prefix q p \<Longrightarrow> link_free fs q"
  by (auto simp: link_free_def intro: prefix_order.trans)

lemma resolve_link_free:
  "link_free fs cur \<Longrightarrow> resolve links fs cur cs = Some r \<Longrightarrow> link_free fs r"
proof (induction links fs cur cs rule: resolve.induct)
  case (4 links fs cur cs)
  then show ?case by (simp add: link_free_prefix[OF _ prefixeq_butlast])
next
  case (5 links fs cur s cs)
  then show ?case
    by (auto simp: link_free_snoc split: option.splits fnode.splits if_splits nat.splits)
qed auto

text \<open>A path without links resolves to itself, if at all.\<close>

lemma resolve_own_path:
  "link_free fs (cur @ p) \<Longrightarrow> resolve links fs cur (map Normal p) = Some r \<Longrightarrow> r = cur @ p"
proof (induction p arbitrary: cur)
  case (Cons s p)
  have "link_free fs (cur @ [s])" using Cons.prems(1) by (rule link_free_prefix) simp
  then have "node_at fs (cur @ [s]) = Some FDir \<or> node_at fs (cur @ [s]) = Some FFile"
    by (simp add: link_free_snoc)
  with Cons.prems Cons.IH[of "cur @ [s]"] show ?case by (auto split: if_splits)
qed simp

lemma canonicalize_own_path:
  "link_free fs p \<Longrightarrow> canonicalize fs cwd (path_of p) = Some r \<Longrightarrow> r = p"
  using resolve_own_path[of fs "[]" p] by (simp add: canonicalize_def path_of_def)

lemma link_free_mkdir:
  "link_free fs p \<Longrightarrow> fs q = None \<Longrightarrow> link_free (fs(q \<mapsto> FDir)) p"
  by (auto simp: link_free_def node_at_def split: if_splits)

text \<open>
  Where opening \<open>d/s\<close> for writing with \<open>O_CREAT\<close> puts the file: links in the last component
  are followed, also when their target is missing.
\<close>

fun open_create :: "nat \<Rightarrow> fs \<Rightarrow> real_path \<Rightarrow> string \<Rightarrow> real_path option" where
  "open_create links fs d s =
     (case node_at fs (d @ [s]) of
        None \<Rightarrow> if node_at fs d = Some FDir then Some (d @ [s]) else None
      | Some FFile \<Rightarrow> Some (d @ [s])
      | Some FDir \<Rightarrow> None
      | Some (FLink t) \<Rightarrow>
          (case links of
             0 \<Rightarrow> None
           | Suc n \<Rightarrow>
               (case path_file_name t of
                  None \<Rightarrow> None
                | Some s' \<Rightarrow>
                    (case resolve n fs d (butlast t) of
                       None \<Rightarrow> None
                     | Some d' \<Rightarrow> open_create n fs d' s'))))"

declare open_create.simps [simp del]

end
