(* ===== verification/Save_Path.thy ===== *)
theory Save_Path
  imports File_System
begin

text \<open>
  \<open>validate_save_path\<close> of \<open>tachyon-core/src/filename.rs\<close> on the file system model. The result
  carries the file system, which \<open>create_dir_all\<close> may have extended.
\<close>

definition validate_save_path ::
    "fs \<Rightarrow> real_path \<Rightarrow> path \<Rightarrow> path \<Rightarrow> fs \<times> real_path download_result" where
  "validate_save_path fs cwd final_path expected_base =
     (case canonicalize fs cwd expected_base of
        None \<Rightarrow> (fs, Inl (Config ''download directory missing''))
      | Some canonical_base \<Rightarrow>
          (case path_parent final_path of
             None \<Rightarrow> (fs, Inl (Config ''no parent''))
           | Some parent \<Rightarrow>
               (case (if \<not> path_exists fs cwd parent then create_dir_all fs cwd parent
                      else (fs, Inr ())) of
                  (fs1, Inl e) \<Rightarrow> (fs1, Inl e)
                | (fs1, Inr _) \<Rightarrow>
                    (fs1,
                     (case canonicalize fs1 cwd parent of
                        None \<Rightarrow> Inl (Config ''cannot resolve parent'')
                      | Some canonical_parent \<Rightarrow>
                          if \<not> starts_with canonical_parent canonical_base
                          then Inl (Config ''parent escapes'')
                          else
                            (case path_file_name final_path of
                               None \<Rightarrow> Inl (Config ''no file name'')
                             | Some file_name \<Rightarrow>
                                 (let result = canonical_parent @ [file_name]
                                  in if path_exists fs1 cwd (path_of result) then
                                       (case canonicalize fs1 cwd (path_of result) of
                                          None \<Rightarrow> Inl (Config ''cannot resolve file'')
                                        | Some canonical_final \<Rightarrow>
                                            if \<not> starts_with canonical_final canonical_base
                                            then Inl (Config ''link escapes'')
                                            else Inr canonical_final)
                                     else Inr result)))))))"

lemma canonicalize_link_free:
  "link_free fs cwd \<Longrightarrow> canonicalize fs cwd p = Some r \<Longrightarrow> link_free fs r"
  by (auto simp: canonicalize_def intro: resolve_link_free split: if_splits)

text \<open>
  C3. A path that \<open>validate_save_path\<close> accepts lies below the resolved download directory, and
  its parent has no symbolic link on it; when the file is there already, the whole path is
  free of links, so that opening it cannot leave the directory. The state of the file
  system is the one after missing parent directories were created.
\<close>

theorem validate_save_path_inside:
  assumes "validate_save_path fs cwd final_path base = (fs1, Inr r)"
    and "link_free fs1 cwd"
  shows "\<exists>b. canonicalize fs cwd base = Some b \<and> starts_with r b \<and>
    (link_free fs1 r \<or>
     link_free fs1 (butlast r) \<and> starts_with (butlast r) b \<and>
     \<not> path_exists fs1 cwd (path_of r))"
proof -
  from assms(1) obtain b parent cp name where
    b: "canonicalize fs cwd base = Some b" and cp: "canonicalize fs1 cwd parent = Some cp"
    and inside: "starts_with cp b"
    and r: "if path_exists fs1 cwd (path_of (cp @ [name]))
            then canonicalize fs1 cwd (path_of (cp @ [name])) = Some r \<and> starts_with r b
            else r = cp @ [name]"
  proof -
    from assms(1) obtain b parent where 1: "canonicalize fs cwd base = Some b"
      "path_parent final_path = Some parent"
      by (auto simp: validate_save_path_def split: option.splits)
    from assms(1) 1 obtain cp name where 2: "canonicalize fs1 cwd parent = Some cp"
      "starts_with cp b" "path_file_name final_path = Some name"
      by (auto simp: validate_save_path_def split: option.splits sum.splits prod.splits if_splits)
    have 3: "if path_exists fs1 cwd (path_of (cp @ [name]))
        then canonicalize fs1 cwd (path_of (cp @ [name])) = Some r \<and> starts_with r b
        else r = cp @ [name]"
      using assms(1) 1 2
      by (auto simp: validate_save_path_def Let_def path_exists_def
          split: option.splits sum.splits prod.splits if_splits)
    from that[OF 1(1) 2(1,2) 3] show thesis .
  qed
  have lf: "link_free fs1 cp" using canonicalize_link_free[OF assms(2) cp] .
  show ?thesis
  proof (cases "path_exists fs1 cwd (path_of (cp @ [name]))")
    case True
    then have "link_free fs1 r" using r canonicalize_link_free[OF assms(2)] by auto
    then show ?thesis using True r b by auto
  next
    case False
    then have eq: "r = cp @ [name]" using r by simp
    with lf inside False b show ?thesis
      by (auto simp: starts_with_def intro: prefix_order.trans)
  qed
qed

text \<open>A file system with a dangling link below the download directory.\<close>

definition sample_fs :: fs where
  "sample_fs = [[''dl''] \<mapsto> FDir, [''etc''] \<mapsto> FDir, [''dl'', ''a''] \<mapsto> FFile,
     [''dl'', ''x''] \<mapsto> FLink [RootDir, Normal ''etc'', Normal ''evil'']]"

lemmas eval_fs = validate_save_path_def canonicalize_def path_exists_def path_parent_def
  path_file_name_def path_of_def node_at_def sample_fs_def starts_with_def max_links_def

theorem validate_save_path_inside_witness:
  "validate_save_path sample_fs [] [RootDir, Normal ''dl'', Normal ''a''] [RootDir, Normal ''dl'']
     = (sample_fs, Inr [''dl'', ''a'']) \<and> starts_with [''dl'', ''a''] [''dl'']"
proof -
  have 1: "validate_save_path sample_fs [] [RootDir, Normal ''dl'', Normal ''a''] [RootDir, Normal ''dl'']
      = (sample_fs, Inr [''dl'', ''a''])"
    by (simp add: eval_fs)
  from validate_save_path_inside[OF 1] have "\<exists>b. canonicalize sample_fs [] [RootDir, Normal ''dl''] = Some b \<and>
      starts_with [''dl'', ''a''] b"
    by auto
  moreover have "canonicalize sample_fs [] [RootDir, Normal ''dl''] = Some [''dl'']"
    by (simp add: eval_fs)
  ultimately show ?thesis using 1 by auto
qed

text \<open>
  The check does not stop a dangling link: \<open>exists\<close> follows links, so a link in the
  download directory whose target is missing counts as absent, the path is accepted, and
  creating the file writes the target outside the directory.
\<close>

theorem validate_save_path_dangling_link:
  "validate_save_path sample_fs [] [RootDir, Normal ''dl'', Normal ''x''] [RootDir, Normal ''dl'']
     = (sample_fs, Inr [''dl'', ''x'']) \<and>
   open_create max_links sample_fs [''dl''] ''x'' = Some [''etc'', ''evil''] \<and>
   \<not> starts_with [''etc'', ''evil''] [''dl'']"
  by (simp add: eval_fs open_create.simps)

end
