(* ===== verification/Fragment_Record.thy ===== *)
theory Fragment_Record
  imports Core_Types Config_Types
begin

text \<open>
  \<open>tachyon-engine/src/fragment.rs\<close>: the state machine of one fragment with its retry
  counter and backoff, the EWMA bandwidth tracker and the fragment size computation. A
  \<open>Duration\<close> is its number of nanoseconds.
\<close>

type_synonym duration = nat

definition from_secs :: "u64 \<Rightarrow> duration" where
  "from_secs s = unat s * 1000000000"

text \<open>\<open>as_secs_f64\<close>: seconds plus nanoseconds over \<open>1e9\<close>, each step rounded.\<close>

definition as_secs_f64 :: "duration \<Rightarrow> f64" where
  "as_secs_f64 d =
     f64_add (f64_of_nat (d div 1000000000))
       (f64_div (f64_of_nat (d mod 1000000000)) (f64_of_nat 1000000000))"

section \<open>The record of a fragment\<close>

datatype fragment_state = FPending | FDownloading | FVerifying | FWriting | FDone | FFailed

record fragment_record =
  fr_info :: fragment_info
  fr_state :: fragment_state
  fr_retry_count :: u32
  fr_max_retries :: u32
  fr_last_duration :: "duration option"

definition fragment_record_new :: "fragment_info \<Rightarrow> u32 \<Rightarrow> fragment_record" where
  "fragment_record_new info mr =
     \<lparr>fr_info = info, fr_state = FPending, fr_retry_count = 0, fr_max_retries = mr,
      fr_last_duration = None\<rparr>"

text \<open>
  A method on \<open>&mut self\<close> returns the record with the result; on an error the record is
  unchanged.
\<close>

definition illegal :: "'a download_result" where
  "illegal = Inl (Fragment ''illegal state transition'')"

definition start_download :: "fragment_record \<Rightarrow> fragment_record \<times> unit download_result" where
  "start_download r =
     (if fr_state r \<noteq> FPending then (r, illegal) else (r\<lparr>fr_state := FDownloading\<rparr>, Inr ()))"

definition complete_download ::
    "u64 \<Rightarrow> duration \<Rightarrow> fragment_record \<Rightarrow> fragment_record \<times> unit download_result" where
  "complete_download downloaded dur r =
     (if fr_state r \<noteq> FDownloading then (r, illegal)
      else (r\<lparr>fr_info := (fr_info r)\<lparr>fi_downloaded := downloaded\<rparr>,
              fr_last_duration := Some dur, fr_state := FVerifying\<rparr>, Inr ()))"

definition complete_download_fast ::
    "u64 \<Rightarrow> duration \<Rightarrow> fragment_record \<Rightarrow> fragment_record \<times> unit download_result" where
  "complete_download_fast downloaded dur r =
     (if fr_state r \<noteq> FDownloading then (r, illegal)
      else (r\<lparr>fr_info := (fr_info r)\<lparr>fi_downloaded := downloaded\<rparr>,
              fr_last_duration := Some dur, fr_state := FDone\<rparr>, Inr ()))"

definition verify_ok :: "fragment_record \<Rightarrow> fragment_record \<times> unit download_result" where
  "verify_ok r =
     (if fr_state r \<noteq> FVerifying then (r, illegal) else (r\<lparr>fr_state := FWriting\<rparr>, Inr ()))"

definition write_done :: "fragment_record \<Rightarrow> fragment_record \<times> unit download_result" where
  "write_done r =
     (if fr_state r \<noteq> FWriting then (r, illegal) else (r\<lparr>fr_state := FDone\<rparr>, Inr ()))"

definition mark_failed :: "fragment_record \<Rightarrow> fragment_record \<times> bool download_result" where
  "mark_failed r =
     (if fr_state r \<notin> {FDownloading, FVerifying, FWriting} then (r, illegal)
      else
        (let r = r\<lparr>fr_retry_count := fr_retry_count r + 1\<rparr>
         in if fr_retry_count r \<le> fr_max_retries r then (r\<lparr>fr_state := FPending\<rparr>, Inr True)
            else (r\<lparr>fr_state := FFailed\<rparr>, Inr False)))"

definition force_fail :: "fragment_record \<Rightarrow> fragment_record" where
  "force_fail r = r\<lparr>fr_state := FFailed\<rparr>"

definition is_done :: "fragment_record \<Rightarrow> bool" where
  "is_done r = (fr_state r = FDone)"

definition is_failed :: "fragment_record \<Rightarrow> bool" where
  "is_failed r = (fr_state r = FFailed)"

text \<open>\<open>trailing_zeros\<close>: 64 for zero.\<close>

definition trailing_zeros :: "u64 \<Rightarrow> nat" where
  "trailing_zeros w = length (takeWhile (\<lambda>i. \<not> bit w i) [0..<64])"

definition backoff_secs :: "u64 option \<Rightarrow> fragment_record \<Rightarrow> u64" where
  "backoff_secs jitter_seed r =
     (let base_secs = push_bit (unat (min (fr_retry_count r) 10)) 1;
          jittered =
            (case jitter_seed of
               Some seed \<Rightarrow>
                 if base_secs > 1 then
                   (let log2 = trailing_zeros base_secs;
                        hash = seed * 0x517cc1b727220a95;
                        jitter = drop_bit (64 - log2) hash
                    in saturating_sub base_secs jitter)
                 else base_secs
             | None \<Rightarrow> base_secs)
      in max jittered 1)"

definition backoff_duration :: "u64 option \<Rightarrow> fragment_record \<Rightarrow> duration" where
  "backoff_duration jitter_seed r = from_secs (backoff_secs jitter_seed r)"

section \<open>The bandwidth tracker\<close>

record bandwidth_tracker =
  bt_ewma :: f64
  bt_alpha :: f64
  bt_sample_count :: usize

definition tracker_new :: "f64 \<Rightarrow> bandwidth_tracker" where
  "tracker_new alpha =
     \<lparr>bt_ewma = Fin 0, bt_alpha = f64_clamp alpha (Fin 0) (Fin 1), bt_sample_count = 0\<rparr>"

definition tracker_record :: "u64 \<Rightarrow> bandwidth_tracker \<Rightarrow> bandwidth_tracker" where
  "tracker_record bytes_per_sec t =
     (if bytes_per_sec = 0 then t
      else
        (let t = t\<lparr>bt_sample_count := bt_sample_count t + 1\<rparr>
         in if bt_sample_count t = 1 then t\<lparr>bt_ewma := f64_of_word bytes_per_sec\<rparr>
            else t\<lparr>bt_ewma :=
                     f64_add (f64_mul (bt_alpha t) (f64_of_word bytes_per_sec))
                       (f64_mul (f64_sub (Fin 1) (bt_alpha t)) (bt_ewma t))\<rparr>))"

definition estimate :: "bandwidth_tracker \<Rightarrow> u64" where
  "estimate t = word_of_f64 (bt_ewma t)"

definition sample_count :: "bandwidth_tracker \<Rightarrow> usize" where
  "sample_count t = bt_sample_count t"

definition tracker_default :: bandwidth_tracker where
  "tracker_default = tracker_new (rnd (3 / 10))"

section \<open>The size of a fragment\<close>

text \<open>\<^term>\<open>None\<close> is the panic of \<open>clamp\<close> when the bounds are crossed.\<close>

definition compute_fragment_size ::
    "u64 \<Rightarrow> u64 \<Rightarrow> u64 \<Rightarrow> u64 \<Rightarrow> u32 \<Rightarrow> u64 \<Rightarrow> u64 \<Rightarrow> u64 option" where
  "compute_fragment_size file_size bandwidth_bps min_size max_size target_fragments
       high_bw medium_bw =
     (if file_size = 0 then Some 0
      else
        (let base = file_size div ucast (max target_fragments 1);
             bandwidth_factor =
               (if bandwidth_bps > high_bw then Fin 2
                else if bandwidth_bps > medium_bw then Fin (3 / 2)
                else Fin 1);
             adjusted = word_of_f64 (f64_mul (f64_of_word base) bandwidth_factor)
         in clamp_word adjusted min_size max_size))"

lemma compute_fragment_size_range:
  assumes "lo \<le> hi" "file_size \<noteq> 0"
  shows "\<exists>n. compute_fragment_size file_size bw lo hi target high medium = Some n \<and> lo \<le> n \<and> n \<le> hi"
  using assms by (auto simp: compute_fragment_size_def clamp_word_Some Let_def max_def min_def)

section \<open>Retries\<close>

text \<open>Any sequence of calls on one record, with what \<open>mark_failed\<close> answered.\<close>

datatype frag_op =
    OStart
  | OComplete u64 duration
  | OCompleteFast u64 duration
  | OVerifyOk
  | OWriteDone
  | OMarkFailed
  | OForceFail

fun apply_op :: "frag_op \<Rightarrow> fragment_record \<Rightarrow> fragment_record \<times> bool" where
  "apply_op OStart r = (fst (start_download r), False)"
| "apply_op (OComplete n d) r = (fst (complete_download n d r), False)"
| "apply_op (OCompleteFast n d) r = (fst (complete_download_fast n d r), False)"
| "apply_op OVerifyOk r = (fst (verify_ok r), False)"
| "apply_op OWriteDone r = (fst (write_done r), False)"
| "apply_op OMarkFailed r = (fst (mark_failed r), snd (mark_failed r) = Inr True)"
| "apply_op OForceFail r = (force_fail r, False)"

text \<open>The record after the calls and the number of retries granted.\<close>

fun run_ops :: "frag_op list \<Rightarrow> fragment_record \<Rightarrow> fragment_record \<times> nat" where
  "run_ops [] r = (r, 0)"
| "run_ops (op # ops) r =
     (let (r1, granted) = apply_op op r; (r2, n) = run_ops ops r1
      in (r2, (if granted then 1 else 0) + n))"

lemma run_ops_Cons:
  "run_ops (op # ops) r =
     (fst (run_ops ops (fst (apply_op op r))),
      (if snd (apply_op op r) then 1 else 0) + snd (run_ops ops (fst (apply_op op r))))"
  by (simp add: case_prod_beta Let_def)

declare run_ops.simps(2) [simp del]

lemmas frag_op_defs =
  start_download_def complete_download_def complete_download_fast_def verify_ok_def
  write_done_def mark_failed_def force_fail_def

text \<open>
  The retry counter moves only with a failure, and a record that is not failed is within its
  limit.
\<close>

definition retry_inv :: "fragment_record \<Rightarrow> bool" where
  "retry_inv r =
     (fr_state r = FFailed \<or> unat (fr_retry_count r) \<le> unat (fr_max_retries r))"

lemma apply_op_max [simp]: "fr_max_retries (fst (apply_op op r)) = fr_max_retries r"
  by (cases op) (auto simp: frag_op_defs Let_def)

lemma mark_failed_granted:
  assumes "retry_inv r" "fr_max_retries r \<noteq> - 1" "snd (mark_failed r) = Inr True"
  shows "unat (fr_retry_count (fst (mark_failed r))) = unat (fr_retry_count r) + 1 \<and>
    fr_state (fst (mark_failed r)) = FPending"
proof -
  have st: "fr_state r \<in> {FDownloading, FVerifying, FWriting}"
    using assms(3) by (auto simp: mark_failed_def illegal_def split: if_splits)
  then have "unat (fr_retry_count r) \<le> unat (fr_max_retries r)"
    using assms(1) by (auto simp: retry_inv_def)
  moreover have "unat (fr_max_retries r) < unat (- 1 :: u32)"
    using assms(2) by (metis word_less_nat_alt word_order.not_eq_extremum)
  ultimately have "unat (fr_retry_count r + 1) = unat (fr_retry_count r) + 1"
    by (intro unat_suc_below[of _ "- 1"]) linarith
  then show ?thesis
    using st assms(3) by (auto simp: mark_failed_def Let_def illegal_def split: if_splits)
qed

lemma failed_stays: "fr_state r = FFailed \<Longrightarrow> fr_state (fst (apply_op op r)) = FFailed"
  by (cases op) (auto simp: frag_op_defs)

lemma apply_op_retry_inv: "retry_inv r \<Longrightarrow> retry_inv (fst (apply_op op r))"
  by (cases op) (auto simp: frag_op_defs retry_inv_def Let_def word_le_nat_alt)

lemma apply_op_count:
  "op \<noteq> OMarkFailed \<Longrightarrow> fr_retry_count (fst (apply_op op r)) = fr_retry_count r"
  by (cases op) (auto simp: frag_op_defs)

lemma run_ops_failed: "fr_state r = FFailed \<Longrightarrow> snd (run_ops ops r) = 0"
proof (induction ops arbitrary: r)
  case (Cons op ops)
  have "\<not> snd (apply_op op r)"
    using Cons.prems by (cases op) (auto simp: frag_op_defs illegal_def)
  then show ?case
    using Cons.IH[OF failed_stays[OF Cons.prems, of op]] by (simp add: run_ops_Cons)
qed simp

lemma run_ops_granted:
  assumes "retry_inv r" "fr_max_retries r \<noteq> - 1"
  shows "fr_state r = FFailed \<or>
    snd (run_ops ops r) + unat (fr_retry_count r) \<le> unat (fr_max_retries r)"
  using assms
proof (induction ops arbitrary: r)
  case Nil
  then show ?case by (simp add: retry_inv_def)
next
  case (Cons op ops)
  let ?r = "fst (apply_op op r)"
  have IH: "fr_state ?r = FFailed \<or>
      snd (run_ops ops ?r) + unat (fr_retry_count ?r) \<le> unat (fr_max_retries r)"
    using Cons.IH[of ?r] Cons.prems by (simp add: apply_op_retry_inv)
  have eq: "snd (run_ops (op # ops) r) = (if snd (apply_op op r) then 1 else 0) + snd (run_ops ops ?r)"
    by (simp add: run_ops_Cons)
  show ?case
  proof (cases "snd (apply_op op r)")
    case True
    then have op: "op = OMarkFailed" by (cases op) auto
    then show ?thesis
      using mark_failed_granted[OF Cons.prems] True IH eq by auto
  next
    case False
    show ?thesis
    proof (cases "fr_state ?r = FFailed \<or> fr_state r = FFailed")
      case True
      then show ?thesis
        using False eq run_ops_failed[of ?r ops] Cons.prems(1) by (auto simp: retry_inv_def)
    next
      case nf: False
      have "op \<noteq> OMarkFailed \<or> fr_retry_count ?r = fr_retry_count r"
        using False nf by (auto simp: mark_failed_def Let_def illegal_def split: if_splits)
      then have "fr_retry_count ?r = fr_retry_count r" using apply_op_count by blast
      then show ?thesis using IH nf False eq by simp
    qed
  qed
qed

text \<open>
  C12. Over any sequence of calls on a fresh record, \<open>mark_failed\<close> grants at most
  \<open>max_retries\<close> retries, unless \<open>max_retries\<close> is the largest \<open>u32\<close>, where the counter wraps.
\<close>

theorem retries_bounded:
  assumes "mr \<noteq> - 1"
  shows "snd (run_ops ops (fragment_record_new info mr)) \<le> unat mr"
proof -
  let ?r = "fragment_record_new info mr"
  have "retry_inv ?r" "fr_max_retries ?r \<noteq> - 1" "fr_state ?r \<noteq> FFailed" "fr_retry_count ?r = 0"
    using assms by (simp_all add: retry_inv_def fragment_record_new_def)
  from run_ops_granted[OF this(1,2), of ops] this(3,4) show ?thesis
    by (simp add: fragment_record_new_def)
qed

definition sample_info :: fragment_info where
  "sample_info =
     \<lparr>fi_index = 0, fi_start = 0, fi_end = 9, fi_size = 10, fi_downloaded = 0, fi_hash = None\<rparr>"

theorem retries_bounded_witness:
  "snd (run_ops [OStart, OMarkFailed, OStart, OMarkFailed, OStart, OMarkFailed, OStart]
     (fragment_record_new sample_info 2)) \<le> 2"
  using retries_bounded[of 2 "[OStart, OMarkFailed, OStart, OMarkFailed, OStart, OMarkFailed, OStart]"
      sample_info]
  by simp

section \<open>Backoff\<close>

lemma unat_push_bit_1:
  assumes "k < 64"
  shows "unat (push_bit k (1 :: u64)) = 2 ^ k"
proof -
  have "(2 :: nat) ^ k < 2 ^ LENGTH(64)" using assms by (intro power_strict_increasing) auto
  from unat_of_nat_eq[OF this] show ?thesis by (simp add: push_bit_eq_mult)
qed

text \<open>
  The wait before retry \<open>n\<close> is between one second and \<open>2 ^ min n 10\<close> seconds whatever
  the jitter seed is, and equals the upper bound when there is no seed.
\<close>

theorem backoff_bounds:
  "1 \<le> unat (backoff_secs seed r) \<and>
   unat (backoff_secs seed r) \<le> 2 ^ min (unat (fr_retry_count r)) 10 \<and>
   unat (backoff_secs None r) = 2 ^ min (unat (fr_retry_count r)) 10"
proof -
  define k where "k = min (unat (fr_retry_count r)) 10"
  have k: "k < 64" by (simp add: k_def)
  have km: "unat (min (fr_retry_count r) 10) = k" by (simp add: k_def unat_min)
  define base :: u64 where "base = push_bit k 1"
  have ub: "unat base = 2 ^ k" using unat_push_bit_1[OF k] by (simp add: base_def)
  have none: "unat (backoff_secs None r) = 2 ^ k"
    unfolding backoff_secs_def Let_def km base_def[symmetric] by (simp add: unat_max ub)
  have "unat (backoff_secs seed r) \<le> 2 ^ k"
    unfolding backoff_secs_def Let_def km base_def[symmetric]
    by (auto simp: unat_max ub split: option.splits)
  moreover have "1 \<le> unat (backoff_secs seed r)"
    unfolding backoff_secs_def Let_def by (simp add: unat_max)
  ultimately show ?thesis using none by (simp add: k_def)
qed

end
