(* ===== verification/Circuit_Breaker.thy ===== *)
theory Circuit_Breaker
  imports Fragment_Record
begin

text \<open>
  \<open>tachyon-engine/src/circuit_breaker.rs\<close>. \<open>Instant\<close> and \<open>Duration\<close> are nanoseconds, \<open>now\<close>
  is what \<open>Instant::now()\<close> reads; \<open>elapsed\<close> saturates at zero. The table of breakers is the
  \<open>HashMap\<close> under the mutex.
\<close>

datatype circuit_state = Closed | Open | HalfOpen

record circuit_breaker =
  cb_failure_count :: u32
  cb_failure_threshold :: u32
  cb_open_duration :: duration
  cb_opened_at :: "nat option"
  cb_half_open_probe_sent :: bool

definition breaker_new :: "u32 \<Rightarrow> duration \<Rightarrow> circuit_breaker" where
  "breaker_new threshold dur =
     \<lparr>cb_failure_count = 0, cb_failure_threshold = threshold, cb_open_duration = dur,
      cb_opened_at = None, cb_half_open_probe_sent = False\<rparr>"

definition breaker_state :: "nat \<Rightarrow> circuit_breaker \<Rightarrow> circuit_state" where
  "breaker_state now b =
     (case cb_opened_at b of
        None \<Rightarrow> Closed
      | Some opened_at \<Rightarrow> if now - opened_at \<ge> cb_open_duration b then HalfOpen else Open)"

definition breaker_allow :: "nat \<Rightarrow> circuit_breaker \<Rightarrow> circuit_breaker \<times> bool" where
  "breaker_allow now b =
     (case breaker_state now b of
        Closed \<Rightarrow> (b, True)
      | Open \<Rightarrow> (b, False)
      | HalfOpen \<Rightarrow>
          if cb_half_open_probe_sent b then (b, False)
          else (b\<lparr>cb_half_open_probe_sent := True\<rparr>, True))"

definition breaker_success :: "circuit_breaker \<Rightarrow> circuit_breaker" where
  "breaker_success b =
     b\<lparr>cb_failure_count := 0, cb_opened_at := None, cb_half_open_probe_sent := False\<rparr>"

definition breaker_failure :: "nat \<Rightarrow> circuit_breaker \<Rightarrow> circuit_breaker" where
  "breaker_failure now b =
     (let b = b\<lparr>cb_failure_count := cb_failure_count b + 1\<rparr>
      in if cb_failure_count b \<ge> cb_failure_threshold b
         then b\<lparr>cb_opened_at := Some now, cb_half_open_probe_sent := False\<rparr>
         else b)"

section \<open>One breaker per source\<close>

record source_breakers =
  sb_breakers :: "string \<Rightarrow> circuit_breaker option"
  sb_failure_threshold :: u32
  sb_open_duration :: duration

definition breakers_new :: "u32 \<Rightarrow> duration \<Rightarrow> source_breakers" where
  "breakers_new threshold dur =
     \<lparr>sb_breakers = Map.empty, sb_failure_threshold = threshold, sb_open_duration = dur\<rparr>"

definition breaker_entry :: "source_breakers \<Rightarrow> string \<Rightarrow> circuit_breaker" where
  "breaker_entry s source =
     (case sb_breakers s source of
        Some b \<Rightarrow> b
      | None \<Rightarrow> breaker_new (sb_failure_threshold s) (sb_open_duration s))"

definition breakers_allow :: "nat \<Rightarrow> string \<Rightarrow> source_breakers \<Rightarrow> source_breakers \<times> bool" where
  "breakers_allow now source s =
     (let (b, ok) = breaker_allow now (breaker_entry s source)
      in (s\<lparr>sb_breakers := (sb_breakers s)(source \<mapsto> b)\<rparr>, ok))"

definition breakers_success :: "string \<Rightarrow> source_breakers \<Rightarrow> source_breakers" where
  "breakers_success source s =
     (case sb_breakers s source of
        None \<Rightarrow> s
      | Some b \<Rightarrow> s\<lparr>sb_breakers := (sb_breakers s)(source \<mapsto> breaker_success b)\<rparr>)"

definition breakers_failure :: "nat \<Rightarrow> string \<Rightarrow> source_breakers \<Rightarrow> source_breakers" where
  "breakers_failure now source s =
     s\<lparr>sb_breakers := (sb_breakers s)(source \<mapsto> breaker_failure now (breaker_entry s source))\<rparr>"

section \<open>Sequences of events\<close>

datatype breaker_event = EAllow nat | ESuccess | EFailure nat

fun breaker_step :: "breaker_event \<Rightarrow> circuit_breaker \<Rightarrow> circuit_breaker" where
  "breaker_step (EAllow now) b = fst (breaker_allow now b)"
| "breaker_step ESuccess b = breaker_success b"
| "breaker_step (EFailure now) b = breaker_failure now b"

definition breaker_run :: "breaker_event list \<Rightarrow> circuit_breaker \<Rightarrow> circuit_breaker" where
  "breaker_run es b = foldl (\<lambda>b e. breaker_step e b) b es"

text \<open>The failures since the last success, the abstract value the counter stands for.\<close>

fun trailing_failures :: "breaker_event list \<Rightarrow> nat" where
  "trailing_failures [] = 0"
| "trailing_failures (EAllow _ # es) = trailing_failures es"
| "trailing_failures (ESuccess # _) = 0"
| "trailing_failures (EFailure _ # es) = Suc (trailing_failures es)"

definition failures_since_success :: "breaker_event list \<Rightarrow> nat" where
  "failures_since_success es = trailing_failures (rev es)"

lemma failures_since_success_snoc:
  "failures_since_success (es @ [e]) =
     (case e of EAllow _ \<Rightarrow> failures_since_success es | ESuccess \<Rightarrow> 0
      | EFailure _ \<Rightarrow> Suc (failures_since_success es))"
  by (simp add: failures_since_success_def split: breaker_event.splits)

lemma trailing_failures_le: "trailing_failures es \<le> length es"
  by (induction es rule: trailing_failures.induct) auto

lemma breaker_run_snoc [simp]: "breaker_run (es @ [e]) b = breaker_step e (breaker_run es b)"
  by (simp add: breaker_run_def)

lemma breaker_run_Nil [simp]: "breaker_run [] b = b"
  by (simp add: breaker_run_def)

lemma breaker_step_threshold [simp]:
  "cb_failure_threshold (breaker_step e b) = cb_failure_threshold b"
  "cb_open_duration (breaker_step e b) = cb_open_duration b"
  by (cases e; simp add: breaker_allow_def breaker_success_def breaker_failure_def Let_def
      split: circuit_state.splits)+

lemma breaker_run_threshold [simp]:
  "cb_failure_threshold (breaker_run es b) = cb_failure_threshold b"
  "cb_open_duration (breaker_run es b) = cb_open_duration b"
  by (induction es rule: rev_induct) simp_all

lemma breaker_allow_keeps [simp]:
  "cb_failure_count (fst (breaker_allow now b)) = cb_failure_count b"
  "cb_opened_at (fst (breaker_allow now b)) = cb_opened_at b"
  by (simp_all add: breaker_allow_def split: circuit_state.splits)

lemma breaker_run_abs:
  fixes dur :: duration
  assumes "length es < 2 ^ 32" "0 < threshold"
  shows "unat (cb_failure_count (breaker_run es (breaker_new threshold dur))) =
      failures_since_success es \<and>
    (cb_opened_at (breaker_run es (breaker_new threshold dur)) \<noteq> None \<longleftrightarrow>
      unat threshold \<le> failures_since_success es)"
  using assms(1)
proof (induction es rule: rev_induct)
  case Nil
  then show ?case
    using assms(2) by (simp add: breaker_new_def failures_since_success_def word_gt_0 unat_gt_0)
next
  case (snoc e es)
  then have IH: "unat (cb_failure_count (breaker_run es (breaker_new threshold dur))) =
      failures_since_success es"
    "cb_opened_at (breaker_run es (breaker_new threshold dur)) \<noteq> None \<longleftrightarrow>
      unat threshold \<le> failures_since_success es"
    by simp_all
  show ?case
  proof (cases e)
    case (EAllow now)
    then show ?thesis using IH by (simp add: failures_since_success_snoc)
  next
    case ESuccess
    then show ?thesis
      using assms(2) by (simp add: failures_since_success_snoc breaker_success_def word_gt_0 unat_gt_0)
  next
    case (EFailure now)
    have "failures_since_success es \<le> length es"
      using trailing_failures_le[of "rev es"] by (simp add: failures_since_success_def)
    then have "unat (cb_failure_count (breaker_run es (breaker_new threshold dur)) + 1) =
        Suc (failures_since_success es)"
      using IH(1) snoc.prems by (subst unat_add_no_overflow) simp_all
    then show ?thesis
      using EFailure IH
      by (auto simp: failures_since_success_snoc breaker_failure_def Let_def word_le_nat_alt breaker_new_def)
  qed
qed



text \<open>
  A half-open probe whose outcome is never reported blocks the source for good: once the
  probe was let through, every later \<open>allow\<close> answers no, at any time and in any number, until
  a success or a failure is recorded.
\<close>

theorem lost_probe_blocks_forever:
  assumes "breaker_allow now b = (b1, True)" "breaker_state now b = HalfOpen"
    and "\<forall>e \<in> set es. \<exists>t. e = EAllow t" "later \<ge> now"
  shows "\<not> snd (breaker_allow later (breaker_run es b1))"
proof -
  from assms(1,2) have b1: "b1 = b\<lparr>cb_half_open_probe_sent := True\<rparr>"
    by (auto simp: breaker_allow_def split: if_splits)
  have stay: "breaker_run es b1 = b1"
    using assms(3)
  proof (induction es rule: rev_induct)
    case (snoc e es)
    then obtain t where "e = EAllow t" by auto
    with snoc show ?case
      by (auto simp: b1 breaker_allow_def split: circuit_state.splits)
  qed simp
  have "breaker_state later b1 = HalfOpen"
    using assms(2,4) by (auto simp: breaker_state_def b1 split: option.splits if_splits)
  then show ?thesis unfolding stay by (simp add: breaker_allow_def b1)
qed

theorem lost_probe_blocks_forever_witness:
  "\<not> snd (breaker_allow 5000 (breaker_run [EAllow 30, EAllow 40]
     (fst (breaker_allow 20 (breaker_failure 5 (breaker_new 1 10))))))"
  by (rule lost_probe_blocks_forever[of 20 "breaker_failure 5 (breaker_new 1 10)"])
    (simp_all add: breaker_failure_def breaker_new_def breaker_allow_def breaker_state_def)

section \<open>Sources do not interfere\<close>

text \<open>
  The contract of a table of breakers, as its callers use it: a query or a report about one
  source leaves what the table answers for another unchanged.
\<close>

locale per_source =
  fixes answer :: "'s \<Rightarrow> 'key \<Rightarrow> 'a"
    and touch :: "'key \<Rightarrow> 'op \<Rightarrow> 's \<Rightarrow> 's"
  assumes touch_other: "k \<noteq> k' \<Longrightarrow> answer (touch k op s) k' = answer s k'"
begin

lemma touch_others:
  "\<forall>(k, op) \<in> set ops. k \<noteq> k' \<Longrightarrow> answer (fold (\<lambda>(k, op). touch k op) ops s) k' = answer s k'"
  by (induction ops arbitrary: s) (auto simp: touch_other)

end

fun breakers_touch :: "string \<Rightarrow> breaker_event \<Rightarrow> source_breakers \<Rightarrow> source_breakers" where
  "breakers_touch source (EAllow now) s = fst (breakers_allow now source s)"
| "breakers_touch source ESuccess s = breakers_success source s"
| "breakers_touch source (EFailure now) s = breakers_failure now source s"

interpretation breakers: per_source breaker_entry breakers_touch
proof
  fix k k' :: string and op s
  assume "k \<noteq> k'"
  then show "breaker_entry (breakers_touch k op s) k' = breaker_entry s k'"
    by (cases op) (auto simp: breaker_entry_def breakers_allow_def breakers_success_def
        breakers_failure_def Let_def split: option.splits prod.splits)
qed

text \<open>
  Whatever is reported about other sources, a source is answered as if they did not exist.
\<close>

theorem breakers_isolated:
  assumes "\<forall>(k, op) \<in> set ops. k \<noteq> source"
  shows "snd (breakers_allow now source (fold (\<lambda>(k, op). breakers_touch k op) ops s)) =
    snd (breakers_allow now source s)"
  using breakers.touch_others[OF assms, of s] by (simp add: breakers_allow_def Let_def split: prod.splits)

theorem breakers_isolated_witness:
  "snd (breakers_allow 9 ''a'' (fold (\<lambda>(k, op). breakers_touch k op)
     [(''b'', EFailure 1), (''b'', EFailure 2)] (breakers_new 1 100))) =
   snd (breakers_allow 9 ''a'' (breakers_new 1 100))"
  by (rule breakers_isolated) simp

end
