(* ===== verification/Connection_Pool.thy ===== *)
theory Connection_Pool
  imports Config_Types
begin

text \<open>
  \<open>tachyon-engine/src/connection.rs\<close>: the pool that hands out connection permits under a
  global and a per-host limit. \<open>tokio::sync::Semaphore\<close> is a parameter, the record of the
  calls the code makes with the documented counting laws as hypotheses. An \<open>acquire\<close> is split at
  every point where another task can run, so that the steps below interleave as the
  executor interleaves them.
\<close>

section \<open>Semaphores\<close>

text \<open>\<open>sem_acquire\<close> is \<^term>\<open>None\<close> when the caller has to wait.\<close>

record 's sem_ops =
  sem_new :: "nat \<Rightarrow> 's"
  sem_acquire :: "'s \<Rightarrow> 's option"
  sem_release :: "'s \<Rightarrow> 's"
  sem_available :: "'s \<Rightarrow> nat"

definition sem_laws :: "'s sem_ops \<Rightarrow> bool" where
  "sem_laws ops \<longleftrightarrow>
     (\<forall>n. sem_available ops (sem_new ops n) = n) \<and>
     (\<forall>s. sem_acquire ops s = None \<longleftrightarrow> sem_available ops s = 0) \<and>
     (\<forall>s s'. sem_acquire ops s = Some s' \<longrightarrow> sem_available ops s = Suc (sem_available ops s')) \<and>
     (\<forall>s. sem_available ops (sem_release ops s) = Suc (sem_available ops s))"

definition counting_sem :: "nat sem_ops" where
  "counting_sem =
     \<lparr>sem_new = id, sem_acquire = (\<lambda>n. case n of 0 \<Rightarrow> None | Suc m \<Rightarrow> Some m), sem_release = Suc,
      sem_available = id\<rparr>"

lemma counting_sem_laws: "sem_laws counting_sem"
  by (auto simp: sem_laws_def counting_sem_def split: nat.splits)

lemma sem_lawsD:
  assumes "sem_laws ops"
  shows "sem_available ops (sem_new ops n) = n"
    "sem_acquire ops s = Some s' \<Longrightarrow> sem_available ops s = Suc (sem_available ops s')"
    "sem_available ops (sem_release ops s) = Suc (sem_available ops s)"
  using assms by (auto simp: sem_laws_def)

section \<open>The pool\<close>

record pool_config =
  pc_max_per_host :: u32
  pc_max_global :: u32

definition pool_config_default :: pool_config where
  "pool_config_default = \<lparr>pc_max_per_host = 16, pc_max_global = 256\<rparr>"

definition pool_config_from :: "connection_config \<Rightarrow> pool_config" where
  "pool_config_from c =
     \<lparr>pc_max_per_host = max_connections_per_host c, pc_max_global = max_global_connections c\<rparr>"

definition connection_config_from :: "pool_config \<Rightarrow> connection_config" where
  "connection_config_from c =
     connection_config_default\<lparr>max_connections_per_host := pc_max_per_host c,
       max_global_connections := pc_max_global c\<rparr>"

text \<open>
  Semaphores are shared through \<open>Arc\<close>: \<open>p_heap\<close> holds those ever made, \<open>p_hosts\<close> is the
  \<open>DashMap\<close> from hosts to positions in the heap.
\<close>

record 's pool =
  p_config :: pool_config
  p_global :: 's
  p_active_count :: u32
  p_hosts :: "(string \<times> nat) list"
  p_heap :: "'s list"
  p_cleanup_threshold :: usize

definition saturating_mul2 :: "usize \<Rightarrow> usize" where
  "saturating_mul2 n = (if unat n * 2 < 2 ^ 64 then n * 2 else - 1)"

definition pool_new :: "'s sem_ops \<Rightarrow> pool_config \<Rightarrow> 's pool" where
  "pool_new ops config =
     \<lparr>p_config = config, p_global = sem_new ops (unat (pc_max_global config)), p_active_count = 0,
      p_hosts = [], p_heap = [],
      p_cleanup_threshold = max (saturating_mul2 (ucast (pc_max_global config))) 64\<rparr>"

definition host_semaphore :: "'s sem_ops \<Rightarrow> string \<Rightarrow> 's pool \<Rightarrow> 's pool \<times> nat" where
  "host_semaphore ops host p =
     (case map_of (p_hosts p) host of
        Some sid \<Rightarrow> (p, sid)
      | None \<Rightarrow>
          (p\<lparr>p_heap := p_heap p @ [sem_new ops (unat (pc_max_per_host (p_config p)))],
             p_hosts := (host, length (p_heap p)) # p_hosts p\<rparr>, length (p_heap p)))"

definition cleanup_idle_hosts :: "'s sem_ops \<Rightarrow> 's pool \<Rightarrow> 's pool" where
  "cleanup_idle_hosts ops p =
     p\<lparr>p_hosts := filter (\<lambda>(_, sid). sem_available ops (p_heap p ! sid) <
                            unat (pc_max_per_host (p_config p))) (p_hosts p)\<rparr>"

definition active_connections :: "'s pool \<Rightarrow> u32" where
  "active_connections p = p_active_count p"

definition host_count :: "'s pool \<Rightarrow> nat" where
  "host_count p = length (p_hosts p)"

definition host_active_connections :: "'s sem_ops \<Rightarrow> string \<Rightarrow> 's pool \<Rightarrow> u32" where
  "host_active_connections ops host p =
     (case map_of (p_hosts p) host of
        None \<Rightarrow> 0
      | Some sid \<Rightarrow>
          (let used = (of_nat (unat (pc_max_per_host (p_config p))) :: usize)
                 - of_nat (sem_available ops (p_heap p ! sid))
           in ucast used))"

section \<open>The steps of \<open>acquire\<close> and of dropping a permit\<close>

text \<open>
  Where a task is: it holds nothing; a global permit; also the semaphore of the host; also
  its permit; the counter is incremented; the permit is returned to the caller. A drop
  decrements the counter, then releases the global and the host permit.
\<close>

datatype phase =
    Idle
  | HasGlobal string
  | HasSem string nat
  | HasPermit string nat
  | Counted string nat
  | Active string nat
  | Uncounted string nat
  | GlobalReleased string nat

definition take_host_permit :: "'s sem_ops \<Rightarrow> nat \<Rightarrow> 's pool \<Rightarrow> 's pool option" where
  "take_host_permit ops sid p =
     map_option (\<lambda>s. p\<lparr>p_heap := (p_heap p)[sid := s]\<rparr>) (sem_acquire ops (p_heap p ! sid))"

definition release_host_permit :: "'s sem_ops \<Rightarrow> nat \<Rightarrow> 's pool \<Rightarrow> 's pool" where
  "release_host_permit ops sid p =
     p\<lparr>p_heap := (p_heap p)[sid := sem_release ops (p_heap p ! sid)]\<rparr>"

definition release_global :: "'s sem_ops \<Rightarrow> 's pool \<Rightarrow> 's pool" where
  "release_global ops p = p\<lparr>p_global := sem_release ops (p_global p)\<rparr>"

text \<open>
  \<open>step_cancel\<close> and \<open>step_cancel_host\<close> are the drop of the future at an \<open>await\<close>.
\<close>

inductive pool_step ::
    "'s sem_ops \<Rightarrow> 's pool \<times> phase list \<Rightarrow> 's pool \<times> phase list \<Rightarrow> bool" for ops where
  step_global:
    "t < length ts \<Longrightarrow> ts ! t = Idle \<Longrightarrow> sem_acquire ops (p_global p) = Some g \<Longrightarrow>
     pool_step ops (p, ts) (p\<lparr>p_global := g\<rparr>, ts[t := HasGlobal host])"
| step_lookup:
    "t < length ts \<Longrightarrow> ts ! t = HasGlobal host \<Longrightarrow> host_semaphore ops host p = (p', sid) \<Longrightarrow>
     pool_step ops (p, ts) (p', ts[t := HasSem host sid])"
| step_host:
    "t < length ts \<Longrightarrow> ts ! t = HasSem host sid \<Longrightarrow> take_host_permit ops sid p = Some p' \<Longrightarrow>
     pool_step ops (p, ts) (p', ts[t := HasPermit host sid])"
| step_count:
    "t < length ts \<Longrightarrow> ts ! t = HasPermit host sid \<Longrightarrow>
     pool_step ops (p, ts) (p\<lparr>p_active_count := p_active_count p + 1\<rparr>, ts[t := Counted host sid])"
| step_return:
    "t < length ts \<Longrightarrow> ts ! t = Counted host sid \<Longrightarrow>
     p' = (if host_count p > unat (p_cleanup_threshold p) then cleanup_idle_hosts ops p else p) \<Longrightarrow>
     pool_step ops (p, ts) (p', ts[t := Active host sid])"
| step_drop_count:
    "t < length ts \<Longrightarrow> ts ! t = Active host sid \<Longrightarrow>
     pool_step ops (p, ts) (p\<lparr>p_active_count := p_active_count p - 1\<rparr>, ts[t := Uncounted host sid])"
| step_drop_global:
    "t < length ts \<Longrightarrow> ts ! t = Uncounted host sid \<Longrightarrow>
     pool_step ops (p, ts) (release_global ops p, ts[t := GlobalReleased host sid])"
| step_drop_host:
    "t < length ts \<Longrightarrow> ts ! t = GlobalReleased host sid \<Longrightarrow>
     pool_step ops (p, ts) (release_host_permit ops sid p, ts[t := Idle])"
| step_cancel:
    "t < length ts \<Longrightarrow> ts ! t = HasSem host sid \<Longrightarrow>
     pool_step ops (p, ts) (release_global ops p, ts[t := Idle])"
| step_cleanup:
    "pool_step ops (p, ts) (cleanup_idle_hosts ops p, ts)"

inductive_cases pool_stepE: "pool_step ops (p, ts) (p', ts')"

inductive pool_reach :: "'s sem_ops \<Rightarrow> pool_config \<Rightarrow> nat \<Rightarrow> 's pool \<times> phase list \<Rightarrow> bool"
  for ops config tasks where
  reach_init: "pool_reach ops config tasks (pool_new ops config, replicate tasks Idle)"
| reach_step: "pool_reach ops config tasks c \<Longrightarrow> pool_step ops c c' \<Longrightarrow> pool_reach ops config tasks c'"

section \<open>Permits are conserved\<close>

fun holds_global :: "phase \<Rightarrow> bool" where
  "holds_global Idle = False"
| "holds_global (GlobalReleased _ _) = False"
| "holds_global _ = True"

fun holds_host :: "nat \<Rightarrow> phase \<Rightarrow> bool" where
  "holds_host sid (HasPermit _ s) = (s = sid)"
| "holds_host sid (Counted _ s) = (s = sid)"
| "holds_host sid (Active _ s) = (s = sid)"
| "holds_host sid (Uncounted _ s) = (s = sid)"
| "holds_host sid (GlobalReleased _ s) = (s = sid)"
| "holds_host sid _ = False"

fun counted :: "phase \<Rightarrow> bool" where
  "counted (Counted _ _) = True"
| "counted (Active _ _) = True"
| "counted _ = False"

fun knows_sem :: "phase \<Rightarrow> nat option" where
  "knows_sem (HasSem _ s) = Some s"
| "knows_sem (HasPermit _ s) = Some s"
| "knows_sem (Counted _ s) = Some s"
| "knows_sem (Active _ s) = Some s"
| "knows_sem (Uncounted _ s) = Some s"
| "knows_sem (GlobalReleased _ s) = Some s"
| "knows_sem _ = None"

definition pool_inv :: "'s sem_ops \<Rightarrow> pool_config \<Rightarrow> 's pool \<times> phase list \<Rightarrow> bool" where
  "pool_inv ops config = (\<lambda>(p, ts).
     p_config p = config \<and>
     sem_available ops (p_global p) + count_if holds_global ts = unat (pc_max_global config) \<and>
     (\<forall>sid < length (p_heap p).
        sem_available ops (p_heap p ! sid) + count_if (holds_host sid) ts =
        unat (pc_max_per_host config)) \<and>
     p_active_count p = of_nat (count_if counted ts) \<and>
     (\<forall>ph \<in> set ts. \<forall>sid. knows_sem ph = Some sid \<longrightarrow> sid < length (p_heap p)) \<and>
     (\<forall>(h, sid) \<in> set (p_hosts p). sid < length (p_heap p)))"

lemma holds_host_knows: "holds_host sid ph \<Longrightarrow> knows_sem ph = Some sid"
  by (cases ph) auto

lemma pool_inv_I:
  assumes "p_config p = config"
    "sem_available ops (p_global p) + count_if holds_global ts = unat (pc_max_global config)"
    "\<And>sid. sid < length (p_heap p) \<Longrightarrow>
        sem_available ops (p_heap p ! sid) + count_if (holds_host sid) ts =
        unat (pc_max_per_host config)"
    "p_active_count p = of_nat (count_if counted ts)"
    "\<And>ph sid. ph \<in> set ts \<Longrightarrow> knows_sem ph = Some sid \<Longrightarrow> sid < length (p_heap p)"
    "\<And>h sid. (h, sid) \<in> set (p_hosts p) \<Longrightarrow> sid < length (p_heap p)"
  shows "pool_inv ops config (p, ts)"
  using assms by (auto simp: pool_inv_def)

lemma pool_invD:
  assumes "pool_inv ops config (p, ts)"
  shows "p_config p = config"
    "sem_available ops (p_global p) + count_if holds_global ts = unat (pc_max_global config)"
    "sid < length (p_heap p) \<Longrightarrow>
        sem_available ops (p_heap p ! sid) + count_if (holds_host sid) ts =
        unat (pc_max_per_host config)"
    "p_active_count p = of_nat (count_if counted ts)"
    "ph \<in> set ts \<Longrightarrow> knows_sem ph = Some sid \<Longrightarrow> sid < length (p_heap p)"
    "(h, sid) \<in> set (p_hosts p) \<Longrightarrow> sid < length (p_heap p)"
  using assms by (auto simp: pool_inv_def)

lemma knows_update:
  assumes "\<And>ph sid. ph \<in> set ts \<Longrightarrow> knows_sem ph = Some sid \<Longrightarrow> sid < n"
    and "\<And>sid. knows_sem q = Some sid \<Longrightarrow> sid < n"
    and "ph \<in> set (ts[t := q])" "knows_sem ph = Some sid"
  shows "sid < n"
  using assms set_update_subset_insert[of ts t q] by blast

text \<open>A step that changes one phase and no host permit.\<close>

lemma pool_inv_same_host:
  assumes inv: "pool_inv ops config (p, ts)" and t: "t < length ts"
    and heap: "p_heap p' = p_heap p" and cfg: "p_config p' = p_config p"
    and hosts: "set (p_hosts p') \<subseteq> set (p_hosts p)"
    and same: "\<And>sid. holds_host sid q = holds_host sid (ts ! t)"
    and knows: "knows_sem q = None \<or> knows_sem q = knows_sem (ts ! t)"
    and glob: "sem_available ops (p_global p') + (if holds_global q then 1 else 0) =
       sem_available ops (p_global p) + (if holds_global (ts ! t) then 1 else 0)"
    and cnt: "p_active_count p' + (if counted (ts ! t) then 1 else 0) =
       p_active_count p + (if counted q then 1 else 0)"
  shows "pool_inv ops config (p', ts[t := q])"
proof (rule pool_inv_I)
  note I = pool_invD[OF inv]
  show "p_config p' = config" using cfg I(1) by simp
  show "sem_available ops (p_global p') + count_if holds_global (ts[t := q]) = unat (pc_max_global config)"
    using I(2) glob count_if_update[OF t, of holds_global q] by (simp split: if_splits)
  show "sem_available ops (p_heap p' ! sid) + count_if (holds_host sid) (ts[t := q]) =
      unat (pc_max_per_host config)" if "sid < length (p_heap p')" for sid
    using I(3)[of sid] that heap same[of sid] count_if_update[OF t, of "holds_host sid" q]
    by (simp split: if_splits)
  have "of_nat (count_if counted (ts[t := q]) + (if counted (ts ! t) then 1 else 0)) =
      (of_nat (count_if counted ts + (if counted q then 1 else 0)) :: u32)"
    using count_if_update[OF t, of counted q] by simp
  then have "of_nat (count_if counted (ts[t := q])) + (if counted (ts ! t) then 1 else 0) =
      p_active_count p' + (if counted (ts ! t) then 1 else 0)"
    using I(4) cnt by (simp split: if_splits)
  then show "p_active_count p' = of_nat (count_if counted (ts[t := q]))"
    by (simp only: add_right_cancel)
  show "sid < length (p_heap p')" if "ph \<in> set (ts[t := q])" "knows_sem ph = Some sid" for ph sid
  proof (rule knows_update[OF _ _ that])
    show "sid < length (p_heap p')" if "ph \<in> set ts" "knows_sem ph = Some sid" for ph sid
      using I(5)[OF that] heap by simp
    show "sid < length (p_heap p')" if "knows_sem q = Some sid" for sid
      using I(5)[of "ts ! t" sid] that knows t heap by auto
  qed
  show "sid < length (p_heap p')" if "(h, sid) \<in> set (p_hosts p')" for h sid
    using I(6)[of h sid] that hosts heap by auto
qed

text \<open>A step that takes or gives back a permit of the semaphore \<open>k\<close>.\<close>

lemma pool_inv_host_change:
  assumes inv: "pool_inv ops config (p, ts)" and t: "t < length ts"
    and k: "k < length (p_heap p)"
    and knows: "\<And>sid. knows_sem q = Some sid \<Longrightarrow> sid = k"
    and glob: "holds_global q = holds_global (ts ! t)"
    and cnt: "counted q = counted (ts ! t)"
    and other: "\<And>sid. sid \<noteq> k \<Longrightarrow> holds_host sid q = holds_host sid (ts ! t)"
    and sem: "sem_available ops s + (if holds_host k q then 1 else 0) =
       sem_available ops (p_heap p ! k) + (if holds_host k (ts ! t) then 1 else 0)"
  shows "pool_inv ops config (p\<lparr>p_heap := (p_heap p)[k := s]\<rparr>, ts[t := q])"
proof (rule pool_inv_I)
  note I = pool_invD[OF inv]
  let ?p = "p\<lparr>p_heap := (p_heap p)[k := s]\<rparr>"
  show "p_config ?p = config" using I(1) by simp
  show "sem_available ops (p_global ?p) + count_if holds_global (ts[t := q]) = unat (pc_max_global config)"
    using I(2) glob count_if_update[OF t, of holds_global q] by (simp split: if_splits)
  show "sem_available ops (p_heap ?p ! sid) + count_if (holds_host sid) (ts[t := q]) =
      unat (pc_max_per_host config)" if "sid < length (p_heap ?p)" for sid
    using I(3)[of sid] that other[of sid] sem count_if_update[OF t, of "holds_host sid" q] k
    by (cases "sid = k") (simp_all split: if_splits)
  show "p_active_count ?p = of_nat (count_if counted (ts[t := q]))"
    using I(4) cnt count_if_update[OF t, of counted q] by (simp split: if_splits)
  show "sid < length (p_heap ?p)" if "ph \<in> set (ts[t := q])" "knows_sem ph = Some sid" for ph sid
    using knows_update[OF _ _ that, of "length (p_heap ?p)"] I(5) knows k by auto
  show "sid < length (p_heap ?p)" if "(h, sid) \<in> set (p_hosts ?p)" for h sid
    using I(6)[of h sid] that by auto
qed

lemma pool_inv_lookup:
  assumes inv: "pool_inv ops config (p, ts)" and t: "t < length ts" and laws: "sem_laws ops"
    and ph: "ts ! t = HasGlobal host" and look: "host_semaphore ops host p = (p', sid)"
  shows "pool_inv ops config (p', ts[t := HasSem host sid])"
proof (cases "map_of (p_hosts p) host")
  case (Some s)
  then have eq: "p' = p" "sid = s" using look by (auto simp: host_semaphore_def)
  have s: "s < length (p_heap p)" using pool_invD(6)[OF inv map_of_SomeD[OF Some]] .
  have "pool_inv ops config (p\<lparr>p_heap := (p_heap p)[s := p_heap p ! s]\<rparr>, ts[t := HasSem host s])"
    using ph s by (intro pool_inv_host_change[OF inv t]) auto
  then show ?thesis using eq by simp
next
  case None
  let ?n = "length (p_heap p)" and ?s = "sem_new ops (unat (pc_max_per_host (p_config p)))"
  have eq: "p' = p\<lparr>p_heap := p_heap p @ [?s], p_hosts := (host, ?n) # p_hosts p\<rparr>" "sid = ?n"
    using look None by (auto simp: host_semaphore_def)
  note I = pool_invD[OF inv]
  have none: "count_if (holds_host ?n) ts = 0"
    using I(5) holds_host_knows by (fastforce simp: count_if_def filter_empty_conv)
  show ?thesis
  proof (rule pool_inv_I)
    show "sem_available ops (p_heap p' ! k) + count_if (holds_host k) (ts[t := HasSem host sid]) =
        unat (pc_max_per_host config)" if "k < length (p_heap p')" for k
      using that I(3)[of k] none count_if_update[OF t, of "holds_host k" "HasSem host sid"] ph I(1)
      by (cases "k = ?n") (auto simp: eq nth_append sem_lawsD[OF laws])
    show "k < length (p_heap p')" if "q \<in> set (ts[t := HasSem host sid])" "knows_sem q = Some k" for q k
      using knows_update[OF _ _ that, of "length (p_heap p')"] I(5)
      by (fastforce simp: eq intro: less_SucI)
    show "k < length (p_heap p')" if "(h, k) \<in> set (p_hosts p')" for h k
      using that I(6)[of h k] by (auto simp: eq intro: less_SucI)
  qed (use I ph count_if_update[OF t, of holds_global "HasSem host sid"]
      count_if_update[OF t, of counted "HasSem host sid"] in \<open>auto simp: eq\<close>)
qed

lemma pool_inv_step:
  assumes laws: "sem_laws ops" and step: "pool_step ops c c'" and inv: "pool_inv ops config c"
  shows "pool_inv ops config c'"
  using step inv
proof (induction rule: pool_step.induct)
  case (step_global t ts p g host)
  then show ?case
    by (intro pool_inv_same_host[where p = p]) (auto dest: sem_lawsD(2)[OF laws])
next
  case (step_lookup t ts host p p' sid)
  then show ?case using pool_inv_lookup laws by blast
next
  case (step_host t ts host sid p p')
  then obtain s where s: "sem_acquire ops (p_heap p ! sid) = Some s" "p' = p\<lparr>p_heap := (p_heap p)[sid := s]\<rparr>"
    by (auto simp: take_host_permit_def)
  have "sid < length (p_heap p)"
    using pool_invD(5)[OF step_host.prems nth_mem[OF step_host.hyps(1)], of sid] step_host.hyps by simp
  then show ?case
    using step_host s sem_lawsD(2)[OF laws s(1)] unfolding s(2)
    by (intro pool_inv_host_change) auto
next
  case (step_drop_host t ts host sid p)
  have "sid < length (p_heap p)"
    using pool_invD(5)[OF step_drop_host.prems nth_mem[OF step_drop_host.hyps(1)], of sid]
      step_drop_host.hyps by simp
  then show ?case
    using step_drop_host sem_lawsD(3)[OF laws] unfolding release_host_permit_def
    by (intro pool_inv_host_change) auto
next
  case (step_cleanup p ts)
  then show ?case by (auto simp: pool_inv_def cleanup_idle_hosts_def)
qed (auto simp: release_global_def cleanup_idle_hosts_def sem_lawsD[OF laws] intro!: pool_inv_same_host)

lemma pool_inv_init: "sem_laws ops \<Longrightarrow> pool_inv ops config (pool_new ops config, replicate tasks Idle)"
  by (auto simp: pool_inv_def pool_new_def count_if_def sem_lawsD)

lemma pool_reach_inv:
  assumes laws: "sem_laws ops" and reach: "pool_reach ops config tasks c"
  shows "pool_inv ops config c"
  using reach by induction (auto intro: pool_inv_init[OF laws] pool_inv_step[OF laws])

text \<open>
  C4. In every reachable state of the pool, for any interleaving of acquires, drops,
  cancellations and clean-ups: the active counter is the number of permits out, it is at most
  the global limit, and no semaphore of a host has more holders than the per-host limit.
\<close>

theorem pool_limits:
  assumes laws: "sem_laws ops" and reach: "pool_reach ops config tasks (p, ts)"
  shows "unat (active_connections p) = count_if counted ts \<and>
    active_connections p \<le> pc_max_global config \<and>
    count_if (holds_host sid) ts \<le> unat (pc_max_per_host config)"
proof -
  have inv: "pool_inv ops config (p, ts)" using pool_reach_inv[OF laws reach] .
  note I = pool_invD[OF inv]
  have "count_if counted ts \<le> count_if holds_global ts"
    by (rule count_if_mono) (auto elim: counted.elims)
  then have le: "count_if counted ts \<le> unat (pc_max_global config)" using I(2) by linarith
  moreover have "unat (pc_max_global config) < 2 ^ 32" using unsigned_less[of "pc_max_global config"] by simp
  ultimately have cnt: "unat (active_connections p) = count_if counted ts"
    using I(4) by (simp add: active_connections_def unat_of_nat_eq)
  have "count_if (holds_host sid) ts \<le> unat (pc_max_per_host config)"
  proof (cases "sid < length (p_heap p)")
    case True
    then show ?thesis using I(3)[of sid] by linarith
  next
    case False
    have "\<not> holds_host sid ph" if "ph \<in> set ts" for ph
      using I(5)[OF that, of sid] holds_host_knows[of sid ph] False by auto
    then have "count_if (holds_host sid) ts = 0" by (simp add: count_if_def filter_empty_conv)
    then show ?thesis by simp
  qed
  with cnt le show ?thesis by (simp add: word_le_nat_alt)
qed

definition tiny_config :: pool_config where
  "tiny_config = \<lparr>pc_max_per_host = 1, pc_max_global = 4\<rparr>"

lemmas pool_step_intros =
  pool_step.intros[where ops = counting_sem]

lemma reach_two_active:
  "\<exists>p. pool_reach counting_sem tiny_config 2 (p, [Active ''h'' 0, Active ''h'' 1]) \<and>
     pc_max_per_host (p_config p) = 1"
proof -
  let ?mk = "\<lambda>g n hosts heap. \<lparr>p_config = tiny_config, p_global = g, p_active_count = n, p_hosts = hosts,
    p_heap = heap, p_cleanup_threshold = 64\<rparr>"
  let ?R = "\<lambda>g n hosts heap ts. pool_reach counting_sem tiny_config 2 (?mk g n hosts heap, ts)"
  note ev = counting_sem_def tiny_config_def host_semaphore_def take_host_permit_def
    cleanup_idle_hosts_def host_count_def
  have "pool_new counting_sem tiny_config = ?mk 4 0 [] []"
    by (simp add: pool_new_def ev saturating_mul2_def max_def)
  moreover have "replicate 2 Idle = [Idle, Idle]" by (simp add: numeral_2_eq_2)
  ultimately have 0: "?R 4 0 [] [] [Idle, Idle]"
    using reach_init[of counting_sem tiny_config 2] by simp
  have 1: "?R 3 0 [] [] [HasGlobal ''h'', Idle]"
    by (rule reach_step[OF 0])
      (use pool_step_intros(1)[of 0 "[Idle, Idle]" "?mk 4 0 [] []" 3 "''h''"] in \<open>simp add: ev\<close>)
  have 2: "?R 3 0 [(''h'', 0)] [1] [HasSem ''h'' 0, Idle]"
    by (rule reach_step[OF 1])
      (use pool_step_intros(2)[of 0 "[HasGlobal ''h'', Idle]" "''h''" "?mk 3 0 [] []"] in \<open>simp add: ev\<close>)
  have 3: "?R 3 0 [] [1] [HasSem ''h'' 0, Idle]"
    by (rule reach_step[OF 2])
      (use pool_step_intros(10)[of "?mk 3 0 [(''h'', 0)] [1]" "[HasSem ''h'' 0, Idle]"] in \<open>simp add: ev\<close>)
  have 4: "?R 2 0 [] [1] [HasSem ''h'' 0, HasGlobal ''h'']"
    by (rule reach_step[OF 3])
      (use pool_step_intros(1)[of 1 "[HasSem ''h'' 0, Idle]" "?mk 3 0 [] [1]" 2 "''h''"] in \<open>simp add: ev\<close>)
  have 5: "?R 2 0 [(''h'', 1)] [1, 1] [HasSem ''h'' 0, HasSem ''h'' 1]"
    by (rule reach_step[OF 4])
      (use pool_step_intros(2)[of 1 "[HasSem ''h'' 0, HasGlobal ''h'']" "''h''" "?mk 2 0 [] [1]"] in \<open>simp add: ev\<close>)
  have 6: "?R 2 0 [(''h'', 1)] [1, 0] [HasSem ''h'' 0, HasPermit ''h'' 1]"
    by (rule reach_step[OF 5])
      (use pool_step_intros(3)[of 1 "[HasSem ''h'' 0, HasSem ''h'' 1]" "''h''" 1 "?mk 2 0 [(''h'', 1)] [1, 1]"] in \<open>simp add: ev\<close>)
  have 7: "?R 2 1 [(''h'', 1)] [1, 0] [HasSem ''h'' 0, Counted ''h'' 1]"
    by (rule reach_step[OF 6])
      (use pool_step_intros(4)[of 1 "[HasSem ''h'' 0, HasPermit ''h'' 1]" "''h''" 1 "?mk 2 0 [(''h'', 1)] [1, 0]"] in \<open>simp add: ev\<close>)
  have 8: "?R 2 1 [(''h'', 1)] [1, 0] [HasSem ''h'' 0, Active ''h'' 1]"
    by (rule reach_step[OF 7])
      (use pool_step_intros(5)[of 1 "[HasSem ''h'' 0, Counted ''h'' 1]" "''h''" 1 _ "?mk 2 1 [(''h'', 1)] [1, 0]"] in \<open>simp add: ev\<close>)
  have 9: "?R 2 1 [(''h'', 1)] [0, 0] [HasPermit ''h'' 0, Active ''h'' 1]"
    by (rule reach_step[OF 8])
      (use pool_step_intros(3)[of 0 "[HasSem ''h'' 0, Active ''h'' 1]" "''h''" 0 "?mk 2 1 [(''h'', 1)] [1, 0]"] in \<open>simp add: ev\<close>)
  have 10: "?R 2 2 [(''h'', 1)] [0, 0] [Counted ''h'' 0, Active ''h'' 1]"
    by (rule reach_step[OF 9])
      (use pool_step_intros(4)[of 0 "[HasPermit ''h'' 0, Active ''h'' 1]" "''h''" 0 "?mk 2 1 [(''h'', 1)] [0, 0]"] in \<open>simp add: ev\<close>)
  have 11: "?R 2 2 [(''h'', 1)] [0, 0] [Active ''h'' 0, Active ''h'' 1]"
    by (rule reach_step[OF 10])
      (use pool_step_intros(5)[of 0 "[Counted ''h'' 0, Active ''h'' 1]" "''h''" 0 _ "?mk 2 2 [(''h'', 1)] [0, 0]"] in \<open>simp add: ev\<close>)
  then show ?thesis by (intro exI conjI) (assumption, simp add: tiny_config_def)
qed

theorem pool_limits_witness:
  "\<exists>p. unat (active_connections (p :: nat pool)) = 2 \<and> active_connections p \<le> 4"
proof -
  obtain p where "pool_reach counting_sem tiny_config 2 (p, [Active ''h'' 0, Active ''h'' 1])"
    using reach_two_active by blast
  from pool_limits[OF counting_sem_laws this, of 0]
  have "unat (active_connections p) = 2 \<and> active_connections p \<le> 4"
    by (simp add: tiny_config_def count_if_def)
  then show ?thesis ..
qed

text \<open>
  The per-host limit itself can be exceeded: a clean-up between the lookup of the semaphore
  and the wait on it removes the entry, the next acquire makes a second semaphore, and with a
  limit of one connection per host two permits for the same host are active together.
\<close>

theorem pool_host_limit_race:
  "\<exists>p ts. pool_reach counting_sem tiny_config 2 (p, ts) \<and> pc_max_per_host (p_config p) = 1 \<and>
     count_if (\<lambda>ph. case ph of Active h _ \<Rightarrow> h = ''h'' | _ \<Rightarrow> False) ts = 2"
proof -
  obtain p where "pool_reach counting_sem tiny_config 2 (p, [Active ''h'' 0, Active ''h'' 1])"
    "pc_max_per_host (p_config p) = 1"
    using reach_two_active by blast
  then show ?thesis by (intro exI[of _ p] exI conjI) (assumption, assumption, simp add: count_if_def)
qed

end
