(* ===== verification/Orchestrator.thy ===== *)
theory Orchestrator
  imports Fragment_Record Connection_Pool
begin

text \<open>
  \<open>tachyon-engine/src/orchestrator.rs\<close>: the split of a file into fragments and the
  bandwidth feedback. The loop of \<open>plan_fragments\<close> is a \<open>partial_function\<close> whose
  \<^term>\<open>None\<close> covers the panics of \<open>FragmentInfo::new\<close> and \<open>checked_add(..).expect\<close> as
  well as divergence.
\<close>

record 's orchestrator =
  or_pool :: "'s pool"
  or_bandwidth :: bandwidth_tracker
  or_scheduler_config :: scheduler_config
  or_active_fragments :: "fragment_record list"

definition orchestrator_new :: "'s sem_ops \<Rightarrow> pool_config \<Rightarrow> 's orchestrator" where
  "orchestrator_new ops pool_cfg =
     \<lparr>or_pool = pool_new ops pool_cfg, or_bandwidth = tracker_default,
      or_scheduler_config = scheduler_config_default, or_active_fragments = []\<rparr>"

definition with_shared_pool :: "'s pool \<Rightarrow> scheduler_config \<Rightarrow> 's orchestrator" where
  "with_shared_pool pool cfg =
     \<lparr>or_pool = pool, or_bandwidth = tracker_new (ewma_alpha cfg),
      or_scheduler_config = cfg, or_active_fragments = []\<rparr>"

definition with_scheduler_config ::
    "'s sem_ops \<Rightarrow> pool_config \<Rightarrow> scheduler_config \<Rightarrow> 's orchestrator" where
  "with_scheduler_config ops pool_cfg cfg =
     \<lparr>or_pool = pool_new ops pool_cfg, or_bandwidth = tracker_new (ewma_alpha cfg),
      or_scheduler_config = cfg, or_active_fragments = []\<rparr>"

definition MAX_FRAGMENT_COUNT :: u64 where
  "MAX_FRAGMENT_COUNT = 1000000"

partial_function (option) plan_loop ::
    "u64 \<Rightarrow> u64 \<Rightarrow> u64 \<Rightarrow> u32 \<Rightarrow> fragment_info list \<Rightarrow> fragment_info list option" where
  "plan_loop file_size effective_frag_size offset index fragments =
     (if offset < file_size then
        (let remaining = file_size - offset;
             sz = min remaining effective_frag_size;
             fend = offset + sz - 1
         in Option.bind (fragment_info_new index offset fend sz) (\<lambda>f.
            Option.bind (checked_add index 1) (\<lambda>index'.
              plan_loop file_size effective_frag_size (offset + sz) index' (fragments @ [f]))))
      else Some fragments)"

definition effective_size :: "u64 \<Rightarrow> u64 \<Rightarrow> u64" where
  "effective_size file_size frag_size =
     (if file_size div frag_size > MAX_FRAGMENT_COUNT then div_ceil file_size MAX_FRAGMENT_COUNT
      else frag_size)"

definition plan_fragments ::
    "'s orchestrator \<Rightarrow> u64 \<Rightarrow> bool \<Rightarrow> u64 option \<Rightarrow> fragment_info list option" where
  "plan_fragments orch file_size supports_range suggested =
     (if file_size = 0 then Some []
      else if \<not> supports_range then
        map_option (\<lambda>f. [f]) (fragment_info_new 0 0 (file_size - 1) file_size)
      else
        (let cfg = or_scheduler_config orch;
             dynamic =
               compute_fragment_size file_size (estimate (or_bandwidth orch))
                 (min_fragment_size cfg) (max_fragment_size cfg) (default_target_fragments cfg)
                 (high_bandwidth_threshold cfg) (medium_bandwidth_threshold cfg)
         in Option.bind
              (case suggested of Some sz \<Rightarrow> if sz > 0 then Some sz else dynamic | None \<Rightarrow> dynamic)
              (\<lambda>frag_size.
                 if frag_size = 0 then
                   map_option (\<lambda>f. [f]) (fragment_info_new 0 0 (file_size - 1) file_size)
                 else plan_loop file_size (effective_size file_size frag_size) 0 0 [])))"

definition on_fragment_done :: "u64 \<Rightarrow> duration \<Rightarrow> 's orchestrator \<Rightarrow> 's orchestrator" where
  "on_fragment_done bytes dur orch =
     (let secs = as_secs_f64 dur
      in if f64_le secs (Fin 0) \<or> bytes = 0 then orch
         else
           (let bytes_per_sec = word_of_f64 (f64_div (f64_of_word bytes) secs)
            in orch\<lparr>or_bandwidth := tracker_record bytes_per_sec (or_bandwidth orch)\<rparr>))"

definition register_fragment :: "fragment_info \<Rightarrow> 's orchestrator \<Rightarrow> 's orchestrator" where
  "register_fragment info orch =
     orch\<lparr>or_active_fragments := or_active_fragments orch @ [fragment_record_new info 3]\<rparr>"

definition on_fragment_complete ::
    "fragment_info \<Rightarrow> duration \<Rightarrow> 's orchestrator \<Rightarrow> 's orchestrator" where
  "on_fragment_complete info dur orch =
     (let orch = on_fragment_done (fi_size info) dur orch;
          fs = or_active_fragments orch;
          i = unat (fi_index info)
      in if i < length fs then orch\<lparr>or_active_fragments := fs[i := fst (write_done (fs ! i))]\<rparr>
         else orch)"

definition estimated_bandwidth :: "'s orchestrator \<Rightarrow> u64" where
  "estimated_bandwidth orch = estimate (or_bandwidth orch)"

definition orchestrator_active_connections :: "'s orchestrator \<Rightarrow> u32" where
  "orchestrator_active_connections orch = active_connections (or_pool orch)"

section \<open>The fragments tile the file\<close>

text \<open>Consecutive, non-empty, fresh fragments from byte \<open>off\<close> to byte \<open>n\<close>.\<close>

fun tiles :: "nat \<Rightarrow> fragment_info list \<Rightarrow> nat \<Rightarrow> bool" where
  "tiles off [] n = (off = n)"
| "tiles off (f # fs) n =
     (unat (fi_start f) = off \<and> 0 < unat (fi_size f) \<and>
      unat (fi_end f) + 1 = off + unat (fi_size f) \<and> fi_downloaded f = 0 \<and>
      tiles (off + unat (fi_size f)) fs n)"

lemma tiles_append:
  "tiles off (fs @ gs) n \<longleftrightarrow> (\<exists>m. tiles off fs m \<and> tiles m gs n)"
  by (induction fs arbitrary: off) auto

lemma tiles_le: "tiles off fs n \<Longrightarrow> off \<le> n"
  by (induction fs arbitrary: off) fastforce+

lemma tiles_range:
  assumes "tiles off fs n" "k < length fs"
  shows "unat (fi_end (fs ! k)) < n \<and> unat (fi_start (fs ! k)) \<le> unat (fi_end (fs ! k))"
  using assms
proof (induction fs arbitrary: off k)
  case (Cons f fs)
  show ?case
  proof (cases k)
    case 0
    then show ?thesis using Cons.prems tiles_le[of "off + unat (fi_size f)" fs n] by simp
  next
    case (Suc m)
    then show ?thesis using Cons.prems Cons.IH[of "off + unat (fi_size f)" m] by simp
  qed
qed simp

lemma tiles_cover:
  assumes "tiles off fs n" "off \<le> i" "i < n"
  shows "\<exists>!k. k < length fs \<and> unat (fi_start (fs ! k)) \<le> i \<and> i \<le> unat (fi_end (fs ! k))"
  using assms
proof (induction fs arbitrary: off)
  case (Cons f fs)
  let ?off = "off + unat (fi_size f)"
  from Cons.prems have f: "unat (fi_start f) = off" "unat (fi_end f) + 1 = ?off"
    and rest: "tiles ?off fs n" by auto
  have later: "?off \<le> unat (fi_start (fs ! k))" if "k < length fs" for k
    using rest that
  proof (induction fs arbitrary: k "off" f)
    case (Cons g gs)
    show ?case
    proof (cases k)
      case 0
      then show ?thesis using Cons.prems by simp
    next
      case (Suc j)
      have "off + unat (fi_size f) + unat (fi_size g) \<le> unat (fi_start (gs ! j))"
        using Cons.IH[of "off + unat (fi_size f)" g j] Cons.prems Suc by simp
      then show ?thesis using Suc by simp
    qed
  qed simp
  show ?case
  proof (cases "i < ?off")
    case True
    show ?thesis
    proof (rule ex1I[of _ 0])
      fix k
      assume k: "k < length (f # fs) \<and> unat (fi_start ((f # fs) ! k)) \<le> i \<and>
        i \<le> unat (fi_end ((f # fs) ! k))"
      show "k = 0"
      proof (cases k)
        case (Suc j)
        then show ?thesis using k later[of j] True by simp
      qed simp
    qed (use f True Cons.prems in auto)
  next
    case False
    with Cons.IH[OF rest _ Cons.prems(3)]
    obtain k where k: "k < length fs" "unat (fi_start (fs ! k)) \<le> i" "i \<le> unat (fi_end (fs ! k))"
      and uniq: "\<And>j. j < length fs \<Longrightarrow> unat (fi_start (fs ! j)) \<le> i \<Longrightarrow> i \<le> unat (fi_end (fs ! j))
        \<Longrightarrow> j = k"
      by (metis not_le)
    show ?thesis
    proof (rule ex1I[of _ "Suc k"])
      fix j
      assume j: "j < length (f # fs) \<and> unat (fi_start ((f # fs) ! j)) \<le> i \<and>
        i \<le> unat (fi_end ((f # fs) ! j))"
      then have "j \<noteq> 0" using f False by (cases j) auto
      then show "j = Suc k" using j uniq[of "j - 1"] by (cases j) auto
    qed (use k in simp)
  qed
qed simp

text \<open>What the loop has produced when it stands at \<open>offset\<close>, and what it will return.\<close>

lemma plan_loop_ok:
  assumes "0 < unat eff" "unat offset \<le> unat file_size"
    and "unat index + (unat file_size - unat offset + unat eff - 1) div unat eff < 2 ^ 32"
  shows "\<exists>fs. plan_loop file_size eff offset index acc = Some (acc @ fs) \<and>
    tiles (unat offset) fs (unat file_size) \<and>
    length fs = (unat file_size - unat offset + unat eff - 1) div unat eff \<and>
    map (\<lambda>f. unat (fi_index f)) fs = [unat index..<unat index + length fs]"
  using assms(2,3)
proof (induction "unat file_size - unat offset" arbitrary: offset index acc rule: less_induct)
  case less
  define n o' e where "n = unat file_size" and "o' = unat offset" and "e = unat eff"
  have e: "0 < e" using assms(1) by (simp add: e_def)
  show ?case
  proof (cases "offset < file_size")
    case False
    then have "o' = n" using less.prems by (simp add: word_less_nat_alt n_def o'_def)
    moreover have "(e - 1) div e = 0" using e by simp
    ultimately show ?thesis
      using False by (subst plan_loop.simps) (simp add: n_def o'_def e_def)
  next
    case True
    then have lt: "o' < n" by (simp add: word_less_nat_alt n_def o'_def)
    have n64: "n < 2 ^ 64" using unsigned_less[of file_size] by (simp add: n_def)
    define sz where "sz = min (file_size - offset) eff"
    have usz: "unat sz = min (n - o') e"
      using True by (simp add: sz_def unat_min unat_sub_le n_def o'_def e_def less_imp_le)
    then have szpos: "0 < unat sz" and szle: "o' + unat sz \<le> n" using lt e by auto
    have uoff: "unat (offset + sz) = o' + unat sz"
      using szle n64 by (subst unat_add_no_overflow) (simp_all add: o'_def)
    have one: "1 \<le> offset + sz" using uoff szpos by (simp add: word_le_nat_alt)
    then have uend: "unat (offset + sz - 1) + 1 = o' + unat sz"
      using uoff szpos by (simp add: unat_sub_le)
    define f where "f = \<lparr>fi_index = index, fi_start = offset, fi_end = offset + sz - 1,
      fi_size = sz, fi_downloaded = 0, fi_hash = None\<rparr>"
    have fnew: "fragment_info_new index offset (offset + sz - 1) sz = Some f"
      unfolding fragment_info_new_Some_iff f_def using uend szle n64 by (simp add: o'_def)
    define c where "c = (n - o' + e - 1) div e"
    define c' where "c' = (n - (o' + unat sz) + e - 1) div e"
    have cc: "c = Suc c'"
    proof (cases "e \<le> n - o'")
      case True
      then have "n - o' + e - 1 = (n - (o' + unat sz) + e - 1) + e" using usz by simp
      then have "c = (n - (o' + unat sz) + e - 1 + e) div e" by (simp only: c_def)
      then show ?thesis using e by (simp only: c'_def div_add_self2)
    next
      case False
      then have "unat sz = n - o'" using usz by simp
      then have "c' = (e - 1) div e" using lt by (simp add: c'_def)
      moreover have "(n - o' + e - 1) div e = Suc ((n - o' - 1) div e)"
      proof -
        have "n - o' + e - 1 = (n - o' - 1) + e" using lt by simp
        then have "(n - o' + e - 1) div e = (n - o' - 1 + e) div e" by (simp only:)
        then show ?thesis using e by (simp only: div_add_self2)
      qed
      ultimately show ?thesis using False e by (simp add: c_def)
    qed
    have idx: "unat index + 1 < 2 ^ 32" using less.prems(2) cc by (simp add: c_def n_def o'_def e_def)
    then have uidx: "unat (index + 1) = unat index + 1"
      by (subst unat_add_no_overflow) simp_all
    have add: "checked_add index 1 = Some (index + 1)"
      using uidx by (simp add: checked_add_Some_iff)
    have "\<exists>fs. plan_loop file_size eff (offset + sz) (index + 1) (acc @ [f]) = Some ((acc @ [f]) @ fs) \<and>
      tiles (unat (offset + sz)) fs (unat file_size) \<and>
      length fs = (unat file_size - unat (offset + sz) + unat eff - 1) div unat eff \<and>
      map (\<lambda>f. unat (fi_index f)) fs = [unat (index + 1)..<unat (index + 1) + length fs]"
      using less.prems(2) cc szle szpos lt
      by (intro less.hyps) (simp_all add: uoff uidx c_def c'_def n_def[symmetric] o'_def[symmetric] e_def[symmetric])
    then obtain fs where fs: "plan_loop file_size eff (offset + sz) (index + 1) (acc @ [f]) =
        Some (acc @ f # fs)" "tiles (o' + unat sz) fs n" "length fs = c'"
      "map (\<lambda>f. unat (fi_index f)) fs = [unat index + 1..<unat index + 1 + length fs]"
      by (auto simp: uoff uidx c'_def n_def e_def)
    have "plan_loop file_size eff offset index acc = Some (acc @ f # fs)"
      by (subst plan_loop.simps) (simp add: True Let_def sz_def[symmetric] fnew add fs(1))
    moreover have "tiles (unat offset) (f # fs) (unat file_size)"
      using fs(2) uend szpos by (simp add: f_def o'_def n_def)
    moreover have "map (\<lambda>f. unat (fi_index f)) (f # fs) =
        [unat index..<unat index + length (f # fs)]"
      using fs(4) by (simp add: f_def upt_conv_Cons del: upt_Suc)
    moreover have "length (f # fs) = c" using fs(3) cc by simp
    ultimately show ?thesis unfolding c_def n_def o'_def e_def by blast
  qed
qed

section \<open>The plan\<close>

lemma effective_size_bounds:
  assumes "0 < unat n" "0 < unat s"
  shows "0 < unat (effective_size n s)"
    "(unat n + unat (effective_size n s) - 1) div unat (effective_size n s) \<le> 1000001"
proof -
  let ?n = "unat n" and ?s = "unat s" and ?M = "1000000 :: nat"
  have M: "unat MAX_FRAGMENT_COUNT = ?M" "MAX_FRAGMENT_COUNT \<noteq> 0" by (simp_all add: MAX_FRAGMENT_COUNT_def)
  have "0 < unat (effective_size n s) \<and>
    (?n + unat (effective_size n s) - 1) div unat (effective_size n s) \<le> 1000001"
  proof (cases "n div s > MAX_FRAGMENT_COUNT")
    case True
    define e where "e = (?n + ?M - 1) div ?M"
    have eff: "unat (effective_size n s) = e"
      using True M by (simp add: effective_size_def unat_div_ceil e_def)
    have "?n \<le> e * ?M" "0 < e" using assms(1) by (auto simp: e_def div_greater_zero_iff)
    then have "?n + e - 1 < (?M + 1) * e" by (simp add: algebra_simps)
    then have "(?n + e - 1) div e < ?M + 1" by (rule less_mult_imp_div_less)
    then show ?thesis using eff \<open>0 < e\<close> by simp
  next
    case False
    then have eff: "effective_size n s = s" by (simp add: effective_size_def)
    have "?n div ?s \<le> ?M" using False M by (simp add: not_less word_le_nat_alt unat_div)
    moreover have "(?n + ?s - 1) div ?s \<le> (?n + ?s) div ?s" by (intro div_le_mono) simp
    moreover have "(?n + ?s) div ?s = ?n div ?s + 1" using assms(2) by (simp add: div_add_self2)
    ultimately show ?thesis using eff assms(2) by simp
  qed
  then show "0 < unat (effective_size n s)"
    "(unat n + unat (effective_size n s) - 1) div unat (effective_size n s) \<le> 1000001" by simp_all
qed

lemma plan_whole_file:
  assumes "file_size \<noteq> 0"
  shows "\<exists>f. fragment_info_new 0 0 (file_size - 1) file_size = Some f \<and>
    tiles 0 [f] (unat file_size) \<and> fi_index f = 0"
proof -
  have pos: "1 \<le> file_size" using assms by (simp add: word_le_nat_alt Suc_le_eq unat_gt_0)
  then have "unat (file_size - 1) + 1 = unat file_size"
    by (simp add: unat_sub_le word_le_nat_alt)
  moreover have "unat file_size < 2 ^ 64" using unsigned_less[of file_size] by simp
  ultimately show ?thesis
    using pos by (auto simp: fragment_info_new_Some_iff word_le_nat_alt)
qed

lemma plan_loop_start:
  assumes "0 < unat file_size" "0 < unat s"
  shows "\<exists>fs. plan_loop file_size (effective_size file_size s) 0 0 [] = Some fs \<and>
    tiles 0 fs (unat file_size) \<and> length fs \<le> 1000001 \<and>
    map (\<lambda>f. unat (fi_index f)) fs = [0..<length fs]"
proof -
  note b = effective_size_bounds[OF assms]
  have "unat (0 :: u32) + (unat file_size - unat (0 :: u64) + unat (effective_size file_size s) - 1)
      div unat (effective_size file_size s) < 2 ^ 32"
    using b(2) by simp
  from plan_loop_ok[OF b(1) _ this, of "[]"] b(2) show ?thesis by auto
qed

lemma plan_fragments_ok:
  assumes cfg: "scheduler_config_ok (or_scheduler_config orch)"
  shows "\<exists>fs. plan_fragments orch file_size supports_range suggested = Some fs \<and>
    tiles 0 fs (unat file_size) \<and> length fs \<le> 1000001 \<and>
    map (\<lambda>f. unat (fi_index f)) fs = [0..<length fs]"
proof (cases "file_size = 0")
  case True
  then show ?thesis by (simp add: plan_fragments_def)
next
  case False
  then have pos: "0 < unat file_size" by (simp add: unat_gt_0)
  show ?thesis
  proof (cases supports_range)
    case no_range: False
    with plan_whole_file[OF False] False show ?thesis by (auto simp: plan_fragments_def)
  next
    case True
    let ?cfg = "or_scheduler_config orch"
    obtain d where d: "compute_fragment_size file_size (estimate (or_bandwidth orch))
        (min_fragment_size ?cfg) (max_fragment_size ?cfg) (default_target_fragments ?cfg)
        (high_bandwidth_threshold ?cfg) (medium_bandwidth_threshold ?cfg) = Some d"
      "min_fragment_size ?cfg \<le> d"
      using compute_fragment_size_range[OF _ False, of "min_fragment_size ?cfg" "max_fragment_size ?cfg"]
        cfg unfolding scheduler_config_ok_def by blast
    have dpos: "0 < d" using d(2) cfg by (auto simp: scheduler_config_ok_def)
    define s where "s = (case suggested of Some z \<Rightarrow> if z > 0 then z else d | None \<Rightarrow> d)"
    have "0 < s" using dpos by (auto simp: s_def split: option.splits)
    moreover have "plan_fragments orch file_size supports_range suggested =
        plan_loop file_size (effective_size file_size s) 0 0 []"
      using True False d(1) dpos
      by (simp add: plan_fragments_def Let_def s_def word_gt_0 split: option.splits)
    ultimately have s: "plan_fragments orch file_size supports_range suggested =
        plan_loop file_size (effective_size file_size s) 0 0 []" "0 < s"
      by simp_all
    have "0 < unat s" using s(2) by (simp add: word_gt_0 unat_gt_0)
    from plan_loop_start[OF pos this] s(1) show ?thesis by auto
  qed
qed

text \<open>
  C1. With a validated scheduler configuration \<open>plan_fragments\<close> never panics and always
  returns; the fragments are numbered from zero, non-empty, and every byte of the file lies in
  exactly one of them; there are at most 1,000,001.
\<close>

theorem plan_fragments_tiles:
  assumes cfg: "scheduler_config_ok (or_scheduler_config orch)"
  shows "\<exists>fs. plan_fragments orch file_size supports_range suggested = Some fs \<and>
    tiles 0 fs (unat file_size) \<and> length fs \<le> 1000001 \<and>
    map (\<lambda>f. unat (fi_index f)) fs = [0..<length fs] \<and>
    (\<forall>i < unat file_size. \<exists>!k. k < length fs \<and>
       unat (fi_start (fs ! k)) \<le> i \<and> i \<le> unat (fi_end (fs ! k)))"
  using plan_fragments_ok[OF cfg, of file_size supports_range suggested] tiles_cover[of 0 _ "unat file_size"]
  by blast

theorem plan_fragments_tiles_witness:
  "\<exists>fs. plan_fragments (orchestrator_new counting_sem pool_config_default) 10485761 True (Some 1048576)
       = Some fs \<and> length fs \<le> 1000001 \<and> tiles 0 fs 10485761"
  using plan_fragments_tiles[of "orchestrator_new counting_sem pool_config_default" 10485761 True
      "Some 1048576"] scheduler_config_default_ok
  by (auto simp: orchestrator_new_def)

lemma plan_loop_length:
  assumes "plan_loop file_size eff 0 0 [] = Some fs" "0 < unat eff"
    and "(unat file_size + unat eff - 1) div unat eff < 2 ^ 32"
  shows "length fs = (unat file_size + unat eff - 1) div unat eff"
  using plan_loop_ok[OF assms(2), of 0 file_size 0 "[]"] assms(1,3) by auto

text \<open>
  The limit of one million fragments can be exceeded by one: the guard compares the rounded
  down quotient, so a file of 2,000,001 bytes with fragments of two bytes is cut in 1,000,001.
\<close>

theorem plan_fragments_over_limit:
  "\<exists>fs. plan_fragments (orchestrator_new counting_sem pool_config_default) 2000001 True (Some 2)
     = Some fs \<and> length fs = 1000001"
proof -
  have ok: "scheduler_config_ok (or_scheduler_config (orchestrator_new counting_sem pool_config_default))"
    using scheduler_config_default_ok by (simp add: orchestrator_new_def)
  obtain fs where fs: "plan_fragments (orchestrator_new counting_sem pool_config_default) 2000001 True (Some 2)
      = Some fs"
    using plan_fragments_ok[OF ok] by blast
  then have "plan_loop 2000001 2 0 0 [] = Some fs"
    by (simp add: plan_fragments_def effective_size_def MAX_FRAGMENT_COUNT_def)
  from plan_loop_length[OF this] have "length fs = 1000001" by simp
  with fs show ?thesis by blast
qed

end
