(* ===== verification/KV_Store.thy ===== *)
theory KV_Store
  imports Errors Utf8 "HOL-Library.AList" "HOL-Library.Sublist"
begin

text \<open>
  \<open>tachyon-store/src/store.rs\<close>: the \<open>Store\<close> trait as a locale, with \<open>MemoryStore\<close> and
  \<open>FileStore\<close> as its interpretations, and \<open>KvStore\<close> on top of the latter. Keys and values are
  \<open>str\<close>; a file holds bytes. A directory is the list of its files. An I/O fault is an
  argument of the writing operation; the lock of a store is not poisoned.
\<close>

datatype io_error = IoErr string

type_synonym 'a io_result = "io_error + 'a"

abbreviation valid_str :: "ustr \<Rightarrow> bool" where
  "valid_str s \<equiv> \<forall>c \<in> set s. scalar c"

section \<open>The contract of a store\<close>

text \<open>
  \<open>okk\<close> and \<open>okv\<close> are the keys and values the laws speak of, \<open>wf\<close> the states of the store.
\<close>

locale kv_store =
  fixes get :: "'s \<Rightarrow> ustr \<Rightarrow> ustr option io_result"
    and put :: "ustr \<Rightarrow> ustr \<Rightarrow> 's \<Rightarrow> 's \<times> unit io_result"
    and del :: "ustr \<Rightarrow> 's \<Rightarrow> 's \<times> bool io_result"
    and has :: "'s \<Rightarrow> ustr \<Rightarrow> bool io_result"
    and list_keys :: "'s \<Rightarrow> ustr \<Rightarrow> ustr list io_result"
    and wf :: "'s \<Rightarrow> bool"
  assumes put_ok: "wf s \<Longrightarrow> valid_str k \<Longrightarrow> valid_str v \<Longrightarrow>
      snd (put k v s) = Inr () \<and> wf (fst (put k v s))"
    and get_put: "wf s \<Longrightarrow> valid_str k \<Longrightarrow> valid_str v \<Longrightarrow> valid_str k' \<Longrightarrow>
      get (fst (put k v s)) k' = (if k' = k then Inr (Some v) else get s k')"
    and del_ok: "wf s \<Longrightarrow> valid_str k \<Longrightarrow>
      snd (del k s) = Inr (get s k \<noteq> Inr None) \<and> wf (fst (del k s))"
    and get_del: "wf s \<Longrightarrow> valid_str k \<Longrightarrow> valid_str k' \<Longrightarrow>
      get (fst (del k s)) k' = (if k' = k then Inr None else get s k')"
    and has_get: "wf s \<Longrightarrow> valid_str k \<Longrightarrow> has s k = Inr (get s k \<noteq> Inr None)"
    and keys_get: "wf s \<Longrightarrow> \<exists>ks. list_keys s p = Inr ks \<and> distinct ks \<and>
      (\<forall>k. valid_str k \<longrightarrow> k \<in> set ks \<longleftrightarrow> prefix p k \<and> get s k \<noteq> Inr None)"
begin

text \<open>A sequence of writes: the last value written to a key wins.\<close>

fun puts :: "(ustr \<times> ustr) list \<Rightarrow> 's \<Rightarrow> 's" where
  "puts [] s = s"
| "puts ((k, v) # kvs) s = puts kvs (fst (put k v s))"

lemma puts_wf: "wf s \<Longrightarrow> \<forall>(k, v) \<in> set kvs. valid_str k \<and> valid_str v \<Longrightarrow> wf (puts kvs s)"
  by (induction kvs arbitrary: s) (auto dest: put_ok)

lemma get_puts:
  "wf s \<Longrightarrow> \<forall>(k, v) \<in> set kvs. valid_str k \<and> valid_str v \<Longrightarrow> valid_str k' \<Longrightarrow>
   get (puts kvs s) k' = (case map_of (rev kvs) k' of Some v \<Rightarrow> Inr (Some v) | None \<Rightarrow> get s k')"
proof (induction kvs arbitrary: s)
  case (Cons kv kvs)
  obtain k v where kv: "kv = (k, v)" by (cases kv)
  have "wf (fst (put k v s))" using Cons.prems kv put_ok by auto
  with Cons kv show ?case
    by (auto simp: get_put map_add_def split: option.splits)
qed simp

lemma put_then_keys:
  assumes "wf s" "valid_str k" "valid_str v" "prefix p k"
  shows "\<exists>ks. list_keys (fst (put k v s)) p = Inr ks \<and> k \<in> set ks"
  using keys_get[of "fst (put k v s)" p] put_ok[OF assms(1-3)] get_put[OF assms(1-3) assms(2)] assms(2,4)
  by auto

lemma del_then_keys:
  assumes "wf s" "valid_str k"
  shows "\<exists>ks. list_keys (fst (del k s)) p = Inr ks \<and> k \<notin> set ks"
  using keys_get[of "fst (del k s)" p] del_ok[OF assms] get_del[OF assms assms(2)] assms(2) by auto

end

section \<open>MemoryStore\<close>

type_synonym memory_store = "(ustr \<times> ustr) list"

definition memory_new :: memory_store where
  "memory_new = []"

definition memory_get :: "memory_store \<Rightarrow> ustr \<Rightarrow> ustr option io_result" where
  "memory_get m k = Inr (map_of m k)"

definition memory_set :: "ustr \<Rightarrow> ustr \<Rightarrow> memory_store \<Rightarrow> memory_store \<times> unit io_result" where
  "memory_set k v m = (AList.update k v m, Inr ())"

definition memory_delete :: "ustr \<Rightarrow> memory_store \<Rightarrow> memory_store \<times> bool io_result" where
  "memory_delete k m = (AList.delete k m, Inr (map_of m k \<noteq> None))"

definition memory_exists :: "memory_store \<Rightarrow> ustr \<Rightarrow> bool io_result" where
  "memory_exists m k = Inr (map_of m k \<noteq> None)"

definition memory_keys :: "memory_store \<Rightarrow> ustr \<Rightarrow> ustr list io_result" where
  "memory_keys m p = Inr (filter (prefix p) (map fst m))"

lemma map_of_eq_None_keys: "map_of m k \<noteq> None \<longleftrightarrow> k \<in> set (map fst m)"
  by (simp add: map_of_eq_None_iff image_iff)

interpretation mstore: kv_store memory_get memory_set memory_delete memory_exists memory_keys
  "\<lambda>m. distinct (map fst m)"
proof
  fix s :: memory_store and p :: ustr
  assume "distinct (map fst s)"
  then show "\<exists>ks. memory_keys s p = Inr ks \<and> distinct ks \<and>
      (\<forall>k. valid_str k \<longrightarrow> k \<in> set ks \<longleftrightarrow> prefix p k \<and> memory_get s k \<noteq> Inr None)"
    by (force simp: memory_keys_def memory_get_def map_of_eq_None_keys[simplified])
qed (auto simp: memory_get_def memory_set_def memory_delete_def memory_exists_def update_conv'
    distinct_update distinct_delete delete_conv')

section \<open>FileStore\<close>

type_synonym directory = "(ustr \<times> u8 list) list"

subsection \<open>Names of files\<close>

definition safe_byte :: "u8 \<Rightarrow> ustr" where
  "safe_byte b =
     (let n = unat b
      in if (48 \<le> n \<and> n \<le> 57) \<or> (65 \<le> n \<and> n \<le> 90) \<or> (97 \<le> n \<and> n \<le> 122) \<or> n = 95 \<or> n = 45
         then [n] else [37, hex_upper (n div 16), hex_upper (n mod 16)])"

definition safe_key :: "ustr \<Rightarrow> ustr" where
  "safe_key key = concat (map safe_byte (utf8_encode key))"

function unsafe_bytes :: "ustr \<Rightarrow> u8 list" where
  "unsafe_bytes [] = []"
| "unsafe_bytes (c # cs) =
     (if c = 37 then
        (let hex = take 2 cs; rest = drop 2 cs
         in case (if length (utf8_encode hex) = 2 then from_hex2 hex else None) of
              Some byte \<Rightarrow> of_nat byte # unsafe_bytes rest
            | None \<Rightarrow> 37 # utf8_encode hex @ unsafe_bytes rest)
      else utf8_encode [c] @ unsafe_bytes cs)"
  by pat_completeness auto
termination
  by (relation "measure length") auto

declare unsafe_bytes.simps(2) [simp del]

definition unsafe_key :: "ustr \<Rightarrow> ustr" where
  "unsafe_key encoded = from_utf8_lossy (unsafe_bytes encoded)"

abbreviation "json_suffix \<equiv> to_ustr ''.json''"

definition path_for :: "ustr \<Rightarrow> ustr" where
  "path_for key = safe_key key @ json_suffix"

text \<open>
  \<open>Path::with_extension\<close> on a file name: the part before the last dot, unless that is empty.
\<close>

definition with_extension :: "ustr \<Rightarrow> ustr \<Rightarrow> ustr" where
  "with_extension name ext =
     (let stem = rev (tl (dropWhile (\<lambda>c. c \<noteq> 46) (rev name)))
      in (if 46 \<notin> set name \<or> stem = [] then name else stem) @ [46] @ ext)"

definition strip_suffix :: "'a list \<Rightarrow> 'a list \<Rightarrow> 'a list option" where
  "strip_suffix suf s = map_option rev (strip_prefix (rev suf) (rev s))"

subsection \<open>Operations\<close>

text \<open>
  What can go wrong in \<open>set\<close>: the directory cannot be made; the write stops after some bytes
  (or the process dies there); the rename fails.
\<close>

datatype set_fault = NoFault | FailCreateDir | FailWrite nat | CrashBeforeRename | FailRename

definition write_file :: "ustr \<Rightarrow> u8 list \<Rightarrow> directory \<Rightarrow> directory" where
  "write_file name bytes d = AList.update name bytes d"

definition rename_file :: "ustr \<Rightarrow> ustr \<Rightarrow> directory \<Rightarrow> directory" where
  "rename_file from_name to_name d =
     (case map_of d from_name of
        None \<Rightarrow> d
      | Some bytes \<Rightarrow> AList.update to_name bytes (AList.delete from_name d))"

definition file_get :: "directory \<Rightarrow> ustr \<Rightarrow> ustr option io_result" where
  "file_get d key =
     (let path = path_for key
      in case map_of d path of
           None \<Rightarrow> Inr None
         | Some bytes \<Rightarrow>
             (case from_utf8 bytes of
                None \<Rightarrow> Inl (IoErr ''InvalidData'')
              | Some data \<Rightarrow> Inr (Some data)))"

definition file_set :: "set_fault \<Rightarrow> ustr \<Rightarrow> ustr \<Rightarrow> directory \<Rightarrow> directory \<times> unit io_result" where
  "file_set fault key value d =
     (if fault = FailCreateDir then (d, Inl (IoErr ''create_dir_all''))
      else
        (let final_path = path_for key;
             temp_path = with_extension final_path (to_ustr ''tmp'');
             bytes = utf8_encode value
         in case fault of
              FailWrite n \<Rightarrow> (write_file temp_path (take n bytes) d, Inl (IoErr ''write''))
            | CrashBeforeRename \<Rightarrow> (write_file temp_path bytes d, Inl (IoErr ''crash''))
            | FailRename \<Rightarrow>
                (AList.delete temp_path (write_file temp_path bytes d), Inl (IoErr ''rename''))
            | _ \<Rightarrow> (rename_file temp_path final_path (write_file temp_path bytes d), Inr ())))"

definition file_delete :: "ustr \<Rightarrow> directory \<Rightarrow> directory \<times> bool io_result" where
  "file_delete key d =
     (let path = path_for key
      in if map_of d path \<noteq> None then (AList.delete path d, Inr True) else (d, Inr False))"

definition file_exists :: "directory \<Rightarrow> ustr \<Rightarrow> bool io_result" where
  "file_exists d key = Inr (map_of d (path_for key) \<noteq> None)"

definition file_keys :: "directory \<Rightarrow> ustr \<Rightarrow> ustr list io_result" where
  "file_keys d p =
     Inr (filter (prefix p) (map unsafe_key (List.map_filter (strip_suffix json_suffix) (map fst d))))"

subsection \<open>The encoding of keys is reversible\<close>

lemma strip_prefix_Some_iff: "strip_prefix p s = Some r \<longleftrightarrow> s = p @ r"
  by (induction p s rule: strip_prefix.induct) auto

lemma strip_suffix_Some_iff: "strip_suffix suf s = Some e \<longleftrightarrow> s = e @ suf"
  by (auto simp: strip_suffix_def strip_prefix_Some_iff) (metis rev_append rev_rev_ident)

lemma set_strip_suffixes:
  "e \<in> set (List.map_filter (strip_suffix suf) ns) \<longleftrightarrow> e @ suf \<in> set ns"
  by (induction ns) (auto simp: List.map_filter_simps strip_suffix_Some_iff split: option.splits,
      metis not_Some_eq strip_suffix_Some_iff)

lemma distinct_strip_suffixes:
  "distinct ns \<Longrightarrow> distinct (List.map_filter (strip_suffix suf) ns)"
  by (induction ns)
    (auto simp: List.map_filter_simps strip_suffix_Some_iff set_strip_suffixes split: option.splits)

lemma utf8_encode_ascii: "n < 128 \<Longrightarrow> utf8_encode [n] = [of_nat n]"
  by (simp add: utf8_encode_def utf8_char_def)

lemma unsafe_bytes_safe_byte: "unsafe_bytes (safe_byte b @ r) = b # unsafe_bytes r"
proof -
  have b: "unat b < 256" by (rule u8_bound)
  show ?thesis
  proof (cases "safe_byte b = [unat b]")
    case True
    then have "unat b < 128" "unat b \<noteq> 37"
      by (auto simp: safe_byte_def Let_def split: if_splits)
    then show ?thesis by (simp add: True unsafe_bytes.simps(2) utf8_encode_ascii)
  next
    case False
    then have eq: "safe_byte b = [37, hex_upper (unat b div 16), hex_upper (unat b mod 16)]"
      by (auto simp: safe_byte_def Let_def split: if_splits)
    have small: "hex_upper (unat b div 16) < 128" "hex_upper (unat b mod 16) < 128"
      using b by (auto intro!: hex_upper_small)
    have "length (utf8_encode [hex_upper (unat b div 16), hex_upper (unat b mod 16)]) = 2"
      using small by (simp add: utf8_encode_def utf8_char_def)
    then show ?thesis
      using from_hex2_upper[OF b] by (simp add: eq unsafe_bytes.simps(2) Let_def)
  qed
qed

lemma unsafe_safe_key:
  assumes "valid_str key"
  shows "unsafe_key (safe_key key) = key"
proof -
  have "unsafe_bytes (concat (map safe_byte bs)) = bs" for bs
    by (induction bs) (simp_all add: unsafe_bytes_safe_byte)
  then show ?thesis
    using from_utf8_lossy_encode[OF assms] by (simp add: unsafe_key_def safe_key_def)
qed

text \<open>
  C14. \<open>unsafe_key\<close> inverts \<open>safe_key\<close> on every key, so that two keys never share a file; the
  encoded name has only ASCII letters, digits, underscore, hyphen and the percent sign.
\<close>

theorem safe_key_roundtrip:
  assumes "valid_str key"
  shows "unsafe_key (safe_key key) = key \<and>
    (\<forall>c \<in> set (safe_key key). c \<in> {48..57} \<union> {65..90} \<union> {97..122} \<union> {37, 45, 95})"
proof -
  have "set (safe_byte b) \<subseteq> {48..57} \<union> {65..90} \<union> {97..122} \<union> {37, 45, 95}" for b
  proof -
    have "unat b div 16 < 16" using u8_bound[of b] by simp
    then show ?thesis by (auto simp: safe_byte_def Let_def hex_upper_def)
  qed
  then have "set (safe_key key) \<subseteq> {48..57} \<union> {65..90} \<union> {97..122} \<union> {37, 45, 95}"
    unfolding safe_key_def set_concat set_map by (intro UN_least) (auto simp del: Un_insert_right)
  then show ?thesis using unsafe_safe_key[OF assms] by blast
qed

theorem safe_key_roundtrip_witness:
  "unsafe_key (safe_key [116, 47, 0x4E2D, 37]) = [116, 47, 0x4E2D, 37]"
  using safe_key_roundtrip[of "[116, 47, 0x4E2D, 37]"] by (simp add: scalar_def)

lemma safe_key_no_dot: "46 \<notin> set (safe_key key)"
  by (auto simp: safe_key_def safe_byte_def Let_def hex_upper_def split: if_splits)

lemma path_for_inject:
  "valid_str k \<Longrightarrow> valid_str k' \<Longrightarrow> path_for k = path_for k' \<longleftrightarrow> k = k'"
  by (auto simp: path_for_def) (metis unsafe_safe_key)

definition temp_for :: "ustr \<Rightarrow> ustr" where
  "temp_for key = with_extension (path_for key) (to_ustr ''tmp'')"

lemma temp_for_not_json: "strip_suffix json_suffix (temp_for key) = None"
  by (simp add: strip_suffix_def temp_for_def with_extension_def Let_def to_ustr_def)

lemma temp_for_neq [simp]: "temp_for key \<noteq> path_for k" "path_for k \<noteq> temp_for key"
proof -
  show "temp_for key \<noteq> path_for k"
    using temp_for_not_json[of key] strip_suffix_Some_iff[of json_suffix "temp_for key"]
    by (auto simp: path_for_def)
  then show "path_for k \<noteq> temp_for key" by simp
qed

subsection \<open>The file store keeps the contract\<close>

text \<open>
  Every \<open>.json\<close> file is the image of a key and holds text; other files (left-over temporary
  files) may be anything.
\<close>

definition dir_wf :: "directory \<Rightarrow> bool" where
  "dir_wf d \<longleftrightarrow>
     distinct (map fst d) \<and>
     (\<forall>(name, bytes) \<in> set d. \<forall>e. name = e @ json_suffix \<longrightarrow>
        (\<exists>k. valid_str k \<and> e = safe_key k) \<and> from_utf8 bytes \<noteq> None)"

lemma dir_wf_mapD:
  "dir_wf d \<Longrightarrow> map_of d (path_for k) = Some bytes \<Longrightarrow> from_utf8 bytes \<noteq> None"
  by (auto simp: dir_wf_def path_for_def dest!: map_of_SomeD)

lemma dir_wf_map_ofI:
  assumes "distinct (map fst d)"
    and "\<And>name bytes e. map_of d name = Some bytes \<Longrightarrow> name = e @ json_suffix \<Longrightarrow>
      (\<exists>k. valid_str k \<and> e = safe_key k) \<and> from_utf8 bytes \<noteq> None"
  shows "dir_wf d"
  using assms map_of_is_SomeI[OF assms(1)] unfolding dir_wf_def by blast

lemma dir_wf_map_ofD:
  assumes "dir_wf d" "map_of d name = Some bytes" "name = e @ json_suffix"
  shows "(\<exists>k. valid_str k \<and> e = safe_key k) \<and> from_utf8 bytes \<noteq> None"
  using assms unfolding dir_wf_def by (fastforce dest!: map_of_SomeD)

lemma file_get_iff:
  "dir_wf d \<Longrightarrow> file_get d k = Inr None \<longleftrightarrow> map_of d (path_for k) = None"
  using dir_wf_mapD[of d k] by (auto simp: file_get_def Let_def split: option.splits)

lemma file_set_map_of:
  "map_of (fst (file_set NoFault k v d)) =
     ((map_of d)(temp_for k := None))(path_for k \<mapsto> utf8_encode v)"
  by (auto simp: file_set_def Let_def rename_file_def write_file_def update_conv' delete_conv'
      temp_for_def[symmetric] split: option.splits)

lemma file_set_distinct:
  "distinct (map fst d) \<Longrightarrow> distinct (map fst (fst (file_set f k v d)))"
  by (auto simp: file_set_def Let_def rename_file_def write_file_def distinct_update distinct_delete
      split: option.splits set_fault.splits)

lemma dir_wf_set:
  assumes "dir_wf d" "valid_str k" "valid_str v"
  shows "dir_wf (fst (file_set NoFault k v d))"
proof (rule dir_wf_map_ofI)
  show "distinct (map fst (fst (file_set NoFault k v d)))"
    using assms(1) file_set_distinct by (auto simp: dir_wf_def)
  fix name bytes e
  assume m: "map_of (fst (file_set NoFault k v d)) name = Some bytes" "name = e @ json_suffix"
  show "(\<exists>k. valid_str k \<and> e = safe_key k) \<and> from_utf8 bytes \<noteq> None"
  proof (cases "name = path_for k")
    case True
    then show ?thesis
      using m assms by (auto simp: file_set_map_of path_for_def from_utf8_encode)
  next
    case False
    then have "map_of d name = Some bytes"
      using m by (auto simp: file_set_map_of split: if_splits)
    from dir_wf_map_ofD[OF assms(1) this m(2)] show ?thesis .
  qed
qed

lemma dir_wf_delete:
  assumes "dir_wf d"
  shows "dir_wf (fst (file_delete k d))"
proof (cases "map_of d (path_for k)")
  case (Some x)
  show ?thesis
  proof (rule dir_wf_map_ofI)
    show "distinct (map fst (fst (file_delete k d)))"
      using assms by (auto simp: file_delete_def Let_def dir_wf_def distinct_delete)
    fix name bytes e
    assume "map_of (fst (file_delete k d)) name = Some bytes" "name = e @ json_suffix"
    then show "(\<exists>k. valid_str k \<and> e = safe_key k) \<and> from_utf8 bytes \<noteq> None"
      using dir_wf_map_ofD[OF assms, of name bytes e] Some
      by (auto simp: file_delete_def Let_def delete_conv' split: if_splits)
  qed
qed (use assms in \<open>simp add: file_delete_def\<close>)

lemma file_keys_spec:
  assumes wf: "dir_wf d"
  shows "\<exists>ks. file_keys d p = Inr ks \<and> distinct ks \<and>
    (\<forall>k. valid_str k \<longrightarrow> k \<in> set ks \<longleftrightarrow> prefix p k \<and> file_get d k \<noteq> Inr None)"
proof -
  let ?es = "List.map_filter (strip_suffix json_suffix) (map fst d)"
  let ?ks = "map unsafe_key ?es"
  have es: "e \<in> set ?es \<longleftrightarrow> e @ json_suffix \<in> set (map fst d)" for e
    by (rule set_strip_suffixes)
  have enc: "\<exists>k. valid_str k \<and> e = safe_key k" if "e \<in> set ?es" for e
    using wf that unfolding es dir_wf_def by fastforce
  have inj: "inj_on unsafe_key (set ?es)"
    using enc unsafe_safe_key by (intro inj_onI) metis
  have "distinct ?es" using wf by (intro distinct_strip_suffixes) (simp add: dir_wf_def)
  with inj have "distinct ?ks" by (simp add: distinct_map)
  moreover have "k \<in> set ?ks \<longleftrightarrow> file_get d k \<noteq> Inr None" if k: "valid_str k" for k
  proof -
    have "k \<in> unsafe_key ` set ?es \<longleftrightarrow> safe_key k \<in> set ?es"
    proof
      assume "k \<in> unsafe_key ` set ?es"
      then obtain e where e: "e \<in> set ?es" "k = unsafe_key e" by blast
      obtain k' where "valid_str k'" "e = safe_key k'" using enc[OF e(1)] by blast
      then show "safe_key k \<in> set ?es" using e unsafe_safe_key by simp
    qed (use unsafe_safe_key[OF k] in \<open>force simp: image_iff\<close>)
    also have "\<dots> \<longleftrightarrow> map_of d (path_for k) \<noteq> None"
      unfolding es by (simp add: path_for_def map_of_eq_None_iff)
    finally show ?thesis unfolding file_get_iff[OF wf] set_map .
  qed
  ultimately show ?thesis by (auto simp: file_keys_def)
qed

interpretation fstore: kv_store file_get "file_set NoFault" file_delete file_exists file_keys dir_wf
proof
  fix d :: directory and k v k' :: ustr
  assume wf: "dir_wf d" and k: "valid_str k"
  show "snd (file_delete k d) = Inr (file_get d k \<noteq> Inr None) \<and> dir_wf (fst (file_delete k d))"
    using dir_wf_delete[OF wf, of k] file_get_iff[OF wf, of k] by (auto simp: file_delete_def Let_def)
  show "file_exists d k = Inr (file_get d k \<noteq> Inr None)"
    using file_get_iff[OF wf, of k] by (auto simp: file_exists_def)
  show "file_get (fst (file_delete k d)) k' = (if k' = k then Inr None else file_get d k')"
    if "valid_str k'"
    using path_for_inject[OF k that]
    by (auto simp: file_get_def file_delete_def Let_def delete_conv')
  assume v: "valid_str v"
  show "snd (file_set NoFault k v d) = Inr () \<and> dir_wf (fst (file_set NoFault k v d))"
    using dir_wf_set[OF wf k v] by (simp add: file_set_def Let_def)
  show "file_get (fst (file_set NoFault k v d)) k' = (if k' = k then Inr (Some v) else file_get d k')"
    if "valid_str k'"
    using path_for_inject[OF k that] from_utf8_encode[OF v]
    by (auto simp: file_get_def file_set_map_of Let_def)
qed (rule file_keys_spec)

lemma file_set_fault:
  assumes "dir_wf d" "fault \<noteq> NoFault"
  shows "dir_wf (fst (file_set fault k v d))" "file_get (fst (file_set fault k v d)) k' = file_get d k'"
    "snd (file_set fault k v d) \<noteq> Inr ()"
proof -
  have upd: "map_of (fst (file_set fault k v d)) name = map_of d name" if "name \<noteq> temp_for k" for name
    using assms(2) that
    by (auto simp: file_set_def Let_def write_file_def update_conv' delete_conv' temp_for_def
        split: set_fault.splits)
  show "dir_wf (fst (file_set fault k v d))"
  proof (rule dir_wf_map_ofI)
    show "distinct (map fst (fst (file_set fault k v d)))"
      using assms(1) file_set_distinct by (auto simp: dir_wf_def)
    fix name bytes e
    assume m: "map_of (fst (file_set fault k v d)) name = Some bytes" "name = e @ json_suffix"
    then have "name \<noteq> temp_for k"
      using temp_for_not_json[of k] strip_suffix_Some_iff[of json_suffix "temp_for k" e] by auto
    with upd m dir_wf_map_ofD[OF assms(1), of name bytes e]
    show "(\<exists>k. valid_str k \<and> e = safe_key k) \<and> from_utf8 bytes \<noteq> None" by simp
  qed
  show "file_get (fst (file_set fault k v d)) k' = file_get d k'"
    by (simp add: file_get_def upd)
  show "snd (file_set fault k v d) \<noteq> Inr ()"
    using assms(2) by (cases fault) (simp_all add: file_set_def Let_def)
qed

text \<open>
  C5. A write is atomic: whatever fails on the way or wherever the process dies, the key reads as
  before or as the new value, every other key reads as before, and the new value is there when
  \<open>set\<close> returned \<open>Ok\<close>.
\<close>

theorem file_set_atomic:
  assumes "dir_wf d" "valid_str k" "valid_str v" "valid_str k'"
  shows "dir_wf (fst (file_set fault k v d)) \<and>
    (if fault = NoFault then snd (file_set fault k v d) = Inr () \<and>
        file_get (fst (file_set fault k v d)) k' = (if k' = k then Inr (Some v) else file_get d k')
     else snd (file_set fault k v d) \<noteq> Inr () \<and>
        file_get (fst (file_set fault k v d)) k' = file_get d k')"
  using fstore.put_ok[OF assms(1-3)] fstore.get_put[OF assms] file_set_fault[OF assms(1)] by simp

theorem file_set_atomic_witness:
  "file_get (fst (file_set (FailWrite 1) [107] [50, 50] (fst (file_set NoFault [107] [49] [])))) [107]
     = Inr (Some [49])"
proof -
  have wf: "dir_wf []" by (simp add: dir_wf_def)
  have v: "valid_str [107]" "valid_str [49]" "valid_str [50, 50]" by (simp_all add: scalar_def)
  from file_set_atomic[OF fstore.put_ok[OF wf v(1,2), THEN conjunct2] v(1,3,1), of "FailWrite 1"]
    fstore.get_put[OF wf v(1,2,1)]
  show ?thesis by simp
qed

section \<open>KvStore\<close>

text \<open>
  \<open>to_json\<close> and \<open>from_json\<close> are the \<open>serde_json\<close> calls.
\<close>

definition kv_put ::
    "('v \<Rightarrow> ustr option) \<Rightarrow> set_fault \<Rightarrow> ustr \<Rightarrow> 'v \<Rightarrow> directory \<Rightarrow> directory \<times> unit io_result"
  where
  "kv_put to_json fault key value d =
     (case to_json value of
        None \<Rightarrow> (d, Inl (IoErr ''InvalidData''))
      | Some json \<Rightarrow> file_set fault key json d)"

definition kv_get :: "(ustr \<Rightarrow> 'v option) \<Rightarrow> directory \<Rightarrow> ustr \<Rightarrow> 'v option io_result" where
  "kv_get from_json d key =
     and_then (file_get d key) (\<lambda>r.
       case r of
         None \<Rightarrow> Inr None
       | Some json \<Rightarrow>
           (case from_json json of
              None \<Rightarrow> Inl (IoErr ''InvalidData'')
            | Some v \<Rightarrow> Inr (Some v)))"

definition kv_get_raw :: "directory \<Rightarrow> ustr \<Rightarrow> ustr option io_result" where
  "kv_get_raw d key = file_get d key"

definition kv_delete :: "ustr \<Rightarrow> directory \<Rightarrow> directory \<times> bool io_result" where
  "kv_delete key d = file_delete key d"

definition kv_keys :: "directory \<Rightarrow> ustr list io_result" where
  "kv_keys d = file_keys d []"

definition kv_contains :: "directory \<Rightarrow> ustr \<Rightarrow> bool" where
  "kv_contains d key = (case file_exists d key of Inr b \<Rightarrow> b | Inl _ \<Rightarrow> False)"

lemma kv_get_put:
  assumes "dir_wf d" "valid_str key" "to_json value = Some json" "valid_str json"
    and "from_json json = Some value"
  shows "kv_get from_json (fst (kv_put to_json NoFault key value d)) key = Inr (Some value)"
  using fstore.get_put[OF assms(1,2,4,2)] assms(3,5) by (simp add: kv_get_def kv_put_def)

end
