(* ===== verification/Recovery.thy ===== *)
theory Recovery
  imports KV_Store Core_Types F64 "HOL-Library.Countable"
begin

text \<open>
  \<open>tachyon-store/src/recovery.rs\<close>: the snapshots of tasks in the key-value store, and the
  older record format. \<open>serde_json\<close> is the parameter \<open>j\<close>, a record of the conversions the code
  calls. \<open>load_task_snapshot\<close> and the others return the result of \<open>std::io\<close>.
\<close>

record task_snapshot =
  sn_id :: ustr
  sn_url :: ustr
  sn_save_path :: ustr
  sn_file_name :: ustr
  sn_file_size :: "u64 option"
  sn_downloaded :: u64
  sn_completed_fragments :: "u32 list"
  sn_total_fragments :: u32
  sn_fragment_size :: u64
  sn_status :: download_state
  sn_etag :: "ustr option"
  sn_last_modified :: "ustr option"
  sn_content_length :: "u64 option"
  sn_created_at :: ustr
  sn_updated_at :: ustr
  sn_fail_reason :: "ustr option"
  sn_retry_count :: u32

record task_record =
  tr_task_id :: ustr
  tr_url :: ustr
  tr_save_path :: ustr
  tr_file_size :: "u64 option"
  tr_downloaded :: u64
  tr_completed_fragments :: "u32 list"
  tr_total_fragments :: u32
  tr_status :: ustr

definition status_text :: "download_state \<Rightarrow> ustr" where
  "status_text s = to_ustr (state_to_string s)"

definition record_of_snapshot :: "task_snapshot \<Rightarrow> task_record" where
  "record_of_snapshot s =
     \<lparr>tr_task_id = sn_id s, tr_url = sn_url s, tr_save_path = sn_save_path s,
      tr_file_size = sn_file_size s, tr_downloaded = sn_downloaded s,
      tr_completed_fragments = sn_completed_fragments s,
      tr_total_fragments = sn_total_fragments s, tr_status = status_text (sn_status s)\<rparr>"

definition parse_legacy_status :: "ustr \<Rightarrow> download_state" where
  "parse_legacy_status status =
     (case List.find (\<lambda>s. status_text s = status) all_states of Some s \<Rightarrow> s | None \<Rightarrow> Failed)"

text \<open>\<open>Path::file_name\<close> of a path given as text, on a POSIX system.\<close>

definition text_file_name :: "ustr \<Rightarrow> ustr option" where
  "text_file_name p =
     (let comps = filter (\<lambda>c. c \<noteq> [] \<and> c \<noteq> [46]) (split_on (\<lambda>c. c = 47) p)
      in if comps = [] \<or> last comps = [46, 46] then None else Some (last comps))"

definition snapshot_of_record :: "task_record \<Rightarrow> task_snapshot" where
  "snapshot_of_record r =
     \<lparr>sn_id = tr_task_id r, sn_url = tr_url r, sn_save_path = tr_save_path r,
      sn_file_name = (case text_file_name (tr_save_path r) of
                        Some n \<Rightarrow> n | None \<Rightarrow> to_ustr ''unknown''),
      sn_file_size = tr_file_size r, sn_downloaded = tr_downloaded r,
      sn_completed_fragments = tr_completed_fragments r,
      sn_total_fragments = tr_total_fragments r, sn_fragment_size = 0,
      sn_status = parse_legacy_status (tr_status r), sn_etag = None, sn_last_modified = None,
      sn_content_length = tr_file_size r, sn_created_at = [], sn_updated_at = [],
      sn_fail_reason = None, sn_retry_count = 0\<rparr>"

section \<open>The manager\<close>

record json =
  snapshot_to_json :: "task_snapshot \<Rightarrow> ustr option"
  snapshot_from_json :: "ustr \<Rightarrow> task_snapshot option"
  record_from_json :: "ustr \<Rightarrow> task_record option"

definition task_prefix :: ustr where
  "task_prefix = to_ustr ''task_''"

definition save_task_snapshot ::
    "json \<Rightarrow> set_fault \<Rightarrow> task_snapshot \<Rightarrow> directory \<Rightarrow> directory \<times> unit io_result" where
  "save_task_snapshot j fault snapshot d =
     kv_put (snapshot_to_json j) fault (task_prefix @ sn_id snapshot) snapshot d"

definition load_task_snapshot_by_key ::
    "json \<Rightarrow> directory \<Rightarrow> ustr \<Rightarrow> task_snapshot option io_result" where
  "load_task_snapshot_by_key j d key =
     and_then (kv_get_raw d key) (\<lambda>r.
       case r of
         None \<Rightarrow> Inr None
       | Some text \<Rightarrow>
           (case snapshot_from_json j text of
              Some s \<Rightarrow> Inr (Some s)
            | None \<Rightarrow>
                (case record_from_json j text of
                   Some rec \<Rightarrow> Inr (Some (snapshot_of_record rec))
                 | None \<Rightarrow> Inl (IoErr ''InvalidData''))))"

definition load_task_snapshot :: "json \<Rightarrow> directory \<Rightarrow> ustr \<Rightarrow> task_snapshot option io_result" where
  "load_task_snapshot j d task_id = load_task_snapshot_by_key j d (task_prefix @ task_id)"

fun load_keys :: "json \<Rightarrow> directory \<Rightarrow> ustr list \<Rightarrow> task_snapshot list io_result" where
  "load_keys j d [] = Inr []"
| "load_keys j d (key # keys) =
     (if prefix task_prefix key then
        and_then (load_task_snapshot_by_key j d key) (\<lambda>r.
        and_then (load_keys j d keys) (\<lambda>rest.
          Inr (case r of Some s \<Rightarrow> s # rest | None \<Rightarrow> rest)))
      else load_keys j d keys)"

definition load_all_task_snapshots :: "json \<Rightarrow> directory \<Rightarrow> task_snapshot list io_result" where
  "load_all_task_snapshots j d = and_then (kv_keys d) (load_keys j d)"

definition save_task ::
    "json \<Rightarrow> set_fault \<Rightarrow> task_record \<Rightarrow> directory \<Rightarrow> directory \<times> unit io_result" where
  "save_task j fault rec d = save_task_snapshot j fault (snapshot_of_record rec) d"

definition load_task :: "json \<Rightarrow> directory \<Rightarrow> ustr \<Rightarrow> task_record option io_result" where
  "load_task j d task_id =
     and_then (load_task_snapshot j d task_id) (\<lambda>s. Inr (map_option record_of_snapshot s))"

definition remove_task :: "ustr \<Rightarrow> directory \<Rightarrow> directory \<times> bool io_result" where
  "remove_task task_id d = kv_delete (task_prefix @ task_id) d"

fun pending_records :: "json \<Rightarrow> directory \<Rightarrow> ustr list \<Rightarrow> task_record list io_result" where
  "pending_records j d [] = Inr []"
| "pending_records j d (key # keys) =
     (case strip_prefix task_prefix key of
        None \<Rightarrow> pending_records j d keys
      | Some task_id \<Rightarrow>
          and_then (load_task j d task_id) (\<lambda>r.
          and_then (pending_records j d keys) (\<lambda>rest.
            Inr (case r of
                   Some rec \<Rightarrow>
                     if tr_status rec = to_ustr ''downloading'' \<or> tr_status rec = to_ustr ''paused''
                     then rec # rest else rest
                 | None \<Rightarrow> rest))))"

definition recover_pending_tasks :: "json \<Rightarrow> directory \<Rightarrow> task_record list io_result" where
  "recover_pending_tasks j d = and_then (kv_keys d) (pending_records j d)"

definition recover_pending_snapshots :: "json \<Rightarrow> directory \<Rightarrow> task_snapshot list io_result" where
  "recover_pending_snapshots j d =
     and_then (load_all_task_snapshots j d) (\<lambda>ss.
       Inr (filter (\<lambda>s. sn_status s = Downloading \<or> sn_status s = Paused) ss))"

definition update_fragment_progress ::
    "json \<Rightarrow> set_fault \<Rightarrow> ustr \<Rightarrow> u32 \<Rightarrow> u64 \<Rightarrow> directory \<Rightarrow> directory \<times> unit io_result" where
  "update_fragment_progress j fault task_id fragment_index downloaded_bytes d =
     (case load_task j d task_id of
        Inl e \<Rightarrow> (d, Inl e)
      | Inr None \<Rightarrow> (d, Inr ())
      | Inr (Some rec) \<Rightarrow>
          (let rec1 = (if fragment_index \<notin> set (tr_completed_fragments rec)
                       then rec\<lparr>tr_completed_fragments := tr_completed_fragments rec @ [fragment_index]\<rparr>
                       else rec);
               rec2 = rec1\<lparr>tr_downloaded := downloaded_bytes\<rparr>
           in save_task j fault rec2 d))"

section \<open>Saving and loading\<close>

lemma status_text_inject [simp]: "status_text s = status_text t \<longleftrightarrow> s = t"
proof -
  have "inj (of_char :: char \<Rightarrow> nat)" by (rule inj_of_char)
  then have "to_ustr a = to_ustr b \<longleftrightarrow> a = b" for a b by (simp add: to_ustr_def inj_map_eq_map)
  then show ?thesis by (simp add: status_text_def)
qed

lemma parse_status_text [simp]: "parse_legacy_status (status_text s) = s"
  by (simp add: parse_legacy_status_def all_states_def) (cases s; simp)

lemma valid_task_prefix: "valid_str task_prefix"
  by (simp add: task_prefix_def to_ustr_def scalar_def)

text \<open>The law \<open>serde_json\<close> documents, for one snapshot: it parses back from its text.\<close>

definition json_roundtrip :: "json \<Rightarrow> task_snapshot \<Rightarrow> bool" where
  "json_roundtrip j s \<longleftrightarrow>
     (\<exists>text. snapshot_to_json j s = Some text \<and> valid_str text \<and> snapshot_from_json j text = Some s)"

lemma save_load:
  assumes "dir_wf d" "json_roundtrip j s" "valid_str (sn_id s)"
  shows "snd (save_task_snapshot j NoFault s d) = Inr ()"
    "dir_wf (fst (save_task_snapshot j NoFault s d))"
    "load_task_snapshot j (fst (save_task_snapshot j NoFault s d)) (sn_id s) = Inr (Some s)"
    "valid_str t \<Longrightarrow> t \<noteq> sn_id s \<Longrightarrow>
     load_task_snapshot j (fst (save_task_snapshot j NoFault s d)) t = load_task_snapshot j d t"
proof -
  obtain js where t: "snapshot_to_json j s = Some js" "valid_str js"
    "snapshot_from_json j js = Some s"
    using assms(2) by (auto simp: json_roundtrip_def)
  have key: "valid_str (task_prefix @ i)" if "valid_str i" for i
    using valid_task_prefix that by auto
  have save: "save_task_snapshot j NoFault s d = file_set NoFault (task_prefix @ sn_id s) js d"
    using t by (simp add: save_task_snapshot_def kv_put_def)
  note k = key[OF assms(3)]
  show "snd (save_task_snapshot j NoFault s d) = Inr ()"
    "dir_wf (fst (save_task_snapshot j NoFault s d))"
    using fstore.put_ok[OF assms(1) k t(2)] by (simp_all add: save)
  show "load_task_snapshot j (fst (save_task_snapshot j NoFault s d)) (sn_id s) = Inr (Some s)"
    using fstore.get_put[OF assms(1) k t(2) k] t(3)
    by (simp add: load_task_snapshot_def load_task_snapshot_by_key_def kv_get_raw_def save)
  show "load_task_snapshot j (fst (save_task_snapshot j NoFault s d)) t = load_task_snapshot j d t"
    if "valid_str t" "t \<noteq> sn_id s"
    using fstore.get_put[OF assms(1) k t(2) key[OF that(1)]] that(2)
    by (simp add: load_task_snapshot_def load_task_snapshot_by_key_def kv_get_raw_def save)
qed

text \<open>Whatever fails, a save replaces the snapshot of its task or leaves everything as it is.\<close>

lemma save_any:
  assumes "dir_wf d" "json_roundtrip j s" "valid_str (sn_id s)" "valid_str t"
  shows "dir_wf (fst (save_task_snapshot j fault s d))"
    "load_task_snapshot j (fst (save_task_snapshot j fault s d)) t =
       (if fault = NoFault \<and> t = sn_id s then Inr (Some s) else load_task_snapshot j d t)"
proof -
  obtain js where t: "snapshot_to_json j s = Some js"
    using assms(2) by (auto simp: json_roundtrip_def)
  have "dir_wf (fst (save_task_snapshot j fault s d)) \<and>
      load_task_snapshot j (fst (save_task_snapshot j fault s d)) t =
       (if fault = NoFault \<and> t = sn_id s then Inr (Some s) else load_task_snapshot j d t)"
  proof (cases "fault = NoFault")
    case True
    then show ?thesis using save_load[OF assms(1-3)] assms(4) by simp
  next
    case False
    then show ?thesis using file_set_fault[OF assms(1) False] t
      by (simp add: save_task_snapshot_def kv_put_def load_task_snapshot_def load_task_snapshot_by_key_def
          kv_get_raw_def)
  qed
  then show "dir_wf (fst (save_task_snapshot j fault s d))"
    "load_task_snapshot j (fst (save_task_snapshot j fault s d)) t =
       (if fault = NoFault \<and> t = sn_id s then Inr (Some s) else load_task_snapshot j d t)" by blast+
qed

text \<open>A codec for every snapshot: a list of numbers, written in unary.\<close>

definition snapshot_code :: "task_snapshot \<Rightarrow> nat" where
  "snapshot_code s = to_nat
     ((sn_id s, sn_url s, sn_save_path s, sn_file_name s, map_option unat (sn_file_size s)),
      (unat (sn_downloaded s), map unat (sn_completed_fragments s), unat (sn_total_fragments s),
       unat (sn_fragment_size s), state_to_string (sn_status s)),
      (sn_etag s, sn_last_modified s, map_option unat (sn_content_length s), sn_created_at s, sn_updated_at s),
      sn_fail_reason s, unat (sn_retry_count s))"

definition unary_json :: json where
  "unary_json =
     \<lparr>snapshot_to_json = (\<lambda>s. Some (replicate (snapshot_code s) 49)),
      snapshot_from_json = (\<lambda>t. Some (inv snapshot_code (length t))),
      record_from_json = (\<lambda>_. None)\<rparr>"

lemma inj_snapshot_code: "inj snapshot_code"
proof (rule injI)
  fix s t assume "snapshot_code s = snapshot_code t"
  moreover have "map_option unat a = map_option unat b \<longleftrightarrow> a = b" for a b :: "u64 option"
    by (cases a; cases b) (simp_all add: word_unat_eq_iff)
  moreover have "map unat a = map unat b \<longleftrightarrow> a = b" for a b :: "u32 list"
    by (simp add: inj_map_eq_map inj_def word_unat_eq_iff)
  moreover have "inj state_to_string"
  proof (rule injI)
    fix a b assume "state_to_string a = state_to_string b"
    then have "status_text a = status_text b" by (simp add: status_text_def)
    then show "a = b" by simp
  qed
  ultimately show "s = t"
    by (cases s; cases t) (simp add: snapshot_code_def inj_eq)
qed

lemma unary_json_roundtrip: "json_roundtrip unary_json s"
  using inj_snapshot_code by (auto simp: json_roundtrip_def unary_json_def scalar_def inv_f_f)

text \<open>
  C15. A saved snapshot is loaded back unchanged under its id, whatever else is in the store, and
  saving it changes no other task.
\<close>

theorem snapshot_roundtrip:
  assumes "dir_wf d" "json_roundtrip j s" "valid_str (sn_id s)" "valid_str t"
  shows "load_task_snapshot j (fst (save_task_snapshot j NoFault s d)) t =
    (if t = sn_id s then Inr (Some s) else load_task_snapshot j d t)"
  using save_load[OF assms(1-3)] assms(4) by simp

definition sample_snapshot :: "download_state \<Rightarrow> task_snapshot" where
  "sample_snapshot st =
     \<lparr>sn_id = [49], sn_url = [104], sn_save_path = [47, 97], sn_file_name = [97], sn_file_size = Some 10,
      sn_downloaded = 3, sn_completed_fragments = [0], sn_total_fragments = 4, sn_fragment_size = 3,
      sn_status = st, sn_etag = Some [101], sn_last_modified = None, sn_content_length = Some 10,
      sn_created_at = [50], sn_updated_at = [51], sn_fail_reason = None, sn_retry_count = 2\<rparr>"

text \<open>A codec for the samples: the text is the position of the snapshot in a list.\<close>

definition table_json :: "task_snapshot list \<Rightarrow> json" where
  "table_json ss =
     \<lparr>snapshot_to_json = (\<lambda>s. map_option (\<lambda>i. [i]) (position (\<lambda>x. x = s) ss)),
      snapshot_from_json = (\<lambda>t. case t of [i] \<Rightarrow> if i < length ss then Some (ss ! i) else None | _ \<Rightarrow> None),
      record_from_json = (\<lambda>_. None)\<rparr>"

lemma table_json_roundtrip:
  assumes "s \<in> set ss" "length ss < 1000"
  shows "json_roundtrip (table_json ss) s"
proof -
  obtain i where i: "position (\<lambda>x. x = s) ss = Some i"
    using assms(1) by (cases "position (\<lambda>x. x = s) ss") auto
  then have "i < length ss" "ss ! i = s" using position_SomeD[OF i] by auto
  then show ?thesis using i assms(2) by (auto simp: json_roundtrip_def table_json_def scalar_def)
qed

theorem snapshot_roundtrip_witness:
  "load_task_snapshot (table_json [sample_snapshot Paused])
     (fst (save_task_snapshot (table_json [sample_snapshot Paused]) NoFault (sample_snapshot Paused) []))
     [49] = Inr (Some (sample_snapshot Paused))"
proof -
  have "json_roundtrip (table_json [sample_snapshot Paused]) (sample_snapshot Paused)"
    by (rule table_json_roundtrip) simp_all
  from snapshot_roundtrip[OF _ this, of "[]" "[49]"] show ?thesis
    by (simp add: dir_wf_def sample_snapshot_def scalar_def)
qed

section \<open>What recovery finds\<close>

lemma load_keys_Inr:
  assumes "load_keys j d keys = Inr ss"
  shows "s \<in> set ss \<longleftrightarrow>
    (\<exists>key \<in> set keys. prefix task_prefix key \<and> load_task_snapshot_by_key j d key = Inr (Some s))"
  using assms
proof (induction keys arbitrary: ss)
  case (Cons key keys)
  show ?case
  proof (cases "prefix task_prefix key")
    case True
    then obtain r rest where "load_task_snapshot_by_key j d key = Inr r" "load_keys j d keys = Inr rest"
      "ss = (case r of Some s \<Rightarrow> s # rest | None \<Rightarrow> rest)"
      using Cons.prems by auto
    then show ?thesis using Cons.IH True by (auto split: option.splits)
  next
    case False
    then show ?thesis using Cons by auto
  qed
qed simp

lemma kv_keys_Inr:
  assumes "dir_wf d"
  obtains ks where "kv_keys d = Inr ks"
    "\<And>k. valid_str k \<Longrightarrow> k \<in> set ks \<longleftrightarrow> kv_get_raw d k \<noteq> Inr None"
  using fstore.keys_get[OF assms, of "[]"] by (auto simp: kv_keys_def kv_get_raw_def)

lemma recover_pending_mem:
  assumes "dir_wf d" "recover_pending_snapshots j d = Inr ss" "valid_str i"
    and "load_task_snapshot j d i = Inr (Some s)"
  shows "(sn_status s = Downloading \<or> sn_status s = Paused) \<longrightarrow> s \<in> set ss"
proof
  assume st: "sn_status s = Downloading \<or> sn_status s = Paused"
  obtain ks where ks: "kv_keys d = Inr ks"
    "\<And>k. valid_str k \<Longrightarrow> k \<in> set ks \<longleftrightarrow> kv_get_raw d k \<noteq> Inr None"
    using kv_keys_Inr[OF assms(1)] by blast
  obtain all where all: "load_keys j d ks = Inr all"
    "ss = filter (\<lambda>s. sn_status s = Downloading \<or> sn_status s = Paused) all"
    using assms(2) ks(1) by (auto simp: recover_pending_snapshots_def load_all_task_snapshots_def)
  have key: "valid_str (task_prefix @ i)" using valid_task_prefix assms(3) by auto
  have load: "load_task_snapshot_by_key j d (task_prefix @ i) = Inr (Some s)"
    using assms(4) by (simp add: load_task_snapshot_def)
  then have "kv_get_raw d (task_prefix @ i) \<noteq> Inr None"
    by (auto simp: load_task_snapshot_by_key_def)
  then have "task_prefix @ i \<in> set ks" using ks(2)[OF key] by simp
  then have "s \<in> set all" using load_keys_Inr[OF all(1), of s] load by auto
  then show "s \<in> set ss" using all(2) st by simp
qed

lemma recover_pending_status:
  assumes "recover_pending_snapshots j d = Inr ss" "s \<in> set ss"
  shows "sn_status s = Downloading \<or> sn_status s = Paused"
  using assms by (auto simp: recover_pending_snapshots_def)

lemma recover_pending_total:
  "kv_keys d = Inr ks \<Longrightarrow> load_keys j d ks = Inr all \<Longrightarrow> \<exists>ss. recover_pending_snapshots j d = Inr ss"
  by (simp add: recover_pending_snapshots_def load_all_task_snapshots_def)

text \<open>
  C8. Recovery returns every stored task that was downloading or paused, and only those: a task
  whose last snapshot says pending, connecting, resuming or verifying is unfinished but never
  recovered.
\<close>

theorem recover_pending_exact:
  assumes "dir_wf d" "recover_pending_snapshots j d = Inr ss" "valid_str i"
    and "load_task_snapshot j d i = Inr (Some s)"
  shows "(s \<in> set ss \<longleftrightarrow> sn_status s = Downloading \<or> sn_status s = Paused) \<and>
    (sn_status s \<in> {Pending, Connecting, Resuming, Verifying} \<longrightarrow>
       \<not> is_terminal (sn_status s) \<and> s \<notin> set ss)"
  using recover_pending_mem[OF assms] recover_pending_status[OF assms(2), of s] by auto

text \<open>A store with the sample snapshot.\<close>

definition sample_dir :: "download_state \<Rightarrow> directory" where
  "sample_dir st = fst (save_task_snapshot (table_json [sample_snapshot st]) NoFault (sample_snapshot st) [])"

lemma sample_dir_wf: "dir_wf (sample_dir st)"
  and sample_dir_load:
    "load_task_snapshot (table_json [sample_snapshot st]) (sample_dir st) [49] = Inr (Some (sample_snapshot st))"
proof -
  have j: "json_roundtrip (table_json [sample_snapshot st]) (sample_snapshot st)"
    by (rule table_json_roundtrip) simp_all
  have "dir_wf []" "sn_id (sample_snapshot st) = [49]" "valid_str [49]"
    by (simp_all add: dir_wf_def sample_snapshot_def scalar_def)
  with save_load[OF _ j] show "dir_wf (sample_dir st)"
    "load_task_snapshot (table_json [sample_snapshot st]) (sample_dir st) [49] = Inr (Some (sample_snapshot st))"
    unfolding sample_dir_def by metis+
qed

lemma sample_dir_by_key:
  obtains "load_task_snapshot_by_key (table_json [sample_snapshot st]) (sample_dir st) k = Inr None"
  | "load_task_snapshot_by_key (table_json [sample_snapshot st]) (sample_dir st) k = Inr (Some (sample_snapshot st))"
proof -
  have id: "sn_id (sample_snapshot st) = [49]" by (simp add: sample_snapshot_def)
  have "sample_dir st = [(path_for (task_prefix @ [49]), utf8_encode [0])]"
    by (simp add: sample_dir_def save_task_snapshot_def kv_put_def table_json_def id file_set_def
        rename_file_def write_file_def Let_def)
  then have "kv_get_raw (sample_dir st) k = Inr None \<or> kv_get_raw (sample_dir st) k = Inr (Some [0])"
    by (simp add: kv_get_raw_def file_get_def Let_def from_utf8_encode[of "[0]", simplified] scalar_def)
  moreover have "snapshot_from_json (table_json [sample_snapshot st]) [0] = Some (sample_snapshot st)"
    by (simp add: table_json_def)
  ultimately show thesis using that by (auto simp: load_task_snapshot_by_key_def)
qed

lemma sample_dir_recovers:
  obtains ss where "recover_pending_snapshots (table_json [sample_snapshot st]) (sample_dir st) = Inr ss"
    "\<And>s. s \<in> set ss \<Longrightarrow> s = sample_snapshot st"
proof -
  let ?j = "table_json [sample_snapshot st]"
  have "\<exists>ss. load_keys ?j (sample_dir st) ks = Inr ss \<and> (\<forall>s \<in> set ss. s = sample_snapshot st)" for ks
  proof (induction ks)
    case (Cons k ks)
    then show ?case by (cases rule: sample_dir_by_key[of st k]) auto
  qed simp
  moreover obtain ks where "kv_keys (sample_dir st) = Inr ks" using kv_keys_Inr[OF sample_dir_wf] .
  ultimately obtain all where "load_all_task_snapshots ?j (sample_dir st) = Inr all"
    "\<forall>s \<in> set all. s = sample_snapshot st"
    by (auto simp: load_all_task_snapshots_def)
  then show thesis by (intro that) (auto simp: recover_pending_snapshots_def)
qed

theorem recover_pending_exact_witness:
  "\<exists>d ss. recover_pending_snapshots (table_json [sample_snapshot Verifying]) d = Inr ss \<and>
     load_task_snapshot (table_json [sample_snapshot Verifying]) d [49] =
       Inr (Some (sample_snapshot Verifying)) \<and> sample_snapshot Verifying \<notin> set ss"
proof -
  obtain ss where ss: "recover_pending_snapshots (table_json [sample_snapshot Verifying]) (sample_dir Verifying) = Inr ss"
    using sample_dir_recovers .
  have "sn_status (sample_snapshot Verifying) = Verifying" by (simp add: sample_snapshot_def)
  then have "sample_snapshot Verifying \<notin> set ss"
    using recover_pending_exact[OF sample_dir_wf ss _ sample_dir_load] by (simp add: scalar_def)
  with ss sample_dir_load show ?thesis by blast
qed

text \<open>The snapshot that comes back from the older record after the update.\<close>

definition progressed_snapshot :: "u32 \<Rightarrow> u64 \<Rightarrow> task_snapshot \<Rightarrow> task_snapshot" where
  "progressed_snapshot idx n s =
     (let rec = record_of_snapshot s;
          done_list = tr_completed_fragments rec
      in snapshot_of_record
           (rec\<lparr>tr_completed_fragments := (if idx \<in> set done_list then done_list else done_list @ [idx]),
                tr_downloaded := n\<rparr>))"

lemma update_fragment_progress_eq:
  assumes "load_task_snapshot j d i = Inr (Some s)"
  shows "update_fragment_progress j fault i idx n d =
    save_task_snapshot j fault (progressed_snapshot idx n s) d"
  using assms
  by (simp add: update_fragment_progress_def load_task_def save_task_def Let_def progressed_snapshot_def)

text \<open>
  \<open>update_fragment_progress\<close> records the fragment and the byte count, but writes the task
  back through the older record: the entity tag, the modification date, the fragment size, the
  retry count and both time stamps of the snapshot are gone afterwards.
\<close>

theorem update_fragment_progress_erases:
  assumes "dir_wf d" "valid_str (sn_id s)" "load_task_snapshot j d (sn_id s) = Inr (Some s)"
    and "json_roundtrip j (progressed_snapshot idx n s)"
  shows "\<exists>s'. load_task_snapshot j (fst (update_fragment_progress j NoFault (sn_id s) idx n d)) (sn_id s)
      = Inr (Some s') \<and>
    set (sn_completed_fragments s') = insert idx (set (sn_completed_fragments s)) \<and>
    sn_downloaded s' = n \<and> sn_status s' = sn_status s \<and>
    sn_etag s' = None \<and> sn_last_modified s' = None \<and> sn_fragment_size s' = 0 \<and>
    sn_retry_count s' = 0 \<and> sn_created_at s' = [] \<and> sn_updated_at s' = []"
proof -
  let ?s = "progressed_snapshot idx n s"
  have id: "sn_id ?s = sn_id s"
    by (simp add: progressed_snapshot_def snapshot_of_record_def record_of_snapshot_def Let_def)
  have "load_task_snapshot j (fst (save_task_snapshot j NoFault ?s d)) (sn_id s) = Inr (Some ?s)"
    using save_load(3)[OF assms(1,4)] assms(2) id by simp
  then show ?thesis
    unfolding update_fragment_progress_eq[OF assms(3)]
    by (intro exI[of _ ?s])
      (auto simp: progressed_snapshot_def snapshot_of_record_def record_of_snapshot_def Let_def)
qed

theorem update_fragment_progress_erases_witness:
  "\<exists>j d s'. load_task_snapshot j d [49] = Inr (Some (sample_snapshot Paused)) \<and>
     sn_etag (sample_snapshot Paused) = Some [101] \<and>
     load_task_snapshot j (fst (update_fragment_progress j NoFault [49] 2 7 d)) [49] = Inr (Some s') \<and>
     sn_etag s' = None \<and> 2 \<in> set (sn_completed_fragments s')"
proof -
  let ?s = "sample_snapshot Paused"
  let ?j = "table_json [?s, progressed_snapshot 2 7 ?s]"
  have j: "json_roundtrip ?j ?s" "json_roundtrip ?j (progressed_snapshot 2 7 ?s)"
    by (rule table_json_roundtrip, simp_all)+
  have wf: "dir_wf []" by (simp add: dir_wf_def)
  have id: "sn_id ?s = [49]" "valid_str (sn_id ?s)" by (simp_all add: sample_snapshot_def scalar_def)
  note sl = save_load[OF wf j(1) id(2)]
  from update_fragment_progress_erases[OF sl(2) id(2) sl(3) j(2)] sl(3) id(1)
  show ?thesis by (auto simp: sample_snapshot_def)
qed

end
