(* ===== verification/Scheduler_Queue.thy ===== *)
theory Scheduler_Queue
  imports Prelude F64 "HOL-Library.Product_Lexorder"
begin

text \<open>
  \<open>tachyon-scheduler/src/scheduler.rs\<close>: the priority queue with lazy deletion. The
  \<open>BinaryHeap\<close> is the list of its entries; \<open>pop\<close> takes a greatest one (which one among
  equals the standard library leaves open; the result below does not depend on it). The index
  is the \<open>HashMap\<close>.
\<close>

datatype priority = Prefetch | Queue | UserInitiated

fun priority_rank :: "priority \<Rightarrow> nat" where
  "priority_rank Prefetch = 0"
| "priority_rank Queue = 1"
| "priority_rank UserInitiated = 2"

text \<open>The derived \<open>Ord\<close>.\<close>

instantiation priority :: linorder
begin

definition less_eq_priority :: "priority \<Rightarrow> priority \<Rightarrow> bool" where
  "less_eq_priority p q = (priority_rank p \<le> priority_rank q)"

definition less_priority :: "priority \<Rightarrow> priority \<Rightarrow> bool" where
  "less_priority p q = (priority_rank p < priority_rank q)"

lemma priority_rank_inject: "priority_rank p = priority_rank q \<Longrightarrow> p = q"
  by (cases p; cases q) simp_all

instance
  by standard (auto simp: less_eq_priority_def less_priority_def intro: priority_rank_inject)

end

text \<open>A \<open>Uuid\<close>, whose order is that of its 128 bits.\<close>

type_synonym task_id = "128 word"

record scheduled_task =
  st_task_id :: task_id
  st_priority :: priority
  st_file_size :: u64
  st_progress :: f64
  st_version :: u64

definition scheduled_task_new :: "task_id \<Rightarrow> priority \<Rightarrow> u64 \<Rightarrow> f64 \<Rightarrow> scheduled_task" where
  "scheduled_task_new i p sz prog =
     \<lparr>st_task_id = i, st_priority = p, st_file_size = sz, st_progress = prog, st_version = 0\<rparr>"

section \<open>The order of tasks\<close>

datatype ordering = Less | Equal | Greater

definition compare_lin :: "'a::linorder \<Rightarrow> 'a \<Rightarrow> ordering" where
  "compare_lin a b = (if a < b then Less else if a = b then Equal else Greater)"

definition then_with :: "ordering \<Rightarrow> ordering \<Rightarrow> ordering" where
  "then_with a b = (if a = Equal then b else a)"

definition f64_partial_cmp :: "f64 \<Rightarrow> f64 \<Rightarrow> ordering option" where
  "f64_partial_cmp a b =
     (if is_nan a \<or> is_nan b then None
      else Some (if f64_lt a b then Less else if f64_lt b a then Greater else Equal))"

definition unwrap_or :: "'a option \<Rightarrow> 'a \<Rightarrow> 'a" where
  "unwrap_or x d = (case x of None \<Rightarrow> d | Some v \<Rightarrow> v)"

definition progress_or_zero :: "scheduled_task \<Rightarrow> f64" where
  "progress_or_zero t = (if is_nan (st_progress t) then Fin 0 else st_progress t)"

definition task_cmp :: "scheduled_task \<Rightarrow> scheduled_task \<Rightarrow> ordering" where
  "task_cmp t u =
     then_with (compare_lin (st_priority t) (st_priority u))
    (then_with (unwrap_or (f64_partial_cmp (progress_or_zero t) (progress_or_zero u)) Equal)
    (then_with (compare_lin (st_file_size u) (st_file_size t))
       (compare_lin (st_task_id t) (st_task_id u))))"

text \<open>The same order as a key into a linear order.\<close>

fun f64_rank :: "f64 \<Rightarrow> int \<times> rat" where
  "f64_rank NaN = (0, 0)"
| "f64_rank (Inf s) = (if s then (- 1, 0) else (1, 0))"
| "f64_rank (Fin x) = (0, x)"

definition task_key :: "scheduled_task \<Rightarrow> priority \<times> (int \<times> rat) \<times> int \<times> task_id" where
  "task_key t =
     (st_priority t, f64_rank (st_progress t), - uint (st_file_size t), st_task_id t)"

lemma f64_rank_less: "\<not> is_nan a \<Longrightarrow> \<not> is_nan b \<Longrightarrow> f64_lt a b \<longleftrightarrow> f64_rank a < f64_rank b"
  by (cases a; cases b) (auto simp: less_prod_def)

lemma f64_rank_progress: "f64_rank (progress_or_zero t) = f64_rank (st_progress t)"
  by (cases "st_progress t") (simp_all add: progress_or_zero_def)

lemma progress_not_nan: "\<not> is_nan (progress_or_zero t)"
  by (simp add: progress_or_zero_def)

lemma progress_cmp:
  "unwrap_or (f64_partial_cmp (progress_or_zero t) (progress_or_zero u)) Equal =
     compare_lin (f64_rank (st_progress t)) (f64_rank (st_progress u))"
  using f64_rank_less[OF progress_not_nan[of t] progress_not_nan[of u]]
    f64_rank_less[OF progress_not_nan[of u] progress_not_nan[of t]]
  by (auto simp: f64_partial_cmp_def progress_not_nan compare_lin_def unwrap_or_def f64_rank_progress)

lemma compare_lin_pair:
  "compare_lin (a, b) (c, d) = then_with (compare_lin a c) (compare_lin b d)"
  by (auto simp: compare_lin_def then_with_def)

lemma task_cmp_key: "task_cmp t u = compare_lin (task_key t) (task_key u)"
proof -
  have neg: "compare_lin (- uint a) (- uint b) = compare_lin b a" for a b :: u64
    by (auto simp: compare_lin_def word_less_def word_uint_eq_iff)
  show ?thesis
    unfolding task_cmp_def progress_cmp task_key_def compare_lin_pair neg ..
qed

lemma task_cmp_not_greater: "task_cmp u t \<noteq> Greater \<longleftrightarrow> task_key u \<le> task_key t"
  by (auto simp: task_cmp_key compare_lin_def)

section \<open>The scheduler\<close>

record scheduler =
  sc_queue :: "scheduled_task list"
  sc_index :: "task_id \<Rightarrow> scheduled_task option"
  sc_next_version :: u64

definition scheduler_new :: scheduler where
  "scheduler_new = \<lparr>sc_queue = [], sc_index = Map.empty, sc_next_version = 1\<rparr>"

definition scheduler_push :: "scheduled_task \<Rightarrow> scheduler \<Rightarrow> scheduler" where
  "scheduler_push task s =
     (let (task, s) =
        (if st_version task = 0
         then (task\<lparr>st_version := sc_next_version s\<rparr>,
               s\<lparr>sc_next_version := sc_next_version s + 1\<rparr>)
         else (task, s))
      in s\<lparr>sc_index := (sc_index s)(st_task_id task \<mapsto> task), sc_queue := task # sc_queue s\<rparr>)"

text \<open>The position of a greatest entry.\<close>

fun max_entry :: "scheduled_task list \<Rightarrow> scheduled_task option" where
  "max_entry [] = None"
| "max_entry (t # ts) =
     (case max_entry ts of
        None \<Rightarrow> Some t
      | Some u \<Rightarrow> if task_cmp t u = Less then Some u else Some t)"

definition heap_pop :: "scheduled_task list \<Rightarrow> (scheduled_task \<times> scheduled_task list) option" where
  "heap_pop q = map_option (\<lambda>t. (t, remove1 t q)) (max_entry q)"

lemma max_entry_mem: "max_entry q = Some t \<Longrightarrow> t \<in> set q"
  by (induction q arbitrary: t) (auto split: option.splits if_splits)

lemma heap_pop_length: "heap_pop q = Some (t, q') \<Longrightarrow> length q = Suc (length q')"
  using max_entry_mem[of q t] length_pos_if_in_set[of t q]
  by (auto simp: heap_pop_def length_remove1)

function pop_loop :: "scheduler \<Rightarrow> scheduler \<times> scheduled_task option" where
  "pop_loop s =
     (case heap_pop (sc_queue s) of
        None \<Rightarrow> (s, None)
      | Some (task, q) \<Rightarrow>
          (let s = s\<lparr>sc_queue := q\<rparr> in
           case sc_index s (st_task_id task) of
             Some indexed \<Rightarrow>
               if st_version indexed = st_version task
               then (s\<lparr>sc_index := (sc_index s)(st_task_id task := None)\<rparr>, Some task)
               else pop_loop s
           | None \<Rightarrow> pop_loop s))"
  by pat_completeness auto
termination
  by (relation "measure (\<lambda>s. length (sc_queue s))") (auto dest: heap_pop_length)

declare pop_loop.simps [simp del]

definition scheduler_pop :: "scheduler \<Rightarrow> scheduler \<times> scheduled_task option" where
  "scheduler_pop s = pop_loop s"

definition scheduler_remove :: "task_id \<Rightarrow> scheduler \<Rightarrow> scheduler \<times> scheduled_task option" where
  "scheduler_remove i s = (s\<lparr>sc_index := (sc_index s)(i := None)\<rparr>, sc_index s i)"

definition scheduler_cancel :: "task_id \<Rightarrow> scheduler \<Rightarrow> scheduler \<times> bool" where
  "scheduler_cancel i s = (let (s', r) = scheduler_remove i s in (s', r \<noteq> None))"

text \<open>The two updates share their tail: a new version is indexed and queued.\<close>

definition requeue :: "scheduled_task \<Rightarrow> scheduler \<Rightarrow> scheduler" where
  "requeue task s =
     (let task = task\<lparr>st_version := sc_next_version s\<rparr>
      in s\<lparr>sc_next_version := sc_next_version s + 1,
           sc_index := (sc_index s)(st_task_id task \<mapsto> task), sc_queue := task # sc_queue s\<rparr>)"

definition update_priority ::
    "task_id \<Rightarrow> priority \<Rightarrow> scheduler \<Rightarrow> scheduler \<times> scheduled_task option" where
  "update_priority i p s =
     (case sc_index s i of
        None \<Rightarrow> (s, None)
      | Some old \<Rightarrow> (requeue (old\<lparr>st_priority := p\<rparr>) s, Some old))"

definition update_progress :: "task_id \<Rightarrow> f64 \<Rightarrow> scheduler \<Rightarrow> scheduler \<times> scheduled_task option" where
  "update_progress i prog s =
     (case sc_index s i of
        None \<Rightarrow> (s, None)
      | Some old \<Rightarrow> (requeue (old\<lparr>st_progress := prog\<rparr>) s, Some old))"

definition scheduler_contains :: "task_id \<Rightarrow> scheduler \<Rightarrow> bool" where
  "scheduler_contains i s = (sc_index s i \<noteq> None)"

definition scheduler_get :: "task_id \<Rightarrow> scheduler \<Rightarrow> scheduled_task option" where
  "scheduler_get i s = sc_index s i"

section \<open>Lazy deletion implements a priority queue\<close>

text \<open>
  The invariant: every indexed task is queued under its own id, queue entries of one id with
  one version are the same entry, and versions are below the next one.
\<close>

definition sched_inv :: "scheduler \<Rightarrow> bool" where
  "sched_inv s \<longleftrightarrow>
     (\<forall>i t. sc_index s i = Some t \<longrightarrow> t \<in> set (sc_queue s) \<and> st_task_id t = i) \<and>
     (\<forall>t \<in> set (sc_queue s). \<forall>u \<in> set (sc_queue s).
        st_task_id t = st_task_id u \<and> st_version t = st_version u \<longrightarrow> t = u) \<and>
     (\<forall>t \<in> set (sc_queue s). st_version t < sc_next_version s)"

lemma sched_invD:
  assumes "sched_inv s"
  shows "sc_index s i = Some t \<Longrightarrow> t \<in> set (sc_queue s)"
    "sc_index s i = Some t \<Longrightarrow> st_task_id t = i"
    "t \<in> set (sc_queue s) \<Longrightarrow> u \<in> set (sc_queue s) \<Longrightarrow> st_task_id t = st_task_id u \<Longrightarrow>
      st_version t = st_version u \<Longrightarrow> t = u"
    "t \<in> set (sc_queue s) \<Longrightarrow> st_version t < sc_next_version s"
  using assms unfolding sched_inv_def by blast+

lemma max_entry_None [simp]: "max_entry q = None \<longleftrightarrow> q = []"
  by (cases q) (auto split: option.splits)

lemma max_entry_max: "max_entry q = Some t \<Longrightarrow> u \<in> set q \<Longrightarrow> task_key u \<le> task_key t"
proof (induction q arbitrary: t u)
  case (Cons x q)
  show ?case
  proof (cases "max_entry q")
    case None
    then show ?thesis using Cons.prems by auto
  next
    case (Some m)
    have m: "\<forall>u \<in> set q. task_key u \<le> task_key m" using Cons.IH[OF Some] by blast
    show ?thesis
    proof (cases "task_cmp x m = Less")
      case True
      then have "task_key x < task_key m" by (simp add: task_cmp_key compare_lin_def split: if_splits)
      then show ?thesis using True Some m Cons.prems by auto
    next
      case False
      then have "task_key m \<le> task_key x" by (simp add: task_cmp_key compare_lin_def not_less split: if_splits)
      then show ?thesis using False Some m Cons.prems by (auto intro: order_trans)
    qed
  qed
qed simp

lemma heap_pop_SomeD:
  assumes "heap_pop q = Some (t, q')"
  shows "t \<in> set q" "q' = remove1 t q" "\<And>u. u \<in> set q \<Longrightarrow> task_key u \<le> task_key t"
  using assms max_entry_mem max_entry_max by (auto simp: heap_pop_def)

lemma sched_inv_shrink:
  assumes inv: "sched_inv s" and stale: "sc_index s (st_task_id t) \<noteq> Some t"
  shows "sched_inv (s\<lparr>sc_queue := remove1 t (sc_queue s)\<rparr>)"
proof -
  have sub: "set (remove1 t (sc_queue s)) \<subseteq> set (sc_queue s)" by (rule set_remove1_subset)
  have "u \<in> set (remove1 t (sc_queue s))" if "sc_index s i = Some u" for i u
  proof -
    have "u \<noteq> t" using sched_invD(2)[OF inv that] that stale by auto
    then show ?thesis using sched_invD(1)[OF inv that] by (simp add: in_set_remove1)
  qed
  then show ?thesis
    using inv sub unfolding sched_inv_def by (auto dest!: subsetD[OF sub])
qed

lemma pop_loop_spec:
  assumes "sched_inv s"
  shows "sched_inv (fst (pop_loop s)) \<and> sc_next_version (fst (pop_loop s)) = sc_next_version s \<and>
    (case snd (pop_loop s) of
       None \<Rightarrow> sc_index s = Map.empty \<and> sc_index (fst (pop_loop s)) = Map.empty
     | Some t \<Rightarrow> sc_index s (st_task_id t) = Some t \<and>
         (\<forall>i u. sc_index s i = Some u \<longrightarrow> task_key u \<le> task_key t) \<and>
         sc_index (fst (pop_loop s)) = (sc_index s)(st_task_id t := None))"
  using assms
proof (induction "length (sc_queue s)" arbitrary: s rule: less_induct)
  case (less s)
  show ?case
  proof (cases "heap_pop (sc_queue s)")
    case None
    then have "sc_queue s = []" by (simp add: heap_pop_def)
    then have "sc_index s = Map.empty"
      using sched_invD(1)[OF less.prems] by (intro ext) (metis empty_iff list.set(1) not_None_eq)
    then show ?thesis using None less.prems by (subst (1 2 3 4 5) pop_loop.simps) simp
  next
    case (Some tq)
    obtain t q where tq: "tq = (t, q)" by (cases tq)
    note pop = heap_pop_SomeD[OF Some[unfolded tq]]
    let ?s = "s\<lparr>sc_queue := q\<rparr>"
    show ?thesis
    proof (cases "sc_index s (st_task_id t) = Some t")
      case True
      have eq: "pop_loop s = (?s\<lparr>sc_index := (sc_index s)(st_task_id t := None)\<rparr>, Some t)"
        using Some True by (subst pop_loop.simps) (simp add: tq)
      have sub: "set q \<subseteq> set (sc_queue s)" unfolding pop(2) by (rule set_remove1_subset)
      have "u \<in> set q" if "sc_index s i = Some u" "i \<noteq> st_task_id t" for i u
      proof -
        have "u \<noteq> t" using sched_invD(2)[OF less.prems that(1)] that(2) by auto
        then show ?thesis using sched_invD(1)[OF less.prems that(1)] pop(2) by (simp add: in_set_remove1)
      qed
      then have inv: "sched_inv (?s\<lparr>sc_index := (sc_index s)(st_task_id t := None)\<rparr>)"
        using less.prems sub unfolding sched_inv_def by (auto dest!: subsetD[OF sub])
      show ?thesis using inv True pop(3) sched_invD(1)[OF less.prems] by (auto simp: eq)
    next
      case False
      have inv: "sched_inv ?s" using sched_inv_shrink[OF less.prems False] pop(2) by simp
      have stale: "\<not> (\<exists>u. sc_index s (st_task_id t) = Some u \<and> st_version u = st_version t)"
        using False pop(1) sched_invD(1,2,3)[OF less.prems] by metis
      then have eq: "pop_loop s = pop_loop ?s"
        using Some by (subst pop_loop.simps) (auto simp: tq Let_def split: option.splits)
      have "length (sc_queue ?s) < length (sc_queue s)"
        using heap_pop_length[OF Some[unfolded tq]] by simp
      from less.hyps[OF this inv] show ?thesis unfolding eq by (simp split: option.splits)
    qed
  qed
qed

lemma scheduler_new_inv: "sched_inv scheduler_new"
  by (simp add: sched_inv_def scheduler_new_def)

text \<open>Adding an entry under a fresh version, as \<open>push\<close> of a new task and the updates do.\<close>

lemma sched_inv_add:
  assumes inv: "sched_inv s" and fresh: "sc_next_version s \<noteq> - 1"
  shows "sched_inv (requeue t s)"
proof -
  have lt: "v < sc_next_version s + 1" if "v \<le> sc_next_version s" for v
  proof -
    have "sc_next_version s < sc_next_version s + 1"
      using unat_suc[OF fresh] by (simp add: word_less_nat_alt)
    then show ?thesis using that by simp
  qed
  let ?t = "t\<lparr>st_version := sc_next_version s\<rparr>"
  have q: "sc_queue (requeue t s) = ?t # sc_queue s"
    and i: "sc_index (requeue t s) = (sc_index s)(st_task_id t \<mapsto> ?t)"
    and n: "sc_next_version (requeue t s) = sc_next_version s + 1"
    by (simp_all add: requeue_def Let_def)
  have old: "st_version u < sc_next_version s" if "u \<in> set (sc_queue s)" for u
    using sched_invD(4)[OF inv that] .
  show ?thesis
    unfolding sched_inv_def q i n
  proof (intro conjI allI ballI impI)
    fix k u assume "((sc_index s)(st_task_id t \<mapsto> ?t)) k = Some u"
    then show "u \<in> set (?t # sc_queue s)" "st_task_id u = k"
      using sched_invD(1,2)[OF inv] by (auto split: if_splits)
  next
    fix u v assume uv: "u \<in> set (?t # sc_queue s)" "v \<in> set (?t # sc_queue s)"
      and same: "st_task_id u = st_task_id v \<and> st_version u = st_version v"
    have ver: "st_version ?t = sc_next_version s" by simp
    consider "u = ?t" "v = ?t" | "u = ?t" "v \<in> set (sc_queue s)" | "u \<in> set (sc_queue s)" "v = ?t"
      | "u \<in> set (sc_queue s)" "v \<in> set (sc_queue s)"
      using uv unfolding list.set(2) by blast
    then show "u = v"
    proof cases
      case 2
      then show ?thesis using old[of v] same ver by (metis order.irrefl)
    next
      case 3
      then show ?thesis using old[of u] same ver by (metis order.irrefl)
    next
      case 4
      then show ?thesis using sched_invD(3)[OF inv] same by blast
    qed simp
  next
    fix u assume "u \<in> set (?t # sc_queue s)"
    then show "st_version u < sc_next_version s + 1" using lt old by (auto dest: less_imp_le)
  qed
qed

lemma scheduler_push_new: "st_version t = 0 \<Longrightarrow> scheduler_push t s = requeue t s"
  by (simp add: scheduler_push_def requeue_def Let_def)

section \<open>Against the specification\<close>

text \<open>
  The abstract queue is the index: the tasks by their id. The calls of a client, who makes its
  tasks with \<open>ScheduledTask::new\<close> (the version field is private).
\<close>

datatype sched_op =
    OpPush scheduled_task
  | OpPop
  | OpRemove task_id
  | OpPriority task_id priority
  | OpProgress task_id f64

fun sched_step :: "sched_op \<Rightarrow> scheduler \<Rightarrow> scheduler" where
  "sched_step (OpPush t) s = scheduler_push t s"
| "sched_step OpPop s = fst (scheduler_pop s)"
| "sched_step (OpRemove i) s = fst (scheduler_remove i s)"
| "sched_step (OpPriority i p) s = fst (update_priority i p s)"
| "sched_step (OpProgress i x) s = fst (update_progress i x s)"

fun fresh_op :: "sched_op \<Rightarrow> bool" where
  "fresh_op (OpPush t) = (st_version t = 0)"
| "fresh_op _ = True"

definition sched_run :: "sched_op list \<Rightarrow> scheduler \<Rightarrow> scheduler" where
  "sched_run ops s = foldl (\<lambda>s op. sched_step op s) s ops"

lemma requeue_next: "sc_next_version (requeue t s) = sc_next_version s + 1"
  by (simp add: requeue_def Let_def)

lemma sched_step_inv:
  assumes "sched_inv s" "fresh_op op" "sc_next_version s \<noteq> - 1"
  shows "sched_inv (sched_step op s) \<and>
    unat (sc_next_version (sched_step op s)) \<le> unat (sc_next_version s) + 1"
proof (cases op)
  case (OpPush t)
  then show ?thesis
    using assms sched_inv_add[of s t] unat_suc[OF assms(3)] by (simp add: scheduler_push_new requeue_next)
next
  case OpPop
  then show ?thesis using pop_loop_spec[OF assms(1)] by (simp add: scheduler_pop_def)
next
  case (OpRemove i)
  then show ?thesis using assms(1) by (auto simp: scheduler_remove_def sched_inv_def)
next
  case (OpPriority i p)
  then show ?thesis
    using assms sched_inv_add[of s] unat_suc[OF assms(3)]
    by (simp add: update_priority_def requeue_next split: option.splits)
next
  case (OpProgress i x)
  then show ?thesis
    using assms sched_inv_add[of s] unat_suc[OF assms(3)]
    by (simp add: update_progress_def requeue_next split: option.splits)
qed

lemma sched_run_inv:
  assumes "\<forall>op \<in> set ops. fresh_op op" "length ops < 2 ^ 64 - 1"
  shows "sched_inv (sched_run ops scheduler_new) \<and>
    unat (sc_next_version (sched_run ops scheduler_new)) \<le> length ops + 1"
  using assms
proof (induction ops rule: rev_induct)
  case Nil
  then show ?case by (simp add: sched_run_def scheduler_new_inv) (simp add: scheduler_new_def)
next
  case (snoc op ops)
  let ?s = "sched_run ops scheduler_new"
  have IH: "sched_inv ?s" "unat (sc_next_version ?s) \<le> length ops + 1" using snoc by auto
  have "sc_next_version ?s \<noteq> - 1"
  proof
    assume "sc_next_version ?s = - 1"
    then have "unat (sc_next_version ?s) = 2 ^ 64 - 1"
      by (simp add: unsigned_minus_1_eq_mask mask_eq_exp_minus_1)
    then show False using IH(2) snoc.prems(2) by simp
  qed
  from sched_step_inv[OF IH(1) _ this, of op] IH(2) snoc.prems(1) show ?case
    by (simp add: sched_run_def)
qed


definition sample_ops :: "sched_op list" where
  "sample_ops =
     [OpPush (scheduled_task_new 1 Queue 10 (Fin 0)), OpPush (scheduled_task_new 2 Queue 5 (Fin 0)),
      OpPriority 1 Prefetch]"


text \<open>
  Pushing back a task that \<open>remove\<close> returned keeps its old version, so the entry left in the
  heap is valid again: with the priority lowered in between, \<open>pop\<close> returns the task with the
  priority it had before, ahead of a task that should come first.
\<close>

theorem scheduler_repush_stale:
  "let a = scheduled_task_new 1 UserInitiated 10 (Fin 0);
       b = scheduled_task_new 2 Queue 10 (Fin 0);
       s = scheduler_push b (scheduler_push a scheduler_new);
       (s1, removed) = scheduler_remove 1 s;
       s2 = scheduler_push ((the removed)\<lparr>st_priority := Prefetch\<rparr>) s1
   in map_option st_priority (scheduler_get 1 s2) = Some Prefetch \<and>
      map_option st_task_id (snd (scheduler_pop s2)) = Some 1 \<and>
      map_option st_priority (snd (scheduler_pop s2)) = Some UserInitiated"
  by (simp add: scheduler_push_def scheduled_task_new_def scheduler_new_def scheduler_remove_def
      scheduler_get_def scheduler_pop_def pop_loop.simps heap_pop_def task_cmp_def then_with_def
      compare_lin_def less_priority_def unwrap_or_def f64_partial_cmp_def progress_or_zero_def)

end
