(* ===== verification/Adaptive_Scheduler.thy ===== *)
theory Adaptive_Scheduler
  imports Config_Types
begin

text \<open>
  \<open>tachyon-scheduler/src/predictor.rs\<close> and \<open>download_scheduler.rs\<close>: Holt's linear predictor
  over the f64 model and the recommendation of concurrency and fragment size. \<open>f64::exp\<close> is
  the parameter \<open>fexp\<close>: the standard library leaves its precision open.
\<close>

section \<open>The predictor\<close>

record predictor =
  pr_level :: f64
  pr_trend :: f64
  pr_alpha :: f64
  pr_beta :: f64
  pr_initialized :: bool
  pr_sample_count :: u64

definition predictor_new :: "f64 \<Rightarrow> f64 \<Rightarrow> predictor" where
  "predictor_new alpha beta =
     \<lparr>pr_level = Fin 0, pr_trend = Fin 0, pr_alpha = f64_clamp alpha (Fin 0) (Fin 1),
      pr_beta = f64_clamp beta (Fin 0) (Fin 1), pr_initialized = False, pr_sample_count = 0\<rparr>"

definition observe :: "f64 \<Rightarrow> predictor \<Rightarrow> predictor" where
  "observe v p =
     (if \<not> is_finite v \<or> f64_lt v (Fin 0) then p
      else
        (let p = p\<lparr>pr_sample_count := pr_sample_count p + 1\<rparr>
         in if \<not> pr_initialized p then
              p\<lparr>pr_level := v, pr_trend := Fin 0, pr_initialized := True\<rparr>
            else
              (let new_level =
                 f64_add (f64_mul (pr_alpha p) v)
                   (f64_mul (f64_sub (Fin 1) (pr_alpha p)) (f64_add (pr_level p) (pr_trend p)))
               in p\<lparr>pr_trend :=
                       f64_add (f64_mul (pr_beta p) (f64_sub new_level (pr_level p)))
                         (f64_mul (f64_sub (Fin 1) (pr_beta p)) (pr_trend p)),
                     pr_level := new_level\<rparr>)))"

definition predict :: "u64 \<Rightarrow> predictor \<Rightarrow> f64" where
  "predict steps p =
     (if \<not> pr_initialized p then Fin 0
      else f64_max (f64_add (pr_level p) (f64_mul (pr_trend p) (f64_of_word steps))) (Fin 0))"

definition current_level :: "predictor \<Rightarrow> f64" where
  "current_level p = pr_level p"

definition predictor_sample_count :: "predictor \<Rightarrow> u64" where
  "predictor_sample_count p = pr_sample_count p"

definition confidence :: "(f64 \<Rightarrow> f64) \<Rightarrow> predictor \<Rightarrow> f64" where
  "confidence fexp p =
     (if \<not> pr_initialized p then Fin 0
      else
        (let n = f64_of_word (pr_sample_count p)
         in f64_div (Fin 1)
              (f64_add (Fin 1) (fexp (f64_mul (rnd (- (1 / 10))) (f64_sub n (Fin 10)))))))"

definition predictor_default :: predictor where
  "predictor_default = predictor_new (rnd (3 / 10)) (rnd (1 / 10))"

section \<open>The recommendation\<close>

record recommendation =
  rec_concurrency :: u32
  rec_fragment_size :: u64
  rec_confidence :: f64

definition recommendation_default :: recommendation where
  "recommendation_default =
     \<lparr>rec_concurrency = 4, rec_fragment_size = 4 * 1024 * 1024, rec_confidence = Fin 0\<rparr>"

record adaptive_scheduler =
  as_predictor :: predictor
  as_config :: scheduler_config

definition adaptive_new :: "scheduler_config \<Rightarrow> adaptive_scheduler" where
  "adaptive_new cfg =
     \<lparr>as_predictor = predictor_new (ewma_alpha cfg) (f64_mul (ewma_alpha cfg) (rnd (3 / 10))),
      as_config = cfg\<rparr>"

definition adaptive_default :: adaptive_scheduler where
  "adaptive_default = adaptive_new scheduler_config_default"

definition observe_bandwidth :: "u64 \<Rightarrow> adaptive_scheduler \<Rightarrow> adaptive_scheduler" where
  "observe_bandwidth bps s = s\<lparr>as_predictor := observe (f64_of_word bps) (as_predictor s)\<rparr>"

text \<open>\<^term>\<open>None\<close> is the panic of \<open>clamp\<close> when the configured bounds are crossed.\<close>

definition suggest_fragment_size :: "scheduler_config \<Rightarrow> f64 \<Rightarrow> f64 \<Rightarrow> u64 option" where
  "suggest_fragment_size cfg predicted_bw target =
     (if f64_lt (Fin 0) predicted_bw then
        clamp_word (word_of_f64 (f64_mul predicted_bw target)) (min_fragment_size cfg) (max_fragment_size cfg)
      else Some (min_fragment_size cfg))"

definition suggest_concurrency :: "f64 \<Rightarrow> f64 \<Rightarrow> u64 \<Rightarrow> u64 \<Rightarrow> u32 \<Rightarrow> u32" where
  "suggest_concurrency predicted_bw target frag_size file_size max_concurrency =
     (if f64_lt (Fin 0) predicted_bw \<and> frag_size > 0 then
        (let fragments_for_file = div_ceil file_size frag_size;
             bandwidth_based =
               word_of_f64 (f64_div predicted_bw (f64_div (f64_of_word frag_size) target)) :: u32
         in max (min (min bandwidth_based (ucast fragments_for_file)) max_concurrency) 1)
      else max max_concurrency 1)"

definition recommend ::
    "(f64 \<Rightarrow> f64) \<Rightarrow> adaptive_scheduler \<Rightarrow> u64 \<Rightarrow> u32 \<Rightarrow> recommendation option" where
  "recommend fexp s file_size max_concurrency =
     (let predicted_bw = predict 1 (as_predictor s);
          conf = confidence fexp (as_predictor s);
          target = (if f64_lt (Fin (1 / 2)) conf then Fin 3 else Fin 5)
      in Option.bind (suggest_fragment_size (as_config s) predicted_bw target) (\<lambda>frag_size.
           Some \<lparr>rec_concurrency =
                    suggest_concurrency predicted_bw target frag_size file_size max_concurrency,
                  rec_fragment_size = frag_size, rec_confidence = conf\<rparr>))"

definition predicted_bandwidth :: "adaptive_scheduler \<Rightarrow> u64" where
  "predicted_bandwidth s = word_of_f64 (predict 1 (as_predictor s))"

section \<open>The contract of a scheduler\<close>

text \<open>
  What the downloader relies on in a \<open>DownloadScheduler\<close>: whatever was observed, a
  recommendation exists, its concurrency is at least one and at most what was allowed, and its
  fragment size is in the configured range. \<open>ok\<close> are the states reachable by observations.
\<close>

locale download_scheduler =
  fixes observed :: "u64 \<Rightarrow> 's \<Rightarrow> 's"
    and recommended :: "'s \<Rightarrow> u64 \<Rightarrow> u32 \<Rightarrow> recommendation option"
    and ok :: "'s \<Rightarrow> bool"
    and lo :: u64 and hi :: u64
  assumes ok_observed: "ok s \<Longrightarrow> ok (observed bw s)"
    and recommended_ok: "ok s \<Longrightarrow> \<exists>r. recommended s fsize mc = Some r \<and>
      1 \<le> rec_concurrency r \<and> rec_concurrency r \<le> max mc 1 \<and>
      lo \<le> rec_fragment_size r \<and> rec_fragment_size r \<le> hi"
begin

lemma recommended_after:
  assumes "ok s"
  shows "\<exists>r. recommended (fold observed bws s) fsize mc = Some r \<and>
    1 \<le> rec_concurrency r \<and> rec_concurrency r \<le> max mc 1 \<and>
    lo \<le> rec_fragment_size r \<and> rec_fragment_size r \<le> hi"
proof -
  have "ok (fold observed bws s)" using assms by (induction bws arbitrary: s) (auto intro: ok_observed)
  then show ?thesis by (rule recommended_ok)
qed

end

lemma suggest_fragment_size_range:
  assumes "min_fragment_size cfg \<le> max_fragment_size cfg"
  shows "\<exists>n. suggest_fragment_size cfg bw target = Some n \<and>
    min_fragment_size cfg \<le> n \<and> n \<le> max_fragment_size cfg"
  using assms by (auto simp: suggest_fragment_size_def clamp_word_Some max_def min_def)

lemma suggest_concurrency_range:
  "1 \<le> suggest_concurrency bw target frag fsize mc \<and> suggest_concurrency bw target frag fsize mc \<le> max mc 1"
proof -
  have "max (min a mc) 1 \<le> max mc (1 :: u32)" "1 \<le> max (min a mc) (1 :: u32)" for a
    by (auto simp: max_def min_def)
  then show ?thesis by (simp add: suggest_concurrency_def Let_def)
qed

lemma recommend_range:
  assumes "min_fragment_size (as_config s) \<le> max_fragment_size (as_config s)"
  shows "\<exists>r. recommend fexp s fsize mc = Some r \<and> 1 \<le> rec_concurrency r \<and>
    rec_concurrency r \<le> max mc 1 \<and> min_fragment_size (as_config s) \<le> rec_fragment_size r \<and>
    rec_fragment_size r \<le> max_fragment_size (as_config s)"
proof -
  define bw where "bw = predict 1 (as_predictor s)"
  define target where "target = (if f64_lt (Fin (1 / 2)) (confidence fexp (as_predictor s)) then Fin 3 else Fin 5)"
  obtain n where n: "suggest_fragment_size (as_config s) bw target = Some n"
    "min_fragment_size (as_config s) \<le> n" "n \<le> max_fragment_size (as_config s)"
    using suggest_fragment_size_range[OF assms] by blast
  have "recommend fexp s fsize mc =
      Some \<lparr>rec_concurrency = suggest_concurrency bw target n fsize mc, rec_fragment_size = n,
        rec_confidence = confidence fexp (as_predictor s)\<rparr>"
    unfolding recommend_def Let_def bw_def[symmetric] target_def[symmetric] n(1) by simp
  then show ?thesis using n(2,3) suggest_concurrency_range[of bw target n fsize mc] by simp
qed

interpretation adaptive: download_scheduler observe_bandwidth "recommend fexp"
  "\<lambda>s. as_config s = cfg \<and> scheduler_config_ok cfg" "min_fragment_size cfg" "max_fragment_size cfg"
  for fexp cfg
proof
  fix s :: adaptive_scheduler and fsize mc
  assume ok: "as_config s = cfg \<and> scheduler_config_ok cfg"
  then have "min_fragment_size cfg \<le> max_fragment_size cfg" by (simp add: scheduler_config_ok_def)
  then show "\<exists>r. recommend fexp s fsize mc = Some r \<and> 1 \<le> rec_concurrency r \<and>
      rec_concurrency r \<le> max mc 1 \<and> min_fragment_size cfg \<le> rec_fragment_size r \<and>
      rec_fragment_size r \<le> max_fragment_size cfg"
    using recommend_range[of s fexp fsize mc] ok by simp
qed (simp add: observe_bandwidth_def)



text \<open>
  A prediction is never negative and never a NaN, whatever the state of the predictor is.
\<close>

theorem predict_nonneg: "f64_le (Fin 0) (predict steps p)"
proof -
  have "f64_le (Fin 0) (f64_max x (Fin 0))" for x
    by (cases x) (auto simp: f64_max_def f64_le_def f64_eq_def)
  then show ?thesis by (simp add: predict_def f64_le_def f64_eq_def)
qed

end
