(* ===== verification/Storage_IO.thy ===== *)
theory Storage_IO
  imports Errors Config_Types
begin

text \<open>
  \<open>tachyon-io/src/storage.rs\<close>, \<open>tokio_file.rs\<close>, \<open>pipeline.rs\<close> and
  \<open>tachyon-engine/src/storage_adapter.rs\<close>: positioned writes to a file, aligned writes and
  the batching write pipeline. A file is its bytes; what the operating system does with a
  write (all of it, a prefix, an error) is read off a list of outcomes in the state.
\<close>

section \<open>Writing into a byte array\<close>

text \<open>A write past the end leaves a hole of zero bytes.\<close>

definition overlay :: "u8 list \<Rightarrow> nat \<Rightarrow> u8 list \<Rightarrow> u8 list" where
  "overlay c off d =
     (if d = [] then c
      else take off (c @ replicate (off - length c) 0) @ d @ drop (off + length d) c)"

definition byte_at :: "u8 list \<Rightarrow> nat \<Rightarrow> u8" where
  "byte_at c i = (if i < length c then c ! i else 0)"

lemma overlay_Nil [simp]: "overlay c off [] = c"
  by (simp add: overlay_def)

lemma length_overlay:
  "length (overlay c off d) = (if d = [] then length c else max (length c) (off + length d))"
  by (auto simp: overlay_def max_def min_def)

lemma byte_at_overlay:
  "byte_at (overlay c off d) i =
     (if off \<le> i \<and> i < off + length d then d ! (i - off) else byte_at c i)"
proof (cases "d = []")
  case False
  then show ?thesis
    unfolding byte_at_def length_overlay
    by (auto simp: overlay_def nth_append min_def max_def not_less)
qed auto

lemma overlay_ext:
  assumes "length c = length c'" "\<And>i. i < length c \<Longrightarrow> byte_at c i = byte_at c' i"
  shows "c = c'"
  using assms by (intro nth_equalityI) (auto simp: byte_at_def)

text \<open>Two writes that touch end to end are one write.\<close>

lemma overlay_append:
  "overlay (overlay c off d) (off + length d) e = overlay c off (d @ e)"
proof (rule overlay_ext)
  show "length (overlay (overlay c off d) (off + length d) e) = length (overlay c off (d @ e))"
    by (auto simp: length_overlay max_def)
  fix i
  show "byte_at (overlay (overlay c off d) (off + length d) e) i = byte_at (overlay c off (d @ e)) i"
    by (auto simp: byte_at_overlay nth_append)
qed

section \<open>Files\<close>

datatype write_outcome = WFull | WShort nat | WErr

record os_file =
  of_bytes :: "u8 list"
  of_outcomes :: "write_outcome list"

text \<open>\<open>FileExt::write_at\<close>, one \<open>pwrite\<close>: returns how much was written.\<close>

definition file_write_at :: "nat \<Rightarrow> u8 list \<Rightarrow> os_file \<Rightarrow> os_file \<times> nat download_result" where
  "file_write_at off d f =
     (let outcome = (case of_outcomes f of [] \<Rightarrow> WFull | w # _ \<Rightarrow> w);
          f = f\<lparr>of_outcomes := tl (of_outcomes f)\<rparr>
      in case outcome of
           WErr \<Rightarrow> (f, Inl (Io ''write_at''))
         | WFull \<Rightarrow> (f\<lparr>of_bytes := overlay (of_bytes f) off d\<rparr>, Inr (length d))
         | WShort n \<Rightarrow>
             (f\<lparr>of_bytes := overlay (of_bytes f) off (take n d)\<rparr>, Inr (min n (length d))))"

definition file_read_at :: "nat \<Rightarrow> nat \<Rightarrow> os_file \<Rightarrow> u8 list download_result" where
  "file_read_at off n f = Inr (take n (drop off (of_bytes f)))"

definition file_allocate :: "nat \<Rightarrow> os_file \<Rightarrow> os_file \<times> unit download_result" where
  "file_allocate n f =
     (if n = 0 then (f, Inl (Io ''EINVAL''))
      else (f\<lparr>of_bytes := of_bytes f @ replicate (n - length (of_bytes f)) 0\<rparr>, Inr ()))"

definition file_size :: "os_file \<Rightarrow> u64 download_result" where
  "file_size f = Inr (of_nat (length (of_bytes f)))"

definition file_sync :: "os_file \<Rightarrow> unit download_result" where
  "file_sync f = Inr ()"

datatype platform = PlatformLinux | PlatformWindows | PlatformUnix

text \<open>
  \<open>set_len\<close>, which also cuts a file. Only on Linux is a file allocated with \<open>fallocate\<close>.
\<close>

definition file_set_len :: "nat \<Rightarrow> os_file \<Rightarrow> os_file \<times> unit download_result" where
  "file_set_len n f = (f\<lparr>of_bytes := take n (of_bytes f) @ replicate (n - length (of_bytes f)) 0\<rparr>, Inr ())"

definition tokio_allocate :: "platform \<Rightarrow> nat \<Rightarrow> os_file \<Rightarrow> os_file \<times> unit download_result" where
  "tokio_allocate platform n f = (if platform = PlatformLinux then file_allocate n f else file_set_len n f)"

text \<open>
  Which backend \<open>open_with_strategy\<close> opens: \<open>uring_ok\<close> and \<open>iocp_ok\<close> are whether the ring and the
  completion port can be initialised, which is never so on another platform.
\<close>

datatype backend = BackendTokio | BackendWinFile | BackendIocp | BackendIoUring

definition open_with_strategy :: "platform \<Rightarrow> bool \<Rightarrow> bool \<Rightarrow> io_strategy \<Rightarrow> backend" where
  "open_with_strategy platform uring_ok iocp_ok strategy =
     (case strategy of
        Standard \<Rightarrow> BackendTokio
      | WinAligned \<Rightarrow> if platform = PlatformWindows then BackendWinFile else BackendTokio
      | Iocp \<Rightarrow> if platform = PlatformWindows \<and> iocp_ok then BackendIocp else BackendTokio
      | IoUring \<Rightarrow> if platform = PlatformLinux \<and> uring_ok then BackendIoUring else BackendTokio)"

section \<open>The contract of a storage\<close>

text \<open>
  What users of \<open>AsyncStorage\<close> rely on: a write puts a prefix of the data at the offset and says
  how long it is; a failed write changes nothing.
\<close>

locale async_storage =
  fixes write_at :: "nat \<Rightarrow> u8 list \<Rightarrow> 's \<Rightarrow> 's \<times> nat download_result"
    and content :: "'s \<Rightarrow> u8 list"
  assumes write_ok: "write_at off d s = (s', Inr n) \<Longrightarrow>
      n \<le> length d \<and> content s' = overlay (content s) off (take n d)"
    and write_err: "write_at off d s = (s', Inl e) \<Longrightarrow> content s' = content s"
begin

lemma write_bytes:
  assumes "write_at off d s = (s', r)"
  shows "\<exists>n \<le> length d. content s' = overlay (content s) off (take n d) \<and>
    (case r of Inr m \<Rightarrow> m = n | Inl _ \<Rightarrow> n = 0)"
  using write_ok[of off d s s'] write_err[of off d s s'] assms by (cases r) auto

lemma write_full:
  "write_at off d s = (s', Inr (length d)) \<Longrightarrow> content s' = overlay (content s) off d"
  using write_ok by fastforce

lemma write_elsewhere:
  assumes "write_at off d s = (s', r)" "i < off \<or> off + length d \<le> i"
  shows "byte_at (content s') i = byte_at (content s) i"
  using write_bytes[OF assms(1)] assms(2) by (auto simp: byte_at_overlay)

end

interpretation os_file: async_storage file_write_at of_bytes
proof
  fix off :: nat and d :: "u8 list" and s s' :: os_file and n e
  show "n \<le> length d \<and> of_bytes s' = overlay (of_bytes s) off (take n d)"
    if "file_write_at off d s = (s', Inr n)"
    using that by (auto simp: file_write_at_def Let_def min_def split: write_outcome.splits list.splits)
  show "of_bytes s' = of_bytes s" if "file_write_at off d s = (s', Inl e)"
    using that by (auto simp: file_write_at_def Let_def split: write_outcome.splits list.splits)
qed

section \<open>Aligned writes\<close>

definition is_power_of_two :: "u64 \<Rightarrow> bool" where
  "is_power_of_two a = (a \<noteq> 0 \<and> a AND (a - 1) = 0)"

text \<open>
  The default method of the trait over its \<open>write_at\<close>. \<^term>\<open>None\<close> is the failed assertion.
\<close>

definition write_at_aligned ::
    "(nat \<Rightarrow> u8 list \<Rightarrow> 's \<Rightarrow> 's \<times> nat download_result) \<Rightarrow> u64 \<Rightarrow> u8 list \<Rightarrow> u64 \<Rightarrow> 's \<Rightarrow>
     ('s \<times> nat download_result) option" where
  "write_at_aligned write offset data alignment s =
     (if \<not> (alignment > 0 \<and> is_power_of_two alignment) then None
      else if data = [] then Some (s, Inr 0)
      else
        (let align_mask = alignment - 1;
             aligned_offset = offset AND NOT align_mask;
             front_pad = unat (offset - aligned_offset);
             total_len = front_pad + length data;
             padded_len = unat ((of_nat total_len + align_mask) AND NOT align_mask);
             padded = replicate front_pad 0 @ data @ replicate (padded_len - total_len) 0
         in case write (unat aligned_offset) padded s of
              (s', Inl e) \<Rightarrow> Some (s', Inl e)
            | (s', Inr written) \<Rightarrow> Some (s', Inr (min (written - front_pad) (length data)))))"

text \<open>
  An aligned write destroys its neighbourhood: on a file whose write succeeds in full, the data
  is in place, but every other byte of the aligned block it lies in reads as zero afterwards.
\<close>

theorem write_at_aligned_clobbers:
  assumes "alignment > 0" "is_power_of_two alignment" "data \<noteq> []" "of_outcomes f = []"
    and "write_at_aligned file_write_at offset data alignment f = Some (f', Inr n)"
    and "unat (offset AND NOT (alignment - 1)) \<le> i" "i < unat offset"
  shows "byte_at (of_bytes f') i = 0"
proof -
  define ao where "ao = offset AND NOT (alignment - 1)"
  define fp where "fp = unat (offset - ao)"
  have le: "ao \<le> offset" unfolding ao_def by (rule word_and_le2)
  have fp: "fp = unat offset - unat ao" using le by (simp add: fp_def unat_sub_le)
  obtain tail where w: "of_bytes f' = overlay (of_bytes f) (unat ao) (replicate fp 0 @ data @ tail)"
    using assms(1-5)
    by (auto simp: write_at_aligned_def Let_def file_write_at_def ao_def[symmetric] fp_def[symmetric])
  have "unat ao \<le> i" "i - unat ao < fp" using assms(6,7) fp ao_def by auto
  moreover from this have "i < unat ao + length (replicate fp 0 @ data @ tail)" by simp
  ultimately show ?thesis by (simp add: w byte_at_overlay nth_append)
qed

theorem write_at_aligned_clobbers_witness:
  "\<exists>f'. write_at_aligned file_write_at 5 [7] 4 \<lparr>of_bytes = [1, 2, 3, 4, 5, 6, 7, 8], of_outcomes = []\<rparr>
       = Some (f', Inr 1) \<and> byte_at (of_bytes f') 4 = 0"
proof -
  let ?f = "\<lparr>of_bytes = [1, 2, 3, 4, 5, 6, 7, 8], of_outcomes = []\<rparr>"
  obtain f' where w: "write_at_aligned file_write_at 5 [7] 4 ?f = Some (f', Inr 1)"
    by (auto simp: write_at_aligned_def is_power_of_two_def file_write_at_def Let_def)
  have "byte_at (of_bytes f') 4 = 0"
    by (rule write_at_aligned_clobbers[OF _ _ _ _ w]) (simp_all add: is_power_of_two_def)
  with w show ?thesis by blast
qed

end
