(* ===== verification/Write_Pipeline.thy ===== *)
theory Write_Pipeline
  imports Storage_IO
begin

text \<open>
  \<open>tachyon-io/src/pipeline.rs\<close>: the batching of writes. The semaphore bounds concurrent
  writes; of it the model keeps whether a request for permits can ever be granted, which the
  documentation of \<open>acquire_many\<close> ties to the number of permits that exist. \<open>write\<close> is the
  storage's \<open>write_at\<close>.
\<close>

record pipeline =
  wp_semaphore_capacity :: usize
  wp_max_pending :: usize
  wp_buffer_size :: usize

definition pipeline_new :: "usize \<Rightarrow> usize \<Rightarrow> pipeline" where
  "pipeline_new buffer_size capacity =
     \<lparr>wp_semaphore_capacity = capacity, wp_max_pending = 64, wp_buffer_size = buffer_size\<rparr>"

definition with_max_pending :: "usize \<Rightarrow> pipeline \<Rightarrow> pipeline" where
  "with_max_pending n p = p\<lparr>wp_max_pending := max n 1\<rparr>"

text \<open>\<^term>\<open>None\<close>: the call waits for ever.\<close>

definition pipeline_write ::
    "(nat \<Rightarrow> u8 list \<Rightarrow> 's \<Rightarrow> 's \<times> nat download_result) \<Rightarrow> pipeline \<Rightarrow> u64 \<Rightarrow> u8 list \<Rightarrow> 's \<Rightarrow>
     ('s \<times> nat download_result) option" where
  "pipeline_write write p offset data s =
     (if wp_semaphore_capacity p = 0 then None else Some (write (unat offset) data s))"

definition pipeline_write_and_sync ::
    "(nat \<Rightarrow> u8 list \<Rightarrow> 's \<Rightarrow> 's \<times> nat download_result) \<Rightarrow> ('s \<Rightarrow> unit download_result) \<Rightarrow>
     pipeline \<Rightarrow> u64 \<Rightarrow> u8 list \<Rightarrow> 's \<Rightarrow> ('s \<times> nat download_result) option" where
  "pipeline_write_and_sync write sync p offset data s =
     map_option (\<lambda>(s', r). (s', and_then r (\<lambda>n. and_then (sync s') (\<lambda>_. Inr n))))
       (pipeline_write write p offset data s)"

section \<open>Planning\<close>

type_synonym segment = "u64 \<times> u8 list"

text \<open>The loop of \<open>plan_batches\<close> over the remaining segments.\<close>

fun merge_segments :: "usize \<Rightarrow> u64 \<Rightarrow> u64 \<Rightarrow> u8 list \<Rightarrow> segment list \<Rightarrow> segment list" where
  "merge_segments threshold merged_start merged_end merged_data [] =
     (if merged_data = [] then [] else [(merged_start, merged_data)])"
| "merge_segments threshold merged_start merged_end merged_data ((off, data) # rest) =
     (let len = of_nat (length data) :: u64 in
      if off = merged_end \<and> len > 0 then
        (let merged_end = merged_end + len; merged_data = merged_data @ data
         in if length merged_data \<ge> unat threshold
            then (merged_start, merged_data) # merge_segments threshold (off + len) (off + len) [] rest
            else merge_segments threshold merged_start merged_end merged_data rest)
      else (merged_start, merged_data) # merge_segments threshold off (off + len) data rest)"

definition plan_batches :: "segment list \<Rightarrow> nat list \<Rightarrow> usize \<Rightarrow> segment list" where
  "plan_batches segments sorted_indices threshold =
     (if segments = [] then []
      else
        (let (off, data) = segments ! hd sorted_indices
         in merge_segments threshold off (off + of_nat (length data)) data
              (map (nth segments) (tl sorted_indices))))"

section \<open>Writing a batch\<close>

fun write_all_batches ::
    "(nat \<Rightarrow> u8 list \<Rightarrow> 's \<Rightarrow> 's \<times> nat download_result) \<Rightarrow> segment list \<Rightarrow> nat \<Rightarrow> 's \<Rightarrow>
     's \<times> nat download_result" where
  "write_all_batches write [] acc s = (s, Inr acc)"
| "write_all_batches write ((start_offset, data) # batches) acc s =
     (case write (unat start_offset) data s of
        (s', Inl e) \<Rightarrow> (s', Inl e)
      | (s', Inr n) \<Rightarrow> write_all_batches write batches (acc + n) s')"

definition write_count :: "pipeline \<Rightarrow> nat \<Rightarrow> u32" where
  "write_count p n_batches =
     max (min (of_nat (max n_batches 1)) (ucast (wp_semaphore_capacity p))) 1"

text \<open>
  \<open>sort_unstable_by_key\<close> by offset; segments of equal offset may come out in any order, here in
  that of the input.
\<close>

definition sorted_indices :: "segment list \<Rightarrow> nat list" where
  "sorted_indices segments = sort_key (\<lambda>i. fst (segments ! i)) [0..<length segments]"

definition write_batch ::
    "(nat \<Rightarrow> u8 list \<Rightarrow> 's \<Rightarrow> 's \<times> nat download_result) \<Rightarrow> pipeline \<Rightarrow> segment list \<Rightarrow> 's \<Rightarrow>
     ('s \<times> nat download_result) option" where
  "write_batch write p segments s =
     (if segments = [] then Some (s, Inr 0)
      else
        (let threshold = wp_max_pending p * wp_buffer_size p;
             batches = plan_batches segments (sorted_indices segments) threshold
         in if unat (write_count p (length batches)) > unat (wp_semaphore_capacity p) then None
            else Some (write_all_batches write batches 0 s)))"

section \<open>Merging changes nothing\<close>

definition apply_writes :: "u8 list \<Rightarrow> segment list \<Rightarrow> u8 list" where
  "apply_writes c ws = foldl (\<lambda>c (off, d). overlay c (unat off) d) c ws"

lemma apply_writes_simps [simp]:
  "apply_writes c [] = c"
  "apply_writes c ((off, d) # ws) = apply_writes (overlay c (unat off) d) ws"
  by (simp_all add: apply_writes_def)

definition seg_ok :: "segment \<Rightarrow> bool" where
  "seg_ok = (\<lambda>(off, d). unat off + length d < 2 ^ 64)"

lemma unat_seg_end:
  "unat (off :: u64) + n < 2 ^ 64 \<Longrightarrow> unat (off + of_nat n) = unat off + n"
  by (subst unat_add_no_overflow) (simp_all add: unat_of_nat_eq)

lemma merge_segments_step:
  assumes ok: "seg_ok (off, data)" and me: "unat me = unat ms + length md" and "unat ms + length md < 2 ^ 64"
  shows "\<exists>ms' md' out. unat (if off = me \<and> (of_nat (length data) :: u64) > 0 \<and>
        length (md @ data) < unat thr then me + of_nat (length data) else off + of_nat (length data)) =
        unat ms' + length md' \<and> unat ms' + length md' < 2 ^ 64 \<and>
    merge_segments thr ms me md ((off, data) # rest) =
      out @ merge_segments thr ms' (if off = me \<and> (of_nat (length data) :: u64) > 0 \<and>
        length (md @ data) < unat thr then me + of_nat (length data) else off + of_nat (length data)) md' rest \<and>
    (\<forall>c. overlay (apply_writes c out) (unat ms') md' = overlay (overlay c (unat ms) md) (unat off) data) \<and>
    sum_list (map (length \<circ> snd) out) + length md' = length md + length data"
proof -
  have e: "unat (off + of_nat (length data)) = unat off + length data" "unat off + length data < 2 ^ 64"
    using ok by (auto simp: seg_ok_def intro: unat_seg_end)
  show ?thesis
  proof (cases "off = me \<and> (of_nat (length data) :: u64) > 0")
    case True
    have eq: "overlay (overlay c (unat ms) md) (unat off) data = overlay c (unat ms) (md @ data)" for c
      using True me overlay_append[of c "unat ms" md data] by simp
    show ?thesis
    proof (cases "length (md @ data) < unat thr")
      case lt: True
      show ?thesis
        using True lt e me eq by (intro exI[of _ ms] exI[of _ "md @ data"] exI[of _ "[]"]) auto
    next
      case False
      then show ?thesis
        using True e me eq
        by (intro exI[of _ "off + of_nat (length data)"] exI[of _ "[]"] exI[of _ "[(ms, md @ data)]"])
          (auto simp: Let_def)
    qed
  next
    case False
    then have "(if off = me \<and> (of_nat (length data) :: u64) > 0 \<and> length (md @ data) < unat thr
        then me + of_nat (length data) else off + of_nat (length data)) = off + of_nat (length data)" by auto
    with False show ?thesis
      using e by (intro exI[of _ off] exI[of _ data] exI[of _ "[(ms, md)]"]) (auto simp: Let_def)
  qed
qed

lemma apply_writes_append: "apply_writes c (ws @ vs) = apply_writes (apply_writes c ws) vs"
  by (simp add: apply_writes_def)

lemma merge_segments_apply:
  assumes "\<forall>seg \<in> set segs. seg_ok seg"
    and "unat me = unat ms + length md" "unat ms + length md < 2 ^ 64"
  shows "apply_writes c (merge_segments thr ms me md segs) =
      apply_writes (overlay c (unat ms) md) segs \<and>
    sum_list (map (length \<circ> snd) (merge_segments thr ms me md segs)) =
      length md + sum_list (map (length \<circ> snd) segs)"
  using assms
proof (induction segs arbitrary: c ms me md)
  case (Cons seg segs)
  obtain off data where seg: "seg = (off, data)" by (cases seg)
  obtain ms' me' md' out where st: "unat me' = unat ms' + length md'" "unat ms' + length md' < 2 ^ 64"
    "merge_segments thr ms me md ((off, data) # segs) = out @ merge_segments thr ms' me' md' segs"
    "\<And>c. overlay (apply_writes c out) (unat ms') md' = overlay (overlay c (unat ms) md) (unat off) data"
    "sum_list (map (length \<circ> snd) out) + length md' = length md + length data"
    using merge_segments_step[of off data me ms md thr segs] Cons.prems seg by auto
  have "\<forall>seg \<in> set segs. seg_ok seg" using Cons.prems by simp
  from Cons.IH[OF this st(1,2), of "apply_writes c out"] st(3-5) show ?case
    by (simp add: seg apply_writes_append o_def del: merge_segments.simps)
qed simp

lemma plan_batches_apply:
  assumes "\<forall>seg \<in> set segs. seg_ok seg" "segs \<noteq> []" "idxs \<noteq> []" "set idxs \<subseteq> {..<length segs}"
  shows "apply_writes c (plan_batches segs idxs threshold) = apply_writes c (map (nth segs) idxs) \<and>
    sum_list (map (length \<circ> snd) (plan_batches segs idxs threshold)) =
      sum_list (map (length \<circ> snd) (map (nth segs) idxs))"
proof -
  obtain i js where idxs: "idxs = i # js" using assms(3) by (cases idxs) auto
  obtain off data where seg: "segs ! i = (off, data)" by (cases "segs ! i")
  have "segs ! i \<in> set segs" using assms(4) idxs by auto
  then have ok: "seg_ok (off, data)" using assms(1) seg by auto
  have rest: "\<forall>seg \<in> set (map (nth segs) js). seg_ok seg" using assms(1,4) idxs by auto
  have "unat (off + of_nat (length data)) = unat off + length data" "unat off + length data < 2 ^ 64"
    using ok by (auto simp: seg_ok_def intro: unat_seg_end)
  from merge_segments_apply[OF rest this, of c threshold] show ?thesis
    using assms(2) seg by (simp add: plan_batches_def idxs)
qed

text \<open>
  C10. Batching is an optimisation only: writing the batches \<open>plan_batches\<close> makes, one after the
  other, leaves the same bytes as writing the segments one by one in the given order, and the
  same number of bytes is written, for every flush threshold.
\<close>

theorem plan_batches_equiv:
  assumes "\<forall>seg \<in> set segs. seg_ok seg" "segs \<noteq> []" "idxs \<noteq> []" "set idxs \<subseteq> {..<length segs}"
  shows "apply_writes c (plan_batches segs idxs threshold) = apply_writes c (map (nth segs) idxs) \<and>
    sum_list (map (length \<circ> snd) (plan_batches segs idxs threshold)) =
      sum_list (map (length \<circ> snd) (map (nth segs) idxs))"
  by (rule plan_batches_apply[OF assms])

theorem plan_batches_equiv_witness:
  "apply_writes [] (plan_batches [(4, [5, 6]), (0, [1, 2, 3, 4])] [1, 0] 100) =
   apply_writes [] [(0, [1, 2, 3, 4]), (4, [5, 6])]"
  using plan_batches_equiv[of "[(4, [5, 6]), (0, [1, 2, 3, 4])]" "[1, 0]" "[]" 100]
  by (simp add: seg_ok_def)

section \<open>A batch of disjoint segments\<close>

lemma write_all_batches_full:
  assumes "of_outcomes f = []"
  shows "write_all_batches file_write_at batches acc f =
    (f\<lparr>of_bytes := apply_writes (of_bytes f) batches\<rparr>,
     Inr (acc + sum_list (map (length \<circ> snd) batches)))"
  using assms
proof (induction batches arbitrary: acc f)
  case (Cons b batches)
  obtain off d where b: "b = (off, d)" by (cases b)
  have "file_write_at (unat off) d f = (f\<lparr>of_bytes := overlay (of_bytes f) (unat off) d\<rparr>, Inr (length d))"
    using Cons.prems by (simp add: file_write_at_def Let_def)
  then show ?case using Cons by (simp add: b)
qed simp

lemma write_count_le:
  assumes "0 < wp_semaphore_capacity p"
  shows "unat (write_count p n) \<le> unat (wp_semaphore_capacity p)"
proof -
  have "unat (ucast (wp_semaphore_capacity p) :: u32) \<le> unat (wp_semaphore_capacity p)"
    by (simp add: unsigned_ucast_eq take_bit_nat_less_eq_self)
  moreover have "1 \<le> unat (wp_semaphore_capacity p)" using assms by (simp add: word_gt_0 Suc_le_eq unat_gt_0)
  ultimately show ?thesis by (simp add: write_count_def unat_max unat_min)
qed

text \<open>
  \<open>write_batch\<close> never deadlocks on its own permits when the pipeline was made with a positive
  capacity, whatever the number of batches is, and waits for ever on a non-empty batch when the
  capacity is zero.
\<close>

theorem write_batch_blocks_iff:
  "write_batch write p segments s = None \<longleftrightarrow> segments \<noteq> [] \<and> wp_semaphore_capacity p = 0"
proof (cases "wp_semaphore_capacity p = 0")
  case True
  have "1 \<le> write_count p n" for n by (simp add: write_count_def)
  then have "0 < unat (write_count p n)" for n by (auto simp: word_le_nat_alt Suc_le_eq)
  then show ?thesis by (simp add: write_batch_def Let_def True not_le)
next
  case False
  then show ?thesis
    using write_count_le[of p] by (auto simp: write_batch_def Let_def word_gt_0 not_le[symmetric])
qed

definition covers :: "segment \<Rightarrow> nat \<Rightarrow> bool" where
  "covers = (\<lambda>(off, d) k. unat off \<le> k \<and> k < unat off + length d)"

definition seg_byte :: "segment \<Rightarrow> nat \<Rightarrow> u8" where
  "seg_byte = (\<lambda>(off, d) k. d ! (k - unat off))"

lemma byte_at_apply_writes:
  assumes "\<forall>seg \<in> set ws. covers seg k \<longrightarrow> seg_byte seg k = v"
  shows "byte_at (apply_writes c ws) k = (if \<exists>seg \<in> set ws. covers seg k then v else byte_at c k)"
  using assms
proof (induction ws arbitrary: c)
  case (Cons w ws)
  obtain off d where w: "w = (off, d)" by (cases w)
  show ?case
    using Cons by (auto simp: w covers_def seg_byte_def byte_at_overlay)
qed simp

lemma nth_image_lessThan: "nth xs ` {..<length xs} = set xs"
  using nth_image[of "length xs" xs] by (simp add: lessThan_atLeast0)

lemma set_sorted_indices: "set (sorted_indices segs) = {..<length segs}"
  by (auto simp: sorted_indices_def)

text \<open>
  C9. When overlapping segments agree and the storage writes in full, \<open>write_batch\<close> puts every
  segment's bytes at its offset, changes no other byte, and returns the total length.
\<close>

theorem write_batch_stores_segments:
  assumes "\<forall>seg \<in> set segs. seg_ok seg" "0 < wp_semaphore_capacity p" "of_outcomes f = []"
    and "seg \<in> set segs" "covers seg k"
    and "\<forall>s1 \<in> set segs. covers s1 k \<longrightarrow> seg_byte s1 k = seg_byte seg k"
  shows "\<exists>f'. write_batch file_write_at p segs f =
      Some (f', Inr (sum_list (map (length \<circ> snd) (map (nth segs) (sorted_indices segs))))) \<and>
    byte_at (of_bytes f') k = seg_byte seg k \<and>
    (\<forall>j. (\<forall>s1 \<in> set segs. \<not> covers s1 j) \<longrightarrow> byte_at (of_bytes f') j = byte_at (of_bytes f) j)"
proof -
  let ?thr = "wp_max_pending p * wp_buffer_size p"
  let ?idxs = "sorted_indices segs"
  let ?bs = "plan_batches segs ?idxs ?thr"
  have ne: "segs \<noteq> []" using assms(4) by auto
  then have "0 \<in> set ?idxs" by (simp add: set_sorted_indices)
  then have "?idxs \<noteq> []" by (metis empty_iff list.set(1))
  note ap = plan_batches_apply[OF assms(1) ne this, of "of_bytes f" ?thr]
  have ap: "apply_writes (of_bytes f) ?bs = apply_writes (of_bytes f) (map (nth segs) ?idxs)"
    "sum_list (map (length \<circ> snd) ?bs) = sum_list (map (length \<circ> snd) (map (nth segs) ?idxs))"
    using ap set_sorted_indices by auto
  have segs: "set (map (nth segs) ?idxs) = set segs"
    unfolding set_map set_sorted_indices by (rule nth_image_lessThan)
  let ?f = "f\<lparr>of_bytes := apply_writes (of_bytes f) (map (nth segs) ?idxs)\<rparr>"
  have "write_batch file_write_at p segs f =
      Some (?f, Inr (sum_list (map (length \<circ> snd) (map (nth segs) ?idxs))))"
    using ne assms(2) write_count_le[OF assms(2)] write_all_batches_full[OF assms(3)] ap
    by (simp add: write_batch_def Let_def not_less del: set_map map_map)
  moreover have "byte_at (of_bytes ?f) k = seg_byte seg k"
  proof -
    have "byte_at (apply_writes (of_bytes f) (map (nth segs) ?idxs)) k =
        (if \<exists>s1 \<in> set segs. covers s1 k then seg_byte seg k else byte_at (of_bytes f) k)"
      using byte_at_apply_writes[of "map (nth segs) ?idxs", unfolded segs, OF assms(6)] .
    moreover have "\<exists>s1 \<in> set segs. covers s1 k" using assms(4,5) by blast
    ultimately show ?thesis by simp
  qed
  moreover have "byte_at (of_bytes ?f) j = byte_at (of_bytes f) j" if "\<forall>s1 \<in> set segs. \<not> covers s1 j" for j
  proof -
    have "\<forall>s1 \<in> set segs. covers s1 j \<longrightarrow> seg_byte s1 j = 0" using that by blast
    from byte_at_apply_writes[of "map (nth segs) ?idxs", unfolded segs, OF this, of "of_bytes f"]
    have "byte_at (apply_writes (of_bytes f) (map (nth segs) ?idxs)) j =
        (if \<exists>s1 \<in> set segs. covers s1 j then 0 else byte_at (of_bytes f) j)" .
    moreover have "\<not> (\<exists>s1 \<in> set segs. covers s1 j)" using that by blast
    ultimately show ?thesis by simp
  qed
  ultimately show ?thesis by blast
qed

theorem write_batch_stores_segments_witness:
  "\<exists>f' n. write_batch file_write_at (pipeline_new 8 4) [(4, [5, 6]), (0, [1, 2, 3, 4])]
       \<lparr>of_bytes = [], of_outcomes = []\<rparr> = Some (f', Inr n) \<and> byte_at (of_bytes f') 5 = 6"
  using write_batch_stores_segments[of "[(4, [5, 6]), (0, [1, 2, 3, 4])]" "pipeline_new 8 4"
      "\<lparr>of_bytes = [], of_outcomes = []\<rparr>" "(4, [5, 6])" 5]
  by (auto simp: seg_ok_def pipeline_new_def covers_def seg_byte_def)

end
