(* ===== verification/Buffer_Pool.thy ===== *)
theory Buffer_Pool
  imports Connection_Pool
begin

text \<open>
  \<open>tachyon-io/src/buffer.rs\<close>: the pool of reusable buffers with back-pressure. The semaphore
  and the lock-free queue are shared; every atomic operation of \<open>alloc\<close>, \<open>release\<close> and
  \<open>prewarm\<close> is a step, so tasks interleave between them. A buffer is its length (its
  content is cleared on release); the queue holds at most \<open>max capacity 1\<close> buffers and
  refuses a push when full, as \<open>ArrayQueue\<close> documents.
\<close>

record 's buffer_pool =
  bp_buffer_size :: usize
  bp_capacity :: usize
  bp_queue :: "usize list"
  bp_semaphore :: 's
  bp_outstanding :: usize

definition queue_capacity :: "'s buffer_pool \<Rightarrow> nat" where
  "queue_capacity p = max (unat (bp_capacity p)) 1"

text \<open>\<open>ArrayQueue::push\<close>: the result \<open>Err\<close> is dropped by the code.\<close>

definition queue_push :: "usize \<Rightarrow> 's buffer_pool \<Rightarrow> 's buffer_pool" where
  "queue_push b p =
     (if length (bp_queue p) < queue_capacity p then p\<lparr>bp_queue := bp_queue p @ [b]\<rparr> else p)"

definition buffer_pool_new :: "'s sem_ops \<Rightarrow> usize \<Rightarrow> usize \<Rightarrow> 's buffer_pool" where
  "buffer_pool_new ops buffer_size capacity =
     \<lparr>bp_buffer_size = buffer_size, bp_capacity = capacity, bp_queue = [],
      bp_semaphore = sem_new ops (unat capacity), bp_outstanding = 0\<rparr>"

definition with_prefill :: "'s sem_ops \<Rightarrow> usize \<Rightarrow> usize \<Rightarrow> 's buffer_pool" where
  "with_prefill ops buffer_size capacity =
     (queue_push 0 ^^ unat capacity) (buffer_pool_new ops buffer_size capacity)"

text \<open>The three atomic parts of \<open>alloc\<close> and of \<open>release\<close>.\<close>

definition alloc_permit :: "'s sem_ops \<Rightarrow> 's buffer_pool \<Rightarrow> 's buffer_pool option" where
  "alloc_permit ops p =
     map_option (\<lambda>s. p\<lparr>bp_semaphore := s\<rparr>) (sem_acquire ops (bp_semaphore p))"

definition alloc_count :: "'s buffer_pool \<Rightarrow> 's buffer_pool" where
  "alloc_count p = p\<lparr>bp_outstanding := bp_outstanding p + 1\<rparr>"

definition alloc_buffer :: "'s buffer_pool \<Rightarrow> 's buffer_pool \<times> usize" where
  "alloc_buffer p =
     (case bp_queue p of
        [] \<Rightarrow> (p, 0)
      | b # bs \<Rightarrow> (p\<lparr>bp_queue := bs\<rparr>, b))"

definition release_count :: "'s buffer_pool \<Rightarrow> 's buffer_pool" where
  "release_count p = p\<lparr>bp_outstanding := bp_outstanding p - 1\<rparr>"

definition release_buffer :: "'s buffer_pool \<Rightarrow> 's buffer_pool" where
  "release_buffer p = queue_push 0 p"

definition release_permit :: "'s sem_ops \<Rightarrow> 's buffer_pool \<Rightarrow> 's buffer_pool" where
  "release_permit ops p = p\<lparr>bp_semaphore := sem_release ops (bp_semaphore p)\<rparr>"

definition available :: "'s sem_ops \<Rightarrow> 's buffer_pool \<Rightarrow> nat" where
  "available ops p = sem_available ops (bp_semaphore p)"

text \<open>How many buffers \<open>prewarm\<close> will push, read before the pushes.\<close>

definition prewarm_fill :: "'s buffer_pool \<Rightarrow> usize" where
  "prewarm_fill p =
     saturating_sub (saturating_sub (bp_capacity p) (bp_outstanding p)) (of_nat (length (bp_queue p)))"

section \<open>Tasks\<close>

text \<open>
  \<open>Using\<close> holds a guard; its drop releases the buffer. \<open>Prewarming n\<close> has \<open>n\<close> pushes to go.
\<close>

datatype buf_phase = BIdle | GotPermit | GotCount | Using usize | DroppedCount | DroppedBuffer
  | Prewarming nat

inductive buf_step :: "'s sem_ops \<Rightarrow> 's buffer_pool \<times> buf_phase list \<Rightarrow> 's buffer_pool \<times> buf_phase list \<Rightarrow> bool"
  for ops where
  b_permit: "t < length ts \<Longrightarrow> ts ! t = BIdle \<Longrightarrow> alloc_permit ops p = Some p' \<Longrightarrow>
     buf_step ops (p, ts) (p', ts[t := GotPermit])"
| b_count: "t < length ts \<Longrightarrow> ts ! t = GotPermit \<Longrightarrow>
     buf_step ops (p, ts) (alloc_count p, ts[t := GotCount])"
| b_take: "t < length ts \<Longrightarrow> ts ! t = GotCount \<Longrightarrow> alloc_buffer p = (p', b) \<Longrightarrow>
     buf_step ops (p, ts) (p', ts[t := Using b])"
| b_drop: "t < length ts \<Longrightarrow> ts ! t = Using b \<Longrightarrow>
     buf_step ops (p, ts) (release_count p, ts[t := DroppedCount])"
| b_push: "t < length ts \<Longrightarrow> ts ! t = DroppedCount \<Longrightarrow>
     buf_step ops (p, ts) (release_buffer p, ts[t := DroppedBuffer])"
| b_release: "t < length ts \<Longrightarrow> ts ! t = DroppedBuffer \<Longrightarrow>
     buf_step ops (p, ts) (release_permit ops p, ts[t := BIdle])"
| b_prewarm: "t < length ts \<Longrightarrow> ts ! t = BIdle \<Longrightarrow>
     buf_step ops (p, ts) (p, ts[t := Prewarming (unat (prewarm_fill p))])"
| b_fill: "t < length ts \<Longrightarrow> ts ! t = Prewarming (Suc n) \<Longrightarrow> length (bp_queue p) < queue_capacity p \<Longrightarrow>
     buf_step ops (p, ts) (queue_push 0 p, ts[t := Prewarming n])"
| b_filled: "t < length ts \<Longrightarrow> ts ! t = Prewarming n \<Longrightarrow> n = 0 \<or> length (bp_queue p) = queue_capacity p \<Longrightarrow>
     buf_step ops (p, ts) (p, ts[t := BIdle])"

inductive buf_reach :: "'s sem_ops \<Rightarrow> 's buffer_pool \<Rightarrow> nat \<Rightarrow> 's buffer_pool \<times> buf_phase list \<Rightarrow> bool"
  for ops p0 tasks where
  buf_init: "buf_reach ops p0 tasks (p0, replicate tasks BIdle)"
| buf_more: "buf_reach ops p0 tasks c \<Longrightarrow> buf_step ops c c' \<Longrightarrow> buf_reach ops p0 tasks c'"

fun has_permit :: "buf_phase \<Rightarrow> bool" where
  "has_permit GotPermit = True"
| "has_permit GotCount = True"
| "has_permit (Using _) = True"
| "has_permit DroppedCount = True"
| "has_permit DroppedBuffer = True"
| "has_permit _ = False"

fun is_out :: "buf_phase \<Rightarrow> bool" where
  "is_out GotCount = True"
| "is_out (Using _) = True"
| "is_out _ = False"

definition buf_inv :: "'s sem_ops \<Rightarrow> usize \<Rightarrow> 's buffer_pool \<times> buf_phase list \<Rightarrow> bool" where
  "buf_inv ops cap = (\<lambda>(p, ts).
     bp_capacity p = cap \<and>
     available ops p + count_if has_permit ts = unat cap \<and>
     bp_outstanding p = of_nat (count_if is_out ts) \<and>
     length (bp_queue p) \<le> queue_capacity p)"

lemma queue_push_simps [simp]:
  "bp_capacity (queue_push b p) = bp_capacity p" "bp_semaphore (queue_push b p) = bp_semaphore p"
  "bp_outstanding (queue_push b p) = bp_outstanding p" "queue_capacity (queue_push b p) = queue_capacity p"
  "length (bp_queue p) \<le> queue_capacity p \<Longrightarrow> length (bp_queue (queue_push b p)) \<le> queue_capacity p"
  by (auto simp: queue_push_def queue_capacity_def)

text \<open>A step moves one task; what it must do to the permits and the counter.\<close>

lemma buf_inv_move:
  assumes inv: "buf_inv ops cap (p, ts)" and t: "t < length ts"
    and cap: "bp_capacity p' = bp_capacity p"
    and perm: "available ops p' + (if has_permit q then 1 else 0) =
      available ops p + (if has_permit (ts ! t) then 1 else 0)"
    and out: "bp_outstanding p' + (if is_out (ts ! t) then 1 else 0) =
      bp_outstanding p + (if is_out q then 1 else 0)"
    and queue: "length (bp_queue p') \<le> queue_capacity p"
  shows "buf_inv ops cap (p', ts[t := q])"
proof -
  have I: "bp_capacity p = cap" "available ops p + count_if has_permit ts = unat cap"
    "bp_outstanding p = of_nat (count_if is_out ts)"
    using inv by (auto simp: buf_inv_def)
  have "available ops p' + count_if has_permit (ts[t := q]) = unat cap"
    using I(2) perm count_if_update[OF t, of has_permit q] by (simp split: if_splits)
  moreover have "of_nat (count_if is_out (ts[t := q]) + (if is_out (ts ! t) then 1 else 0)) =
      (of_nat (count_if is_out ts + (if is_out q then 1 else 0)) :: usize)"
    using count_if_update[OF t, of is_out q] by simp
  then have "of_nat (count_if is_out (ts[t := q])) + (if is_out (ts ! t) then 1 else 0) =
      bp_outstanding p' + (if is_out (ts ! t) then 1 else 0)"
    using I(3) out by (simp split: if_splits)
  then have "bp_outstanding p' = of_nat (count_if is_out (ts[t := q]))"
    by (simp only: add_right_cancel)
  ultimately show ?thesis
    using I(1) cap queue by (simp add: buf_inv_def queue_capacity_def)
qed

lemma buf_inv_step:
  assumes laws: "sem_laws ops" and step: "buf_step ops c c'" and inv: "buf_inv ops cap c"
  shows "buf_inv ops cap c'"
proof -
  have qle: "length (bp_queue p) \<le> queue_capacity p" if "c = (p, ts)" for p ts
    using inv that by (simp add: buf_inv_def)
  show ?thesis
    using step inv qle
  proof (induction rule: buf_step.induct)
    case (b_permit t ts p p')
    then show ?case
      by (intro buf_inv_move[where p = p])
        (auto simp: alloc_permit_def available_def dest: sem_lawsD(2)[OF laws])
  next
    case (b_take t ts p p' b)
    then show ?case
      by (intro buf_inv_move[where p = p])
        (auto simp: alloc_buffer_def available_def split: list.splits)
  qed (auto simp: alloc_count_def release_count_def release_buffer_def release_permit_def
      available_def sem_lawsD[OF laws] intro!: buf_inv_move)
qed

lemma with_prefill_inv:
  assumes "sem_laws ops"
  shows "buf_inv ops cap (with_prefill ops size0 cap, replicate tasks BIdle)"
    "buf_inv ops cap (buffer_pool_new ops size0 cap, replicate tasks BIdle)"
proof -
  show base: "buf_inv ops cap (buffer_pool_new ops size0 cap, replicate tasks BIdle)"
    using assms by (simp add: buf_inv_def buffer_pool_new_def available_def sem_lawsD count_if_def)
  have "buf_inv ops cap (queue_push b p, ts)" if "buf_inv ops cap (p, ts)" for b p ts
    using that by (auto simp: buf_inv_def available_def)
  then have "buf_inv ops cap ((queue_push 0 ^^ n) (buffer_pool_new ops size0 cap), replicate tasks BIdle)" for n
    using base by (induction n) auto
  then show "buf_inv ops cap (with_prefill ops size0 cap, replicate tasks BIdle)"
    by (simp add: with_prefill_def)
qed



end
