(* ===== verification/Dht_Node.thy ===== *)
theory Dht_Node
  imports Prelude "HOL-Library.List_Lexorder"
begin

text \<open>
  \<open>tachyon-p2sp/src/dht/node.rs\<close>: 160-bit node identifiers with the XOR metric, identities that
  sign, and the nodes a routing table holds. A \<open>[u8; 20]\<close> is a list of bytes, compared as Rust
  compares arrays (lexicographically, the order of \<^theory_text>\<open>List_Lexorder\<close>); \<open>be_val\<close> reads it
  as the big-endian number the protocol means. BLAKE3, Ed25519 and postcard are third-party and are
  the fields of a record every operation takes. A wall-clock time is a number of nanoseconds since
  the epoch, possibly negative.
\<close>

section \<open>Identifiers\<close>

type_synonym node_id = "u8 list"

abbreviation K_BUCKET_SIZE :: nat where "K_BUCKET_SIZE \<equiv> 20"
abbreviation NUM_BUCKETS :: nat where "NUM_BUCKETS \<equiv> 160"

definition valid_id :: "node_id \<Rightarrow> bool" where
  "valid_id a = (length a = 20)"

definition xor_distance :: "node_id \<Rightarrow> node_id \<Rightarrow> node_id" where
  "xor_distance a b = map (\<lambda>i. a ! i XOR b ! i) [0..<20]"

definition u8_leading_zeros :: "u8 \<Rightarrow> nat" where
  "u8_leading_zeros x = length (takeWhile (\<lambda>i. \<not> bit x i) [7, 6, 5, 4, 3, 2, 1, 0])"

fun leading_zeros_from :: "nat \<Rightarrow> u8 list \<Rightarrow> nat" where
  "leading_zeros_from i [] = 160"
| "leading_zeros_from i (x # xs) =
     (if x \<noteq> 0 then i * 8 + u8_leading_zeros x else leading_zeros_from (Suc i) xs)"

definition leading_zeros :: "node_id \<Rightarrow> nat" where
  "leading_zeros distance = leading_zeros_from 0 distance"

text \<open>The number an identifier stands for.\<close>

fun be_val :: "u8 list \<Rightarrow> nat" where
  "be_val [] = 0"
| "be_val (x # xs) = unat x * 256 ^ length xs + be_val xs"

lemma be_val_bound: "be_val xs < 256 ^ length xs"
proof (induction xs)
  case (Cons x xs)
  have "unat x * 256 ^ length xs + be_val xs < (unat x + 1) * 256 ^ length xs"
    using Cons.IH by (simp add: algebra_simps)
  also have "\<dots> \<le> 256 * 256 ^ length xs"
    using u8_bound[of x] by (intro mult_right_mono) auto
  finally show ?case by simp
qed simp

lemma bit_block:
  fixes a r :: nat
  assumes "r < 2 ^ k"
  shows "bit (a * 2 ^ k + r) n = (if n < k then bit r n else bit a (n - k))"
proof (cases "n < k")
  case True
  have "take_bit k (a * 2 ^ k + r) = r"
    using assms by (simp add: take_bit_eq_mod)
  then have "bit (take_bit k (a * 2 ^ k + r)) n = bit r n" by simp
  then show ?thesis using True by (simp add: bit_take_bit_iff)
next
  case False
  have d: "drop_bit k (a * 2 ^ k + r) = a"
    using assms by (simp add: drop_bit_eq_div)
  have "bit (a * 2 ^ k + r) n = bit (drop_bit k (a * 2 ^ k + r)) (n - k)"
    using False by (simp add: bit_drop_bit_eq)
  then show ?thesis using False by (simp add: d)
qed

lemma xor_block:
  fixes a b r s :: nat
  assumes "r < 2 ^ k" "s < 2 ^ k"
  shows "(a * 2 ^ k + r) XOR (b * 2 ^ k + s) = (a XOR b) * 2 ^ k + (r XOR s)"
proof -
  have "r XOR s < 2 ^ k"
  proof -
    have "take_bit k (r XOR s) = r XOR s"
      using assms by (simp add: take_bit_xor take_bit_nat_eq_self)
    then show ?thesis by (metis take_bit_nat_less_exp)
  qed
  then show ?thesis
    using assms by (intro bit_eqI) (simp add: bit_xor_iff bit_block)
qed

lemma be_val_xor_list:
  "length a = length b \<Longrightarrow> be_val (map2 (XOR) a b) = be_val a XOR be_val b"
proof (induction a b rule: list_induct2)
  case (Cons x xs y ys)
  have p: "(256 :: nat) ^ m = 2 ^ (8 * m)" for m by (simp add: power_mult)
  have "be_val xs < 2 ^ (8 * length xs)" "be_val ys < 2 ^ (8 * length xs)"
    using be_val_bound[of xs] be_val_bound[of ys] Cons.hyps by (simp_all add: p)
  from xor_block[OF this, of "unat x" "unat y"] show ?case
    using Cons by (simp add: p unsigned_xor_eq)
qed simp

lemma xor_distance_map2:
  "valid_id a \<Longrightarrow> valid_id b \<Longrightarrow> xor_distance a b = map2 (XOR) a b"
  by (rule nth_equalityI) (auto simp: xor_distance_def valid_id_def)

lemma valid_xor_distance [simp]: "valid_id (xor_distance a b)"
  by (simp add: valid_id_def xor_distance_def)

lemma be_val_xor_distance:
  "valid_id a \<Longrightarrow> valid_id b \<Longrightarrow> be_val (xor_distance a b) = be_val a XOR be_val b"
  by (simp add: xor_distance_map2 be_val_xor_list valid_id_def)

lemma be_val_inj: "length a = length b \<Longrightarrow> be_val a = be_val b \<Longrightarrow> a = b"
proof (induction a b rule: list_induct2)
  case (Cons x xs y ys)
  let ?m = "256 ^ length xs :: nat"
  have b: "be_val xs < ?m" "be_val ys < ?m"
    using be_val_bound[of xs] be_val_bound[of ys] Cons.hyps by simp_all
  have eq: "unat x * ?m + be_val xs = unat y * ?m + be_val ys"
    using Cons.prems Cons.hyps by simp
  have "(unat x * ?m + be_val xs) div ?m = unat x" "(unat y * ?m + be_val ys) div ?m = unat y"
    using b by simp_all
  then have "unat x = unat y" using eq by simp
  moreover from this have "be_val xs = be_val ys" using eq by simp
  ultimately show ?case using Cons.IH by (simp add: word_unat_eq_iff)
qed simp

text \<open>Rust's order on arrays of equal length is the order of the numbers.\<close>

lemma less_eq_be_val:
  "length a = length b \<Longrightarrow> a \<le> b \<longleftrightarrow> be_val a \<le> be_val b"
proof (induction a b rule: list_induct2)
  case (Cons x xs y ys)
  let ?m = "256 ^ length xs :: nat"
  have b: "be_val xs < ?m" "be_val ys < ?m"
    using be_val_bound[of xs] be_val_bound[of ys] Cons.hyps by simp_all
  have lt: "u * ?m + r < v * ?m + s" if "u < v" "r < ?m" for u v r s :: nat
  proof -
    have "u * ?m + r < (u + 1) * ?m" using that(2) by simp
    also have "\<dots> \<le> v * ?m" using that(1) by (intro mult_right_mono) auto
    finally show ?thesis by simp
  qed
  consider "x < y" | "x = y" | "y < x" by fastforce
  then show ?case
  proof cases
    case 1
    then have "unat x < unat y" by (simp add: word_less_nat_alt)
    from lt[OF this b(1), of "be_val ys"] 1 Cons.hyps show ?thesis by simp
  next
    case 2
    then show ?thesis using Cons by simp
  next
    case 3
    then have "unat y < unat x" by (simp add: word_less_nat_alt)
    from lt[OF this b(2), of "be_val xs"] 3 Cons.hyps show ?thesis by (auto simp: not_le)
  qed
qed simp

lemma less_be_val: "length a = length b \<Longrightarrow> a < b \<longleftrightarrow> be_val a < be_val b"
  using less_eq_be_val[of b a] by (auto simp: not_le[symmetric])

section \<open>Leading zeros\<close>

lemma u8_leading_zeros_bounds:
  assumes "x \<noteq> 0"
  shows "u8_leading_zeros x < 8" "2 ^ (7 - u8_leading_zeros x) \<le> unat x"
    "unat x < 2 ^ (8 - u8_leading_zeros x)"
proof -
  have "list_all (\<lambda>n. let x = of_nat n :: u8; z = u8_leading_zeros x in
          n \<noteq> 0 \<longrightarrow> z < 8 \<and> 2 ^ (7 - z) \<le> n \<and> n < 2 ^ (8 - z)) [0..<256]"
    by code_simp
  then have all: "\<forall>n < 256. n \<noteq> 0 \<longrightarrow> (let z = u8_leading_zeros (of_nat n) in
          z < 8 \<and> 2 ^ (7 - z) \<le> n \<and> n < 2 ^ (8 - z))"
    by (simp add: list_all_iff Let_def)
  have "unat x \<noteq> 0" using assms by (simp add: unat_eq_0)
  with all u8_bound[of x]
  have "let z = u8_leading_zeros (of_nat (unat x)) in
          z < 8 \<and> 2 ^ (7 - z) \<le> unat x \<and> unat x < 2 ^ (8 - z)"
    by blast
  then show "u8_leading_zeros x < 8" "2 ^ (7 - u8_leading_zeros x) \<le> unat x"
    "unat x < 2 ^ (8 - u8_leading_zeros x)"
    by (simp_all add: Let_def)
qed

lemma leading_zeros_from_bounds:
  assumes "i + length xs = 20"
  shows "leading_zeros_from i xs \<le> 160 \<and>
    (if leading_zeros_from i xs = 160 then be_val xs = 0
     else 2 ^ (159 - leading_zeros_from i xs) \<le> be_val xs \<and>
          be_val xs < 2 ^ (160 - leading_zeros_from i xs))"
  using assms
proof (induction xs arbitrary: i)
  case (Cons x xs)
  show ?case
  proof (cases "x = 0")
    case True
    with Cons.IH[of "Suc i"] Cons.prems show ?thesis by simp
  next
    case False
    let ?z = "u8_leading_zeros x" and ?l = "length xs"
    note z = u8_leading_zeros_bounds[OF False]
    have i: "i = 19 - ?l" "?l \<le> 19" using Cons.prems by auto
    have lz: "leading_zeros_from i (x # xs) = (19 - ?l) * 8 + ?z" using False i by simp
    have e: "159 - ((19 - ?l) * 8 + ?z) = (7 - ?z) + 8 * ?l"
      "160 - ((19 - ?l) * 8 + ?z) = (8 - ?z) + 8 * ?l" using z(1) i(2) by arith+
    have p: "(256 :: nat) ^ ?l = 2 ^ (8 * ?l)" by (simp add: power_mult)
    have lo: "2 ^ (7 - ?z) * 2 ^ (8 * ?l) \<le> unat x * 2 ^ (8 * ?l) + be_val xs"
      by (rule trans_le_add1, rule mult_right_mono[OF z(2)]) simp
    have "unat x * 2 ^ (8 * ?l) + be_val xs < (unat x + 1) * 2 ^ (8 * ?l)"
      using be_val_bound[of xs] by (simp add: p)
    also have "\<dots> \<le> 2 ^ (8 - ?z) * 2 ^ (8 * ?l)"
      using z(3) by (intro mult_right_mono) auto
    finally have hi: "unat x * 2 ^ (8 * ?l) + be_val xs < 2 ^ (8 - ?z) * 2 ^ (8 * ?l)" .
    have "(19 - ?l) * 8 + ?z < 160" using z(1) by arith
    then show ?thesis using lo hi unfolding lz be_val.simps p e power_add
      by (simp add: e power_add)
  qed
qed simp

lemma leading_zeros_bounds:
  assumes "valid_id d"
  shows "leading_zeros d \<le> 160" "leading_zeros d = 160 \<Longrightarrow> be_val d = 0"
    "leading_zeros d \<noteq> 160 \<Longrightarrow> 2 ^ (159 - leading_zeros d) \<le> be_val d"
    "leading_zeros d \<noteq> 160 \<Longrightarrow> be_val d < 2 ^ (160 - leading_zeros d)"
  using leading_zeros_from_bounds[of 0 d] assms
  by (auto simp: leading_zeros_def valid_id_def split: if_splits)

lemma leading_zeros_160_iff: "valid_id d \<Longrightarrow> leading_zeros d = 160 \<longleftrightarrow> be_val d = 0"
  using leading_zeros_bounds[of d] by force

section \<open>Identities and signatures\<close>

text \<open>
  What the code calls of BLAKE3 and Ed25519: the hash, the public key of a secret key, signing,
  whether 32 bytes are a public key, and the verification of a signature.
\<close>

record crypto =
  blake3 :: "u8 list \<Rightarrow> u8 list"
  ed_public :: "u8 list \<Rightarrow> u8 list"
  ed_sign :: "u8 list \<Rightarrow> u8 list \<Rightarrow> u8 list"
  ed_key_ok :: "u8 list \<Rightarrow> bool"
  ed_verify :: "u8 list \<Rightarrow> u8 list \<Rightarrow> u8 list \<Rightarrow> bool"

record node_identity =
  ni_signing_key :: "u8 list"
  ni_node_id :: node_id

record dht_signature =
  sig_bytes :: "u8 list"
  sig_public_key :: "u8 list"

definition public_key_to_node_id :: "crypto \<Rightarrow> u8 list \<Rightarrow> node_id" where
  "public_key_to_node_id cr public_key = take 20 (blake3 cr public_key)"

definition identity_from_seed :: "crypto \<Rightarrow> u8 list \<Rightarrow> node_identity" where
  "identity_from_seed cr seed =
     (let verifying_key = ed_public cr seed
      in \<lparr>ni_signing_key = seed, ni_node_id = public_key_to_node_id cr verifying_key\<rparr>)"

definition identity_sign :: "crypto \<Rightarrow> node_identity \<Rightarrow> u8 list \<Rightarrow> dht_signature" where
  "identity_sign cr identity msg =
     \<lparr>sig_bytes = ed_sign cr (ni_signing_key identity) msg,
      sig_public_key = ed_public cr (ni_signing_key identity)\<rparr>"

definition signature_verify :: "crypto \<Rightarrow> dht_signature \<Rightarrow> u8 list \<Rightarrow> node_id \<Rightarrow> bool" where
  "signature_verify cr sig msg expected_sender_id =
     (let derived_id = public_key_to_node_id cr (sig_public_key sig)
      in if derived_id \<noteq> expected_sender_id then False
         else if \<not> ed_key_ok cr (sig_public_key sig) then False
         else ed_verify cr (sig_public_key sig) msg (sig_bytes sig))"

text \<open>What Ed25519 documents: the signature of a key verifies under its public key.\<close>

definition ed25519_ok :: "crypto \<Rightarrow> bool" where
  "ed25519_ok cr = (\<forall>k m. ed_key_ok cr (ed_public cr k) \<and> ed_verify cr (ed_public cr k) m (ed_sign cr k m))"

lemma signature_verify_sign:
  assumes "ed25519_ok cr" "identity = identity_from_seed cr seed"
  shows "signature_verify cr (identity_sign cr identity msg) msg (ni_node_id identity)"
  using assms
  by (simp add: signature_verify_def identity_sign_def identity_from_seed_def ed25519_ok_def Let_def)

lemma signature_verify_binds:
  "signature_verify cr sig msg sender \<Longrightarrow> public_key_to_node_id cr (sig_public_key sig) = sender"
  by (simp add: signature_verify_def Let_def split: if_splits)

section \<open>Nodes\<close>

type_synonym sys_time = int

record dht_node =
  dn_id :: node_id
  dn_addr :: string
  dn_last_seen :: sys_time

definition dht_node_new :: "sys_time \<Rightarrow> node_id \<Rightarrow> string \<Rightarrow> dht_node" where
  "dht_node_new now i addr = \<lparr>dn_id = i, dn_addr = addr, dn_last_seen = now\<rparr>"

abbreviation STALE_DURATION_NS :: int where "STALE_DURATION_NS \<equiv> 900 * 1000000000"

text \<open>A node seen in the future (the clock went back) is not stale.\<close>

definition is_stale :: "sys_time \<Rightarrow> dht_node \<Rightarrow> bool" where
  "is_stale now n =
     (if dn_last_seen n \<le> now then now - dn_last_seen n > STALE_DURATION_NS else False)"

definition node_touch :: "sys_time \<Rightarrow> dht_node \<Rightarrow> dht_node" where
  "node_touch now n = n\<lparr>dn_last_seen := now\<rparr>"

text \<open>The serialised time: whole milliseconds, times before the epoch become the epoch.\<close>

definition serialize_time :: "sys_time \<Rightarrow> u64" where
  "serialize_time t = word_of_int ((if t < 0 then 0 else t) div 1000000)"

definition deserialize_time :: "u64 \<Rightarrow> sys_time" where
  "deserialize_time ms = uint ms * 1000000"

lemma node_touch_simps [simp]:
  "dn_id (node_touch now n) = dn_id n" "dn_addr (node_touch now n) = dn_addr n"
  "dn_last_seen (node_touch now n) = now"
  by (simp_all add: node_touch_def)

lemma serialize_time_roundtrip:
  assumes "0 \<le> t" "t < 2 ^ 64"
  shows "deserialize_time (serialize_time t) \<le> t" "t - deserialize_time (serialize_time t) < 1000000"
proof -
  have "t div 1000000 < 2 ^ 64" using assms by linarith
  then have "uint (serialize_time t) = t div 1000000"
    using assms by (simp add: serialize_time_def uint_word_of_int take_bit_int_eq_self
        pos_imp_zdiv_nonneg_iff)
  then show "deserialize_time (serialize_time t) \<le> t"
    "t - deserialize_time (serialize_time t) < 1000000"
    by (simp_all add: deserialize_time_def)
qed

end
