(* ===== verification/Dht_Routing.thy ===== *)
theory Dht_Routing
  imports Dht_Node Net_Addr "HOL-Library.Multiset"
begin

text \<open>
  \<open>tachyon-p2sp/src/dht/kbucket.rs\<close>: the k-buckets and the routing table of the DHT. Every
  operation that reads the clocks takes a \<open>clock\<close>: the wall clock (\<open>SystemTime\<close>, for the age of a
  node) and the monotonic one (\<open>Instant\<close>, for the activity of a bucket), read once per operation.
\<close>

record clock =
  wall :: sys_time
  mono :: nat

section \<open>Subnets\<close>

fun radix_digits :: "nat \<Rightarrow> nat \<Rightarrow> nat \<Rightarrow> string" where
  "radix_digits 0 b n = ''''"
| "radix_digits (Suc fuel) b n =
     (let d = n mod b; c = char_of (if d < 10 then 48 + d else 87 + d :: nat)
      in if n < b then [c] else radix_digits fuel b (n div b) @ [c])"

text \<open>\<open>{}\<close> of a \<open>u8\<close> and \<open>{:x}\<close> of a \<open>u16\<close>: at most three, and at most four digits.\<close>

definition show_u8 :: "u8 \<Rightarrow> string" where
  "show_u8 x = radix_digits 3 10 (unat x)"

definition show_hex_u16 :: "u16 \<Rightarrow> string" where
  "show_hex_u16 x = radix_digits 4 16 (unat x)"

definition rsplit_once_before :: "char \<Rightarrow> string \<Rightarrow> string option" where
  "rsplit_once_before c s =
     (case dropWhile (\<lambda>x. x \<noteq> c) (rev s) of [] \<Rightarrow> None | _ # r \<Rightarrow> Some (rev r))"

definition trim_brackets :: "string \<Rightarrow> string" where
  "trim_brackets s =
     rev (dropWhile (\<lambda>c. c = CHR '']'') (rev (dropWhile (\<lambda>c. c = CHR ''['') s)))"

definition extract_subnet_key :: "string \<Rightarrow> string option" where
  "extract_subnet_key addr =
     (let ip_str = (case rsplit_once_before (CHR '':'') addr of Some ip \<Rightarrow> ip | None \<Rightarrow> addr);
          ip_str = trim_brackets ip_str
      in case parse_ip_addr ip_str of
           Some (V4 (V4Addr a b c _)) \<Rightarrow>
             Some (show_u8 a @ ''.'' @ show_u8 b @ ''.'' @ show_u8 c)
         | Some (V6 (V6Addr a b c _ _ _ _ _)) \<Rightarrow>
             Some (show_hex_u16 a @ '':'' @ show_hex_u16 b @ '':'' @ show_hex_u16 c)
         | None \<Rightarrow> None)"

section \<open>Buckets\<close>

record kbucket =
  kb_nodes :: "dht_node list"
  kb_cache :: "dht_node list"
  kb_last_activity :: nat

definition kbucket_new :: "clock \<Rightarrow> kbucket" where
  "kbucket_new c = \<lparr>kb_nodes = [], kb_cache = [], kb_last_activity = mono c\<rparr>"

definition bucket_full :: "kbucket \<Rightarrow> bool" where
  "bucket_full b = (length (kb_nodes b) \<ge> K_BUCKET_SIZE)"

definition bucket_contains :: "node_id \<Rightarrow> kbucket \<Rightarrow> bool" where
  "bucket_contains i b = list_ex (\<lambda>n. dn_id n = i) (kb_nodes b)"

definition kbucket_update :: "clock \<Rightarrow> dht_node \<Rightarrow> kbucket \<Rightarrow> kbucket \<times> bool" where
  "kbucket_update c node b =
     (let b = b\<lparr>kb_last_activity := mono c\<rparr>
      in case position (\<lambda>n. dn_id n = dn_id node) (kb_nodes b) of
           Some pos \<Rightarrow>
             (b\<lparr>kb_nodes := remove_nth pos (kb_nodes b) @ [node_touch (wall c) node]\<rparr>, True)
         | None \<Rightarrow>
             if \<not> bucket_full b then (b\<lparr>kb_nodes := kb_nodes b @ [node]\<rparr>, True)
             else (let cache = (if length (kb_cache b) \<ge> K_BUCKET_SIZE
                                then remove_nth 0 (kb_cache b) else kb_cache b)
                   in (b\<lparr>kb_cache := cache @ [node]\<rparr>, False)))"

text \<open>\<open>Vec::pop\<close>.\<close>

definition vec_pop :: "'a list \<Rightarrow> ('a \<times> 'a list) option" where
  "vec_pop xs = (if xs = [] then None else Some (last xs, butlast xs))"

definition kbucket_remove :: "clock \<Rightarrow> node_id \<Rightarrow> kbucket \<Rightarrow> kbucket \<times> bool" where
  "kbucket_remove c i b =
     (case position (\<lambda>n. dn_id n = i) (kb_nodes b) of
        None \<Rightarrow> (b, False)
      | Some pos \<Rightarrow>
          let b = b\<lparr>kb_last_activity := mono c, kb_nodes := remove_nth pos (kb_nodes b)\<rparr>
          in case vec_pop (kb_cache b) of
               None \<Rightarrow> (b, True)
             | Some (replacement, cache) \<Rightarrow>
                 (b\<lparr>kb_nodes := kb_nodes b @ [replacement], kb_cache := cache\<rparr>, True))"

definition bucket_oldest :: "kbucket \<Rightarrow> dht_node option" where
  "bucket_oldest b = (case kb_nodes b of [] \<Rightarrow> None | n # _ \<Rightarrow> Some n)"

definition replace_oldest :: "clock \<Rightarrow> kbucket \<Rightarrow> kbucket" where
  "replace_oldest c b =
     (case vec_pop (kb_cache b) of
        None \<Rightarrow> b
      | Some (replacement, cache) \<Rightarrow>
          let b = b\<lparr>kb_cache := cache\<rparr>
          in if kb_nodes b \<noteq> []
             then b\<lparr>kb_last_activity := mono c, kb_nodes := (kb_nodes b)[0 := replacement]\<rparr>
             else b)"

text \<open>The refill loop of \<open>evict_stale\<close>: stale candidates are dropped.\<close>

function refill :: "sys_time \<Rightarrow> dht_node list \<Rightarrow> dht_node list \<Rightarrow> dht_node list \<times> dht_node list" where
  "refill now nodes cache =
     (if length nodes < K_BUCKET_SIZE then
        (case vec_pop cache of
           None \<Rightarrow> (nodes, cache)
         | Some (candidate, rest) \<Rightarrow>
             if \<not> is_stale now candidate then refill now (nodes @ [candidate]) rest
             else refill now nodes rest)
      else (nodes, cache))"
  by pat_completeness auto
termination
  by (relation "measure (\<lambda>(_, _, cache). length cache)")
    (auto simp: vec_pop_def split: if_splits)

declare refill.simps [simp del]

definition evict_stale :: "clock \<Rightarrow> kbucket \<Rightarrow> kbucket" where
  "evict_stale c b =
     (let before = length (kb_nodes b);
          b = b\<lparr>kb_nodes := filter (\<lambda>n. \<not> is_stale (wall c) n) (kb_nodes b)\<rparr>;
          b = (if length (kb_nodes b) \<noteq> before then b\<lparr>kb_last_activity := mono c\<rparr> else b)
      in case refill (wall c) (kb_nodes b) (kb_cache b) of
           (nodes, cache) \<Rightarrow> b\<lparr>kb_nodes := nodes, kb_cache := cache\<rparr>)"

section \<open>The routing table\<close>

record routing_table =
  rt_local_id :: node_id
  rt_buckets :: "kbucket list"

definition routing_table_new :: "clock \<Rightarrow> node_id \<Rightarrow> routing_table" where
  "routing_table_new c i =
     \<lparr>rt_local_id = i, rt_buckets = replicate NUM_BUCKETS (kbucket_new c)\<rparr>"

definition bucket_index :: "node_id \<Rightarrow> node_id \<Rightarrow> nat option" where
  "bucket_index local_id remote_id =
     (let dist = xor_distance local_id remote_id;
          lz = leading_zeros dist
      in if lz \<ge> 160 then None else Some (159 - lz))"

definition bucket_at :: "routing_table \<Rightarrow> nat \<Rightarrow> kbucket option" where
  "bucket_at rt i = (if i < length (rt_buckets rt) then Some (rt_buckets rt ! i) else None)"

definition set_bucket :: "nat \<Rightarrow> kbucket \<Rightarrow> routing_table \<Rightarrow> routing_table" where
  "set_bucket i b rt = rt\<lparr>rt_buckets := (rt_buckets rt)[i := b]\<rparr>"

definition table_update :: "clock \<Rightarrow> dht_node \<Rightarrow> routing_table \<Rightarrow> routing_table \<times> bool" where
  "table_update c node rt =
     (case bucket_index (rt_local_id rt) (dn_id node) of
        Some idx \<Rightarrow>
          (case kbucket_update c node (rt_buckets rt ! idx) of
             (b, ok) \<Rightarrow> (set_bucket idx b rt, ok))
      | None \<Rightarrow> (rt, False))"

definition table_remove :: "clock \<Rightarrow> node_id \<Rightarrow> routing_table \<Rightarrow> routing_table \<times> bool" where
  "table_remove c i rt =
     (case bucket_index (rt_local_id rt) i of
        Some idx \<Rightarrow>
          (case kbucket_remove c i (rt_buckets rt ! idx) of
             (b, ok) \<Rightarrow> (set_bucket idx b rt, ok))
      | None \<Rightarrow> (rt, False))"

definition node_count :: "routing_table \<Rightarrow> nat" where
  "node_count rt = sum_list (map (\<lambda>b. length (kb_nodes b)) (rt_buckets rt))"

definition replacement_cache_size :: "routing_table \<Rightarrow> nat" where
  "replacement_cache_size rt = sum_list (map (\<lambda>b. length (kb_cache b)) (rt_buckets rt))"

text \<open>
  The two-sided search of \<open>find_closest\<close>, with its flag \<open>expanding\<close>, and the removal of
  duplicated ids (\<open>retain(|n| seen.insert(n.id))\<close>).
\<close>

function expand_search ::
    "kbucket list \<Rightarrow> nat \<Rightarrow> nat \<Rightarrow> nat \<Rightarrow> bool \<Rightarrow> dht_node list \<Rightarrow> dht_node list" where
  "expand_search bs cnt lo hi expanding candidates =
     (if expanding \<and> length candidates < cnt then
        (case (if hi < NUM_BUCKETS - 1
               then (hi + 1, candidates @ kb_nodes (bs ! (hi + 1)), True)
               else (hi, candidates, False)) of
           (hi', candidates', expanding') \<Rightarrow>
             (if lo > 0
              then expand_search bs cnt (lo - 1) hi' True
                     (candidates' @ kb_nodes (bs ! (lo - 1)))
              else expand_search bs cnt lo hi' expanding' candidates'))
      else candidates)"
  by pat_completeness auto
termination
  by (relation "measure (\<lambda>(_, _, lo, hi, e, _). lo + (NUM_BUCKETS - hi) + (if e then 1 else 0))")
    (auto split: if_splits)

declare expand_search.simps [simp del]

fun dedup_by_id :: "node_id list \<Rightarrow> dht_node list \<Rightarrow> dht_node list" where
  "dedup_by_id seen [] = []"
| "dedup_by_id seen (n # ns) =
     (if dn_id n \<in> set seen then dedup_by_id seen ns
      else n # dedup_by_id (dn_id n # seen) ns)"

definition search_center :: "node_id \<Rightarrow> node_id \<Rightarrow> nat" where
  "search_center local_id target =
     (let lz = leading_zeros (xor_distance local_id target)
      in if lz \<ge> 160 then 0 else 159 - lz)"

text \<open>
  \<open>select_nth_unstable_by_key\<close> followed by a sort of the first part is the sorted prefix, since
  the keys of nodes with distinct ids are distinct (\<open>select_then_sort\<close> below).
\<close>

definition find_closest :: "node_id \<Rightarrow> nat \<Rightarrow> routing_table \<Rightarrow> dht_node list" where
  "find_closest target cnt rt =
     (let center = search_center (rt_local_id rt) target;
          candidates = expand_search (rt_buckets rt) cnt center center True
                         (kb_nodes (rt_buckets rt ! center));
          candidates = dedup_by_id [] candidates
      in take cnt (sort_key (\<lambda>n. xor_distance (dn_id n) target) candidates))"

definition table_cleanup_stale :: "clock \<Rightarrow> routing_table \<Rightarrow> routing_table" where
  "table_cleanup_stale c rt = rt\<lparr>rt_buckets := map (evict_stale c) (rt_buckets rt)\<rparr>"

definition active_nodes :: "sys_time \<Rightarrow> routing_table \<Rightarrow> dht_node list" where
  "active_nodes now rt =
     filter (\<lambda>n. \<not> is_stale now n) (concat (map kb_nodes (rt_buckets rt)))"

definition stale_candidates :: "sys_time \<Rightarrow> routing_table \<Rightarrow> dht_node list" where
  "stale_candidates now rt =
     filter (is_stale now) (List.map_filter bucket_oldest (filter bucket_full (rt_buckets rt)))"

definition count_nodes_in_subnet :: "string \<Rightarrow> routing_table \<Rightarrow> nat" where
  "count_nodes_in_subnet key rt =
     sum_list (map (\<lambda>i. case bucket_at rt i of
                          None \<Rightarrow> 0
                        | Some b \<Rightarrow>
                            length (filter (\<lambda>n. extract_subnet_key (dn_addr n) = Some key) (kb_nodes b)))
                [0..<NUM_BUCKETS])"

section \<open>Distances and buckets\<close>

lemma drop_bit_eq_0_iff_nat: "drop_bit k (a :: nat) = 0 \<longleftrightarrow> a < 2 ^ k"
  by (simp add: drop_bit_eq_div div_eq_0_iff)

lemma drop_bit_block:
  "2 ^ k \<le> (a :: nat) \<Longrightarrow> a < 2 ^ (k + 1) \<Longrightarrow> drop_bit k a = 1"
  by (simp add: drop_bit_eq_div div_nat_eqI)

lemma drop_bit_xor_nat: "drop_bit k ((a :: nat) XOR b) = drop_bit k a XOR drop_bit k b"
  by (simp add: bit_eq_iff bit_drop_bit_eq bit_xor_iff)

lemma xor_same_block:
  assumes "2 ^ k \<le> (a :: nat)" "a < 2 ^ (k + 1)" "2 ^ k \<le> b" "b < 2 ^ (k + 1)"
  shows "a XOR b < 2 ^ k"
proof -
  have "drop_bit k (a XOR b) = 0"
    using drop_bit_block[OF assms(1,2)] drop_bit_block[OF assms(3,4)]
    by (simp add: drop_bit_xor_nat)
  then show ?thesis by (rule drop_bit_eq_0_iff_nat[THEN iffD1])
qed

lemma xor_below_block:
  assumes "2 ^ k \<le> (a :: nat)" "a < 2 ^ (k + 1)" "b < 2 ^ k"
  shows "2 ^ k \<le> a XOR b" "a XOR b < 2 ^ (k + 1)"
proof -
  have "drop_bit k b = 0" using assms(3) by (simp add: drop_bit_eq_0_iff_nat)
  then have 1: "drop_bit k (a XOR b) = 1"
    using drop_bit_block[OF assms(1,2)] by (simp add: drop_bit_xor_nat)
  then show "2 ^ k \<le> a XOR b"
    using drop_bit_eq_0_iff_nat[of k "a XOR b"] by (simp add: not_less[symmetric])
  have "(a XOR b) div 2 ^ k = 1" using 1 by (simp add: drop_bit_eq_div)
  then show "a XOR b < 2 ^ (k + 1)"
    using div_less_iff_less_mult[of "2 ^ k" "a XOR b" 2] by simp
qed

abbreviation dist :: "node_id \<Rightarrow> node_id \<Rightarrow> nat" where
  "dist a b \<equiv> be_val (xor_distance a b)"

lemma dist_self [simp]: "valid_id a \<Longrightarrow> dist a a = 0"
  by (simp add: be_val_xor_distance)

lemma dist_commute: "valid_id a \<Longrightarrow> valid_id b \<Longrightarrow> dist a b = dist b a"
  by (simp add: be_val_xor_distance xor.commute)

lemma dist_0_iff:
  assumes "valid_id a" "valid_id b"
  shows "dist a b = 0 \<longleftrightarrow> a = b"
proof
  assume "dist a b = 0"
  then have "be_val a XOR be_val b = 0" using assms by (simp add: be_val_xor_distance)
  then have "be_val a = be_val b"
    by (metis xor.assoc xor.left_neutral xor.right_neutral xor_self_eq)
  then show "a = b" using assms by (intro be_val_inj) (auto simp: valid_id_def)
qed (use assms in simp)

lemma dist_via:
  assumes "valid_id a" "valid_id b" "valid_id c"
  shows "dist b c = dist a b XOR dist a c"
  using assms by (simp add: be_val_xor_distance) (metis xor.assoc xor.left_commute xor_self_eq xor.right_neutral)

lemma xor_distance_sym: "xor_distance a b = xor_distance b a"
  by (simp add: xor_distance_def xor.commute)

lemma bucket_index_None_iff:
  "valid_id a \<Longrightarrow> valid_id b \<Longrightarrow> bucket_index a b = None \<longleftrightarrow> a = b"
  using leading_zeros_160_iff[of "xor_distance a b"] leading_zeros_bounds(1)[of "xor_distance a b"]
  by (auto simp: bucket_index_def Let_def dist_0_iff)

lemma bucket_index_SomeD:
  assumes "bucket_index a b = Some i"
  shows "i < 160" "2 ^ i \<le> dist a b" "dist a b < 2 ^ (i + 1)"
proof -
  let ?lz = "leading_zeros (xor_distance a b)"
  have "?lz < 160" "i = 159 - ?lz"
    using assms by (auto simp: bucket_index_def Let_def split: if_splits)
  then have i: "i = 159 - ?lz" "?lz \<noteq> 160" "i + 1 = 160 - ?lz" by auto
  then show "i < 160" by simp
  show "2 ^ i \<le> dist a b" "dist a b < 2 ^ (i + 1)"
    using leading_zeros_bounds(3,4)[OF valid_xor_distance i(2)] i by simp_all
qed

lemma power_block_unique:
  "2 ^ i \<le> (d :: nat) \<Longrightarrow> d < 2 ^ (i + 1) \<Longrightarrow> 2 ^ j \<le> d \<Longrightarrow> d < 2 ^ (j + 1) \<Longrightarrow> i = j"
proof (rule ccontr)
  assume a: "2 ^ i \<le> d" "d < 2 ^ (i + 1)" "2 ^ j \<le> d" "d < 2 ^ (j + 1)" "i \<noteq> j"
  then consider "i + 1 \<le> j" | "j + 1 \<le> i" by linarith
  then show False
  proof cases
    case 1
    then have "(2 :: nat) ^ (i + 1) \<le> 2 ^ j" by (intro power_increasing) auto
    then show False using a by linarith
  next
    case 2
    then have "(2 :: nat) ^ (j + 1) \<le> 2 ^ i" by (intro power_increasing) auto
    then show False using a by linarith
  qed
qed

lemma bucket_index_Some_iff:
  assumes "valid_id a" "valid_id b"
  shows "bucket_index a b = Some i \<longleftrightarrow> 2 ^ i \<le> dist a b \<and> dist a b < 2 ^ (i + 1)"
proof
  assume r: "2 ^ i \<le> dist a b \<and> dist a b < 2 ^ (i + 1)"
  then have "dist a b \<noteq> 0" by (cases "dist a b = 0") auto
  then obtain j where j: "bucket_index a b = Some j"
    using bucket_index_None_iff[OF assms] dist_0_iff[OF assms] by fastforce
  from power_block_unique[OF bucket_index_SomeD(2,3)[OF j]] r have "j = i" by blast
  then show "bucket_index a b = Some i" using j by simp
qed (use bucket_index_SomeD in blast)

section \<open>Well-formed tables\<close>

text \<open>
  A bucket holds and caches at most \<open>K_BUCKET_SIZE\<close> nodes, caches only when it is full, and every
  node in it belongs there.
\<close>

definition belongs :: "node_id \<Rightarrow> nat \<Rightarrow> dht_node \<Rightarrow> bool" where
  "belongs local_id i n = (valid_id (dn_id n) \<and> bucket_index local_id (dn_id n) = Some i)"

definition bucket_ok :: "node_id \<Rightarrow> nat \<Rightarrow> kbucket \<Rightarrow> bool" where
  "bucket_ok local_id i b =
     (length (kb_nodes b) \<le> K_BUCKET_SIZE \<and> length (kb_cache b) \<le> K_BUCKET_SIZE \<and>
      (kb_cache b \<noteq> [] \<longrightarrow> length (kb_nodes b) = K_BUCKET_SIZE) \<and>
      (\<forall>n \<in> set (kb_nodes b) \<union> set (kb_cache b). belongs local_id i n))"

definition table_ok :: "routing_table \<Rightarrow> bool" where
  "table_ok rt =
     (valid_id (rt_local_id rt) \<and> length (rt_buckets rt) = NUM_BUCKETS \<and>
      (\<forall>i < NUM_BUCKETS. bucket_ok (rt_local_id rt) i (rt_buckets rt ! i)))"

named_theorems dht_ok \<open>operations keep the routing table well formed\<close>

lemma vec_pop_Some:
  "vec_pop xs = Some (x, ys) \<longleftrightarrow> xs = ys @ [x]"
  by (auto simp: vec_pop_def append_butlast_last_id)

lemma vec_pop_None [simp]: "vec_pop xs = None \<longleftrightarrow> xs = []"
  by (simp add: vec_pop_def)

lemma position_in_range: "position P xs = Some i \<Longrightarrow> i < length xs \<and> xs \<noteq> []"
  by (auto dest: position_SomeD)

lemma belongs_touch [simp]: "belongs l i (node_touch t n) = belongs l i n"
  by (simp add: belongs_def)

lemma bucket_ok_activity [simp]: "bucket_ok l i (b\<lparr>kb_last_activity := t\<rparr>) = bucket_ok l i b"
  by (simp add: bucket_ok_def)

lemma bucket_ok_new [dht_ok]: "bucket_ok l i (kbucket_new c)"
  by (simp add: bucket_ok_def kbucket_new_def)

lemma bucket_ok_update [dht_ok]:
  assumes "bucket_ok l i b" "belongs l i node"
  shows "bucket_ok l i (fst (kbucket_update c node b))"
proof (cases "position (\<lambda>n. dn_id n = dn_id node) (kb_nodes b)")
  case None
  define cache where "cache = (if length (kb_cache b) \<ge> K_BUCKET_SIZE
    then remove_nth 0 (kb_cache b) else kb_cache b)"
  have c: "set cache \<subseteq> set (kb_cache b)" "length (cache @ [node]) \<le> K_BUCKET_SIZE"
    using assms(1) set_remove_nth[of 0 "kb_cache b"]
    by (auto simp: cache_def bucket_ok_def)
  have "fst (kbucket_update c node b) =
      (if \<not> bucket_full b then b\<lparr>kb_last_activity := mono c, kb_nodes := kb_nodes b @ [node]\<rparr>
       else b\<lparr>kb_last_activity := mono c, kb_cache := cache @ [node]\<rparr>)"
    using None
    by (simp add: kbucket_update_def Let_def cache_def bucket_full_def del: position_None_iff)
  then show ?thesis
    using assms c by (auto simp: bucket_full_def bucket_ok_def)
next
  case (Some pos)
  then have r: "pos < length (kb_nodes b)" by (simp add: position_in_range)
  then have "set (remove_nth pos (kb_nodes b)) \<subseteq> set (kb_nodes b)" by (simp add: set_remove_nth)
  with assms Some r show ?thesis
    by (auto simp: kbucket_update_def bucket_ok_def Let_def)
qed

lemma bucket_ok_remove [dht_ok]:
  assumes "bucket_ok l i b"
  shows "bucket_ok l i (fst (kbucket_remove c x b))"
proof (cases "position (\<lambda>n. dn_id n = x) (kb_nodes b)")
  case (Some pos)
  then have r: "pos < length (kb_nodes b)" by (simp add: position_in_range)
  then have "set (remove_nth pos (kb_nodes b)) \<subseteq> set (kb_nodes b)" by (simp add: set_remove_nth)
  with assms Some r show ?thesis
    by (auto simp: kbucket_remove_def bucket_ok_def Let_def vec_pop_Some split: option.splits)
qed (use assms in \<open>simp add: kbucket_remove_def del: position_None_iff\<close>)

lemma bucket_ok_replace_oldest [dht_ok]:
  assumes "bucket_ok l i b"
  shows "bucket_ok l i (replace_oldest c b)"
proof (cases "vec_pop (kb_cache b)")
  case (Some p)
  obtain r cache where p: "p = (r, cache)" by (cases p)
  with Some have "kb_cache b = cache @ [r]" by (simp add: vec_pop_Some)
  with assms Some p show ?thesis
    by (auto simp: replace_oldest_def bucket_ok_def Let_def dest: set_update_subset_insert[THEN subsetD])
qed (use assms in \<open>simp add: replace_oldest_def del: vec_pop_None\<close>)

lemma refill_ok:
  assumes "length nodes \<le> K_BUCKET_SIZE" "length cache \<le> K_BUCKET_SIZE"
    "\<forall>n \<in> set nodes \<union> set cache. P n" "refill now nodes cache = (nodes', cache')"
  shows "length nodes' \<le> K_BUCKET_SIZE \<and> length cache' \<le> K_BUCKET_SIZE \<and>
    (cache' \<noteq> [] \<longrightarrow> length nodes' = K_BUCKET_SIZE) \<and> (\<forall>n \<in> set nodes' \<union> set cache'. P n) \<and>
    length nodes \<le> length nodes' \<and>
    length nodes' + length cache' \<le> length nodes + length cache"
  using assms
proof (induction now nodes cache rule: refill.induct)
  case (1 now nodes cache)
  show ?case
  proof (cases "length nodes < K_BUCKET_SIZE \<and> cache \<noteq> []")
    case False
    then have "refill now nodes cache = (nodes, cache)"
      by (subst refill.simps) (auto simp: vec_pop_def)
    with False 1(3-6) show ?thesis by auto
  next
    case True
    then obtain x rest where c: "cache = rest @ [x]" by (metis append_butlast_last_id)
    then have p: "vec_pop cache = Some (x, rest)" by (simp add: vec_pop_Some)
    have px: "P x" "\<forall>n \<in> set nodes \<union> set rest. P n" using 1(5) c by auto
    show ?thesis
    proof (cases "is_stale now x")
      case stale: True
      have "refill now nodes rest = (nodes', cache')"
        using 1(6) True p stale by (simp add: refill.simps[of now nodes cache])
      from 1(2)[OF _ p refl _ _ _ px(2) this] stale True 1(4) c show ?thesis by auto
    next
      case fresh: False
      have "refill now (nodes @ [x]) rest = (nodes', cache')"
        using 1(6) True p fresh by (simp add: refill.simps[of now nodes cache])
      from 1(1)[OF _ p refl _ _ _ _ this] fresh True 1(4) c px show ?thesis by auto
    qed
  qed
qed

lemma bucket_ok_evict_stale [dht_ok]:
  assumes "bucket_ok l i b"
  shows "bucket_ok l i (evict_stale c b)" 
proof -
  let ?nodes = "filter (\<lambda>n. \<not> is_stale (wall c) n) (kb_nodes b)"
  obtain nodes' cache' where r: "refill (wall c) ?nodes (kb_cache b) = (nodes', cache')"
    by (cases "refill (wall c) ?nodes (kb_cache b)")
  have "length ?nodes \<le> K_BUCKET_SIZE" "length (kb_cache b) \<le> K_BUCKET_SIZE"
    "\<forall>n \<in> set ?nodes \<union> set (kb_cache b). belongs l i n"
    using assms le_trans[OF length_filter_le[of "\<lambda>n. \<not> is_stale (wall c) n" "kb_nodes b"]]
    by (auto simp: bucket_ok_def)
  from refill_ok[OF this r] show ?thesis
    by (simp add: evict_stale_def Let_def r bucket_ok_def)
qed

lemma table_ok_bucket: "table_ok rt \<Longrightarrow> i < NUM_BUCKETS \<Longrightarrow> bucket_ok (rt_local_id rt) i (rt_buckets rt ! i)"
  by (simp add: table_ok_def)

lemma table_ok_new [dht_ok]: "valid_id i \<Longrightarrow> table_ok (routing_table_new c i)"
  by (simp add: table_ok_def routing_table_new_def bucket_ok_new)

lemma table_ok_set_bucket [dht_ok]:
  "table_ok rt \<Longrightarrow> bucket_ok (rt_local_id rt) i b \<Longrightarrow> table_ok (set_bucket i b rt)"
  unfolding table_ok_def set_bucket_def
  by (simp, intro allI impI, rename_tac j, case_tac "j = i") auto

lemma table_ok_update [dht_ok]:
  assumes "table_ok rt" "valid_id (dn_id node)"
  shows "table_ok (fst (table_update c node rt))"
proof (cases "bucket_index (rt_local_id rt) (dn_id node)")
  case (Some i)
  then have "i < NUM_BUCKETS" using bucket_index_SomeD(1) by simp
  then have "bucket_ok (rt_local_id rt) i (fst (kbucket_update c node (rt_buckets rt ! i)))"
    using assms Some by (intro bucket_ok_update table_ok_bucket) (simp_all add: belongs_def)
  then show ?thesis
    using assms Some by (simp add: table_update_def table_ok_set_bucket case_prod_beta)
qed (use assms in \<open>simp add: table_update_def\<close>)

lemma table_ok_remove [dht_ok]:
  assumes "table_ok rt"
  shows "table_ok (fst (table_remove c x rt))"
proof (cases "bucket_index (rt_local_id rt) x")
  case (Some i)
  then have "i < NUM_BUCKETS" using bucket_index_SomeD(1) by simp
  then have "bucket_ok (rt_local_id rt) i (fst (kbucket_remove c x (rt_buckets rt ! i)))"
    using assms by (intro bucket_ok_remove table_ok_bucket)
  then show ?thesis
    using assms Some by (simp add: table_remove_def table_ok_set_bucket case_prod_beta)
qed (use assms in \<open>simp add: table_remove_def\<close>)

lemma table_ok_cleanup [dht_ok]: "table_ok rt \<Longrightarrow> table_ok (table_cleanup_stale c rt)"
  by (simp add: table_ok_def table_cleanup_stale_def bucket_ok_evict_stale)

lemma local_id_simps [simp]:
  "rt_local_id (set_bucket i b rt) = rt_local_id rt"
  "rt_local_id (fst (table_update c node rt)) = rt_local_id rt"
  "rt_local_id (fst (table_remove c x rt)) = rt_local_id rt"
  "rt_local_id (table_cleanup_stale c rt) = rt_local_id rt"
  "rt_local_id (routing_table_new c x) = x"
  by (auto simp: set_bucket_def table_update_def table_remove_def table_cleanup_stale_def
      routing_table_new_def split: option.splits prod.splits)

lemma node_count_le:
  assumes "table_ok rt"
  shows "node_count rt \<le> NUM_BUCKETS * K_BUCKET_SIZE"
proof -
  have "\<forall>b \<in> set (rt_buckets rt). length (kb_nodes b) \<le> K_BUCKET_SIZE"
    using assms by (auto simp: table_ok_def bucket_ok_def in_set_conv_nth)
  then have "node_count rt \<le> sum_list (map (\<lambda>b. K_BUCKET_SIZE) (rt_buckets rt))"
    unfolding node_count_def by (intro sum_list_mono) auto
  then show ?thesis using assms by (simp add: table_ok_def sum_list_triv)
qed

end
