(* ===== verification/Dht_Lookup.thy ===== *)
theory Dht_Lookup
  imports Dht_Routing
begin

text \<open>
  What \<open>find_closest\<close> of \<open>kbucket.rs\<close> returns: which part of the table its two-sided search looks
  at, in what order the answer is, and when the answer is the set of closest nodes.
\<close>

section \<open>Sorting by distance\<close>

lemma select_then_sort:
  fixes f :: "'a \<Rightarrow> 'k::linorder"
  assumes "mset ys = mset xs" "inj_on f (set xs)"
    "\<forall>x \<in> set (take n ys). \<forall>y \<in> set (drop n ys). f x \<le> f y"
  shows "sort_key f (take n ys) = take n (sort_key f xs)"
proof (cases "n \<le> length ys")
  case True
  let ?zs = "sort_key f (take n ys) @ sort_key f (drop n ys)"
  have "mset ?zs = mset (take n ys @ drop n ys)" by (simp only: mset_append mset_sort)
  then have "mset xs = mset ?zs" using assms(1) by simp
  moreover have "sorted (map f ?zs)"
    using assms(3) by (auto simp: sorted_append)
  ultimately have "sort_key f xs = ?zs"
    using assms(2) by (intro sort_key_inj_key_eq)
  then show ?thesis using True by simp
next
  case False
  then have "take n ys = ys" by simp
  moreover have "length xs \<le> n" using False assms(1) by (metis mset_eq_length nat_le_linear)
  moreover have "sort_key f ys = sort_key f xs"
  proof -
    have "sort_key f xs = sort_key f ys"
      by (rule sort_key_inj_key_eq) (use assms in auto)
    then show ?thesis by simp
  qed
  ultimately show ?thesis by simp
qed

lemma xor_distance_inj:
  assumes "valid_id a" "valid_id b" "valid_id t" "xor_distance a t = xor_distance b t"
  shows "a = b"
proof -
  have "be_val a XOR be_val t = be_val b XOR be_val t"
    using assms be_val_xor_distance by metis
  then have "be_val a = be_val b" by (metis xor.assoc xor.right_neutral xor_self_eq)
  then show ?thesis using assms by (intro be_val_inj) (auto simp: valid_id_def)
qed

section \<open>The search\<close>

definition nodes_between :: "kbucket list \<Rightarrow> nat \<Rightarrow> nat \<Rightarrow> dht_node multiset" where
  "nodes_between bs lo hi = (\<Sum>i \<in> {lo..hi}. mset (kb_nodes (bs ! i)))"

lemma nodes_between_hi:
  "lo \<le> hi + 1 \<Longrightarrow> nodes_between bs lo (hi + 1) = nodes_between bs lo hi + mset (kb_nodes (bs ! (hi + 1)))"
  by (simp add: nodes_between_def)

lemma nodes_between_lo:
  assumes "0 < lo" "lo \<le> hi + 1"
  shows "nodes_between bs (lo - 1) hi = nodes_between bs lo hi + mset (kb_nodes (bs ! (lo - 1)))"
proof -
  have "{lo - 1..hi} = insert (lo - 1) {lo..hi}" using assms by auto
  then show ?thesis using assms by (simp add: nodes_between_def)
qed

lemma expand_search_spec:
  assumes "mset cands = nodes_between bs lo hi" "lo \<le> hi" "hi < NUM_BUCKETS"
    "\<not> e \<longrightarrow> lo = 0 \<and> hi = NUM_BUCKETS - 1"
  shows "\<exists>lo' hi'. lo' \<le> lo \<and> hi \<le> hi' \<and> hi' < NUM_BUCKETS \<and>
    mset (expand_search bs cnt lo hi e cands) = nodes_between bs lo' hi' \<and>
    (cnt \<le> length (expand_search bs cnt lo hi e cands) \<or> lo' = 0 \<and> hi' = NUM_BUCKETS - 1) \<and>
    (cnt \<le> length cands \<longrightarrow> lo' = lo \<and> hi' = hi)"
  using assms
proof (induction bs cnt lo hi e cands rule: expand_search.induct)
  case (1 bs cnt lo hi e cands)
  show ?case
  proof (cases "e \<and> length cands < cnt")
    case False
    then have "expand_search bs cnt lo hi e cands = cands"
      by (subst expand_search.simps) auto
    with False 1(3-6) show ?thesis by (intro exI[of _ lo] exI[of _ hi]) auto
  next
    case go: True
    define step where "step = (if hi < NUM_BUCKETS - 1
      then (hi + 1, cands @ kb_nodes (bs ! (hi + 1)), True) else (hi, cands, False))"
    obtain hi1 c1 e1 where s: "step = (hi1, c1, e1)" by (cases step)
    have st: "hi \<le> hi1" "hi1 < NUM_BUCKETS" "mset c1 = nodes_between bs lo hi1"
      "\<not> e1 \<longrightarrow> hi1 = NUM_BUCKETS - 1"
      using s 1(3-5) nodes_between_hi[of lo hi bs] by (auto simp: step_def split: if_splits)
    show ?thesis
    proof (cases "lo > 0")
      case True
      have eq: "expand_search bs cnt lo hi e cands
          = expand_search bs cnt (lo - 1) hi1 True (c1 @ kb_nodes (bs ! (lo - 1)))"
        using go True s by (subst expand_search.simps) (auto simp: step_def split: if_splits)
      have m: "mset (c1 @ kb_nodes (bs ! (lo - 1))) = nodes_between bs (lo - 1) hi1"
        using st True 1(4) nodes_between_lo[of lo hi1 bs] by simp
      have le: "lo - 1 \<le> hi1" using st(1) 1(4) by linarith
      from 1(1)[OF go, folded step_def, OF s[symmetric] refl True m le st(2)]
      obtain lo' hi' where "lo' \<le> lo - 1" "hi1 \<le> hi'" "hi' < NUM_BUCKETS"
        "mset (expand_search bs cnt lo hi e cands) = nodes_between bs lo' hi'"
        "cnt \<le> length (expand_search bs cnt lo hi e cands) \<or> lo' = 0 \<and> hi' = NUM_BUCKETS - 1"
        unfolding eq by blast
      with st go show ?thesis by (intro exI[of _ lo'] exI[of _ hi']) auto
    next
      case False
      have eq: "expand_search bs cnt lo hi e cands = expand_search bs cnt lo hi1 e1 c1"
        using go False s by (subst expand_search.simps) (auto simp: step_def split: if_splits)
      have le: "lo \<le> hi1" using st(1) 1(4) by linarith
      have ends: "\<not> e1 \<longrightarrow> lo = 0 \<and> hi1 = NUM_BUCKETS - 1" using st(4) False by blast
      from 1(2)[OF go, folded step_def, OF s[symmetric] refl False st(3) le st(2) ends]
      obtain lo' hi' where "lo' \<le> lo" "hi1 \<le> hi'" "hi' < NUM_BUCKETS"
        "mset (expand_search bs cnt lo hi e cands) = nodes_between bs lo' hi'"
        "cnt \<le> length (expand_search bs cnt lo hi e cands) \<or> lo' = 0 \<and> hi' = NUM_BUCKETS - 1"
        unfolding eq by blast
      with st go show ?thesis by (intro exI[of _ lo'] exI[of _ hi']) auto
    qed
  qed
qed

lemma dedup_by_id_facts:
  "set (dedup_by_id seen ns) \<subseteq> set ns"
  "dn_id ` set (dedup_by_id seen ns) = dn_id ` set ns - set seen"
  "distinct (map dn_id (dedup_by_id seen ns))"
proof -
  have "set (dedup_by_id seen ns) \<subseteq> set ns \<and>
    dn_id ` set (dedup_by_id seen ns) = dn_id ` set ns - set seen \<and>
    distinct (map dn_id (dedup_by_id seen ns))"
  proof (induction seen ns rule: dedup_by_id.induct)
    case (2 seen n ns)
    then show ?case by (cases "dn_id n \<in> set seen") auto
  qed simp
  then show "set (dedup_by_id seen ns) \<subseteq> set ns"
    "dn_id ` set (dedup_by_id seen ns) = dn_id ` set ns - set seen"
    "distinct (map dn_id (dedup_by_id seen ns))" by auto
qed

section \<open>The answer\<close>

definition table_nodes :: "routing_table \<Rightarrow> dht_node set" where
  "table_nodes rt = (\<Union>i < NUM_BUCKETS. set (kb_nodes (rt_buckets rt ! i)))"

definition closest_candidates :: "node_id \<Rightarrow> nat \<Rightarrow> routing_table \<Rightarrow> dht_node list" where
  "closest_candidates target cnt rt =
     (let center = search_center (rt_local_id rt) target
      in expand_search (rt_buckets rt) cnt center center True (kb_nodes (rt_buckets rt ! center)))"

lemma find_closest_alt:
  "find_closest target cnt rt =
     take cnt (sort_key (\<lambda>n. xor_distance (dn_id n) target)
       (dedup_by_id [] (closest_candidates target cnt rt)))"
  by (simp add: find_closest_def closest_candidates_def Let_def)

lemma search_center_less: "search_center a b < NUM_BUCKETS"
  by (auto simp: search_center_def Let_def)

lemma candidates_spec:
  "\<exists>lo hi. lo \<le> search_center (rt_local_id rt) t \<and> search_center (rt_local_id rt) t \<le> hi \<and>
    hi < NUM_BUCKETS \<and>
    mset (closest_candidates t cnt rt) = nodes_between (rt_buckets rt) lo hi \<and>
    (cnt \<le> length (closest_candidates t cnt rt) \<or> lo = 0 \<and> hi = NUM_BUCKETS - 1) \<and>
    (cnt \<le> length (kb_nodes (rt_buckets rt ! search_center (rt_local_id rt) t)) \<longrightarrow>
       lo = search_center (rt_local_id rt) t \<and> hi = search_center (rt_local_id rt) t)"
  unfolding closest_candidates_def Let_def
  by (rule expand_search_spec) (simp_all add: nodes_between_def search_center_less)

lemma set_nodes_between:
  "hi < NUM_BUCKETS \<Longrightarrow> n \<in># nodes_between bs lo hi \<longleftrightarrow> (\<exists>i \<in> {lo..hi}. n \<in> set (kb_nodes (bs ! i)))"
  by (simp add: nodes_between_def set_mset_sum)

lemma candidates_in_table: "set (closest_candidates t cnt rt) \<subseteq> table_nodes rt"
proof
  fix n assume "n \<in> set (closest_candidates t cnt rt)"
  with candidates_spec[of rt t cnt] obtain lo hi
    where "hi < NUM_BUCKETS" "n \<in># nodes_between (rt_buckets rt) lo hi"
    by (metis set_mset_mset)
  then show "n \<in> table_nodes rt"
    by (auto simp: set_nodes_between table_nodes_def)
qed

lemma candidates_length: 
  assumes "table_ok rt"
  shows "length (closest_candidates t cnt rt) \<le> node_count rt"
proof -
  from candidates_spec[of rt t cnt] obtain lo hi
    where h: "hi < NUM_BUCKETS" "mset (closest_candidates t cnt rt) = nodes_between (rt_buckets rt) lo hi"
    by blast
  have len: "length (rt_buckets rt) = NUM_BUCKETS" using assms by (simp add: table_ok_def)
  have "length (closest_candidates t cnt rt) = size (nodes_between (rt_buckets rt) lo hi)"
    by (simp flip: h(2))
  also have "\<dots> = (\<Sum>i \<in> {lo..hi}. length (kb_nodes (rt_buckets rt ! i)))"
    by (simp add: nodes_between_def size_multiset_sum)
  also have "\<dots> \<le> (\<Sum>i \<in> {0..<NUM_BUCKETS}. length (kb_nodes (rt_buckets rt ! i)))"
    using h(1) by (intro sum_mono2) auto
  also have "\<dots> = node_count rt"
    by (simp add: node_count_def sum_list_sum_nth len)
  finally show ?thesis .
qed

lemma table_nodes_belong:
  "table_ok rt \<Longrightarrow> n \<in> table_nodes rt \<Longrightarrow>
   \<exists>i < NUM_BUCKETS. n \<in> set (kb_nodes (rt_buckets rt ! i)) \<and> belongs (rt_local_id rt) i n"
  by (auto simp: table_nodes_def table_ok_def bucket_ok_def)

lemma table_nodes_valid: "table_ok rt \<Longrightarrow> n \<in> table_nodes rt \<Longrightarrow> valid_id (dn_id n)"
  using table_nodes_belong[of rt n] by (auto simp: belongs_def)

lemma find_closest_sorted:
  assumes "table_ok rt" "valid_id t"
  shows "sorted_wrt (\<lambda>a b. dist (dn_id a) t < dist (dn_id b) t) (find_closest t cnt rt)"
proof -
  let ?f = "\<lambda>n. xor_distance (dn_id n) t"
  let ?d = "dedup_by_id [] (closest_candidates t cnt rt)"
  have v: "valid_id (dn_id n)" if "n \<in> set ?d" for n
    using that dedup_by_id_facts(1) candidates_in_table table_nodes_valid[OF assms(1)] by blast
  have inj: "inj_on ?f (set ?d)"
    using v dedup_by_id_facts(3)[of "[]" "closest_candidates t cnt rt"] assms(2)
    by (intro inj_onI) (metis distinct_map inj_onD xor_distance_inj)
  have "distinct ?d" using dedup_by_id_facts(3) distinct_map by blast
  with inj have "distinct (map ?f (sort_key ?f ?d))" by (simp add: distinct_map)
  then have "sorted_wrt (<) (map ?f (sort_key ?f ?d))"
    by (simp add: strict_sorted_iff)
  then have "sorted_wrt (\<lambda>a b. ?f a < ?f b) (sort_key ?f ?d)" by (simp add: sorted_wrt_map)
  then have "sorted_wrt (\<lambda>a b. dist (dn_id a) t < dist (dn_id b) t) (sort_key ?f ?d)"
    by (rule sorted_wrt_mono_rel[rotated]) (simp add: less_be_val xor_distance_def)
  then show ?thesis by (simp add: find_closest_alt sorted_wrt_take)
qed

lemma find_closest_subset: "set (find_closest t cnt rt) \<subseteq> table_nodes rt"
  using candidates_in_table[of t cnt rt] dedup_by_id_facts(1)[of "[]" "closest_candidates t cnt rt"]
  by (auto simp: find_closest_alt dest!: in_set_takeD)

lemma find_closest_length: "length (find_closest t cnt rt) \<le> cnt"
  by (simp add: find_closest_alt)

text \<open>The bucket of the target holds the nodes closest to it.\<close>

lemma center_closest:
  assumes "valid_id l" "valid_id t" "belongs l (search_center l t) r" "belongs l j n" "j \<noteq> search_center l t"
  shows "dist (dn_id r) t \<le> dist (dn_id n) t"
proof -
  let ?c = "search_center l t"
  have r: "valid_id (dn_id r)" "2 ^ ?c \<le> dist l (dn_id r)" "dist l (dn_id r) < 2 ^ (?c + 1)"
    and n: "valid_id (dn_id n)" "2 ^ j \<le> dist l (dn_id n)" "dist l (dn_id n) < 2 ^ (j + 1)"
    using assms(3,4) bucket_index_SomeD by (auto simp: belongs_def)
  have dr: "dist (dn_id r) t = dist l (dn_id r) XOR dist l t"
    and dn: "dist (dn_id n) t = dist l (dn_id n) XOR dist l t"
    using dist_via assms(1,2) r(1) n(1) by blast+
  show ?thesis
  proof (cases "t = l")
    case True
    then have "?c = 0"
      using leading_zeros_160_iff[of "xor_distance l l"] assms(1) by (simp add: search_center_def)
    with True dr dn r n assms(1,5) show ?thesis
      using power_increasing[of 1 j "2 :: nat"] by simp
  next
    case False
    then obtain c where c: "bucket_index l t = Some c"
      using bucket_index_None_iff[OF assms(1,2)] by fastforce
    then have cc: "?c = c" by (auto simp: bucket_index_def search_center_def Let_def split: if_splits)
    note t = bucket_index_SomeD(2,3)[OF c]
    have "dist (dn_id r) t < 2 ^ c" using dr xor_same_block r t unfolding cc by simp
    also have "2 ^ c \<le> dist (dn_id n) t"
    proof (cases "j < c")
      case True
      then have "(2 :: nat) ^ (j + 1) \<le> 2 ^ c" by (intro power_increasing) auto
      then have "dist l (dn_id n) < 2 ^ c" using n(3) by linarith
      from xor_below_block(1)[OF t this] show ?thesis by (simp add: dn xor.commute)
    next
      case False
      then have "c + 1 \<le> j" using assms(5) cc by simp
      then have p: "(2 :: nat) ^ (c + 1) \<le> 2 ^ j" by (intro power_increasing) auto
      then have "dist l t < 2 ^ j" using t(2) by linarith
      from xor_below_block(1)[OF n(2,3) this] have "2 ^ j \<le> dist (dn_id n) t" by (simp add: dn)
      then show ?thesis using p by simp
    qed
    finally show ?thesis by simp
  qed
qed

lemma sort_key_take_drop:
  "x \<in> set (take k (sort_key f xs)) \<Longrightarrow> y \<in> set (drop k (sort_key f xs)) \<Longrightarrow> f x \<le> f y"
proof -
  assume a: "x \<in> set (take k (sort_key f xs))" "y \<in> set (drop k (sort_key f xs))"
  have "sorted (map f (take k (sort_key f xs) @ drop k (sort_key f xs)))" by simp
  then have "sorted (map f (take k (sort_key f xs)) @ map f (drop k (sort_key f xs)))"
    by (simp only: map_append)
  with a show "f x \<le> f y" by (simp only: sorted_append) auto
qed

lemma find_closest_exact:
  assumes ok: "table_ok rt" "valid_id t"
    and n: "n \<in> table_nodes rt" "dn_id n \<notin> dn_id ` set (find_closest t cnt rt)"
    and c: "node_count rt < cnt \<or>
      (cnt \<le> length (kb_nodes (rt_buckets rt ! search_center (rt_local_id rt) t)) \<and>
       distinct (map dn_id (kb_nodes (rt_buckets rt ! search_center (rt_local_id rt) t))))"
  shows "length (find_closest t cnt rt) = cnt \<and>
    (\<forall>r \<in> set (find_closest t cnt rt). dist (dn_id r) t \<le> dist (dn_id n) t)"
proof -
  let ?f = "\<lambda>n. xor_distance (dn_id n) t"
  define cs where "cs = closest_candidates t cnt rt"
  define d where "d = dedup_by_id [] cs"
  let ?c = "search_center (rt_local_id rt) t"
  have fc: "find_closest t cnt rt = take cnt (sort_key ?f d)"
    by (simp add: find_closest_alt d_def cs_def)
  have ids: "dn_id ` set d = dn_id ` set cs" using dedup_by_id_facts(2)[of "[]" cs] by (simp add: d_def)
  have dl: "length d = card (dn_id ` set cs)"
    using dedup_by_id_facts(3)[of "[]" cs] ids by (metis d_def distinct_card length_map set_map)
  obtain lo hi where lh: "hi < NUM_BUCKETS" "mset cs = nodes_between (rt_buckets rt) lo hi"
    "cnt \<le> length cs \<or> lo = 0 \<and> hi = NUM_BUCKETS - 1"
    "cnt \<le> length (kb_nodes (rt_buckets rt ! ?c)) \<longrightarrow> lo = ?c \<and> hi = ?c"
    using candidates_spec[of rt t cnt] unfolding cs_def by blast
  have in_drop: "m \<in> set (drop cnt (sort_key ?f d))" if "m \<in> set d" "dn_id m = dn_id n" for m
  proof -
    have "m \<in> set (sort_key ?f d)" using that(1) by simp
    then have "m \<in> set (take cnt (sort_key ?f d)) \<union> set (drop cnt (sort_key ?f d))"
      by (metis append_take_drop_id set_append)
    moreover have "m \<notin> set (take cnt (sort_key ?f d))" using n(2) that(2) fc by (metis imageI)
    ultimately show ?thesis by blast
  qed
  have from_cs: "length (find_closest t cnt rt) = cnt \<and>
      (\<forall>r \<in> set (find_closest t cnt rt). dist (dn_id r) t \<le> dist (dn_id n) t)"
    if "n \<in> set cs"
  proof -
    have "dn_id n \<in> dn_id ` set d" using that ids by simp
    then obtain m where m: "m \<in> set d" "dn_id m = dn_id n" by (auto simp del: set_sort)
    have "drop cnt (sort_key ?f d) \<noteq> []" using length_pos_if_in_set[OF in_drop[OF m]] unfolding length_greater_0_conv .
    then have "cnt \<le> length (sort_key ?f d)" by simp
    moreover have "dist (dn_id r) t \<le> dist (dn_id n) t" if "r \<in> set (find_closest t cnt rt)" for r
      using sort_key_take_drop[OF that[unfolded fc] in_drop[OF m]] m(2)
      by (simp add: less_eq_be_val xor_distance_def)
    ultimately show ?thesis by (simp add: fc)
  qed
  from table_nodes_belong[OF ok(1) n(1)] obtain j
    where j: "j < NUM_BUCKETS" "n \<in> set (kb_nodes (rt_buckets rt ! j))" "belongs (rt_local_id rt) j n"
    by blast
  show ?thesis
  proof (cases "n \<in> set cs")
    case True
    then show ?thesis by (rule from_cs)
  next
    case False
    then have out: "\<not> (lo \<le> j \<and> j \<le> hi)"
      using j(2) lh(1,2) set_nodes_between[of hi n "rt_buckets rt" lo] by (metis atLeastAtMost_iff set_mset_mset)
    have "\<not> (lo = 0 \<and> hi = NUM_BUCKETS - 1)" using out j(1) by auto
    then have "\<not> node_count rt < cnt"
      using lh(3) candidates_length[OF ok(1), of t cnt] by (auto simp: cs_def)
    then have full: "cnt \<le> length (kb_nodes (rt_buckets rt ! ?c))"
      "distinct (map dn_id (kb_nodes (rt_buckets rt ! ?c)))" using c by auto
    then have center: "lo = ?c" "hi = ?c" using lh(4) by auto
    then have mc: "mset cs = mset (kb_nodes (rt_buckets rt ! ?c))"
      using lh(2) by (simp add: nodes_between_def)
    then have sc: "set cs = set (kb_nodes (rt_buckets rt ! ?c))" by (metis set_mset_mset)
    have "length d = length (kb_nodes (rt_buckets rt ! ?c))"
      using dl full(2) sc by (metis distinct_card length_map set_map)
    then have len: "length (find_closest t cnt rt) = cnt" using full(1) by (simp add: fc)
    have "dist (dn_id r) t \<le> dist (dn_id n) t" if "r \<in> set (find_closest t cnt rt)" for r
    proof -
      have "r \<in> set d" using that fc by (metis in_set_takeD set_sort)
      then have "r \<in> set (kb_nodes (rt_buckets rt ! ?c))"
        using dedup_by_id_facts(1)[of "[]" cs] sc by (auto simp: d_def)
      then have "belongs (rt_local_id rt) ?c r"
        using ok(1) search_center_less by (auto simp: table_ok_def bucket_ok_def)
      moreover have "valid_id (rt_local_id rt)" using ok(1) by (simp add: table_ok_def)
      moreover have "j \<noteq> ?c" using out center by auto
      ultimately show ?thesis using center_closest ok(2) j(3) by blast
    qed
    then show ?thesis using len by blast
  qed
qed

section \<open>Properties\<close>

text \<open>Tables with a few nodes, the local id zero.\<close>

definition small_id :: "u8 \<Rightarrow> u8 \<Rightarrow> node_id" where
  "small_id x y = replicate 18 0 @ [x, y]"

definition sample_clock :: clock where
  "sample_clock = \<lparr>wall = 0, mono = 0\<rparr>"

definition table_of :: "dht_node list \<Rightarrow> routing_table" where
  "table_of ns = fold (\<lambda>n rt. fst (table_update sample_clock n rt)) ns
     (routing_table_new sample_clock (small_id 0 0))"

definition small_node :: "u8 \<Rightarrow> u8 \<Rightarrow> dht_node" where
  "small_node x y = dht_node_new 0 (small_id x y) ''peer''"

lemma valid_small_id [simp]: "valid_id (small_id x y)"
  by (simp add: small_id_def valid_id_def)

lemma valid_small_node [simp]: "valid_id (dn_id (small_node x y))"
  by (simp add: small_node_def dht_node_new_def)

lemma be_val_leading_zeros: "be_val (replicate k 0 @ xs) = be_val xs"
  by (induction k) auto

lemma be_val_small_id: "be_val (small_id x y) = unat x * 256 + unat y"
  unfolding small_id_def be_val_leading_zeros by simp

lemma table_of_ok:
  assumes "\<forall>n \<in> set ns. valid_id (dn_id n)"
  shows "table_ok (table_of ns)"
proof -
  have "table_ok (fold (\<lambda>n rt. fst (table_update sample_clock n rt)) ns rt)"
    if "table_ok rt" "\<forall>n \<in> set ns. valid_id (dn_id n)" for rt
    using that by (induction ns arbitrary: rt) (auto simp: table_ok_update)
  then show ?thesis using assms by (simp add: table_of_def table_ok_new)
qed

lemma table_of_local_id: "rt_local_id (table_of ns) = small_id 0 0"
proof -
  have "rt_local_id (fold (\<lambda>n rt. fst (table_update sample_clock n rt)) ns rt) = rt_local_id rt" for rt
    by (induction ns arbitrary: rt) auto
  then show ?thesis by (simp add: table_of_def)
qed


definition two_in_bucket :: routing_table where
  "two_in_bucket = table_of [small_node 4 0, small_node 4 7, small_node 1 0]"

lemma two_in_bucket_center:
  "map dn_id (kb_nodes (rt_buckets two_in_bucket ! search_center (small_id 0 0) (small_id 4 6)))
     = [small_id 4 0, small_id 4 7]"
  by code_simp


definition spread_table :: routing_table where
  "spread_table = table_of [small_node 4 0, small_node 8 0, small_node 1 0]"

text \<open>
  The two-sided search of \<open>find_closest\<close> stops as soon as it has enough candidates, although
  every bucket below that of the target is nearer to it than any bucket above: for a target whose
  bucket holds one node, the answer of size two is that node and one at distance \<open>0xC01\<close>, and a
  known node at distance \<open>0x501\<close> is left out.
\<close>

theorem find_closest_misses_closer:
  "table_ok spread_table \<and>
   map dn_id (find_closest (small_id 4 1) 2 spread_table) = [small_id 4 0, small_id 8 0] \<and>
   bucket_contains (small_id 1 0) (rt_buckets spread_table ! 8) \<and>
   dist (small_id 8 0) (small_id 4 1) = 0xC01 \<and> dist (small_id 1 0) (small_id 4 1) = 0x501"
proof (intro conjI)
  show "table_ok spread_table" unfolding spread_table_def by (rule table_of_ok) simp
  show "map dn_id (find_closest (small_id 4 1) 2 spread_table) = [small_id 4 0, small_id 8 0]"
    by code_simp
  show "bucket_contains (small_id 1 0) (rt_buckets spread_table ! 8)" by code_simp
  show "dist (small_id 8 0) (small_id 4 1) = 0xC01" "dist (small_id 1 0) (small_id 4 1) = 0x501"
    by (simp_all add: be_val_xor_distance be_val_small_id)
qed

end
