(* ===== verification/Kademlia.thy ===== *)
theory Kademlia
  imports Dht_Lookup
begin

text \<open>
  \<open>tachyon-p2sp/src/dht/message.rs\<close> and \<open>kademlia.rs\<close>: the RPC messages and their signatures, the
  random identifiers of a bucket refresh, and the DHT instance: a routing table with a limit on its
  nodes and the local key-value store.
\<close>

section \<open>Messages\<close>

datatype kademlia_message =
    Ping node_id "dht_signature option"
  | Pong node_id "dht_signature option"
  | FindNode node_id node_id "dht_signature option"
  | FindNodeResponse node_id "dht_node list" "dht_signature option"
  | FindValue node_id "u8 list" "dht_signature option"
  | FindValueResponse node_id "u8 list option" "dht_node list" "dht_signature option"
  | Store node_id "u8 list" "u8 list" "dht_signature option"

fun sender_id :: "kademlia_message \<Rightarrow> node_id" where
  "sender_id (Ping s _) = s"
| "sender_id (Pong s _) = s"
| "sender_id (FindNode s _ _) = s"
| "sender_id (FindNodeResponse s _ _) = s"
| "sender_id (FindValue s _ _) = s"
| "sender_id (FindValueResponse s _ _ _) = s"
| "sender_id (Store s _ _ _) = s"

fun msg_signature :: "kademlia_message \<Rightarrow> dht_signature option" where
  "msg_signature (Ping _ g) = g"
| "msg_signature (Pong _ g) = g"
| "msg_signature (FindNode _ _ g) = g"
| "msg_signature (FindNodeResponse _ _ g) = g"
| "msg_signature (FindValue _ _ g) = g"
| "msg_signature (FindValueResponse _ _ _ g) = g"
| "msg_signature (Store _ _ _ g) = g"

fun put_signature :: "dht_signature option \<Rightarrow> kademlia_message \<Rightarrow> kademlia_message" where
  "put_signature g (Ping s _) = Ping s g"
| "put_signature g (Pong s _) = Pong s g"
| "put_signature g (FindNode s t _) = FindNode s t g"
| "put_signature g (FindNodeResponse s ns _) = FindNodeResponse s ns g"
| "put_signature g (FindValue s k _) = FindValue s k g"
| "put_signature g (FindValueResponse s v ns _) = FindValueResponse s v ns g"
| "put_signature g (Store s k v _) = Store s k v g"

definition set_signature :: "dht_signature \<Rightarrow> kademlia_message \<Rightarrow> kademlia_message" where
  "set_signature sig msg = put_signature (Some sig) msg"

definition clear_signature :: "kademlia_message \<Rightarrow> kademlia_message" where
  "clear_signature msg = put_signature None msg"

lemma put_signature_simps [simp]:
  "sender_id (put_signature g m) = sender_id m"
  "msg_signature (put_signature g m) = g"
  "put_signature g (put_signature h m) = put_signature g m"
  "put_signature (msg_signature m) m = m"
  by (cases m; simp)+

text \<open>postcard, the serialisation of messages: a third-party format.\<close>

record postcard =
  to_postcard :: "kademlia_message \<Rightarrow> u8 list option"
  from_postcard :: "u8 list \<Rightarrow> kademlia_message option"

definition body_bytes :: "postcard \<Rightarrow> kademlia_message \<Rightarrow> u8 list" where
  "body_bytes pc msg = (case to_postcard pc (clear_signature msg) of Some bs \<Rightarrow> bs | None \<Rightarrow> [])"

definition sign_message ::
    "crypto \<Rightarrow> postcard \<Rightarrow> node_identity \<Rightarrow> kademlia_message \<Rightarrow> dht_signature option" where
  "sign_message cr pc identity msg = Some (identity_sign cr identity (body_bytes pc msg))"

definition verify_message_signature ::
    "crypto \<Rightarrow> postcard \<Rightarrow> kademlia_message \<Rightarrow> dht_signature \<Rightarrow> bool" where
  "verify_message_signature cr pc msg sig =
     signature_verify cr sig (body_bytes pc msg) (sender_id msg)"

lemma body_bytes_put [simp]: "body_bytes pc (put_signature g m) = body_bytes pc m"
  by (simp add: body_bytes_def clear_signature_def)

section \<open>Random identifiers\<close>

definition key_to_node_id :: "crypto \<Rightarrow> u8 list \<Rightarrow> node_id" where
  "key_to_node_id cr key = take 20 (blake3 cr key)"

definition splitmix_next :: "u64 \<Rightarrow> u64 \<times> u64" where
  "splitmix_next state =
     (let state = state + 0x9E3779B97F4A7C15;
          z = state;
          z = (z XOR drop_bit 30 z) * 0xBF58476D1CE4E5B9;
          z = (z XOR drop_bit 27 z) * 0x94D049BB133111EB
      in (state, z XOR drop_bit 31 z))"

definition splitmix_u8 :: "u64 \<Rightarrow> u64 \<times> u8" where
  "splitmix_u8 state = (case splitmix_next state of (state', z) \<Rightarrow> (state', ucast z))"

fun fill_random :: "nat list \<Rightarrow> u64 \<Rightarrow> u8 list \<Rightarrow> u64 \<times> u8 list" where
  "fill_random [] s d = (s, d)"
| "fill_random (i # is) s d =
     (case splitmix_u8 s of (s', b) \<Rightarrow> fill_random is s' (d[i := b]))"

text \<open>A bucket index above 159 wraps \<open>159 - bucket_index\<close> and panics on the array index.\<close>

definition random_distance :: "u64 \<Rightarrow> nat \<Rightarrow> u8 list option" where
  "random_distance seed idx =
     (if idx > 159 then None
      else let target_lz = 159 - idx;
               byte_idx = target_lz div 8;
               bit_idx = target_lz mod 8;
               distance = (replicate 20 0)[byte_idx := push_bit (7 - bit_idx) 1]
           in case fill_random [byte_idx + 1..<20] seed distance of
                (s, distance) \<Rightarrow>
                  if bit_idx < 7 then
                    let mask = push_bit (7 - bit_idx) 1 - 1
                    in case splitmix_u8 s of
                         (_, r) \<Rightarrow>
                           Some (distance[byte_idx := distance ! byte_idx OR (r AND mask)])
                  else Some distance)"

definition generate_random_id_in_bucket_range :: "u64 \<Rightarrow> node_id \<Rightarrow> nat \<Rightarrow> node_id option" where
  "generate_random_id_in_bucket_range seed local_id idx =
     map_option (\<lambda>d. map (\<lambda>i. local_id ! i XOR d ! i) [0..<20]) (random_distance seed idx)"

section \<open>The DHT instance\<close>

record kademlia =
  kd_local_id :: node_id
  kd_table :: routing_table
  kd_max_nodes :: nat
  kd_store :: "(u8 list \<times> u8 list) list"

definition kademlia_new :: "clock \<Rightarrow> node_id \<Rightarrow> nat \<Rightarrow> kademlia" where
  "kademlia_new c i max_nodes =
     \<lparr>kd_local_id = i, kd_table = routing_table_new c i, kd_max_nodes = max_nodes, kd_store = []\<rparr>"

text \<open>\<open>Iterator::min_by_key\<close>: the first of the least elements.\<close>

fun min_by_key :: "('a \<Rightarrow> 'k::linorder) \<Rightarrow> 'a list \<Rightarrow> 'a option" where
  "min_by_key f [] = None"
| "min_by_key f (x # xs) =
     (case min_by_key f xs of None \<Rightarrow> Some x | Some y \<Rightarrow> if f y < f x then Some y else Some x)"

definition oldest_info :: "routing_table \<Rightarrow> (nat \<times> node_id \<times> sys_time) option" where
  "oldest_info rt =
     min_by_key (\<lambda>(_, _, t). t)
       (List.map_filter
          (\<lambda>i. case bucket_at rt i of
                 None \<Rightarrow> None
               | Some b \<Rightarrow> map_option (\<lambda>n. (i, dn_id n, dn_last_seen n)) (bucket_oldest b))
          [0..<NUM_BUCKETS])"

definition evict_from_bucket :: "clock \<Rightarrow> node_id \<Rightarrow> kbucket \<Rightarrow> kbucket" where
  "evict_from_bucket c i b =
     (let b = fst (kbucket_remove c i b)
      in if kb_cache b = [] then b else fst (kbucket_update c (last (kb_cache b)) b))"

definition evict_oldest :: "clock \<Rightarrow> routing_table \<Rightarrow> routing_table" where
  "evict_oldest c rt =
     (case oldest_info rt of
        None \<Rightarrow> rt
      | Some (idx, i, _) \<Rightarrow>
          (case bucket_at rt idx of
             None \<Rightarrow> rt
           | Some b \<Rightarrow> set_bucket idx (evict_from_bucket c i b) rt))"

definition cleanup_stale :: "clock \<Rightarrow> kademlia \<Rightarrow> kademlia" where
  "cleanup_stale c d = d\<lparr>kd_table := table_cleanup_stale c (kd_table d)\<rparr>"

abbreviation MAX_NODES_PER_SUBNET :: nat where "MAX_NODES_PER_SUBNET \<equiv> 2"

definition make_room :: "clock \<Rightarrow> kademlia \<Rightarrow> kademlia" where
  "make_room c d =
     (if kd_max_nodes d > 0 \<and> node_count (kd_table d) \<ge> kd_max_nodes d then
        (let d = cleanup_stale c d
         in if node_count (kd_table d) \<ge> kd_max_nodes d
            then d\<lparr>kd_table := evict_oldest c (kd_table d)\<rparr> else d)
      else d)"

definition known_node :: "routing_table \<Rightarrow> node_id \<Rightarrow> bool" where
  "known_node rt i =
     (case Option.bind (bucket_index (rt_local_id rt) i) (bucket_at rt) of
        None \<Rightarrow> False | Some b \<Rightarrow> bucket_contains i b)"

definition subnet_full :: "dht_node \<Rightarrow> routing_table \<Rightarrow> bool" where
  "subnet_full node rt =
     (case extract_subnet_key (dn_addr node) of
        None \<Rightarrow> False
      | Some key \<Rightarrow> count_nodes_in_subnet key rt \<ge> MAX_NODES_PER_SUBNET)"

definition add_node :: "clock \<Rightarrow> dht_node \<Rightarrow> kademlia \<Rightarrow> kademlia" where
  "add_node c node d =
     (if known_node (kd_table d) (dn_id node)
      then d\<lparr>kd_table := fst (table_update c node (kd_table d))\<rparr>
      else if subnet_full node (kd_table d) then d
      else let d = make_room c d
           in d\<lparr>kd_table := fst (table_update c node (kd_table d))\<rparr>)"

definition handle_find_node :: "node_id \<Rightarrow> kademlia \<Rightarrow> dht_node list" where
  "handle_find_node target d = find_closest target K_BUCKET_SIZE (kd_table d)"

definition find_value_local ::
    "crypto \<Rightarrow> u8 list \<Rightarrow> kademlia \<Rightarrow> u8 list option \<times> dht_node list" where
  "find_value_local cr key d =
     (map_of (kd_store d) key, find_closest (key_to_node_id cr key) K_BUCKET_SIZE (kd_table d))"

definition kad_store :: "u8 list \<Rightarrow> u8 list \<Rightarrow> kademlia \<Rightarrow> kademlia" where
  "kad_store key val d = d\<lparr>kd_store := (key, val) # filter (\<lambda>(k, _). k \<noteq> key) (kd_store d)\<rparr>"

definition make_ping :: "kademlia \<Rightarrow> kademlia_message" where
  "make_ping d = Ping (kd_local_id d) None"

definition make_pong :: "kademlia \<Rightarrow> kademlia_message" where
  "make_pong d = Pong (kd_local_id d) None"

definition make_find_node :: "node_id \<Rightarrow> kademlia \<Rightarrow> kademlia_message" where
  "make_find_node target d = FindNode (kd_local_id d) target None"

definition make_find_node_response :: "dht_node list \<Rightarrow> kademlia \<Rightarrow> kademlia_message" where
  "make_find_node_response nodes d = FindNodeResponse (kd_local_id d) nodes None"

text \<open>Only nodes already in the table are refreshed by a message.\<close>

definition handle_message :: "clock \<Rightarrow> kademlia_message \<Rightarrow> kademlia \<Rightarrow> kademlia" where
  "handle_message c msg d =
     (let s = sender_id msg; rt = kd_table d
      in case bucket_index (rt_local_id rt) s of
           None \<Rightarrow> d
         | Some idx \<Rightarrow>
             (case bucket_at rt idx of
                None \<Rightarrow> d
              | Some b \<Rightarrow>
                  (case position (\<lambda>n. dn_id n = s) (kb_nodes b) of
                     None \<Rightarrow> d
                   | Some pos \<Rightarrow>
                       (let node = node_touch (wall c) (kb_nodes b ! pos)
                        in d\<lparr>kd_table := set_bucket idx (fst (kbucket_update c node b)) rt\<rparr>))))"

definition refresh_bucket :: "u64 \<Rightarrow> nat \<Rightarrow> kademlia \<Rightarrow> dht_node list option" where
  "refresh_bucket seed idx d =
     map_option (\<lambda>i. find_closest i K_BUCKET_SIZE (kd_table d))
       (generate_random_id_in_bucket_range seed (kd_local_id d) idx)"

section \<open>Random identifiers land in their bucket\<close>

lemma fill_random_facts:
  "length (snd (fill_random is s d)) = length d \<and>
   (\<forall>j. j \<notin> set is \<longrightarrow> snd (fill_random is s d) ! j = d ! j)"
proof (induction "is" s d rule: fill_random.induct)
  case (2 i "is" s d)
  obtain s' b where sb: "splitmix_u8 s = (s', b)" by (cases "splitmix_u8 s")
  from 2[OF sb[symmetric]] show ?case by (auto simp: sb)
qed simp

lemma leading_zeros_from_prefix:
  "(\<forall>j < k. xs ! j = 0) \<Longrightarrow> k < length xs \<Longrightarrow> xs ! k \<noteq> 0 \<Longrightarrow>
   leading_zeros_from i xs = (i + k) * 8 + u8_leading_zeros (xs ! k)"
proof (induction xs arbitrary: i k)
  case (Cons x xs)
  show ?case
  proof (cases k)
    case 0
    then show ?thesis using Cons.prems by simp
  next
    case (Suc m)
    then have "x = 0" "\<forall>j < m. xs ! j = 0" "m < length xs" "xs ! m \<noteq> 0"
      using Cons.prems by force+
    then show ?thesis using Cons.IH[of m "Suc i"] Suc by simp
  qed
qed simp

lemma u8_leading_zeros_eq:
  assumes "b < 8" "bit x (7 - b)" "\<forall>i. 7 - b < i \<and> i < 8 \<longrightarrow> \<not> bit (x :: u8) i"
  shows "u8_leading_zeros x = b"
proof -
  have "\<not> bit x 7" if "b \<noteq> 0" using assms(1,3) that by auto
  moreover have "\<not> bit x 6" if "1 < b" using assms(1,3) that by auto
  moreover have "\<not> bit x 5" if "2 < b" using assms(1,3) that by auto
  moreover have "\<not> bit x 4" if "3 < b" using assms(1,3) that by auto
  moreover have "\<not> bit x 3" if "4 < b" using assms(1,3) that by auto
  moreover have "\<not> bit x 2" if "5 < b" using assms(1,3) that by auto
  moreover have "\<not> bit x 1" if "6 < b" using assms(1,3) that by auto
  moreover have "b \<in> {0, 1, 2, 3, 4, 5, 6, 7}" using assms(1) by auto
  ultimately show ?thesis
    using assms(2) unfolding u8_leading_zeros_def by (elim insertE emptyE) auto
qed

lemma top_bit_with_low_bits:
  assumes "b < 8"
  shows "bit (push_bit (7 - b) 1 OR (r AND (push_bit (7 - b) 1 - 1)) :: u8) (7 - b)"
    "7 - b < i \<Longrightarrow> \<not> bit (push_bit (7 - b) 1 OR (r AND (push_bit (7 - b) 1 - 1)) :: u8) i"
proof -
  have m: "(push_bit k 1 - 1 :: u8) = mask k" for k by (simp add: mask_eq_exp_minus_1 push_bit_eq_mult)
  show "bit (push_bit (7 - b) 1 OR (r AND (push_bit (7 - b) 1 - 1)) :: u8) (7 - b)"
  proof -
    have "7 - b < 8" by arith
    then show ?thesis unfolding m by (simp add: bit_simps)
  qed
  show "\<not> bit (push_bit (7 - b) 1 OR (r AND (push_bit (7 - b) 1 - 1)) :: u8) i" if "7 - b < i"
    using that unfolding m by (auto simp: bit_simps)
qed

lemma random_distance_leading_zeros:
  assumes "idx \<le> 159" "random_distance seed idx = Some d"
  shows "valid_id d" "leading_zeros d = 159 - idx"
proof -
  define q where "q = (159 - idx) div 8"
  define b where "b = (159 - idx) mod 8"
  define top :: u8 where "top = push_bit (7 - b) 1"
  let ?d0 = "(replicate 20 0)[q := top]"
  obtain s d1 where f: "fill_random [q + 1..<20] seed ?d0 = (s, d1)"
    by (cases "fill_random [q + 1..<20] seed ?d0")
  obtain s2 r where r: "splitmix_u8 s = (s2, r)" by (cases "splitmix_u8 s")
  have q: "q < 20" using assms(1) by (simp add: q_def)
  have b: "b < 8" by (simp add: b_def)
  have d1: "length d1 = 20" "d1 ! q = top" "\<forall>j < q. d1 ! j = 0"
    using fill_random_facts[of "[q + 1..<20]" seed ?d0, unfolded f snd_conv] q by auto
  define e where "e = (if b < 7 then top OR (r AND (top - 1)) else top)"
  have d: "d = d1[q := e]"
    using assms f r d1(2) list_update_id[of d1 q]
    by (auto simp: random_distance_def Let_def q_def[symmetric] b_def[symmetric] e_def top_def split: if_splits)
  have e: "bit e (7 - b)" "\<forall>i. 7 - b < i \<longrightarrow> \<not> bit e i"
  proof -
    note t = top_bit_with_low_bits[OF b, folded top_def]
    have z: "top = top OR (0 AND (top - 1))" by simp
    have "bit e' (7 - b) \<and> (\<forall>i. 7 - b < i \<longrightarrow> \<not> bit e' i)"
      if "e' = top OR (r AND (top - 1)) \<or> e' = top" for e'
      using that t(1)[of r] t(1)[of 0, folded z] t(2)[of _ r] t(2)[of _ 0, folded z] by blast
    from this[of e] show "bit e (7 - b)" "\<forall>i. 7 - b < i \<longrightarrow> \<not> bit e i"
      by (simp_all add: e_def)
  qed
  then have "e \<noteq> 0" by auto
  have "u8_leading_zeros e = b" using u8_leading_zeros_eq[OF b e(1)] e(2) by blast
  moreover have "leading_zeros d = (0 + q) * 8 + u8_leading_zeros (d ! q)"
    unfolding leading_zeros_def using d d1 q \<open>e \<noteq> 0\<close> by (intro leading_zeros_from_prefix) auto
  ultimately show "leading_zeros d = 159 - idx" using d d1(1) q by (simp add: q_def b_def)
  show "valid_id d" using d d1(1) by (simp add: valid_id_def)
qed

lemma generate_random_id_bucket:
  assumes "idx \<le> 159" "valid_id l"
  shows "\<exists>i. generate_random_id_in_bucket_range seed l idx = Some i \<and> valid_id i \<and>
    bucket_index l i = Some idx"
proof -
  have "random_distance seed idx \<noteq> None"
    using assms(1) by (auto simp: random_distance_def Let_def split: prod.splits)
  then obtain d where d: "random_distance seed idx = Some d" by blast
  note f = random_distance_leading_zeros[OF assms(1) d]
  let ?i = "xor_distance l d"
  have g: "generate_random_id_in_bucket_range seed l idx = Some ?i"
    by (simp add: generate_random_id_in_bucket_range_def d xor_distance_def)
  have "xor_distance l ?i = d"
    using f(1) by (intro nth_equalityI)
      (simp_all add: xor_distance_def valid_id_def flip: xor.assoc)
  then have "bucket_index l ?i = Some idx" using f(2) assms(1) by (simp add: bucket_index_def Let_def)
  then show ?thesis using g by auto
qed

section \<open>The invariant of a DHT\<close>

definition dht_ok :: "kademlia \<Rightarrow> bool" where
  "dht_ok d = (table_ok (kd_table d) \<and> rt_local_id (kd_table d) = kd_local_id d \<and>
     distinct (map fst (kd_store d)))"

lemma bucket_at_Some: "bucket_at rt i = Some b \<longleftrightarrow> i < length (rt_buckets rt) \<and> b = rt_buckets rt ! i"
  by (auto simp: bucket_at_def)

lemma min_by_key_in: "min_by_key f xs = Some x \<Longrightarrow> x \<in> set xs"
  by (induction xs arbitrary: x) (auto split: option.splits if_splits)

lemma oldest_info_bucket:
  "oldest_info rt = Some (i, x, t) \<Longrightarrow>
   \<exists>b n. bucket_at rt i = Some b \<and> bucket_oldest b = Some n \<and> dn_id n = x"
  by (auto simp: oldest_info_def List.map_filter_def dest!: min_by_key_in split: option.splits)

lemma bucket_ok_last_cache:
  "bucket_ok l i b \<Longrightarrow> kb_cache b \<noteq> [] \<Longrightarrow> belongs l i (last (kb_cache b))"
  by (simp add: bucket_ok_def)

lemma bucket_ok_evict [dht_ok]:
  "bucket_ok l i b \<Longrightarrow> bucket_ok l i (evict_from_bucket c x b)"
  by (simp add: evict_from_bucket_def Let_def bucket_ok_remove bucket_ok_update bucket_ok_last_cache)

lemma table_ok_evict_oldest [dht_ok]: "table_ok rt \<Longrightarrow> table_ok (evict_oldest c rt)"
  by (auto simp: evict_oldest_def bucket_at_Some split: option.splits
      intro!: table_ok_set_bucket bucket_ok_evict table_ok_bucket) (simp add: table_ok_def)

lemma local_id_evict_oldest [simp]: "rt_local_id (evict_oldest c rt) = rt_local_id rt"
  by (simp add: evict_oldest_def split: option.splits prod.splits)

lemma dht_ok_make_room: "dht_ok d \<Longrightarrow> dht_ok (make_room c d)"
  by (simp add: dht_ok_def make_room_def cleanup_stale_def Let_def dht_ok)

lemma dht_ok_table_update:
  "dht_ok d \<Longrightarrow> valid_id (dn_id n) \<Longrightarrow> dht_ok (d\<lparr>kd_table := fst (table_update c n (kd_table d))\<rparr>)"
  by (simp add: dht_ok_def dht_ok)

lemma dht_ok_add_node: "dht_ok d \<Longrightarrow> valid_id (dn_id n) \<Longrightarrow> dht_ok (add_node c n d)"
  by (auto simp: add_node_def Let_def intro: dht_ok_table_update dht_ok_make_room)

lemma dht_ok_cleanup: "dht_ok d \<Longrightarrow> dht_ok (cleanup_stale c d)"
  by (simp add: dht_ok_def cleanup_stale_def dht_ok)

lemma dht_ok_store: "dht_ok d \<Longrightarrow> dht_ok (kad_store k v d)"
  by (auto simp: dht_ok_def kad_store_def distinct_map_filter)

lemma kad_store_lookup:
  "map_of (kd_store (kad_store k v d)) k' = (if k' = k then Some v else map_of (kd_store d) k')"
proof -
  have "map_of (filter (\<lambda>(x, _). x \<noteq> k) xs) k' = (if k' = k then None else map_of xs k')" for xs :: "(u8 list \<times> u8 list) list" and k k'
    by (induction xs) auto
  then show ?thesis by (simp add: kad_store_def)
qed

lemma dht_ok_handle_message:
  assumes "dht_ok d"
  shows "dht_ok (handle_message c m d)"
proof -
  have "table_ok (set_bucket i (fst (kbucket_update c (node_touch t (kb_nodes b ! p)) b)) (kd_table d))"
    if "bucket_at (kd_table d) i = Some b" "p < length (kb_nodes b)" for i b p t
  proof (rule table_ok_set_bucket)
    have i: "i < NUM_BUCKETS" "b = rt_buckets (kd_table d) ! i"
      using that(1) assms by (auto simp: bucket_at_Some dht_ok_def table_ok_def)
    then have bo: "bucket_ok (rt_local_id (kd_table d)) i b"
      using assms table_ok_bucket[of "kd_table d" i] by (auto simp: dht_ok_def)
    moreover have "kb_nodes b ! p \<in> set (kb_nodes b)" using that(2) by simp
    ultimately have "belongs (rt_local_id (kd_table d)) i (kb_nodes b ! p)"
      unfolding bucket_ok_def by blast
    with bo show "bucket_ok (rt_local_id (kd_table d)) i
        (fst (kbucket_update c (node_touch t (kb_nodes b ! p)) b))"
      by (simp add: bucket_ok_update)
  qed (use assms in \<open>simp add: dht_ok_def\<close>)
  then show ?thesis
    using assms unfolding handle_message_def Let_def
    by (auto simp: dht_ok_def dest: position_in_range split: option.splits)
qed

section \<open>Counting nodes\<close>

lemma node_count_set_bucket:
  assumes "i < length (rt_buckets rt)"
  shows "node_count (set_bucket i b rt) + length (kb_nodes (rt_buckets rt ! i)) =
    node_count rt + length (kb_nodes b)"
proof -
  let ?l = "\<lambda>b. length (kb_nodes b)"
  have "?l (rt_buckets rt ! i) \<le> sum_list (map ?l (rt_buckets rt))"
    using assms by (intro member_le_sum_list) auto
  then show ?thesis
    using assms sum_list_update[of i "map ?l (rt_buckets rt)" "?l b"]
    by (simp add: node_count_def set_bucket_def map_update)
qed

lemma bucket_nodes_le_count:
  "i < length (rt_buckets rt) \<Longrightarrow> length (kb_nodes (rt_buckets rt ! i)) \<le> node_count rt"
  unfolding node_count_def by (rule member_le_sum_list) (auto intro!: imageI)

lemma kbucket_update_length:
  "length (kb_nodes (fst (kbucket_update c n b))) \<le> Suc (length (kb_nodes b))"
  by (auto simp: kbucket_update_def Let_def dest: position_in_range split: option.splits)

lemma table_update_count:
  assumes "table_ok rt"
  shows "node_count (fst (table_update c n rt)) \<le> Suc (node_count rt)"
proof (cases "bucket_index (rt_local_id rt) (dn_id n)")
  case (Some i)
  then have i: "i < length (rt_buckets rt)" using assms bucket_index_SomeD(1) by (simp add: table_ok_def)
  show ?thesis
    using node_count_set_bucket[OF i, of "fst (kbucket_update c n (rt_buckets rt ! i))"]
      kbucket_update_length[of c n "rt_buckets rt ! i"] Some
    by (simp add: table_update_def case_prod_beta)
qed (simp add: table_update_def)

text \<open>With an empty replacement cache an eviction frees a place.\<close>

definition no_caches :: "routing_table \<Rightarrow> bool" where
  "no_caches rt = (\<forall>b \<in> set (rt_buckets rt). kb_cache b = [])"

lemma evict_oldest_count:
  assumes "table_ok rt" "no_caches rt" "0 < node_count rt"
  shows "node_count (evict_oldest c rt) < node_count rt"
proof -
  have len: "length (rt_buckets rt) = NUM_BUCKETS" using assms(1) by (simp add: table_ok_def)
  have "\<exists>b \<in> set (rt_buckets rt). kb_nodes b \<noteq> []"
  proof (rule ccontr)
    assume "\<not> (\<exists>b \<in> set (rt_buckets rt). kb_nodes b \<noteq> [])"
    then have "node_count rt = 0" by (simp add: node_count_def)
    then show False using assms(3) by simp
  qed
  then obtain k where k: "k < NUM_BUCKETS" "kb_nodes (rt_buckets rt ! k) \<noteq> []"
    using len by (metis in_set_conv_nth)
  then obtain m where m: "bucket_oldest (rt_buckets rt ! k) = Some m"
    by (cases "kb_nodes (rt_buckets rt ! k)") (auto simp: bucket_oldest_def)
  define g where "g = (\<lambda>i. case bucket_at rt i of None \<Rightarrow> None
    | Some b \<Rightarrow> map_option (\<lambda>n. (i, dn_id n, dn_last_seen n)) (bucket_oldest b))"
  have "g k = Some (k, dn_id m, dn_last_seen m)" using k(1) len m by (simp add: g_def bucket_at_def)
  then have "(k, dn_id m, dn_last_seen m) \<in> set (List.map_filter g [0..<NUM_BUCKETS])"
    using k(1) by (force simp: List.map_filter_def)
  then have "oldest_info rt \<noteq> None"
    unfolding oldest_info_def g_def
    by (cases "List.map_filter g [0..<NUM_BUCKETS]") (auto simp: g_def split: option.splits)
  then obtain i x t where o: "oldest_info rt = Some (i, x, t)" by (metis not_None_eq prod_cases3)
  then obtain b n where b: "bucket_at rt i = Some b" "bucket_oldest b = Some n" "dn_id n = x"
    using oldest_info_bucket by blast
  then have i: "i < length (rt_buckets rt)" "b = rt_buckets rt ! i" by (simp_all add: bucket_at_Some)
  then have cache: "kb_cache b = []" using assms(2) by (auto simp: no_caches_def)
  obtain ns where ns: "kb_nodes b = n # ns"
    using b(2) by (cases "kb_nodes b") (auto simp: bucket_oldest_def)
  have "evict_from_bucket c x b = b\<lparr>kb_last_activity := mono c, kb_nodes := ns\<rparr>"
    using b(3) ns cache
    by (simp add: evict_from_bucket_def kbucket_remove_def Let_def remove_nth_def vec_pop_def)
  then show ?thesis
    using node_count_set_bucket[OF i(1), of "evict_from_bucket c x b"] ns i(2) o b(1)
    by (simp add: evict_oldest_def)
qed

lemma refill_empty: "refill now ns [] = (ns, [])"
  by (subst refill.simps) (simp add: vec_pop_def)

lemma cleanup_no_caches:
  assumes "no_caches rt"
  shows "no_caches (table_cleanup_stale c rt)" "node_count (table_cleanup_stale c rt) \<le> node_count rt"
proof -
  have e: "kb_cache (evict_stale c b) = [] \<and> length (kb_nodes (evict_stale c b)) \<le> length (kb_nodes b)"
    if "b \<in> set (rt_buckets rt)" for b
    using assms that by (simp add: evict_stale_def no_caches_def refill_empty Let_def)
  then show "no_caches (table_cleanup_stale c rt)"
    by (simp add: no_caches_def table_cleanup_stale_def)
  show "node_count (table_cleanup_stale c rt) \<le> node_count rt"
    using e by (auto simp: node_count_def table_cleanup_stale_def comp_def intro!: sum_list_mono)
qed

lemma table_update_known_count:
  assumes "table_ok rt" "known_node rt (dn_id n)"
  shows "node_count (fst (table_update c n rt)) = node_count rt"
proof -
  obtain i where i: "bucket_index (rt_local_id rt) (dn_id n) = Some i" "i < length (rt_buckets rt)"
    "bucket_contains (dn_id n) (rt_buckets rt ! i)"
    using assms(2) by (auto simp: known_node_def bucket_at_Some split: option.splits
        bind_splits)
  then obtain p where "position (\<lambda>m. dn_id m = dn_id n) (kb_nodes (rt_buckets rt ! i)) = Some p"
    using position_None_iff[of "\<lambda>m. dn_id m = dn_id n" "kb_nodes (rt_buckets rt ! i)"]
    by (fastforce simp: bucket_contains_def list_ex_iff simp del: position_None_iff)
  moreover from this have "p < length (kb_nodes (rt_buckets rt ! i))" by (simp add: position_in_range)
  ultimately have "length (kb_nodes (fst (kbucket_update c n (rt_buckets rt ! i))))
      = length (kb_nodes (rt_buckets rt ! i))"
    by (simp add: kbucket_update_def Let_def)
  then show ?thesis
    using node_count_set_bucket[OF i(2), of "fst (kbucket_update c n (rt_buckets rt ! i))"] i(1)
    by (simp add: table_update_def case_prod_beta)
qed

lemma add_node_within_limit:
  assumes "dht_ok d" "0 < kd_max_nodes d" "node_count (kd_table d) \<le> kd_max_nodes d"
    "no_caches (kd_table d)"
  shows "node_count (kd_table (add_node c n d)) \<le> kd_max_nodes d"
proof -
  let ?rt = "kd_table d"
  have ok: "table_ok ?rt" using assms(1) by (simp add: dht_ok_def)
  have room: "Suc (node_count (kd_table (make_room c d))) \<le> kd_max_nodes d"
  proof (cases "node_count ?rt < kd_max_nodes d")
    case True
    then show ?thesis by (simp add: make_room_def)
  next
    case full: False
    let ?cl = "table_cleanup_stale c ?rt"
    note cl = cleanup_no_caches[OF assms(4), of c]
    show ?thesis
    proof (cases "node_count ?cl < kd_max_nodes d")
      case True
      then show ?thesis using full assms(2) by (simp add: make_room_def cleanup_stale_def Let_def)
    next
      case False
      then have "node_count (evict_oldest c ?cl) < node_count ?cl"
        using assms(2) by (intro evict_oldest_count table_ok_cleanup ok cl(1)) auto
      then show ?thesis
        using full False assms(2,3) cl(2) by (simp add: make_room_def cleanup_stale_def Let_def)
    qed
  qed
  have "table_ok (kd_table (make_room c d))" using dht_ok_make_room[OF assms(1)] by (simp add: dht_ok_def)
  from table_update_count[OF this, of c n] room table_update_known_count[OF ok] assms(3)
  show ?thesis by (auto simp: add_node_def Let_def)
qed

section \<open>Properties\<close>

datatype dht_op =
    OpAdd clock dht_node
  | OpReceive clock kademlia_message
  | OpCleanup clock
  | OpStore "u8 list" "u8 list"

fun dht_step :: "dht_op \<Rightarrow> kademlia \<Rightarrow> kademlia" where
  "dht_step (OpAdd c n) d = add_node c n d"
| "dht_step (OpReceive c m) d = handle_message c m d"
| "dht_step (OpCleanup c) d = cleanup_stale c d"
| "dht_step (OpStore k v) d = kad_store k v d"

text \<open>A node's id has 20 bytes, as its Rust type says.\<close>

fun dht_op_typed :: "dht_op \<Rightarrow> bool" where
  "dht_op_typed (OpAdd c n) = valid_id (dn_id n)"
| "dht_op_typed _ = True"

definition dht_run :: "dht_op list \<Rightarrow> kademlia \<Rightarrow> kademlia" where
  "dht_run ops d = fold dht_step ops d"

lemma dht_ok_new: "valid_id i \<Longrightarrow> dht_ok (kademlia_new c i m)"
  by (simp add: dht_ok_def kademlia_new_def table_ok_new)

lemma dht_ok_run:
  "dht_ok d \<Longrightarrow> \<forall>op \<in> set ops. dht_op_typed op \<Longrightarrow> dht_ok (dht_run ops d)"
proof (induction ops arbitrary: d)
  case (Cons op ops)
  have "dht_ok (dht_step op d)"
    using Cons.prems by (cases op)
      (auto intro: dht_ok_add_node dht_ok_handle_message dht_ok_cleanup dht_ok_store)
  with Cons show ?case by (simp add: dht_run_def)
qed (simp add: dht_run_def)

lemma local_id_run: "kd_local_id (dht_run ops d) = kd_local_id d"
proof (induction ops arbitrary: d)
  case (Cons op ops)
  have "kd_local_id (dht_step op d) = kd_local_id d"
    by (cases op) (auto simp: add_node_def make_room_def cleanup_stale_def handle_message_def
        kad_store_def Let_def split: option.splits)
  with Cons show ?case by (simp add: dht_run_def)
qed (simp add: dht_run_def)

text \<open>
  C16. Whatever nodes are added, messages received, values stored and cleanups run, every bucket of
  the routing table holds at most 20 nodes and 20 replacements, caches replacements only when it is
  full, and bucket \<open>i\<close> holds only nodes whose XOR distance to the local node lies in
  \<open>[2^i, 2^(i+1))\<close>.
\<close>

theorem dht_buckets_invariant:
  assumes "valid_id i" "\<forall>op \<in> set ops. dht_op_typed op"
    and "rt = kd_table (dht_run ops (kademlia_new c i max_nodes))" "k < NUM_BUCKETS"
    and "b = rt_buckets rt ! k"
  shows "length (kb_nodes b) \<le> K_BUCKET_SIZE \<and> length (kb_cache b) \<le> K_BUCKET_SIZE \<and>
    (kb_cache b \<noteq> [] \<longrightarrow> length (kb_nodes b) = K_BUCKET_SIZE) \<and>
    (\<forall>n \<in> set (kb_nodes b) \<union> set (kb_cache b).
       2 ^ k \<le> dist i (dn_id n) \<and> dist i (dn_id n) < 2 ^ (k + 1))"
proof -
  let ?d = "dht_run ops (kademlia_new c i max_nodes)"
  have ok: "dht_ok ?d" by (rule dht_ok_run[OF dht_ok_new[OF assms(1)] assms(2)])
  have "kd_local_id ?d = i"
    by (simp add: local_id_run kademlia_new_def)
  then have "bucket_ok i k b"
    using ok assms(3-5) table_ok_bucket[of "kd_table ?d" k] by (simp add: dht_ok_def)
  then show ?thesis using bucket_index_SomeD(2,3) unfolding bucket_ok_def belongs_def by blast
qed

definition sample_ops :: "dht_op list" where
  "sample_ops = [OpAdd sample_clock (small_node 4 0), OpAdd sample_clock (small_node 4 1),
     OpReceive sample_clock (Ping (small_id 4 0) None), OpCleanup sample_clock, OpStore [1] [2]]"

theorem dht_buckets_invariant_witness:
  "let b = rt_buckets (kd_table (dht_run sample_ops (kademlia_new sample_clock (small_id 0 0) 1))) ! 10
   in \<forall>n \<in> set (kb_nodes b) \<union> set (kb_cache b).
        2 ^ 10 \<le> dist (small_id 0 0) (dn_id n) \<and> dist (small_id 0 0) (dn_id n) < 2 ^ (10 + 1)"
proof -
  have typed: "\<forall>op \<in> set sample_ops. dht_op_typed op" by (simp add: sample_ops_def)
  have k: "10 < NUM_BUCKETS" by simp
  from dht_buckets_invariant[OF valid_small_id typed refl k refl, where c = sample_clock and max_nodes = 1]
  show ?thesis unfolding Let_def by blast
qed

text \<open>
  The random id of a bucket refresh exists for every bucket and lies in that bucket: whatever
  the seed, its XOR distance to the local node is in \<open>[2^idx, 2^(idx+1))\<close>.
\<close>

theorem random_id_in_bucket:
  assumes "idx < NUM_BUCKETS" "valid_id l"
  shows "\<exists>i. generate_random_id_in_bucket_range seed l idx = Some i \<and> valid_id i \<and>
    bucket_index l i = Some idx \<and> 2 ^ idx \<le> dist l i \<and> dist l i < 2 ^ (idx + 1)"
  using generate_random_id_bucket[of idx l seed] assms bucket_index_SomeD(2,3) by fastforce

theorem random_id_in_bucket_witness:
  "\<exists>i. generate_random_id_in_bucket_range 42 (small_id 0 0) 12 = Some i \<and>
     bucket_index (small_id 0 0) i = Some 12"
proof -
  have "12 < NUM_BUCKETS" by simp
  from random_id_in_bucket[OF this valid_small_id] show ?thesis by blast
qed

text \<open>
  Message signatures. A message signed by the identity its sender id names verifies, with the
  signature inside the message or not; and conversely a message verifies only with a public key
  whose hash is the sender id and whose Ed25519 signature covers the message with its signature
  field cleared.
\<close>

theorem signed_messages_verify:
  assumes "ed25519_ok cr"
  shows "(\<forall>seed msg sig g. let me = identity_from_seed cr seed in
           sender_id msg = ni_node_id me \<and> sign_message cr pc me msg = Some sig \<longrightarrow>
           verify_message_signature cr pc (put_signature g msg) sig) \<and>
    (\<forall>msg sig. verify_message_signature cr pc msg sig \<longrightarrow>
       public_key_to_node_id cr (sig_public_key sig) = sender_id msg \<and>
       ed_verify cr (sig_public_key sig) (body_bytes pc msg) (sig_bytes sig))"
proof
  show "\<forall>seed msg sig g. let me = identity_from_seed cr seed in
      sender_id msg = ni_node_id me \<and> sign_message cr pc me msg = Some sig \<longrightarrow>
      verify_message_signature cr pc (put_signature g msg) sig"
    using signature_verify_sign[OF assms refl]
    by (auto simp: sign_message_def verify_message_signature_def Let_def)
  show "\<forall>msg sig. verify_message_signature cr pc msg sig \<longrightarrow>
      public_key_to_node_id cr (sig_public_key sig) = sender_id msg \<and>
      ed_verify cr (sig_public_key sig) (body_bytes pc msg) (sig_bytes sig)"
    by (auto simp: verify_message_signature_def signature_verify_def Let_def split: if_splits)
qed

text \<open>A toy scheme: the signature is the key and the message, the id the padded key.\<close>

definition toy_crypto :: crypto where
  "toy_crypto = \<lparr>blake3 = (\<lambda>m. take 32 (m @ replicate 32 0)), ed_public = (\<lambda>k. k),
     ed_sign = (\<lambda>k m. k @ m), ed_key_ok = (\<lambda>_. True), ed_verify = (\<lambda>k m s. s = k @ m)\<rparr>"

definition toy_postcard :: postcard where
  "toy_postcard = \<lparr>to_postcard = (\<lambda>m. Some (sender_id m)), from_postcard = (\<lambda>_. None)\<rparr>"

theorem signed_messages_verify_witness:
  "verify_message_signature toy_crypto toy_postcard
     (Ping (ni_node_id (identity_from_seed toy_crypto [7])) None)
     (the (sign_message toy_crypto toy_postcard (identity_from_seed toy_crypto [7])
        (Ping (ni_node_id (identity_from_seed toy_crypto [7])) None)))"
proof -
  have "ed25519_ok toy_crypto" by (simp add: ed25519_ok_def toy_crypto_def)
  from signed_messages_verify[OF this, of toy_postcard, THEN conjunct1, rule_format,
      of "[7]" "Ping (ni_node_id (identity_from_seed toy_crypto [7])) None" _ None]
  show ?thesis by (simp add: Let_def sign_message_def)
qed

text \<open>
  \<open>max_nodes\<close> is a limit only while no replacement is cached: then a table within the limit
  stays within it whatever is added.
\<close>

theorem add_node_respects_limit:
  assumes "dht_ok d" "0 < kd_max_nodes d" "node_count (kd_table d) \<le> kd_max_nodes d"
    "no_caches (kd_table d)"
  shows "node_count (kd_table (add_node c n d)) \<le> kd_max_nodes d"
  using assms by (rule add_node_within_limit)

theorem add_node_respects_limit_witness:
  "node_count (kd_table (add_node sample_clock (small_node 8 0)
     (kademlia_new sample_clock (small_id 0 0) 1))) \<le> 1"
proof -
  let ?d = "kademlia_new sample_clock (small_id 0 0) 1"
  have "dht_ok ?d" by (simp add: dht_ok_new)
  moreover have "node_count (kd_table ?d) \<le> kd_max_nodes ?d" "no_caches (kd_table ?d)" "0 < kd_max_nodes ?d"
    by (simp_all add: kademlia_new_def routing_table_new_def node_count_def no_caches_def
        kbucket_new_def sum_list_replicate)
  ultimately show ?thesis
    using add_node_respects_limit[of ?d sample_clock "small_node 8 0"] by (simp add: kademlia_new_def)
qed

definition later_clock :: clock where
  "later_clock = \<lparr>wall = 1, mono = 1\<rparr>"

text \<open>\<open>add_node\<close> for a node whose address has no subnet.\<close>

definition admit :: "clock \<Rightarrow> dht_node \<Rightarrow> kademlia \<Rightarrow> kademlia" where
  "admit c node d =
     (if known_node (kd_table d) (dn_id node)
      then d\<lparr>kd_table := fst (table_update c node (kd_table d))\<rparr>
      else let d = make_room c d
           in d\<lparr>kd_table := fst (table_update c node (kd_table d))\<rparr>)"

lemma peer_has_no_subnet: "extract_subnet_key ''peer'' = None"
proof -
  have "parse_ip_addr ''peer'' = None"
    by (rule parse_ip_addr_not_hex) (simp_all add: dec_digit_def hex_digit_val_def)
  then show ?thesis
    by (simp add: extract_subnet_key_def rsplit_once_before_def trim_brackets_def)
qed

lemma add_node_named: "dn_addr n = ''peer'' \<Longrightarrow> add_node c n = admit c n"
  by (rule ext) (simp add: add_node_def admit_def subnet_full_def peer_has_no_subnet)

definition crowd :: "(clock \<times> dht_node) list" where
  "crowd = map (\<lambda>k. (sample_clock, small_node 128 (of_nat k))) [0..<21] @
     [(later_clock, dht_node_new 1 (small_id 1 0) ''peer''),
      (later_clock, dht_node_new 1 (small_id 2 0) ''peer'')]"

lemma run_admits:
  "\<forall>(c, n) \<in> set cs. dn_addr n = ''peer'' \<Longrightarrow>
   dht_run (map (\<lambda>(c, n). OpAdd c n) cs) d = fold (\<lambda>(c, n). admit c n) cs d"
  by (induction cs arbitrary: d) (auto simp: dht_run_def add_node_named)

lemma crowd_overflows:
  "node_count (kd_table (fold (\<lambda>(c, n). admit c n) crowd
     (kademlia_new sample_clock (small_id 0 0) 21))) = 22"
  by code_simp

text \<open>
  With a replacement cached the limit is exceeded: \<open>evict_oldest\<close> removes the oldest node, but
  the bucket refills itself from its cache, so no place is freed and the new node goes over
  \<open>max_nodes\<close>.
\<close>

theorem max_nodes_exceeded:
  "node_count (kd_table (dht_run (map (\<lambda>(c, n). OpAdd c n) crowd)
     (kademlia_new sample_clock (small_id 0 0) 21))) = 22"
proof -
  have "\<forall>(c, n) \<in> set crowd. dn_addr n = ''peer''"
    by (auto simp: crowd_def small_node_def dht_node_new_def)
  then show ?thesis using crowd_overflows by (simp add: run_admits)
qed

end
