(* ===== verification/Dht_Transport.thy ===== *)
theory Dht_Transport
  imports Kademlia
begin

text \<open>
  \<open>tachyon-p2sp/src/dht/transport.rs\<close>: the UDP transport of the DHT. One record holds what its
  tasks share, the receive loop with its window of the rate limit, and what was handed to the socket
  and to waiting callers. Datagrams arrive from anyone: a step takes the bytes and the source.
  postcard and Ed25519 are the parameters of \<open>Kademlia\<close>; the answers of other nodes are parameters
  of the lookups.
\<close>

section \<open>State\<close>

datatype transport_error = Serialization | IoError | RpcTimeout | Shutdown

record transport =
  tr_dht :: kademlia
  tr_identity :: node_identity
  tr_pending :: "u64 list"
  tr_running :: bool
  tr_listening :: bool
  tr_next_id :: u64
  tr_window_start :: nat
  tr_request_count :: u32
  tr_sent :: "(string \<times> u8 list) list"
  tr_delivered :: "(u64 \<times> kademlia_message) list"

text \<open>
  \<open>start_recv_loop\<close> is included: the loop starts its window at \<open>now\<close>. \<^const>\<open>tr_listening\<close> is
  whether the loop waits in \<open>recv_from\<close>: it reads \<open>running\<close> only between two datagrams, so the one
  it waits for when \<open>shutdown\<close> is called is still served.
\<close>

definition transport_start :: "kademlia \<Rightarrow> node_identity \<Rightarrow> nat \<Rightarrow> transport" where
  "transport_start d identity now =
     \<lparr>tr_dht = d, tr_identity = identity, tr_pending = [], tr_running = True, tr_listening = True, tr_next_id = 1,
      tr_window_start = now, tr_request_count = 0, tr_sent = [], tr_delivered = []\<rparr>"

definition shutdown :: "transport \<Rightarrow> transport" where
  "shutdown tr = tr\<lparr>tr_running := False\<rparr>"

definition is_running :: "transport \<Rightarrow> bool" where
  "is_running tr = tr_running tr"

section \<open>The wire format\<close>

text \<open>\<open>to_be_bytes\<close> and \<open>from_be_bytes\<close>.\<close>

definition be_bytes :: "u64 \<Rightarrow> u8 list" where
  "be_bytes w = map (\<lambda>i. ucast (drop_bit (8 * (7 - i)) w)) [0..<8]"

definition from_be_bytes :: "u8 list \<Rightarrow> u64" where
  "from_be_bytes bs = foldl (\<lambda>w b. push_bit 8 w OR ucast b) 0 bs"

lemma length_be_bytes [simp]: "length (be_bytes w) = 8"
  by (simp add: be_bytes_def)

lemma from_be_bytes_be_bytes [simp]: "from_be_bytes (be_bytes w) = w"
proof (rule bit_word_eqI)
  fix i assume "i < LENGTH(64)"
  then have "i < 8 \<or> 8 \<le> i \<and> i < 16 \<or> 16 \<le> i \<and> i < 24 \<or> 24 \<le> i \<and> i < 32 \<or>
      32 \<le> i \<and> i < 40 \<or> 40 \<le> i \<and> i < 48 \<or> 48 \<le> i \<and> i < 56 \<or> 56 \<le> i \<and> i < 64"
    by auto
  then show "bit (from_be_bytes (be_bytes w)) i = bit w i"
    by (elim disjE) (auto simp: from_be_bytes_def be_bytes_def upt_rec bit_simps)
qed

definition packet_of :: "u64 \<Rightarrow> u8 list \<Rightarrow> u8 list" where
  "packet_of request_id payload = be_bytes request_id @ payload"

definition wire_encode :: "postcard \<Rightarrow> kademlia_message \<Rightarrow> transport_error + u8 list" where
  "wire_encode pc msg = (case to_postcard pc msg of Some bs \<Rightarrow> Inr bs | None \<Rightarrow> Inl Serialization)"

definition wire_decode :: "postcard \<Rightarrow> u8 list \<Rightarrow> transport_error + kademlia_message" where
  "wire_decode pc bs = (case from_postcard pc bs of Some m \<Rightarrow> Inr m | None \<Rightarrow> Inl Serialization)"

definition signed :: "crypto \<Rightarrow> postcard \<Rightarrow> node_identity \<Rightarrow> kademlia_message \<Rightarrow> kademlia_message" where
  "signed cr pc identity msg =
     (case sign_message cr pc identity msg of Some sig \<Rightarrow> set_signature sig msg | None \<Rightarrow> msg)"

section \<open>Incoming messages\<close>

definition is_known :: "node_id \<Rightarrow> kademlia \<Rightarrow> bool" where
  "is_known i d = list_ex (\<lambda>n. dn_id n = i) (find_closest i K_BUCKET_SIZE (kd_table d))"

definition process_incoming ::
    "crypto \<Rightarrow> clock \<Rightarrow> kademlia_message \<Rightarrow> kademlia \<Rightarrow> kademlia \<times> kademlia_message option" where
  "process_incoming cr c msg d =
     (let d = handle_message c msg d
      in case msg of
           Ping _ _ \<Rightarrow> (d, Some (make_pong d))
         | FindNode _ target _ \<Rightarrow> (d, Some (make_find_node_response (handle_find_node target d) d))
         | FindValue _ key _ \<Rightarrow>
             (case find_value_local cr key d of
                (val, nodes) \<Rightarrow> (d, Some (FindValueResponse (kd_local_id d) val nodes None)))
         | Store s key val _ \<Rightarrow>
             if \<not> is_known s d then (d, None) else (kad_store key val d, None)
         | _ \<Rightarrow> (d, None))"

abbreviation MAX_MESSAGE_SIZE :: nat where "MAX_MESSAGE_SIZE \<equiv> 8192"
abbreviation MAX_REQUESTS_PER_SEC :: u32 where "MAX_REQUESTS_PER_SEC \<equiv> 100"

text \<open>A signature that is there must verify; a message without one passes.\<close>

definition signature_ok :: "crypto \<Rightarrow> postcard \<Rightarrow> kademlia_message \<Rightarrow> bool" where
  "signature_ok cr pc msg =
     (case msg_signature msg of
        Some sig \<Rightarrow> verify_message_signature cr pc msg sig
      | None \<Rightarrow> True)"

definition count_request :: "clock \<Rightarrow> transport \<Rightarrow> transport" where
  "count_request c tr =
     (let tr = (if mono c - tr_window_start tr \<ge> 1000000000
                then tr\<lparr>tr_window_start := mono c, tr_request_count := 0\<rparr> else tr)
      in tr\<lparr>tr_request_count := tr_request_count tr + 1\<rparr>)"

definition answer ::
    "crypto \<Rightarrow> postcard \<Rightarrow> clock \<Rightarrow> string \<Rightarrow> u64 \<Rightarrow> kademlia_message \<Rightarrow> transport \<Rightarrow> transport" where
  "answer cr pc c src request_id msg tr =
     (case process_incoming cr c msg (tr_dht tr) of
        (d, None) \<Rightarrow> tr\<lparr>tr_dht := d\<rparr>
      | (d, Some response) \<Rightarrow>
          (case wire_encode pc (signed cr pc (tr_identity tr) response) of
             Inl _ \<Rightarrow> tr\<lparr>tr_dht := d\<rparr>
           | Inr payload \<Rightarrow>
               tr\<lparr>tr_dht := d, tr_sent := tr_sent tr @ [(src, packet_of request_id payload)]\<rparr>))"

text \<open>The body of the receive loop, on a datagram that arrived.\<close>

definition recv_turn ::
    "crypto \<Rightarrow> postcard \<Rightarrow> clock \<Rightarrow> string \<Rightarrow> u8 list \<Rightarrow> transport \<Rightarrow> transport" where
  "recv_turn cr pc c src datagram tr =
     (if length datagram < 8 \<or> length datagram > MAX_MESSAGE_SIZE then tr
      else
        (let request_id = from_be_bytes (take 8 datagram)
         in case wire_decode pc (drop 8 datagram) of
              Inl _ \<Rightarrow> tr
            | Inr msg \<Rightarrow>
                if \<not> signature_ok cr pc msg then tr
                else if request_id \<in> set (tr_pending tr) then
                  tr\<lparr>tr_pending := filter (\<lambda>i. i \<noteq> request_id) (tr_pending tr),
                     tr_delivered := tr_delivered tr @ [(request_id, msg)]\<rparr>
                else
                  (let tr = count_request c tr
                   in if tr_request_count tr > MAX_REQUESTS_PER_SEC then tr
                      else answer cr pc c src request_id msg tr)))"

text \<open>The loop around it: \<open>recv_from\<close> returns a datagram or an error, then \<open>running\<close> is read.\<close>

definition recv_step ::
    "crypto \<Rightarrow> postcard \<Rightarrow> clock \<Rightarrow> (string \<times> u8 list) option \<Rightarrow> transport \<Rightarrow> transport" where
  "recv_step cr pc c received tr =
     (if \<not> tr_listening tr then tr
      else
        (let tr = (case received of
                     None \<Rightarrow> tr
                   | Some (src, datagram) \<Rightarrow> recv_turn cr pc c src datagram tr)
         in tr\<lparr>tr_listening := tr_running tr\<rparr>))"

section \<open>Outgoing requests\<close>

text \<open>
  \<open>send_rpc\<close> up to its wait: \<open>io_ok\<close> is whether the socket took the packet. The pending entry is
  not taken back when the encoding or the socket fails.
\<close>

definition send_rpc ::
    "crypto \<Rightarrow> postcard \<Rightarrow> bool \<Rightarrow> string \<Rightarrow> kademlia_message \<Rightarrow> transport \<Rightarrow> transport \<times> (transport_error + u64)" where
  "send_rpc cr pc io_ok target msg tr =
     (if \<not> tr_running tr then (tr, Inl Shutdown)
      else
        (let request_id = tr_next_id tr;
             tr = tr\<lparr>tr_next_id := request_id + 1, tr_pending := request_id # tr_pending tr\<rparr>
         in case wire_encode pc (signed cr pc (tr_identity tr) msg) of
              Inl e \<Rightarrow> (tr, Inl e)
            | Inr payload \<Rightarrow>
                if \<not> io_ok then (tr, Inl IoError)
                else (tr\<lparr>tr_sent := tr_sent tr @ [(target, packet_of request_id payload)]\<rparr>, Inr request_id)))"

text \<open>The end of the wait: a response was delivered, or the five seconds are over.\<close>

definition finish_rpc :: "u64 \<Rightarrow> transport \<Rightarrow> transport \<times> (transport_error + kademlia_message)" where
  "finish_rpc request_id tr =
     (case map_of (tr_delivered tr) request_id of
        Some response \<Rightarrow> (tr, Inr response)
      | None \<Rightarrow> (tr\<lparr>tr_pending := filter (\<lambda>i. i \<noteq> request_id) (tr_pending tr)\<rparr>, Inl RpcTimeout))"

definition ping_request :: "transport \<Rightarrow> kademlia_message" where
  "ping_request tr = make_ping (tr_dht tr)"

fun ping_answer :: "kademlia_message \<Rightarrow> bool" where
  "ping_answer (Pong _ _) = True"
| "ping_answer _ = False"

definition find_node_request :: "node_id \<Rightarrow> transport \<Rightarrow> kademlia_message" where
  "find_node_request target tr = make_find_node target (tr_dht tr)"

fun find_node_answer :: "kademlia_message \<Rightarrow> dht_node list" where
  "find_node_answer (FindNodeResponse _ nodes _) = nodes"
| "find_node_answer _ = []"

definition find_value_request :: "u8 list \<Rightarrow> transport \<Rightarrow> kademlia_message" where
  "find_value_request key tr = FindValue (kd_local_id (tr_dht tr)) key None"

fun find_value_answer :: "kademlia_message \<Rightarrow> u8 list option \<times> dht_node list" where
  "find_value_answer (FindValueResponse _ val nodes _) = (val, nodes)"
| "find_value_answer _ = (None, [])"

definition store_rpc ::
    "crypto \<Rightarrow> postcard \<Rightarrow> bool \<Rightarrow> string \<Rightarrow> u8 list \<Rightarrow> u8 list \<Rightarrow> transport \<Rightarrow> transport \<times> (transport_error + unit)" where
  "store_rpc cr pc io_ok target key val tr =
     (case wire_encode pc (signed cr pc (tr_identity tr) (Store (kd_local_id (tr_dht tr)) key val None)) of
        Inl e \<Rightarrow> (tr, Inl e)
      | Inr payload \<Rightarrow>
          (let request_id = tr_next_id tr; tr = tr\<lparr>tr_next_id := request_id + 1\<rparr>
           in if \<not> io_ok then (tr, Inl IoError)
              else (tr\<lparr>tr_sent := tr_sent tr @ [(target, packet_of request_id payload)]\<rparr>, Inr ())))"

section \<open>Bucket refresh\<close>

abbreviation BUCKET_STALE_THRESHOLD :: nat where "BUCKET_STALE_THRESHOLD \<equiv> 900 * 1000000000"

definition stale_buckets :: "nat \<Rightarrow> routing_table \<Rightarrow> nat list" where
  "stale_buckets now rt =
     filter (\<lambda>i. case bucket_at rt i of
                   None \<Rightarrow> False
                 | Some b \<Rightarrow> kb_nodes b \<noteq> [] \<and> now - kb_last_activity b > BUCKET_STALE_THRESHOLD)
       [0..<NUM_BUCKETS]"

definition touch_activity :: "nat \<Rightarrow> kbucket \<Rightarrow> kbucket" where
  "touch_activity now b = b\<lparr>kb_last_activity := now\<rparr>"

text \<open>
  One bucket of a round: the candidates of \<open>refresh_bucket\<close> are only counted for the log, what
  remains is the new time stamp.
\<close>

definition refresh_one :: "nat \<Rightarrow> nat \<Rightarrow> transport \<Rightarrow> transport" where
  "refresh_one now idx tr =
     (if \<not> tr_running tr then tr
      else
        (let d = tr_dht tr
         in case bucket_at (kd_table d) idx of
              None \<Rightarrow> tr
            | Some b \<Rightarrow>
                tr\<lparr>tr_dht := d\<lparr>kd_table := set_bucket idx (touch_activity now b) (kd_table d)\<rparr>\<rparr>))"

definition bucket_refresh_round :: "nat \<Rightarrow> transport \<Rightarrow> transport" where
  "bucket_refresh_round now tr = fold (refresh_one now) (stale_buckets now (kd_table (tr_dht tr))) tr"

section \<open>Iterative lookups\<close>

abbreviation ALPHA :: nat where "ALPHA \<equiv> 3"

text \<open>Merging the answers of a round: new nodes are appended in the order of the answers.\<close>

fun merge_found ::
    "node_id set \<Rightarrow> dht_node list \<Rightarrow> dht_node list \<times> node_id set \<times> bool \<Rightarrow>
     dht_node list \<times> node_id set \<times> bool" where
  "merge_found queried [] acc = acc"
| "merge_found queried (n # ns) (known, known_ids, new_found) =
     (if dn_id n \<notin> queried \<and> dn_id n \<notin> known_ids
      then merge_found queried ns (known @ [n], insert (dn_id n) known_ids, True)
      else merge_found queried ns (known, known_ids, new_found))"

definition by_distance :: "node_id \<Rightarrow> dht_node list \<Rightarrow> dht_node list" where
  "by_distance target = sort_key (\<lambda>n. xor_distance (dn_id n) target)"

text \<open>\<open>reply\<close>: the nodes a queried node answers with in a round, none when it does not answer.\<close>

partial_function (option) lookup_loop ::
    "(nat \<Rightarrow> dht_node \<Rightarrow> dht_node list) \<Rightarrow> node_id \<Rightarrow> nat \<Rightarrow> dht_node list \<Rightarrow> node_id set \<Rightarrow> node_id set \<Rightarrow>
     dht_node list option" where
  "lookup_loop reply target round known known_ids queried =
     (let known = by_distance target known;
          targets = take ALPHA (filter (\<lambda>n. dn_id n \<notin> queried) known)
      in if targets = [] then Some known
         else
           (let queried = queried \<union> dn_id ` set targets
            in case merge_found queried (concat (map (reply round) targets)) (known, known_ids, False) of
                 (known, known_ids, new_found) \<Rightarrow>
                   if \<not> new_found then Some known
                   else lookup_loop reply target (round + 1) known known_ids queried))"

definition iterative_find_node ::
    "(nat \<Rightarrow> dht_node \<Rightarrow> dht_node list) \<Rightarrow> node_id \<Rightarrow> transport \<Rightarrow> dht_node list option" where
  "iterative_find_node reply target tr =
     (let known = find_closest target K_BUCKET_SIZE (kd_table (tr_dht tr))
      in if known = [] then Some []
         else map_option (\<lambda>known. take K_BUCKET_SIZE (by_distance target known))
                (lookup_loop reply target 0 known (dn_id ` set known) {}))"

text \<open>\<open>ask\<close>: the answer of a node to FindValue, \<^term>\<open>None\<close> on an error.\<close>

fun first_value :: "(dht_node \<Rightarrow> (u8 list option \<times> dht_node list) option) \<Rightarrow> dht_node list \<Rightarrow> u8 list option" where
  "first_value ask [] = None"
| "first_value ask (n # ns) =
     (case ask n of
        Some (Some val, _) \<Rightarrow> Some val
      | _ \<Rightarrow> first_value ask ns)"

definition distributed_find_value ::
    "crypto \<Rightarrow> (nat \<Rightarrow> dht_node \<Rightarrow> dht_node list) \<Rightarrow> (dht_node \<Rightarrow> (u8 list option \<times> dht_node list) option) \<Rightarrow>
     u8 list \<Rightarrow> transport \<Rightarrow> u8 list option option" where
  "distributed_find_value cr reply ask key tr =
     map_option (first_value ask) (iterative_find_node reply (key_to_node_id cr key) tr)"

text \<open>\<open>io_ok\<close>: whether the socket takes the packet for a node.\<close>

fun store_at ::
    "crypto \<Rightarrow> postcard \<Rightarrow> (dht_node \<Rightarrow> bool) \<Rightarrow> u8 list \<Rightarrow> u8 list \<Rightarrow> dht_node list \<Rightarrow> transport \<Rightarrow> transport \<times> nat" where
  "store_at cr pc io_ok key val [] tr = (tr, 0)"
| "store_at cr pc io_ok key val (n # ns) tr =
     (let request_id = tr_next_id tr;
          tr = tr\<lparr>tr_next_id := request_id + 1\<rparr>
      in case wire_encode pc (signed cr pc (tr_identity tr) (Store (kd_local_id (tr_dht tr)) key val None)) of
           Inl _ \<Rightarrow> store_at cr pc io_ok key val ns tr
         | Inr payload \<Rightarrow>
             if \<not> io_ok n then store_at cr pc io_ok key val ns tr
             else
               (case store_at cr pc io_ok key val ns
                       (tr\<lparr>tr_sent := tr_sent tr @ [(dn_addr n, packet_of request_id payload)]\<rparr>) of
                  (tr, success_count) \<Rightarrow> (tr, success_count + 1)))"

definition distributed_store ::
    "crypto \<Rightarrow> postcard \<Rightarrow> (nat \<Rightarrow> dht_node \<Rightarrow> dht_node list) \<Rightarrow> (dht_node \<Rightarrow> bool) \<Rightarrow> u8 list \<Rightarrow> u8 list \<Rightarrow>
     transport \<Rightarrow> (transport \<times> nat) option" where
  "distributed_store cr pc reply io_ok key val tr =
     map_option
       (\<lambda>closest.
          (case store_at cr pc io_ok key val closest tr of
             (tr, success_count) \<Rightarrow> (tr\<lparr>tr_dht := kad_store key val (tr_dht tr)\<rparr>, success_count)))
       (iterative_find_node reply (key_to_node_id cr key) tr)"

section \<open>Lookups end\<close>

lemma merge_found_spec:
  assumes "merge_found queried ns (known, known_ids, f) = (known', known_ids', f')"
    and "known_ids = dn_id ` set known" "distinct (map dn_id known)"
  shows "known_ids' = dn_id ` set known' \<and> distinct (map dn_id known') \<and> set known \<subseteq> set known' \<and>
    set known' \<subseteq> set known \<union> set ns \<and> (f' \<longrightarrow> f \<or> known_ids \<subset> known_ids')"
  using assms
proof (induction ns arbitrary: known known_ids f)
  case (Cons n ns)
  show ?case
  proof (cases "dn_id n \<notin> queried \<and> dn_id n \<notin> known_ids")
    case True
    then have "merge_found queried ns (known @ [n], insert (dn_id n) known_ids, True) = (known', known_ids', f')"
      using Cons.prems(1) by simp
    from Cons.IH[OF this] True Cons.prems(2,3) show ?thesis by auto
  next
    case False
    then have "merge_found queried ns (known, known_ids, f) = (known', known_ids', f')"
      using Cons.prems(1) by (auto split: if_splits)
    from Cons.IH[OF this Cons.prems(2,3)] show ?thesis by auto
  qed
qed auto

lemma set_by_distance [simp]: "set (by_distance target ns) = set ns"
  by (simp add: by_distance_def)

lemma distinct_by_distance [simp]:
  "distinct (map dn_id (by_distance target ns)) = distinct (map dn_id ns)"
proof -
  have "mset (map dn_id (by_distance target ns)) = mset (map dn_id ns)"
    by (simp add: by_distance_def)
  then show ?thesis by (rule mset_eq_imp_distinct_iff)
qed

lemma finite_ids: "finite {i :: node_id. valid_id i}"
  using finite_lists_length_eq[of "UNIV :: u8 set" 20] by (simp add: valid_id_def)

lemma lookup_loop_ends:
  assumes "\<forall>r n. \<forall>m \<in> set (reply r n). valid_id (dn_id m)"
    and "known_ids = dn_id ` set known" "distinct (map dn_id known)" "\<forall>n \<in> set known. valid_id (dn_id n)"
  shows "\<exists>ns. lookup_loop reply target round known known_ids queried = Some ns \<and>
    distinct (map dn_id ns) \<and> set known \<subseteq> set ns \<and> (\<forall>n \<in> set ns. valid_id (dn_id n))"
  using assms(2-4)
proof (induction "card ({i. valid_id i} - known_ids)" arbitrary: round known known_ids queried rule: less_induct)
  case less
  let ?known = "by_distance target known"
  define targets where "targets = take ALPHA (filter (\<lambda>n. dn_id n \<notin> queried) ?known)"
  define queried1 where "queried1 = queried \<union> dn_id ` set targets"
  obtain k1 ids1 f where m: "merge_found queried1 (concat (map (reply round) targets)) (?known, known_ids, False) =
      (k1, ids1, f)" by (rule prod_cases3)
  have step: "lookup_loop reply target round known known_ids queried =
      (if targets = [] then Some ?known else if \<not> f then Some k1
       else lookup_loop reply target (round + 1) k1 ids1 queried1)"
    by (subst lookup_loop.simps) (simp only: Let_def m prod.case flip: targets_def queried1_def)
  have new: "known_ids = dn_id ` set ?known" "distinct (map dn_id ?known)" using less.prems by simp_all
  note s = merge_found_spec[OF m new]
  have valid: "\<forall>n \<in> set k1. valid_id (dn_id n)"
  proof
    fix n assume "n \<in> set k1"
    then have "n \<in> set known \<or> n \<in> set (concat (map (reply round) targets))" using s by auto
    then have "n \<in> set known \<or> (\<exists>t. n \<in> set (reply round t))" by auto
    then show "valid_id (dn_id n)" using less.prems(3) assms(1) by blast
  qed
  show ?case
  proof (cases "targets = [] \<or> \<not> f")
    case True
    then show ?thesis
      unfolding step using s less.prems valid by (cases "targets = []") auto
  next
    case False
    then have smaller: "known_ids \<subset> ids1" using s by blast
    have "{i. valid_id i} - ids1 \<subset> {i. valid_id i} - known_ids"
      using smaller valid s by blast
    then have "card ({i. valid_id i} - ids1) < card ({i. valid_id i} - known_ids)"
      by (rule psubset_card_mono[rotated]) (simp add: finite_ids)
    from less.hyps[OF this _ _ valid, of "round + 1" queried1] s
    obtain ns where ns: "lookup_loop reply target (round + 1) k1 ids1 queried1 = Some ns"
      "distinct (map dn_id ns)" "set k1 \<subseteq> set ns" "\<forall>n \<in> set ns. valid_id (dn_id n)" by blast
    have "lookup_loop reply target round known known_ids queried = Some ns"
      unfolding step using False ns(1) by simp
    with ns s show ?thesis by auto
  qed
qed

lemma by_distance_sorted:
  assumes "distinct (map dn_id ns)" "\<forall>n \<in> set ns. valid_id (dn_id n)" "valid_id t"
  shows "sorted_wrt (\<lambda>a b. dist (dn_id a) t < dist (dn_id b) t) (by_distance t ns)"
proof -
  let ?f = "\<lambda>n. xor_distance (dn_id n) t"
  have "inj_on ?f (set ns)"
    using assms by (intro inj_onI) (metis distinct_map inj_onD xor_distance_inj)
  moreover have "distinct ns" using assms(1) distinct_map by blast
  ultimately have "distinct (map ?f (sort_key ?f ns))" by (simp add: distinct_map)
  then have "sorted_wrt (<) (map ?f (sort_key ?f ns))" by (simp add: strict_sorted_iff)
  then have "sorted_wrt (\<lambda>a b. ?f a < ?f b) (sort_key ?f ns)" by (simp add: sorted_wrt_map)
  then show ?thesis unfolding by_distance_def
    by (rule sorted_wrt_mono_rel[rotated]) (simp add: less_be_val xor_distance_def)
qed

text \<open>
  C24. An iterative lookup always ends, whatever the queried nodes answer: a round that finds a new
  identifier leaves fewer of the finitely many to find. It returns at most 20 nodes with distinct
  identifiers, nearest first, and never loses one of the nodes the own table offered but to nearer
  ones.
\<close>

theorem lookup_ends_sorted:
  assumes "dht_ok (tr_dht tr)" "valid_id target"
    and "\<forall>r n. \<forall>m \<in> set (reply r n). valid_id (dn_id m)"
  shows "\<exists>ns. iterative_find_node reply target tr = Some ns \<and> length ns \<le> K_BUCKET_SIZE \<and>
    sorted_wrt (\<lambda>a b. dist (dn_id a) target < dist (dn_id b) target) ns \<and>
    (\<forall>n \<in> set (find_closest target K_BUCKET_SIZE (kd_table (tr_dht tr))).
       n \<in> set ns \<or> length ns = K_BUCKET_SIZE \<and> (\<forall>m \<in> set ns. dist (dn_id m) target < dist (dn_id n) target))"
proof -
  let ?local = "find_closest target K_BUCKET_SIZE (kd_table (tr_dht tr))"
  have ok: "table_ok (kd_table (tr_dht tr))" using assms(1) by (simp add: dht_ok_def)
  have d: "distinct (map dn_id ?local)"
    using dedup_by_id_facts(3)[of "[]" "closest_candidates target K_BUCKET_SIZE (kd_table (tr_dht tr))"]
    by (simp add: find_closest_alt flip: by_distance_def take_map)
  have v: "\<forall>n \<in> set ?local. valid_id (dn_id n)"
    using find_closest_subset table_nodes_valid[OF ok] by blast
  show ?thesis
  proof (cases "?local = []")
    case True
    then show ?thesis by (simp add: iterative_find_node_def)
  next
    case False
    obtain ns where ns: "lookup_loop reply target 0 ?local (dn_id ` set ?local) {} = Some ns"
      "distinct (map dn_id ns)" "set ?local \<subseteq> set ns" "\<forall>n \<in> set ns. valid_id (dn_id n)"
      using lookup_loop_ends[where reply = reply and target = target and round = 0 and queried = "{}",
          OF assms(3) refl d v] by blast
    let ?r = "by_distance target ns"
    note sorted = by_distance_sorted[OF ns(2,4) assms(2)]
    have r: "iterative_find_node reply target tr = Some (take K_BUCKET_SIZE ?r)"
      using False ns(1) by (simp add: iterative_find_node_def Let_def)
    have "n \<in> set (take K_BUCKET_SIZE ?r) \<or> length (take K_BUCKET_SIZE ?r) = K_BUCKET_SIZE \<and>
        (\<forall>m \<in> set (take K_BUCKET_SIZE ?r). dist (dn_id m) target < dist (dn_id n) target)"
      if "n \<in> set ?local" for n
    proof (cases "n \<in> set (take K_BUCKET_SIZE ?r)")
      case False
      have "n \<in> set ?r" using that ns(3) by auto
      then have "n \<in> set (drop K_BUCKET_SIZE ?r)"
        using False by (metis Un_iff append_take_drop_id set_append)
      moreover from this have "length (take K_BUCKET_SIZE ?r) = K_BUCKET_SIZE" by (auto simp: min_def)
      moreover have "sorted_wrt (\<lambda>a b. dist (dn_id a) target < dist (dn_id b) target)
          (take K_BUCKET_SIZE ?r @ drop K_BUCKET_SIZE ?r)" using sorted by simp
      ultimately show ?thesis unfolding sorted_wrt_append by blast
    qed simp
    with r sorted show ?thesis by (auto intro: sorted_wrt_take)
  qed
qed

section \<open>Every interleaving of the transport's operations\<close>

datatype tr_event =
    EvReceive clock "(string \<times> u8 list) option"
  | EvRpc bool string kademlia_message
  | EvRpcEnd u64
  | EvRefresh nat
  | EvLocalStore "u8 list" "u8 list"
  | EvShutdown

fun tr_step :: "crypto \<Rightarrow> postcard \<Rightarrow> tr_event \<Rightarrow> transport \<Rightarrow> transport" where
  "tr_step cr pc (EvReceive c received) tr = recv_step cr pc c received tr"
| "tr_step cr pc (EvRpc io_ok target msg) tr = fst (send_rpc cr pc io_ok target msg tr)"
| "tr_step cr pc (EvRpcEnd i) tr = fst (finish_rpc i tr)"
| "tr_step cr pc (EvRefresh now) tr = bucket_refresh_round now tr"
| "tr_step cr pc (EvLocalStore k v) tr = tr\<lparr>tr_dht := kad_store k v (tr_dht tr)\<rparr>"
| "tr_step cr pc EvShutdown tr = shutdown tr"

definition tr_run :: "crypto \<Rightarrow> postcard \<Rightarrow> tr_event list \<Rightarrow> transport \<Rightarrow> transport" where
  "tr_run cr pc evs tr = fold (tr_step cr pc) evs tr"

abbreviation members :: "kademlia \<Rightarrow> node_id set" where
  "members d \<equiv> dn_id ` table_nodes (kd_table d)"

lemma members_set_bucket:
  assumes "length (rt_buckets (kd_table d)) = NUM_BUCKETS"
    and "bucket_at (kd_table d) i = Some b" "dn_id ` set (kb_nodes b') = dn_id ` set (kb_nodes b)"
  shows "members (d\<lparr>kd_table := set_bucket i b' (kd_table d)\<rparr>) = members d"
proof -
  let ?bs = "rt_buckets (kd_table d)"
  have b: "b = ?bs ! i" "i < NUM_BUCKETS" using assms(1,2) by (auto simp: bucket_at_Some)
  have "dn_id ` set (kb_nodes (?bs[i := b'] ! j)) = dn_id ` set (kb_nodes (?bs ! j))" if "j < NUM_BUCKETS" for j
    using b assms(1,3) that by (cases "j = i") simp_all
  then show ?thesis
    by (simp add: table_nodes_def image_UN set_bucket_def cong: SUP_cong_simp)
qed

lemma members_handle_message:
  assumes "dht_ok d"
  shows "members (handle_message c msg d) = members d \<and>
    kd_store (handle_message c msg d) = kd_store d \<and> kd_local_id (handle_message c msg d) = kd_local_id d"
proof -
  have len: "length (rt_buckets (kd_table d)) = NUM_BUCKETS"
    using assms by (simp add: dht_ok_def table_ok_def)
  have ids: "dn_id ` set (kb_nodes (fst (kbucket_update c (node_touch (wall c) (kb_nodes b ! pos)) b))) =
      dn_id ` set (kb_nodes b)"
    if "position (\<lambda>n. dn_id n = s) (kb_nodes b) = Some pos" for b s pos
  proof -
    note p = position_SomeD[OF that]
    have "position (\<lambda>n. dn_id n = dn_id (kb_nodes b ! pos)) (kb_nodes b) = Some pos" using that p by simp
    moreover have "insert (kb_nodes b ! pos) (set (remove_nth pos (kb_nodes b))) = set (kb_nodes b)"
      using p set_remove_nth[of pos "kb_nodes b"] in_set_remove_nth[of pos "kb_nodes b"] by auto
    then have "insert (dn_id (kb_nodes b ! pos)) (dn_id ` set (remove_nth pos (kb_nodes b))) = dn_id ` set (kb_nodes b)"
      by (metis image_insert)
    ultimately show ?thesis by (simp add: kbucket_update_def Let_def)
  qed
  show ?thesis
    using members_set_bucket[OF len] ids
    by (auto simp: handle_message_def Let_def split: option.splits)
qed


lemma is_known_iff:
  assumes "table_ok (kd_table d)" "valid_id i"
  shows "is_known i d \<longleftrightarrow> i \<in> members d"
proof
  assume "is_known i d"
  then show "i \<in> members d"
    using find_closest_subset by (fastforce simp: is_known_def list_ex_iff)
next
  assume "i \<in> members d"
  let ?c = "closest_candidates i K_BUCKET_SIZE (kd_table d)"
  let ?s = "by_distance i (dedup_by_id [] ?c)"
  have all: "find_closest i K_BUCKET_SIZE (kd_table d) = take K_BUCKET_SIZE ?s"
    by (simp add: find_closest_alt by_distance_def)
  obtain n where n: "n \<in> table_nodes (kd_table d)" "dn_id n = i" using \<open>i \<in> members d\<close> by auto
  obtain j where j: "j < NUM_BUCKETS" "n \<in> set (kb_nodes (rt_buckets (kd_table d) ! j))"
    "belongs (rt_local_id (kd_table d)) j n" using table_nodes_belong[OF assms(1) n(1)] by blast
  have "search_center (rt_local_id (kd_table d)) i = j"
    using j(3) n(2) by (auto simp: belongs_def search_center_def bucket_index_def Let_def split: if_splits)
  then have "n \<in> set ?c"
    using candidates_spec[of "kd_table d" i K_BUCKET_SIZE] j(2)
    by (metis atLeastAtMost_iff set_mset_mset set_nodes_between)
  then have "i \<in> dn_id ` set ?s" using dedup_by_id_facts(2)[of "[]" ?c] n(2) by auto
  then obtain m where m: "m \<in> set ?s" "dn_id m = i" by auto
  have "set ?s \<subseteq> table_nodes (kd_table d)"
    using dedup_by_id_facts(1)[of "[]" ?c] candidates_in_table[of i K_BUCKET_SIZE "kd_table d"] by auto
  then have v: "\<forall>n \<in> set (dedup_by_id [] ?c). valid_id (dn_id n)"
    using table_nodes_valid[OF assms(1)] by auto
  have sorted: "sorted_wrt (\<lambda>a b. dist (dn_id a) i < dist (dn_id b) i) ?s"
    by (rule by_distance_sorted[OF dedup_by_id_facts(3) v assms(2)])
  obtain h r where hr: "?s = h # r" using m(1) by (cases ?s) auto
  have "h = m"
  proof (rule ccontr)
    assume "h \<noteq> m"
    then have "m \<in> set r" using m(1) hr by simp
    then have "dist (dn_id h) i < dist (dn_id m) i" using sorted hr by simp
    then show False using m(2) assms(2) by simp
  qed
  then show "is_known i d" using all hr m(2) by (simp add: is_known_def)
qed

lemma process_incoming_effect:
  assumes "process_incoming cr c msg d = (d', r)" "dht_ok d"
  shows "members d' = members d \<and> dht_ok d' \<and> kd_local_id d' = kd_local_id d \<and>
    (kd_store d' \<noteq> kd_store d \<longrightarrow>
      (\<exists>s k v g. msg = Store s k v g \<and> is_known s (handle_message c msg d) \<and> r = None))"
proof -
  note h = members_handle_message[OF assms(2), of c msg] dht_ok_handle_message[OF assms(2), of c msg]
  have k: "kd_table (kad_store k v e) = kd_table e" "dht_ok e \<Longrightarrow> dht_ok (kad_store k v e)"
    "kd_local_id (kad_store k v e) = kd_local_id e" for k v e
    by (simp_all add: kad_store_def dht_ok_store[unfolded kad_store_def])
  from assms(1) h k show ?thesis
    by (cases msg) (auto simp: process_incoming_def Let_def split: if_splits prod.splits)
qed


lemma answer_effect:
  assumes "dht_ok (tr_dht tr)"
  shows "members (tr_dht (answer cr pc c src i msg tr)) = members (tr_dht tr) \<and>
    dht_ok (tr_dht (answer cr pc c src i msg tr)) \<and>
    length (tr_sent (answer cr pc c src i msg tr)) \<le> length (tr_sent tr) + 1 \<and>
    tr_window_start (answer cr pc c src i msg tr) = tr_window_start tr \<and>
    tr_request_count (answer cr pc c src i msg tr) = tr_request_count tr"
  by (auto simp: answer_def split: prod.splits option.splits sum.splits dest!: process_incoming_effect[OF _ assms])

lemma count_request_fields [simp]:
  "tr_dht (count_request c tr) = tr_dht tr" "tr_sent (count_request c tr) = tr_sent tr"
  by (simp_all add: count_request_def Let_def)

text \<open>What a datagram can do: nothing, answer a waiting caller, or be counted and perhaps answered.\<close>

lemma recv_turn_cases:
  obtains (dropped) "recv_turn cr pc c src d tr = tr"
  | (delivered) i msg where "recv_turn cr pc c src d tr =
      tr\<lparr>tr_pending := filter (\<lambda>j. j \<noteq> i) (tr_pending tr), tr_delivered := tr_delivered tr @ [(i, msg)]\<rparr>"
  | (limited) "recv_turn cr pc c src d tr = count_request c tr"
      "MAX_REQUESTS_PER_SEC < tr_request_count (count_request c tr)"
  | (answered) i msg where "recv_turn cr pc c src d tr = answer cr pc c src i msg (count_request c tr)"
      "tr_request_count (count_request c tr) \<le> MAX_REQUESTS_PER_SEC"
      "from_postcard pc (drop 8 d) = Some msg" "signature_ok cr pc msg"
proof -
  let ?i = "from_be_bytes (take 8 d)"
  show thesis
  proof (cases "length d < 8 \<or> length d > MAX_MESSAGE_SIZE")
    case False
    show thesis
    proof (cases "from_postcard pc (drop 8 d)")
      case None
      then show thesis by (intro dropped) (simp add: recv_turn_def wire_decode_def)
    next
      case (Some msg)
      then have step: "recv_turn cr pc c src d tr =
          (if \<not> signature_ok cr pc msg then tr
           else if ?i \<in> set (tr_pending tr) then
             tr\<lparr>tr_pending := filter (\<lambda>i. i \<noteq> ?i) (tr_pending tr), tr_delivered := tr_delivered tr @ [(?i, msg)]\<rparr>
           else if tr_request_count (count_request c tr) > MAX_REQUESTS_PER_SEC then count_request c tr
           else answer cr pc c src ?i msg (count_request c tr))"
        using False by (simp add: recv_turn_def wire_decode_def Let_def)
      show thesis
      proof (cases "signature_ok cr pc msg")
        case sig: True
        show thesis
        proof (cases "?i \<in> set (tr_pending tr)")
          case True
          show thesis by (rule delivered[of ?i msg]) (simp add: step sig True)
        next
          case no: False
          show thesis
          proof (cases "tr_request_count (count_request c tr) > MAX_REQUESTS_PER_SEC")
            case True
            show thesis by (rule limited) (use step sig no True in simp_all)
          next
            case False
            show thesis by (rule answered[OF _ _ Some sig]) (use step sig no False in simp_all)
          qed
        qed
      qed (rule dropped, simp add: step)
    qed
  qed (rule dropped, simp add: recv_turn_def)
qed

lemma recv_step_turn:
  obtains (idle) l where "recv_step cr pc c received tr = tr\<lparr>tr_listening := l\<rparr>"
  | (turn) src d l where "received = Some (src, d)" "tr_listening tr"
      "recv_step cr pc c received tr = recv_turn cr pc c src d tr\<lparr>tr_listening := l\<rparr>"
proof (cases "tr_listening tr")
  case True
  then show thesis using idle turn by (cases received) (auto simp: recv_step_def Let_def)
next
  case False
  show thesis by (rule idle[of "tr_listening tr"]) (simp add: recv_step_def False)
qed

lemma members_refresh:
  "dht_ok (tr_dht tr) \<Longrightarrow> members (tr_dht (bucket_refresh_round now tr)) = members (tr_dht tr) \<and>
    dht_ok (tr_dht (bucket_refresh_round now tr))"
proof -
  have one: "members (tr_dht (refresh_one now i tr)) = members (tr_dht tr) \<and> dht_ok (tr_dht (refresh_one now i tr))"
    if "dht_ok (tr_dht tr)" for tr i
  proof (cases "tr_running tr \<and> bucket_at (kd_table (tr_dht tr)) i \<noteq> None")
    case True
    then obtain b where b: "bucket_at (kd_table (tr_dht tr)) i = Some b" by blast
    have ok: "table_ok (kd_table (tr_dht tr))" using that by (simp add: dht_ok_def)
    then have "bucket_ok (rt_local_id (kd_table (tr_dht tr))) i (touch_activity now b)"
      using b by (auto simp: touch_activity_def bucket_at_Some table_ok_def)
    then have "table_ok (set_bucket i (touch_activity now b) (kd_table (tr_dht tr)))"
      using ok by (simp add: table_ok_set_bucket)
    then show ?thesis
      using True b that members_set_bucket[OF _ b, of "touch_activity now b"] ok
      by (simp add: refresh_one_def Let_def dht_ok_def table_ok_def touch_activity_def set_bucket_def)
  qed (use that in \<open>auto simp: refresh_one_def Let_def split: option.splits\<close>)
  have "members (tr_dht (fold (refresh_one now) is tr)) = members (tr_dht tr) \<and>
      dht_ok (tr_dht (fold (refresh_one now) is tr))" if "dht_ok (tr_dht tr)" for "is" tr
    using that by (induction "is" arbitrary: tr) (use one in auto)
  then show "dht_ok (tr_dht tr) \<Longrightarrow> ?thesis" by (simp add: bucket_refresh_round_def)
qed

lemma tr_step_members:
  assumes "dht_ok (tr_dht tr)"
  shows "members (tr_dht (tr_step cr pc ev tr)) = members (tr_dht tr) \<and> dht_ok (tr_dht (tr_step cr pc ev tr))"
proof (cases ev)
  case (EvReceive c received)
  have turn: "members (tr_dht (recv_turn cr pc c src d tr)) = members (tr_dht tr) \<and>
      dht_ok (tr_dht (recv_turn cr pc c src d tr))" for src d
  proof (cases rule: recv_turn_cases[of cr pc c src d tr])
    case (answered i msg)
    then show ?thesis using answer_effect[of "count_request c tr"] assms by simp
  qed (use assms in simp_all)
  show ?thesis
    by (cases rule: recv_step_turn[of cr pc c received tr]) (use assms EvReceive turn in simp_all)
next
  case (EvRefresh now)
  then show ?thesis using members_refresh[OF assms] by simp
qed (use assms in \<open>auto simp: send_rpc_def finish_rpc_def kad_store_def shutdown_def Let_def
  dht_ok_store[unfolded kad_store_def] split: sum.splits option.splits\<close>)

text \<open>
  No traffic changes who is in the routing table: whatever datagrams arrive from anyone, in any
  interleaving with own requests, time-outs, refreshes and local stores, the identifiers in the
  buckets stay the same and the table stays well formed.
\<close>

theorem datagrams_never_add_members:
  assumes "dht_ok (tr_dht tr)"
  shows "members (tr_dht (tr_run cr pc evs tr)) = members (tr_dht tr) \<and> dht_ok (tr_dht (tr_run cr pc evs tr))"
  using assms
proof (induction evs arbitrary: tr)
  case (Cons ev evs)
  from Cons.IH[of "tr_step cr pc ev tr"] tr_step_members[OF Cons.prems] show ?case
    by (simp add: tr_run_def)
qed (simp add: tr_run_def)

section \<open>The rate limit\<close>

text \<open>
  What the limit counts, on a run that starts at \<open>t0\<close>: \<open>w\<close> windows are over, each of at least a
  second; in each at most 100 datagrams were answered, in the running one at most as many as counted.
\<close>

definition within_rate :: "nat \<Rightarrow> nat \<Rightarrow> transport \<Rightarrow> bool" where
  "within_rate t0 w tr \<longleftrightarrow> t0 + w * 1000000000 \<le> tr_window_start tr \<and>
     length (tr_sent tr) \<le> 100 * w + min 100 (unat (tr_request_count tr))"

lemma answer_fields [simp]:
  "tr_window_start (answer cr pc c src i msg tr) = tr_window_start tr"
  "tr_request_count (answer cr pc c src i msg tr) = tr_request_count tr"
  by (simp_all add: answer_def split: prod.splits option.splits sum.splits)

lemma answer_sends: "length (tr_sent (answer cr pc c src i msg tr)) \<le> Suc (length (tr_sent tr))"
  by (simp add: answer_def split: prod.splits option.splits sum.splits)

lemma count_within_rate:
  assumes "within_rate t0 w tr" "Suc (unat (tr_request_count tr)) < 2 ^ 32"
  obtains w' where "within_rate t0 w' (count_request c tr)"
    "length (tr_sent tr) \<le> 100 * w' + min 100 (unat (tr_request_count (count_request c tr)) - 1)"
    "0 < unat (tr_request_count (count_request c tr))"
    "unat (tr_request_count (count_request c tr)) \<le> Suc (unat (tr_request_count tr))"
    "tr_window_start (count_request c tr) \<le> max (mono c) (tr_window_start tr)"
proof (cases "1000000000 \<le> mono c - tr_window_start tr")
  case True
  show thesis
    by (rule that[of "Suc w"]) (use assms True in \<open>auto simp: within_rate_def count_request_def Let_def\<close>)
next
  case False
  have "unat (tr_request_count tr + 1) = Suc (unat (tr_request_count tr))"
    using assms(2) by (simp add: unat_word_ariths)
  then show thesis
    by (intro that[of w]) (use assms False in \<open>auto simp: within_rate_def count_request_def Let_def\<close>)
qed

lemma recv_turn_rate:
  assumes "within_rate t0 w tr" "Suc (unat (tr_request_count tr)) < 2 ^ 32"
  shows "\<exists>w'. within_rate t0 w' (recv_turn cr pc c src d tr) \<and>
    unat (tr_request_count (recv_turn cr pc c src d tr)) \<le> Suc (unat (tr_request_count tr)) \<and>
    tr_window_start (recv_turn cr pc c src d tr) \<le> max (mono c) (tr_window_start tr)"
proof (cases rule: recv_turn_cases[of cr pc c src d tr])
  case dropped
  then show ?thesis using assms by (intro exI[of _ w]) simp
next
  case (delivered i msg)
  then show ?thesis using assms by (intro exI[of _ w]) (simp add: within_rate_def)
next
  case limited
  from count_within_rate[OF assms, of c] obtain w' where "within_rate t0 w' (count_request c tr)"
    "unat (tr_request_count (count_request c tr)) \<le> Suc (unat (tr_request_count tr))"
    "tr_window_start (count_request c tr) \<le> max (mono c) (tr_window_start tr)" by blast
  with limited show ?thesis by auto
next
  case (answered i msg)
  let ?t = "count_request c tr"
  from count_within_rate[OF assms, of c] obtain w' where w: "within_rate t0 w' ?t"
    "length (tr_sent tr) \<le> 100 * w' + min 100 (unat (tr_request_count ?t) - 1)"
    "0 < unat (tr_request_count ?t)"
    "unat (tr_request_count ?t) \<le> Suc (unat (tr_request_count tr))"
    "tr_window_start ?t \<le> max (mono c) (tr_window_start tr)" by blast
  have "unat (tr_request_count ?t) \<le> 100" using answered(2) by (simp add: word_le_nat_alt)
  then have "within_rate t0 w' (answer cr pc c src i msg ?t)"
    using w(1-3) answer_sends[of cr pc c src i msg ?t] by (simp add: within_rate_def)
  with answered(1) w(4,5) show ?thesis by auto
qed

lemma recv_step_rate:
  assumes "within_rate t0 w tr" "Suc (unat (tr_request_count tr)) < 2 ^ 32"
  shows "\<exists>w'. within_rate t0 w' (recv_step cr pc c received tr) \<and>
    unat (tr_request_count (recv_step cr pc c received tr)) \<le> Suc (unat (tr_request_count tr)) \<and>
    tr_window_start (recv_step cr pc c received tr) \<le> max (mono c) (tr_window_start tr)"
proof (cases rule: recv_step_turn[of cr pc c received tr])
  case (idle l)
  then show ?thesis using assms by (intro exI[of _ w]) (simp add: within_rate_def)
next
  case (turn src d l)
  then show ?thesis using recv_turn_rate[OF assms, of cr pc c src d] by (auto simp: within_rate_def)
qed

definition receive_run ::
    "crypto \<Rightarrow> postcard \<Rightarrow> (clock \<times> (string \<times> u8 list) option) list \<Rightarrow> transport \<Rightarrow> transport" where
  "receive_run cr pc rs tr = tr_run cr pc (map (\<lambda>(c, received). EvReceive c received) rs) tr"

lemma receive_run_rate:
  assumes "within_rate t0 w tr" "unat (tr_request_count tr) + length rs < 2 ^ 32"
    and "\<forall>r \<in> set rs. mono (fst r) \<le> t" "tr_window_start tr \<le> t"
  shows "\<exists>w'. within_rate t0 w' (receive_run cr pc rs tr) \<and> tr_window_start (receive_run cr pc rs tr) \<le> t"
  using assms
proof (induction rs arbitrary: tr w)
  case (Cons r rs)
  obtain c received where r: "r = (c, received)" by fastforce
  let ?tr = "recv_step cr pc c received tr"
  obtain w' where w: "within_rate t0 w' ?tr" "unat (tr_request_count ?tr) \<le> Suc (unat (tr_request_count tr))"
    "tr_window_start ?tr \<le> max (mono c) (tr_window_start tr)"
    using recv_step_rate[OF Cons.prems(1), of cr pc c received] Cons.prems(2) by auto
  have "tr_window_start ?tr \<le> t" using w(3) Cons.prems(3,4) r by (auto simp: max_def split: if_splits)
  from Cons.IH[OF w(1) _ _ this] w(2) Cons.prems(2,3) r show ?case
    by (simp add: receive_run_def tr_run_def)
qed (auto simp: receive_run_def tr_run_def)

text \<open>A node that knows three others.\<close>

definition small_transport :: transport where
  "small_transport = transport_start
     ((kademlia_new sample_clock (small_id 0 0) 10)\<lparr>kd_table := two_in_bucket\<rparr>)
     (identity_from_seed toy_crypto (replicate 32 1)) 0"

lemma small_transport_table [simp]: "kd_table (tr_dht small_transport) = two_in_bucket"
  by (simp add: small_transport_def transport_start_def)

lemma small_transport_ok [simp]: "dht_ok (tr_dht small_transport)"
  using table_of_ok[of "[small_node 4 0, small_node 4 7, small_node 1 0]"]
    table_of_local_id[of "[small_node 4 0, small_node 4 7, small_node 1 0]"]
  by (simp add: small_transport_def two_in_bucket_def transport_start_def dht_ok_def kademlia_new_def)

lemma small_transport_members: "small_id 4 0 \<in> members (tr_dht small_transport)"
proof -
  have "small_id 4 0 \<in> set (map dn_id (kb_nodes (rt_buckets two_in_bucket !
      search_center (small_id 0 0) (small_id 4 6))))"
    unfolding two_in_bucket_center by simp
  moreover have "search_center (small_id 0 0) (small_id 4 6) < NUM_BUCKETS" by code_simp
  ultimately show ?thesis unfolding table_nodes_def small_transport_table set_map image_UN
    by (intro UN_I) simp_all
qed

theorem lookup_ends_sorted_witness:
  "\<exists>ns. iterative_find_node (\<lambda>r n. [small_node 4 1]) (small_id 4 1) small_transport = Some ns \<and>
    length ns \<le> K_BUCKET_SIZE"
  using lookup_ends_sorted[OF small_transport_ok valid_small_id[of 4 1], of "\<lambda>r n. [small_node 4 1]"]
  by auto

theorem datagrams_never_add_members_witness:
  "members (tr_dht (tr_run toy_crypto toy_postcard
      [EvReceive sample_clock (Some (''peer'', replicate 28 7)), EvRefresh 0, EvShutdown] small_transport)) =
    members (tr_dht small_transport)"
  using datagrams_never_add_members[OF small_transport_ok] by blast

section \<open>What a stranger can make a node do\<close>

text \<open>
  C25. The node is a weak amplifier: in any traffic of fewer than $2^{32}$ datagrams that lasts from
  \<open>t0\<close> to \<open>t\<close>, it sends at most 100 answers for each second begun.
\<close>

theorem responses_rate_limited:
  assumes "\<forall>r \<in> set rs. mono (fst r) \<le> t" "t0 \<le> t" "length rs < 2 ^ 32"
  shows "length (tr_sent (receive_run cr pc rs (transport_start d identity t0))) \<le>
    100 * ((t - t0) div 1000000000 + 1)"
proof -
  let ?tr = "receive_run cr pc rs (transport_start d identity t0)"
  have "within_rate t0 0 (transport_start d identity t0)"
    by (simp add: within_rate_def transport_start_def)
  from receive_run_rate[OF this _ assms(1)] assms(2,3)
  obtain w where w: "within_rate t0 w ?tr" "tr_window_start ?tr \<le> t"
    by (auto simp: transport_start_def)
  then have "w \<le> (t - t0) div 1000000000"
    by (auto simp: within_rate_def less_eq_div_iff_mult_less_eq)
  moreover have "length (tr_sent ?tr) \<le> 100 * w + 100" using w(1) unfolding within_rate_def by linarith
  moreover have "100 * w + 100 \<le> 100 * ((t - t0) div 1000000000 + 1)" if "w \<le> (t - t0) div 1000000000"
    using that by simp
  ultimately show ?thesis by (meson order_trans)
qed

text \<open>
  What a store request from the network changes: the pair is stored if and only if the sender
  identifier it states is in the routing table and, when it carries a signature, the signature
  verifies. A request without a signature is not authenticated at all: whoever knows the identifier
  of a member can store anything in its name.
\<close>

theorem store_accepted_iff:
  assumes "8 \<le> length datagram" "length datagram \<le> MAX_MESSAGE_SIZE"
    and "from_postcard pc (drop 8 datagram) = Some (Store s k v g)" "valid_id s"
    and "from_be_bytes (take 8 datagram) \<notin> set (tr_pending tr)" "dht_ok (tr_dht tr)"
    and "tr_listening tr" "tr_request_count (count_request c tr) \<le> MAX_REQUESTS_PER_SEC"
  shows "kd_store (tr_dht (recv_step cr pc c (Some (src, datagram)) tr)) =
    (if s \<in> members (tr_dht tr) \<and>
        (case g of None \<Rightarrow> True | Some sig \<Rightarrow> verify_message_signature cr pc (Store s k v g) sig)
     then (k, v) # filter (\<lambda>(k', _). k' \<noteq> k) (kd_store (tr_dht tr)) else kd_store (tr_dht tr))"
proof -
  note h = members_handle_message[OF assms(6), of c "Store s k v g"] dht_ok_handle_message[OF assms(6), of c "Store s k v g"]
  have known: "is_known s (handle_message c (Store s k v g) (tr_dht tr)) \<longleftrightarrow> s \<in> members (tr_dht tr)"
    using is_known_iff[OF _ assms(4)] h by (simp add: dht_ok_def)
  have sig: "signature_ok cr pc (Store s k v g) \<longleftrightarrow>
      (case g of None \<Rightarrow> True | Some sig \<Rightarrow> verify_message_signature cr pc (Store s k v g) sig)"
    by (simp add: signature_ok_def)
  show ?thesis
    using assms h known
    by (simp add: recv_step_def recv_turn_def wire_decode_def sig answer_def process_incoming_def
        kad_store_def Let_def flip: linorder_not_less)
qed

definition forged_postcard :: postcard where
  "forged_postcard = toy_postcard
     \<lparr>from_postcard := (\<lambda>_. Some (Store (small_id 4 0) [1] [2] None))\<rparr>"

theorem responses_rate_limited_witness:
  "length (tr_sent (receive_run toy_crypto toy_postcard
      [(\<lparr>wall = 0, mono = 5\<rparr>, Some (''peer'', replicate 28 7)), (\<lparr>wall = 0, mono = 9\<rparr>, None)]
      (transport_start (tr_dht small_transport) (tr_identity small_transport) 0))) \<le> 100"
  using responses_rate_limited[of "[(\<lparr>wall = 0, mono = 5\<rparr>, Some (''peer'', replicate 28 7)),
      (\<lparr>wall = 0, mono = 9\<rparr>, None)]" 9 0] by simp

theorem store_accepted_iff_witness:
  "([1], [2]) \<in> set (kd_store (tr_dht
     (recv_step toy_crypto forged_postcard sample_clock (Some (''stranger'', replicate 28 0)) small_transport)))"
proof -
  have "from_postcard forged_postcard (drop 8 (replicate 28 0)) = Some (Store (small_id 4 0) [1] [2] None)"
    by (simp add: forged_postcard_def)
  moreover have "tr_pending small_transport = []" "tr_listening small_transport"
    "tr_request_count (count_request sample_clock small_transport) \<le> MAX_REQUESTS_PER_SEC"
    by (simp_all add: small_transport_def transport_start_def count_request_def sample_clock_def Let_def)
  ultimately show ?thesis
    using store_accepted_iff[of "replicate 28 0" forged_postcard "small_id 4 0" "[1]" "[2]" None
        small_transport sample_clock toy_crypto "''stranger''"] small_transport_members by simp
qed

end
