(* ===== verification/Peers_Sources.thy ===== *)
theory Peers_Sources
  imports F64 Errors
begin

text \<open>
  \<open>tachyon-p2sp/src/peer.rs\<close> and \<open>source.rs\<close>: the score of a source over the f64 model, the selector
  that draws a source with its score as weight, and its xorshift generator, one for the process.
\<close>

section \<open>Scores\<close>

record peer_score =
  ps_latency_ms :: u32
  ps_bandwidth_bps :: u64
  ps_stability :: f64
  ps_distance :: u32

definition lit :: "rat \<Rightarrow> f64" where
  "lit x = rnd x"

definition weighted_score :: "peer_score \<Rightarrow> f64" where
  "weighted_score s =
     (let latency_score = f64_div (Fin 1) (f64_add (Fin 1) (f64_div (f64_of_word (ps_latency_ms s)) (Fin 1000)));
          bandwidth_score = f64_min (f64_div (f64_of_word (ps_bandwidth_bps s))
                              (f64_mul (f64_mul (Fin 100) (Fin 1024)) (Fin 1024))) (Fin 1);
          stability_score = f64_clamp (ps_stability s) (Fin 0) (Fin 1);
          distance_score = f64_div (Fin 1) (f64_add (Fin 1) (f64_div (f64_of_word (ps_distance s)) (Fin 256)))
      in f64_add (f64_add (f64_add (f64_mul latency_score (lit (3 / 10))) (f64_mul bandwidth_score (lit (4 / 10))))
           (f64_mul stability_score (lit (2 / 10)))) (f64_mul distance_score (lit (1 / 10))))"

definition peer_score_default :: peer_score where
  "peer_score_default =
     \<lparr>ps_latency_ms = 100, ps_bandwidth_bps = 1024 * 1024, ps_stability = Fin (1 / 2), ps_distance = 128\<rparr>"

record peer_info =
  pi_addr :: string
  pi_score :: peer_score
  pi_available :: bool

definition peer_info_new :: "string \<Rightarrow> peer_info" where
  "peer_info_new addr = \<lparr>pi_addr = addr, pi_score = peer_score_default, pi_available = True\<rparr>"

section \<open>The generator\<close>

definition xorshift64_next :: "u64 \<Rightarrow> u64" where
  "xorshift64_next state =
     (let x = state;
          x = x XOR push_bit 13 x;
          x = x XOR drop_bit 7 x
      in x XOR push_bit 17 x)"

definition ensure_prng_seeded :: "u64 \<Rightarrow> u64 \<Rightarrow> u64" where
  "ensure_prng_seeded nanos state = (if state = 0 then (if nanos = 0 then 1 else nanos) else state)"

text \<open>\<open>fetch_update\<close> stores the next state and returns the one before.\<close>

definition random_f64 :: "u64 \<Rightarrow> u64 \<Rightarrow> u64 \<times> f64" where
  "random_f64 nanos state =
     (let old = ensure_prng_seeded nanos state
      in (xorshift64_next old, f64_div (f64_of_word (drop_bit 32 old)) (f64_add (f64_of_word (- 1 :: u32)) (Fin 1))))"

definition random_index :: "u64 \<Rightarrow> usize \<Rightarrow> u64 \<Rightarrow> u64 \<times> usize" where
  "random_index nanos upper state =
     (if upper = 0 then (state, 0)
      else (let old = ensure_prng_seeded nanos state in (xorshift64_next old, old mod upper)))"

section \<open>The selector\<close>

datatype download_source = Cdn string | Peer string

fun source_key :: "download_source \<Rightarrow> string" where
  "source_key (Cdn url) = url"
| "source_key (Peer addr) = addr"

fun source_cdn_url :: "download_source \<Rightarrow> string option" where
  "source_cdn_url (Cdn url) = Some url"
| "source_cdn_url (Peer addr) = None"

type_synonym selector = "(download_source \<times> peer_score) list"

definition add_source :: "download_source \<Rightarrow> peer_score \<Rightarrow> selector \<Rightarrow> selector" where
  "add_source source score sel = sel @ [(source, score)]"

definition remove_source :: "string \<Rightarrow> selector \<Rightarrow> selector" where
  "remove_source url_or_addr sel = filter (\<lambda>(src, _). source_key src \<noteq> url_or_addr) sel"

fun update_score :: "string \<Rightarrow> u32 \<Rightarrow> u64 \<Rightarrow> selector \<Rightarrow> selector" where
  "update_score url_or_addr latency_ms bandwidth_bps [] = []"
| "update_score url_or_addr latency_ms bandwidth_bps ((src, score) # sel) =
     (if source_key src = url_or_addr
      then (src, score\<lparr>ps_latency_ms := latency_ms, ps_bandwidth_bps := bandwidth_bps\<rparr>) # sel
      else (src, score) # update_score url_or_addr latency_ms bandwidth_bps sel)"

definition source_weight :: "peer_score \<Rightarrow> f64" where
  "source_weight score = f64_max (weighted_score score) (Fin 0)"

text \<open>The first source whose cumulative weight is above the roll.\<close>

fun pick :: "f64 \<Rightarrow> f64 \<Rightarrow> selector \<Rightarrow> download_source option" where
  "pick roll cumulative [] = None"
| "pick roll cumulative ((src, score) # sel) =
     (let cumulative = f64_add cumulative (source_weight score)
      in if f64_lt roll cumulative then Some src else pick roll cumulative sel)"

definition total_weight :: "selector \<Rightarrow> f64" where
  "total_weight sel = foldl (\<lambda>acc (_, score). f64_add acc (source_weight score)) (Fin 0) sel"

definition select_source :: "u64 \<Rightarrow> selector \<Rightarrow> u64 \<Rightarrow> u64 \<times> download_source option" where
  "select_source nanos sel state =
     (if sel = [] then (state, None)
      else if f64_le (total_weight sel) (Fin 0) then
        (case random_index nanos (of_nat (length sel)) state of
           (state, idx) \<Rightarrow> (state, if unat idx < length sel then Some (fst (sel ! unat idx)) else None))
      else
        (case random_f64 nanos state of
           (state, r) \<Rightarrow>
             (state,
              case pick (f64_mul r (total_weight sel)) (Fin 0) sel of
                Some src \<Rightarrow> Some src
              | None \<Rightarrow> Some (fst (last sel)))))"

section \<open>Selection\<close>

lemma pick_mem: "pick roll c sel = Some src \<Longrightarrow> src \<in> fst ` set sel"
  by (induction roll c sel rule: pick.induct) (auto simp: Let_def split: if_splits)

text \<open>A selector with sources always gives one of them, and an empty one none.\<close>

theorem select_source_member:
  assumes "length sel < 2 ^ 64"
  shows "(case snd (select_source nanos sel state) of None \<Rightarrow> sel = [] | Some src \<Rightarrow> src \<in> fst ` set sel)"
proof (cases "sel = []")
  case True
  then show ?thesis by (simp add: select_source_def)
next
  case False
  have "unat (x mod of_nat (length sel) :: u64) < length sel" for x
  proof -
    have l: "unat (of_nat (length sel) :: u64) = length sel" using assms by (simp add: unat_of_nat_eq)
    then have "unat (x mod of_nat (length sel) :: u64) = unat x mod length sel" by (simp add: unat_mod)
    then show ?thesis using False by simp
  qed
  moreover have "(of_nat (length sel) :: u64) \<noteq> 0"
  proof
    assume "(of_nat (length sel) :: u64) = 0"
    then have "unat (of_nat (length sel) :: u64) = 0" by simp
    then show False using False assms by (simp add: unat_of_nat_eq)
  qed
  ultimately show ?thesis
    using False pick_mem[of _ "Fin 0" sel]
    by (auto simp: select_source_def random_index_def random_f64_def Let_def image_iff split: option.split intro: nth_mem)
qed

section \<open>The state is never zero\<close>

lemma push_bit_fixed: "0 < k \<Longrightarrow> w = push_bit k w \<Longrightarrow> w = (0 :: 'a::len word)"
proof -
  assume k: "0 < k" and w: "w = push_bit k w"
  have "\<not> bit w n" for n
  proof (induction n rule: less_induct)
    case (less n)
    have "bit w n \<Longrightarrow> k \<le> n \<and> bit w (n - k)"
      by (subst (asm) w) (auto simp: bit_push_bit_iff)
    then show ?case using less[of "n - k"] k by fastforce
  qed
  then show "w = 0" by (simp add: bit_eq_iff)
qed

lemma drop_bit_fixed: "0 < k \<Longrightarrow> w = drop_bit k w \<Longrightarrow> w = (0 :: 'a::len word)"
proof -
  assume k: "0 < k" and w: "w = drop_bit k w"
  have *: "\<not> bit w n" if "LENGTH('a) \<le> n + m" for n m
    using that
  proof (induction m arbitrary: n rule: less_induct)
    case (less m)
    show ?case
    proof (cases "m < k")
      case True
      have "bit w n \<longleftrightarrow> bit w (n + k)" by (subst w) (simp add: bit_drop_bit_eq add.commute)
      moreover have "\<not> bit w (n + k)" using less.prems True bit_imp_le_length[of w "n + k"] by linarith
      ultimately show ?thesis by simp
    next
      case False
      have "bit w n \<longleftrightarrow> bit w (n + k)" by (subst w) (simp add: bit_drop_bit_eq add.commute)
      then show ?thesis using less.IH[of "m - k" "n + k"] less.prems False k by simp
    qed
  qed
  have "\<not> bit w n" for n by (rule *[of n "LENGTH('a)"]) simp
  then show "w = 0" by (simp add: bit_eq_iff)
qed

lemma xor_eq_iff: "x XOR y = 0 \<longleftrightarrow> x = (y :: 'a::len word)"
  by (auto simp: bit_eq_iff bit_xor_iff)

theorem xorshift64_nonzero: "xorshift64_next w = 0 \<longleftrightarrow> w = 0"
proof -
  have "x XOR push_bit 13 x = 0 \<longleftrightarrow> x = 0" "x XOR drop_bit 7 x = 0 \<longleftrightarrow> x = 0" "x XOR push_bit 17 x = 0 \<longleftrightarrow> x = 0"
    for x :: u64
    using push_bit_fixed[of 13 x] drop_bit_fixed[of 7 x] push_bit_fixed[of 17 x] by (auto simp: xor_eq_iff)
  then show ?thesis unfolding xorshift64_next_def Let_def by metis
qed

lemma prng_seeded_once: "fst (random_f64 nanos state) \<noteq> 0" "upper \<noteq> 0 \<Longrightarrow> fst (random_index nanos upper state) \<noteq> 0"
  by (simp_all add: random_f64_def random_index_def ensure_prng_seeded_def xorshift64_nonzero Let_def)

end
