(* ===== verification/Fragment_Download.thy ===== *)
theory Fragment_Download
  imports Fragment_Record Rate_Limit Storage_IO
begin

text \<open>
  One attempt at one fragment: \<open>wait_control_rx\<close>, \<open>watch_for_interrupt\<close>, \<open>write_all_at\<close> and
  \<open>download_single_fragment\<close> of \<open>tachyon-engine/src/downloader.rs\<close>. The world an attempt runs in is a
  record: the storage, what each look at the control channel sees, the shared rate limiter with the
  clock readings, and the progress channel. The stream of a range request is the list of its items.
\<close>

section \<open>The control channel\<close>

text \<open>
  What a task observes on its \<open>watch\<close> channel: a state, or, while it waits for a change, the pause
  timeout or the end of the channel. One list is what a single call sees; when the list ends nothing
  more happens before the pause timeout, or before the operation the call races with completes.
\<close>

datatype observation = Sees download_state | PauseTimeout | ChannelClosed

fun wait_control_rx :: "observation list \<Rightarrow> unit download_result" where
  "wait_control_rx [] = Inr ()"
| "wait_control_rx (PauseTimeout # r) = wait_control_rx r"
| "wait_control_rx (ChannelClosed # r) = wait_control_rx r"
| "wait_control_rx (Sees state # r) =
     (case state of
        Cancelled \<Rightarrow> Inl Cancelled_Error
      | Failed \<Rightarrow> Inl (Other ''task failed'')
      | Paused \<Rightarrow>
          (case r of
             [] \<Rightarrow> Inl (Timeout ''paused'')
           | PauseTimeout # _ \<Rightarrow> Inl (Timeout ''paused'')
           | ChannelClosed # _ \<Rightarrow> Inl (Other ''control channel closed'')
           | Sees _ # _ \<Rightarrow> wait_control_rx r)
      | _ \<Rightarrow> Inr ())"

text \<open>\<^term>\<open>None\<close>: still watching when the operation it races with completes.\<close>

fun watch_for_interrupt :: "observation list \<Rightarrow> download_error option" where
  "watch_for_interrupt [] = None"
| "watch_for_interrupt (PauseTimeout # r) = watch_for_interrupt r"
| "watch_for_interrupt (ChannelClosed # r) = Some (Other ''control channel closed'')"
| "watch_for_interrupt (Sees state # r) =
     (case state of
        Cancelled \<Rightarrow> Some Cancelled_Error
      | Failed \<Rightarrow> Some (Other ''task failed'')
      | Paused \<Rightarrow>
          (case r of
             PauseTimeout # _ \<Rightarrow> Some (Timeout ''paused'')
           | _ \<Rightarrow> watch_for_interrupt r)
      | _ \<Rightarrow> watch_for_interrupt r)"

section \<open>The world of an attempt\<close>

record fragment_progress =
  fp_index :: u32
  fp_completed :: bool
  fp_downloaded :: u64

text \<open>
  \<open>fe_control\<close> is \<^term>\<open>None\<close> without a control channel; \<open>fe_full\<close> tells for each \<open>try_send\<close> whether
  the progress channel is full; \<open>fe_sent\<close> is what was delivered, \<open>fe_waits\<close> how long the limiter made
  the task sleep.
\<close>

record 's frag_env =
  fe_storage :: 's
  fe_control :: "observation list list option"
  fe_limiter :: "rate_limiter option"
  fe_clock :: "64 word list"
  fe_waits :: "u64 list"
  fe_progress :: bool
  fe_full :: "bool list"
  fe_sent :: "fragment_progress list"

type_synonym 's write_op = "nat \<Rightarrow> u8 list \<Rightarrow> 's \<Rightarrow> 's \<times> nat download_result"

definition head_or :: "'a \<Rightarrow> 'a list \<Rightarrow> 'a" where
  "head_or d xs = (case xs of [] \<Rightarrow> d | x # _ \<Rightarrow> x)"

definition check_control :: "'s frag_env \<Rightarrow> 's frag_env \<times> unit download_result" where
  "check_control env =
     (case fe_control env of
        None \<Rightarrow> (env, Inr ())
      | Some cs \<Rightarrow> (env\<lparr>fe_control := Some (tl cs)\<rparr>, wait_control_rx (head_or [] cs)))"

definition race_control :: "'s frag_env \<Rightarrow> 's frag_env \<times> download_error option" where
  "race_control env =
     (case fe_control env of
        None \<Rightarrow> (env, None)
      | Some cs \<Rightarrow> (env\<lparr>fe_control := Some (tl cs)\<rparr>, watch_for_interrupt (head_or [] cs)))"

definition throttle :: "u64 \<Rightarrow> 's frag_env \<Rightarrow> 's frag_env" where
  "throttle w env =
     (case fe_limiter env of
        None \<Rightarrow> env
      | Some l \<Rightarrow>
          (case acquire (head_or 0 (fe_clock env)) w l of
             (l', wait) \<Rightarrow>
               env\<lparr>fe_limiter := Some l', fe_clock := tl (fe_clock env),
                   fe_waits := fe_waits env @ [wait]\<rparr>))"

definition try_send :: "fragment_progress \<Rightarrow> 's frag_env \<Rightarrow> 's frag_env" where
  "try_send p env =
     (if \<not> fe_progress env then env
      else (let full = head_or False (fe_full env); env = env\<lparr>fe_full := tl (fe_full env)\<rparr>
            in if full then env else env\<lparr>fe_sent := fe_sent env @ [p]\<rparr>))"

definition send_progress :: "fragment_progress \<Rightarrow> 's frag_env \<Rightarrow> 's frag_env" where
  "send_progress p env =
     (if \<not> fe_progress env then env else env\<lparr>fe_sent := fe_sent env @ [p]\<rparr>)"

section \<open>Writing a batch\<close>

text \<open>
  An interrupt drops the future of the write, but the blocking write it started goes on, so the
  storage moves in both cases. \<open>advance\<close> past the end of the batch panics; the join of the task
  reports a panic as \<^const>\<open>Other\<close>.
\<close>

function write_all_at ::
    "'s write_op \<Rightarrow> u64 \<Rightarrow> u64 \<Rightarrow> u8 list \<Rightarrow> 's frag_env \<Rightarrow> 's frag_env \<times> u64 download_result" where
  "write_all_at wr pos total_written batch env =
     (if batch = [] then (env, Inr total_written)
      else
        (case race_control env of
           (env, interrupt) \<Rightarrow>
             (case wr (unat pos) batch (fe_storage env) of
                (s, r) \<Rightarrow>
                  (let env = env\<lparr>fe_storage := s\<rparr>
                   in case interrupt of
                        Some e \<Rightarrow> (env, Inl e)
                      | None \<Rightarrow>
                          (case r of
                             Inl e \<Rightarrow> (env, Inl e)
                           | Inr written \<Rightarrow>
                               if written = 0 then (env, Inl (Fragment ''short write''))
                               else if length batch < written then (env, Inl (Other ''panic''))
                               else
                                 (case checked_add pos (of_nat written) of
                                    None \<Rightarrow> (env, Inl (Fragment ''offset overflow''))
                                  | Some pos' \<Rightarrow>
                                      (case checked_add total_written (of_nat written) of
                                         None \<Rightarrow> (env, Inl (Fragment ''length overflow''))
                                       | Some total' \<Rightarrow>
                                           write_all_at wr pos' total' (drop written batch) env)))))))"
  by pat_completeness auto
termination
  by (relation "measure (\<lambda>(_, _, _, batch, _). length batch)") auto

declare write_all_at.simps [simp del]

section \<open>The attempt\<close>

abbreviation WRITE_BATCH_BYTES :: nat where "WRITE_BATCH_BYTES \<equiv> 256 * 1024"
abbreviation PROGRESS_REPORT_CHUNK_INTERVAL :: nat where "PROGRESS_REPORT_CHUNK_INTERVAL \<equiv> 5"

text \<open>The guard and the write of a batch, the same in the loop and after it.\<close>

definition flush_batch ::
    "'s write_op \<Rightarrow> u64 \<Rightarrow> u64 \<Rightarrow> u64 \<Rightarrow> u8 list \<Rightarrow> 's frag_env \<Rightarrow> 's frag_env \<times> u64 download_result" where
  "flush_batch wr expected_len pos total_written batch env =
     (case checked_add total_written (of_nat (length batch)) of
        None \<Rightarrow> (env, Inl (Fragment ''length overflow''))
      | Some attempted_written \<Rightarrow>
          if attempted_written > expected_len then (env, Inl (Fragment ''too much data''))
          else write_all_at wr pos 0 batch env)"

fun chunk_loop ::
    "'s write_op \<Rightarrow> u32 \<Rightarrow> u64 \<Rightarrow> u64 \<Rightarrow> u64 \<Rightarrow> nat \<Rightarrow> u8 list \<Rightarrow> u8 list download_result list \<Rightarrow>
     's frag_env \<Rightarrow> 's frag_env \<times> (u64 \<times> u64 \<times> u8 list) download_result" where
  "chunk_loop wr idx expected_len pos total_written chunk_count write_buf [] env =
     (env, Inr (pos, total_written, write_buf))"
| "chunk_loop wr idx expected_len pos total_written chunk_count write_buf (item # rest) env =
     (case check_control env of
        (env, Inl e) \<Rightarrow> (env, Inl e)
      | (env, Inr _) \<Rightarrow>
          (case item of
             Inl e \<Rightarrow> (env, Inl e)
           | Inr chunk \<Rightarrow>
               (let write_buf = write_buf @ chunk; chunk_count = chunk_count + 1
                in if length write_buf \<ge> WRITE_BATCH_BYTES then
                     (case flush_batch wr expected_len pos total_written write_buf env of
                        (env, Inl e) \<Rightarrow> (env, Inl e)
                      | (env, Inr w) \<Rightarrow>
                          (case checked_add pos w of
                             None \<Rightarrow> (env, Inl (Fragment ''offset overflow''))
                           | Some pos \<Rightarrow>
                               (let total_written = total_written + w;
                                    env = throttle w env;
                                    env = (if chunk_count mod PROGRESS_REPORT_CHUNK_INTERVAL = 0
                                           then try_send \<lparr>fp_index = idx, fp_completed = False,
                                                          fp_downloaded = total_written\<rparr> env
                                           else env)
                                in chunk_loop wr idx expected_len pos total_written chunk_count [] rest env)))
                   else chunk_loop wr idx expected_len pos total_written chunk_count write_buf rest env)))"

text \<open>
  \<open>permit\<close> is the answer of the connection pool, \<open>opened\<close> that of \<open>download_range_stream\<close>,
  \<open>elapsed\<close> the time the attempt took.
\<close>

definition download_single_fragment ::
    "'s write_op \<Rightarrow> unit download_result \<Rightarrow> u8 list download_result list download_result \<Rightarrow> duration \<Rightarrow>
     u32 \<Rightarrow> u64 \<Rightarrow> u64 \<Rightarrow> 's frag_env \<Rightarrow> 's frag_env \<times> (u64 \<times> duration) download_result" where
  "download_single_fragment wr permit opened elapsed idx frag_start frag_end env =
     (case check_control env of
        (env, Inl e) \<Rightarrow> (env, Inl e)
      | (env, Inr _) \<Rightarrow>
          (case permit of
             Inl e \<Rightarrow> (env, Inl e)
           | Inr _ \<Rightarrow>
               (case race_control env of
                  (env, Some e) \<Rightarrow> (env, Inl e)
                | (env, None) \<Rightarrow>
                    (case opened of
                       Inl e \<Rightarrow> (env, Inl e)
                     | Inr stream \<Rightarrow>
                         (case Option.bind (checked_sub frag_end frag_start) (\<lambda>l. checked_add l 1) of
                            None \<Rightarrow> (env, Inl (Fragment ''invalid range''))
                          | Some expected_len \<Rightarrow>
                              (case chunk_loop wr idx expected_len frag_start 0 0 [] stream env of
                                 (env, Inl e) \<Rightarrow> (env, Inl e)
                               | (env, Inr (pos, total_written, write_buf)) \<Rightarrow>
                                   (case (if write_buf = [] then (env, Inr total_written)
                                          else
                                            (case flush_batch wr expected_len pos total_written write_buf env of
                                               (env, Inl e) \<Rightarrow> (env, Inl e)
                                             | (env, Inr w) \<Rightarrow> (throttle w env, Inr (total_written + w)))) of
                                      (env, Inl e) \<Rightarrow> (env, Inl e)
                                    | (env, Inr total_written) \<Rightarrow>
                                        if total_written \<noteq> expected_len
                                        then (env, Inl (Fragment ''incomplete data''))
                                        else
                                          (send_progress \<lparr>fp_index = idx, fp_completed = True,
                                             fp_downloaded = total_written\<rparr> env,
                                           Inr (total_written, elapsed)))))))))"

section \<open>What an attempt does to the storage\<close>

lemma control_storage [simp]:
  "check_control env = (env', r) \<Longrightarrow> fe_storage env' = fe_storage env"
  "race_control env = (env', i) \<Longrightarrow> fe_storage env' = fe_storage env"
  by (auto simp: check_control_def race_control_def split: option.splits)

lemma report_storage [simp]:
  "fe_storage (throttle w env) = fe_storage env"
  "fe_storage (try_send p env) = fe_storage env"
  "fe_storage (send_progress p env) = fe_storage env"
  by (auto simp: throttle_def try_send_def send_progress_def Let_def split: option.splits prod.splits)

text \<open>The data a stream delivers before it ends or fails.\<close>

fun delivered :: "u8 list download_result list \<Rightarrow> u8 list" where
  "delivered [] = []"
| "delivered (Inl e # r) = []"
| "delivered (Inr chunk # r) = chunk @ delivered r"

definition all_ok :: "u8 list download_result list \<Rightarrow> bool" where
  "all_ok stream = list_all is_ok stream"

context async_storage
begin

lemma write_all_at_spec:
  assumes "write_all_at write_at pos tot batch env = (env', r)" "length batch < 2 ^ 64"
  shows "\<exists>n \<le> length batch.
    content (fe_storage env') = overlay (content (fe_storage env)) (unat pos) (take n batch) \<and>
    (\<forall>t. r = Inr t \<longrightarrow> n = length batch \<and> unat t = unat tot + length batch)"
  using assms
proof (induction "length batch" arbitrary: pos tot batch env env' r rule: less_induct)
  case less
  show ?case
  proof (cases "batch = []")
    case True
    then show ?thesis using less.prems by (auto simp: write_all_at.simps[of write_at])
  next
    case False
    obtain env1 i where c: "race_control env = (env1, i)" by (cases "race_control env")
    then have c1: "fe_storage env1 = fe_storage env" by simp
    obtain s w where w: "write_at (unat pos) batch (fe_storage env1) = (s, w)"
      by (cases "write_at (unat pos) batch (fe_storage env1)")
    from write_bytes[OF this] c1 obtain n where n: "n \<le> length batch"
      "content s = overlay (content (fe_storage env)) (unat pos) (take n batch)"
      "case w of Inr m \<Rightarrow> m = n | Inl _ \<Rightarrow> n = 0" by auto
    have stop: ?thesis if "env' = env1\<lparr>fe_storage := s\<rparr>" "\<exists>e. r = Inl e"
      using that n(1,2) by (intro exI[of _ n]) auto
    note step = less.prems(1)[unfolded write_all_at.simps[of write_at pos tot batch env]]
    consider e where "i = Some e" | e where "w = Inl e" | "w = Inr 0" |
      "i = None" "w = Inr n" "n \<noteq> 0" using n(3) by (cases i; cases w) auto
    then show ?thesis
    proof cases
      case 4
      have nb: "n < 2 ^ 64" using n(1) less.prems(2) by linarith
      show ?thesis
      proof (cases "checked_add pos (of_nat n) = None \<or> checked_add tot (of_nat n) = None")
        case True
        then show ?thesis
          using step False c w 4 n(1) by (intro stop) (auto simp: Let_def split: option.splits)
      next
        case more: False
        then obtain pos' total' where pt: "checked_add pos (of_nat n) = Some pos'"
          "checked_add tot (of_nat n) = Some total'" by auto
        then have pv: "unat pos' = unat pos + n" "unat total' = unat tot + n"
          using nb by (simp_all add: checked_add_Some_iff unat_of_nat_eq)
        have rec: "write_all_at write_at pos' total' (drop n batch) (env1\<lparr>fe_storage := s\<rparr>) = (env', r)"
          using step False c w 4 n(1) pt by (simp add: Let_def)
        have smaller: "length (drop n batch) < length batch" "length (drop n batch) < 2 ^ 64"
          using 4(3) False less.prems(2) by auto
        from less.hyps[OF smaller(1) rec smaller(2)] obtain k
          where k: "k \<le> length (drop n batch) \<and>
            content (fe_storage env') =
              overlay (content (fe_storage (env1\<lparr>fe_storage := s\<rparr>))) (unat pos') (take k (drop n batch)) \<and>
            (\<forall>t. r = Inr t \<longrightarrow> k = length (drop n batch) \<and> unat t = unat total' + length (drop n batch))"
          by (rule exE)
        have "overlay (content s) (unat pos') (take k (drop n batch))
            = overlay (content (fe_storage env)) (unat pos) (take (n + k) batch)"
          using n(1,2) pv(1) overlay_append[of "content (fe_storage env)" "unat pos" "take n batch"]
          by (simp add: take_add)
        then show ?thesis using k n(1) pv(2) by (intro exI[of _ "n + k"]) auto
      qed
    qed (use step False c w n(1,2) in \<open>auto simp: Let_def intro!: exI[of _ n] split: option.splits sum.splits\<close>)
  qed
qed

text \<open>Bytes written so far form a prefix of the range: \<open>data\<close> at the start of the fragment.\<close>

lemma flush_batch_spec:
  assumes "flush_batch write_at expected_len pos tot batch env = (env', r)" "length batch < 2 ^ 64"
  shows "\<exists>n \<le> length batch.
    content (fe_storage env') = overlay (content (fe_storage env)) (unat pos) (take n batch) \<and>
    (n = 0 \<or> unat tot + length batch \<le> unat expected_len) \<and>
    (\<forall>w. r = Inr w \<longrightarrow> n = length batch \<and> unat w = length batch \<and>
       unat tot + length batch \<le> unat expected_len)"
proof (cases "checked_add tot (of_nat (length batch))")
  case None
  then show ?thesis using assms by (intro exI[of _ 0]) (auto simp: flush_batch_def)
next
  case (Some a)
  then have a: "unat a = unat tot + length batch"
    using assms(2) by (simp add: checked_add_Some_iff unat_of_nat_eq)
  show ?thesis
  proof (cases "a > expected_len")
    case True
    then show ?thesis using assms Some by (intro exI[of _ 0]) (auto simp: flush_batch_def)
  next
    case False
    then have le: "unat tot + length batch \<le> unat expected_len"
      using a by (simp add: not_less word_le_nat_alt)
    have "write_all_at write_at pos 0 batch env = (env', r)"
      using assms(1) Some False by (simp add: flush_batch_def)
    from write_all_at_spec[OF this assms(2)] le show ?thesis by auto
  qed
qed

lemma chunk_loop_spec:
  assumes "chunk_loop write_at idx expected_len pos tot cnt buf stream env = (env', r)"
    and "unat pos = start + unat tot" "length data = unat tot"
    and "content (fe_storage env) = overlay c0 start data" "unat tot \<le> unat expected_len"
    and "length buf + length (delivered stream) < 2 ^ 64"
  shows "\<exists>data'. content (fe_storage env') = overlay c0 start data' \<and>
    length data' \<le> unat expected_len \<and>
    (\<forall>pos' total' buf'. r = Inr (pos', total', buf') \<longrightarrow>
       all_ok stream \<and> data' @ buf' = data @ buf @ delivered stream \<and>
       length data' = unat total' \<and> unat pos' = start + unat total' \<and>
       length buf' < 2 ^ 64)"
  using assms
proof (induction stream arbitrary: pos tot cnt buf env data)
  case Nil
  then show ?case by (intro exI[of _ data]) (auto simp: all_ok_def)
next
  case (Cons item rest)
  obtain env1 k where ch: "check_control env = (env1, k)" by (cases "check_control env")
  have s1: "fe_storage env1 = fe_storage env" using ch by simp
  have stop: ?case if "fe_storage env' = fe_storage env" "\<exists>e. r = Inl e"
    using that Cons.prems(3-5) by (intro exI[of _ data]) auto
  show ?case
  proof (cases "(\<exists>e. k = Inl e) \<or> (\<exists>e. item = Inl e)")
    case True
    then show ?thesis
      using Cons.prems(1) ch s1 by (intro stop) (auto split: sum.splits)
  next
    case False
    then obtain u chunk where ok: "k = Inr u" "item = Inr chunk" by (cases k; cases item) auto
    let ?buf = "buf @ chunk"
    have len: "length ?buf + length (delivered rest) < 2 ^ 64" using Cons.prems(6) ok(2) by simp
    show ?thesis
    proof (cases "length ?buf \<ge> WRITE_BATCH_BYTES")
      case small: False
      have "chunk_loop write_at idx expected_len pos tot (cnt + 1) ?buf rest env1 = (env', r)"
        using Cons.prems(1) ch ok small by (simp add: Let_def)
      from Cons.IH[OF this Cons.prems(2,3) _ Cons.prems(5) len] Cons.prems(4) s1 ok(2)
      show ?thesis by (auto simp: all_ok_def)
    next
      case full: True
      obtain env2 f where fl: "flush_batch write_at expected_len pos tot ?buf env1 = (env2, f)"
        by (cases "flush_batch write_at expected_len pos tot ?buf env1")
      have "length ?buf < 2 ^ 64" using len by linarith
      from flush_batch_spec[OF fl this] obtain n where n: "n \<le> length ?buf"
        "content (fe_storage env2) = overlay (content (fe_storage env1)) (unat pos) (take n ?buf)"
        "n = 0 \<or> unat tot + length ?buf \<le> unat expected_len"
        "\<forall>w. f = Inr w \<longrightarrow> n = length ?buf \<and> unat w = length ?buf \<and>
           unat tot + length ?buf \<le> unat expected_len" by blast
      have c2: "content (fe_storage env2) = overlay c0 start (data @ take n ?buf)"
        using n(2) s1 Cons.prems(2-4) overlay_append[of c0 start data "take n ?buf"] by simp
      have stop2: ?thesis if "fe_storage env' = fe_storage env2" "\<exists>e. r = Inl e"
        using that c2 n(1,3) Cons.prems(3,5) by (intro exI[of _ "data @ take n ?buf"]) auto
      show ?thesis
      proof (cases "\<exists>w pos'. f = Inr w \<and> checked_add pos w = Some pos'")
        case False
        then show ?thesis
          using Cons.prems(1) ch ok full fl
          by (intro stop2) (auto simp: Let_def split: sum.splits option.splits)
      next
        case True
        then obtain w pos' where w: "f = Inr w" "checked_add pos w = Some pos'" by blast
        let ?t = "tot + w"
        have wn: "n = length ?buf" "unat w = length ?buf" "unat tot + length ?buf \<le> unat expected_len"
          using n(4) w(1) by blast+
        have "unat expected_len < 2 ^ LENGTH(64)" by (rule unsigned_less)
        then have bound: "unat tot + unat w < 2 ^ 64" using wn(2,3) by simp
        then have t: "unat ?t = unat tot + unat w" by (intro unat_add_no_overflow) simp
        have p: "unat pos' = unat pos + unat w" using w(2) by (simp add: checked_add_Some_iff)
        obtain env3 where rec: "chunk_loop write_at idx expected_len pos' ?t (cnt + 1) [] rest env3 = (env', r)"
          and s3: "fe_storage env3 = fe_storage env2"
          using Cons.prems(1) ch ok full fl w by (fastforce simp: Let_def)
        have "\<exists>data'. content (fe_storage env') = overlay c0 start data' \<and>
          length data' \<le> unat expected_len \<and>
          (\<forall>pos' total' buf'. r = Inr (pos', total', buf') \<longrightarrow>
             all_ok rest \<and> data' @ buf' = (data @ ?buf) @ [] @ delivered rest \<and>
             length data' = unat total' \<and> unat pos' = start + unat total' \<and> length buf' < 2 ^ 64)"
          by (rule Cons.IH[OF rec]) (use c2 s3 wn t p Cons.prems len in auto)
        then show ?thesis using ok(2) by (auto simp: all_ok_def)
      qed
    qed
  qed
qed

lemma single_fragment_spec:
  assumes run: "download_single_fragment write_at permit opened elapsed idx st en env = (env', r)"
    and len: "\<forall>stream. opened = Inr stream \<longrightarrow> length (delivered stream) < 2 ^ 64"
  shows "\<exists>data. content (fe_storage env') = overlay (content (fe_storage env)) (unat st) data \<and>
    length data \<le> unat en + 1 - unat st \<and>
    (\<forall>n d. r = Inr (n, d) \<longrightarrow> st \<le> en \<and> unat n = unat en + 1 - unat st \<and> d = elapsed \<and>
       (\<exists>stream. opened = Inr stream \<and> all_ok stream \<and> data = delivered stream \<and>
          length data = unat n))"
proof -
  obtain env1 k where ch: "check_control env = (env1, k)" by (cases "check_control env")
  obtain env2 i where ra: "race_control env1 = (env2, i)" by (cases "race_control env1")
  have s12: "fe_storage env1 = fe_storage env" "fe_storage env2 = fe_storage env"
    using ch ra by simp_all
  let ?len = "Option.bind (checked_sub en st) (\<lambda>l. checked_add l 1)"
  have stop: ?thesis if "fe_storage env' = fe_storage env" "\<exists>e. r = Inl e"
    using that by (intro exI[of _ "[]"]) auto
  show ?thesis
  proof (cases "\<exists>u v stream l. k = Inr u \<and> permit = Inr v \<and> i = None \<and> opened = Inr stream \<and> ?len = Some l")
    case False
    then show ?thesis
      using run ch ra s12 unfolding download_single_fragment_def
      by (intro stop) (auto split: sum.splits option.splits)
  next
    case True
    then obtain u v stream l where ok: "k = Inr u" "permit = Inr v" "i = None" "opened = Inr stream"
      "?len = Some l" by blast
    then have le: "st \<le> en" and l: "unat l = unat en + 1 - unat st"
      by (auto simp: bind_eq_Some_conv checked_sub_Some_iff checked_add_Some_iff unat_sub word_le_nat_alt)
    obtain env3 c where cl: "chunk_loop write_at idx l st 0 0 [] stream env2 = (env3, c)"
      by (cases "chunk_loop write_at idx l st 0 0 [] stream env2")
    have "length (delivered stream) < 2 ^ 64" using len ok(4) by blast
    with chunk_loop_spec[OF cl, of "unat st" "[]" "content (fe_storage env)"] s12 obtain data
      where data: "content (fe_storage env3) = overlay (content (fe_storage env)) (unat st) data"
        "length data \<le> unat l"
        "\<forall>pos tot buf. c = Inr (pos, tot, buf) \<longrightarrow> all_ok stream \<and>
           data @ buf = delivered stream \<and> length data = unat tot \<and>
           unat pos = unat st + unat tot \<and> length buf < 2 ^ 64" by auto
    show ?thesis
    proof (cases c)
      case (Inl e)
      then have "env' = env3" "\<exists>e. r = Inl e"
        using run ch ra ok cl unfolding download_single_fragment_def by auto
      then show ?thesis using data(1,2) l by (intro exI[of _ data]) auto
    next
      case (Inr t)
      obtain pos tot buf where t: "c = Inr (pos, tot, buf)" using Inr by (cases t) auto
      note d3 = data(3)[rule_format, OF t]
      define fin where "fin = (if buf = [] then (env3, Inr tot)
        else (case flush_batch write_at l pos tot buf env3 of
                (env, Inl e) \<Rightarrow> (env, Inl e)
              | (env, Inr w) \<Rightarrow> (throttle w env, Inr (tot + w))))"
      obtain env4 q where fin: "fin = (env4, q)" by (cases fin)
      have "\<exists>n \<le> length buf. content (fe_storage env4) =
          overlay (content (fe_storage env)) (unat st) (data @ take n buf) \<and>
          length (data @ take n buf) \<le> unat l \<and>
          (\<forall>w. q = Inr w \<longrightarrow> n = length buf \<and> unat w = length data + length buf)"
      proof (cases "buf = []")
        case True
        then show ?thesis using fin fin_def data(1,2) d3 by (intro exI[of _ 0]) auto
      next
        case False
        obtain env5 f where f: "flush_batch write_at l pos tot buf env3 = (env5, f)"
          by (cases "flush_batch write_at l pos tot buf env3")
        from flush_batch_spec[OF this] d3 obtain n where n: "n \<le> length buf"
          "content (fe_storage env5) = overlay (content (fe_storage env3)) (unat pos) (take n buf)"
          "n = 0 \<or> unat tot + length buf \<le> unat l"
          "\<forall>w. f = Inr w \<longrightarrow> n = length buf \<and> unat w = length buf \<and> unat tot + length buf \<le> unat l"
          by blast
        have s5: "fe_storage env4 = fe_storage env5"
          using fin f False by (auto simp: fin_def split: sum.splits)
        have wq: "unat w' = length data + length buf \<and> n = length buf" if q: "q = Inr w'" for w'
        proof -
          obtain w where w: "f = Inr w" "w' = tot + w"
            using fin f False q by (auto simp: fin_def split: sum.splits)
          have "unat l < 2 ^ LENGTH(64)" by (rule unsigned_less)
          then have "unat tot + unat w < 2 ^ LENGTH(64)" using n(4) w(1) by auto
          from unat_add_no_overflow[OF this] show ?thesis using n(4) w d3 by auto
        qed
        have "content (fe_storage env4) = overlay (content (fe_storage env)) (unat st) (data @ take n buf)"
          using n(2) s5 data(1) d3 overlay_append[of "content (fe_storage env)" "unat st" data "take n buf"]
          by simp
        moreover have "length (data @ take n buf) \<le> unat l" using n(1,3) d3 data(2) by auto
        ultimately show ?thesis using n(1) wq by blast
      qed
      then obtain n where n: "n \<le> length buf"
        "content (fe_storage env4) = overlay (content (fe_storage env)) (unat st) (data @ take n buf)"
        "length (data @ take n buf) \<le> unat l"
        "\<forall>w. q = Inr w \<longrightarrow> n = length buf \<and> unat w = length data + length buf" by blast
      have res: "fe_storage env' = fe_storage env4"
        "\<forall>m d. r = Inr (m, d) \<longrightarrow> q = Inr m \<and> m = l \<and> d = elapsed"
        using run ch ra ok cl t fin[unfolded fin_def] unfolding download_single_fragment_def
        by (auto split: sum.splits if_splits)
      show ?thesis
      proof (intro exI[of _ "data @ take n buf"] conjI allI impI)
        show "content (fe_storage env') = overlay (content (fe_storage env)) (unat st) (data @ take n buf)"
          using n(2) res(1) by simp
        show "length (data @ take n buf) \<le> unat en + 1 - unat st" using n(3) l by simp
        fix m d assume "r = Inr (m, d)"
        then have m: "q = Inr m" "m = l" "d = elapsed" using res(2) by blast+
        then have "n = length buf" "unat m = length data + length buf" using n(4) by blast+
        moreover have dl: "length (delivered stream) = length data + length buf"
          using d3 by (metis length_append)
        ultimately show "st \<le> en" "unat m = unat en + 1 - unat st" "d = elapsed"
          "\<exists>stream. opened = Inr stream \<and> all_ok stream \<and> data @ take n buf = delivered stream \<and>
             length (data @ take n buf) = unat m"
          using m le l ok(4) d3 dl by auto
      qed
    qed
  qed
qed

lemma single_fragment_bytes:
  assumes "download_single_fragment write_at permit opened elapsed idx st en env = (env', r)"
    and "\<forall>stream. opened = Inr stream \<longrightarrow> length (delivered stream) < 2 ^ 64"
  shows "(\<forall>i. i < unat st \<or> unat en < i \<longrightarrow>
       byte_at (content (fe_storage env')) i = byte_at (content (fe_storage env)) i) \<and>
    (\<forall>n d. r = Inr (n, d) \<longrightarrow>
       (\<exists>stream. opened = Inr stream \<and> all_ok stream \<and> st \<le> en \<and>
          length (delivered stream) = unat n \<and> unat n = unat en + 1 - unat st \<and>
          (\<forall>i. unat st \<le> i \<and> i \<le> unat en \<longrightarrow>
             byte_at (content (fe_storage env')) i = delivered stream ! (i - unat st))))"
proof -
  let ?P = "\<lambda>data. content (fe_storage env') = overlay (content (fe_storage env)) (unat st) data \<and>
     length data \<le> unat en + 1 - unat st \<and>
     (\<forall>n d. r = Inr (n, d) \<longrightarrow> st \<le> en \<and> unat n = unat en + 1 - unat st \<and> d = elapsed \<and>
       (\<exists>stream. opened = Inr stream \<and> all_ok stream \<and> data = delivered stream \<and> length data = unat n))"
  have "\<exists>data. ?P data" by (rule single_fragment_spec[OF assms])
  then obtain data where all: "?P data" by (rule exE)
  note data = all[THEN conjunct1] all[THEN conjunct2, THEN conjunct1] all[THEN conjunct2, THEN conjunct2]
  show ?thesis
  proof (intro conjI allI impI)
    fix i assume "i < unat st \<or> unat en < i"
    then have "\<not> (unat st \<le> i \<and> i < unat st + length data)" using data(2) by arith
    then show "byte_at (content (fe_storage env')) i = byte_at (content (fe_storage env)) i"
      unfolding data(1) byte_at_overlay by (rule if_not_P)
  next
    fix n d assume "r = Inr (n, d)"
    with data(3) obtain stream where s: "st \<le> en" "unat n = unat en + 1 - unat st"
      "opened = Inr stream" "all_ok stream" "data = delivered stream" "length data = unat n" by blast
    then show "\<exists>stream. opened = Inr stream \<and> all_ok stream \<and> st \<le> en \<and>
        length (delivered stream) = unat n \<and> unat n = unat en + 1 - unat st \<and>
        (\<forall>i. unat st \<le> i \<and> i \<le> unat en \<longrightarrow>
           byte_at (content (fe_storage env')) i = delivered stream ! (i - unat st))"
      unfolding data(1) by (intro exI[of _ stream]) (simp add: byte_at_overlay)
  qed
qed

end

section \<open>Properties\<close>

text \<open>
  C19. Whatever the server sends, however the storage writes, and whenever the task is interrupted,
  one attempt at a fragment changes no byte outside the fragment's range; and when it succeeds the
  stream ended without an error after exactly the range's length, and the range holds its bytes.
\<close>

theorem fragment_download_contained:
  assumes "download_single_fragment file_write_at permit opened elapsed idx st en env = (env', r)"
    and "\<forall>stream. opened = Inr stream \<longrightarrow> length (delivered stream) < 2 ^ 64"
  shows "(\<forall>i. i < unat st \<or> unat en < i \<longrightarrow>
       byte_at (of_bytes (fe_storage env')) i = byte_at (of_bytes (fe_storage env)) i) \<and>
    (\<forall>n d. r = Inr (n, d) \<longrightarrow>
       (\<exists>stream. opened = Inr stream \<and> all_ok stream \<and> st \<le> en \<and>
          length (delivered stream) = unat n \<and> unat n = unat en + 1 - unat st \<and>
          (\<forall>i. unat st \<le> i \<and> i \<le> unat en \<longrightarrow>
             byte_at (of_bytes (fe_storage env')) i = delivered stream ! (i - unat st))))"
  by (rule os_file.single_fragment_bytes[OF assms])

definition sample_env :: "os_file frag_env" where
  "sample_env = \<lparr>fe_storage = \<lparr>of_bytes = [9, 9, 9, 9], of_outcomes = [WShort 1]\<rparr>,
     fe_control = Some [[Sees Downloading]], fe_limiter = None, fe_clock = [], fe_waits = [],
     fe_progress = True, fe_full = [], fe_sent = []\<rparr>"

theorem fragment_download_contained_witness:
  "byte_at (of_bytes (fe_storage (fst (download_single_fragment file_write_at (Inr ())
     (Inr [Inr [1], Inr [2]]) 7 0 1 2 sample_env)))) 3 = 9"
proof -
  obtain env' r where run: "download_single_fragment file_write_at (Inr ())
      (Inr [Inr [1], Inr [2]]) 7 0 1 2 sample_env = (env', r)"
    by (cases "download_single_fragment file_write_at (Inr ()) (Inr [Inr [1], Inr [2]]) 7 0 1 2 sample_env")
  have "\<forall>stream. Inr [Inr [1], Inr [2]] = (Inr stream :: download_error + u8 list download_result list) \<longrightarrow>
      length (delivered stream) < 2 ^ 64" by auto
  from fragment_download_contained[OF run this]
  have "byte_at (of_bytes (fe_storage env')) 3 = byte_at (of_bytes (fe_storage sample_env)) 3" by simp
  moreover have "byte_at (of_bytes (fe_storage sample_env)) 3 = 9"
    by (simp add: sample_env_def byte_at_def)
  ultimately show ?thesis by (simp only: run fst_conv)
qed

end
