(* ===== verification/Write_Guards.thy ===== *)
theory Write_Guards
  imports Fragment_Download
begin

text \<open>
  Storages that refuse some writes: the backends that want aligned or short writes, or that never
  write. What an attempt at a fragment of \<open>downloader.rs\<close> can do on such a storage.
\<close>

section \<open>The interface\<close>

text \<open>\<open>pieces P off lens\<close>: consecutive nonempty pieces from \<open>off\<close> on, each of which \<open>P\<close> admits.\<close>

fun pieces :: "(nat \<Rightarrow> nat \<Rightarrow> bool) \<Rightarrow> nat \<Rightarrow> nat list \<Rightarrow> bool" where
  "pieces P off [] = True"
| "pieces P off (n # ns) = (0 < n \<and> P off n \<and> pieces P (off + n) ns)"

lemma pieces_append: "pieces P off (ms @ ns) = (pieces P off ms \<and> pieces P (off + sum_list ms) ns)"
  by (induction ms arbitrary: off) (auto simp: add.assoc)

text \<open>
  A storage that, in the states it can be in, accepts only the writes that \<open>admits\<close> allows.
\<close>

locale guarded_storage =
  fixes write_at :: "nat \<Rightarrow> u8 list \<Rightarrow> 's \<Rightarrow> 's \<times> nat download_result"
    and valid :: "'s \<Rightarrow> bool"
    and admits :: "nat \<Rightarrow> nat \<Rightarrow> bool"
  assumes write_valid: "valid s \<Longrightarrow> write_at off d s = (s', r) \<Longrightarrow> valid s'"
    and write_admits: "valid s \<Longrightarrow> write_at off d s = (s', Inr n) \<Longrightarrow> admits off (length d)"
begin

lemma write_all_at_guarded:
  assumes "write_all_at write_at pos tot batch env = (env', r)" "length batch < 2 ^ 64"
    and "valid (fe_storage env)"
  shows "valid (fe_storage env') \<and>
    (\<forall>t. r = Inr t \<longrightarrow> unat t = unat tot + length batch \<and> (batch = [] \<or> admits (unat pos) (length batch)))"
  using assms
proof (induction "length batch" arbitrary: pos tot batch env env' r rule: less_induct)
  case less
  show ?case
  proof (cases "batch = []")
    case True
    then show ?thesis using less.prems by (auto simp: write_all_at.simps[of write_at])
  next
    case False
    obtain env1 i where c: "race_control env = (env1, i)" by (cases "race_control env")
    then have c1: "fe_storage env1 = fe_storage env" by simp
    obtain s w where w: "write_at (unat pos) batch (fe_storage env1) = (s, w)"
      by (cases "write_at (unat pos) batch (fe_storage env1)")
    have v: "valid s" using write_valid[OF _ w] less.prems(3) c1 by simp
    have stop: ?thesis if "env' = env1\<lparr>fe_storage := s\<rparr>" "\<exists>e. r = Inl e"
      using that v by auto
    note step = less.prems(1)[unfolded write_all_at.simps[of write_at pos tot batch env]]
    show ?thesis
    proof (cases "\<exists>n p t. i = None \<and> w = Inr n \<and> n \<noteq> 0 \<and> n \<le> length batch \<and>
        checked_add pos (of_nat n) = Some p \<and> checked_add tot (of_nat n) = Some t")
      case True
      then obtain n p t where ok: "i = None" "w = Inr n" "n \<noteq> 0" "n \<le> length batch"
        "checked_add pos (of_nat n) = Some p" "checked_add tot (of_nat n) = Some t" by blast
      have nb: "n < 2 ^ 64" using ok(4) less.prems(2) by linarith
      have rec: "write_all_at write_at p t (drop n batch) (env1\<lparr>fe_storage := s\<rparr>) = (env', r)"
        using step False c w ok by (simp add: Let_def)
      have smaller: "length (drop n batch) < length batch" "length (drop n batch) < 2 ^ 64"
        using ok(3) False less.prems(2) by auto
      have "admits (unat pos) (length batch)"
        using write_admits[of "fe_storage env1"] less.prems(3) c1 w ok(2) by simp
      moreover have "unat t = unat tot + n"
        using ok(6) nb by (simp add: checked_add_Some_iff unat_of_nat_eq)
      ultimately show ?thesis
        using less.hyps[OF smaller(1) rec smaller(2)] v ok(4) by auto
    next
      case False2: False
      show ?thesis
        by (rule stop) (use step False False2 c w in \<open>auto simp: Let_def not_less split: option.splits sum.splits if_splits\<close>)
    qed
  qed
qed

lemma flush_batch_guarded:
  assumes "flush_batch write_at expected_len pos tot batch env = (env', r)" "length batch < 2 ^ 64"
    and "valid (fe_storage env)" "batch \<noteq> []"
  shows "valid (fe_storage env') \<and>
    (\<forall>w. r = Inr w \<longrightarrow> unat w = length batch \<and> admits (unat pos) (length batch) \<and>
       unat tot + length batch \<le> unat expected_len)"
proof (cases "checked_add tot (of_nat (length batch))")
  case None
  then show ?thesis using assms by (auto simp: flush_batch_def)
next
  case (Some a)
  then have a: "unat a = unat tot + length batch"
    using assms(2) by (simp add: checked_add_Some_iff unat_of_nat_eq)
  show ?thesis
  proof (cases "a > expected_len")
    case True
    then show ?thesis using assms Some by (auto simp: flush_batch_def)
  next
    case False
    then have "write_all_at write_at pos 0 batch env = (env', r)"
      using assms(1) Some by (simp add: flush_batch_def)
    from write_all_at_guarded[OF this assms(2,3)] False a assms(4) show ?thesis
      by (auto simp: not_less word_le_nat_alt)
  qed
qed

lemma chunk_loop_guarded:
  assumes "chunk_loop write_at idx expected_len pos tot cnt buf stream env = (env', r)"
    and "valid (fe_storage env)" "length buf + length (delivered stream) < 2 ^ 64"
  shows "valid (fe_storage env') \<and>
    (\<forall>pos' tot' buf'. r = Inr (pos', tot', buf') \<longrightarrow> length buf' < 2 ^ 64 \<and>
       (\<exists>lens. pieces admits (unat pos) lens \<and> unat pos' = unat pos + sum_list lens \<and>
          unat tot' = unat tot + sum_list lens))"
  using assms
proof (induction stream arbitrary: pos tot cnt buf env)
  case Nil
  then show ?case by (auto intro!: exI[of _ "[]"])
next
  case (Cons item rest)
  obtain env1 k where ch: "check_control env = (env1, k)" by (cases "check_control env")
  then have s1: "fe_storage env1 = fe_storage env" by simp
  note step = Cons.prems(1)[unfolded chunk_loop.simps ch]
  have stop: ?case if "fe_storage env' = fe_storage env" "\<exists>e. r = Inl e"
    using that Cons.prems(2) by auto
  show ?case
  proof (cases "\<exists>u chunk. k = Inr u \<and> item = Inr chunk")
    case False
    then show ?thesis using step s1 by (intro stop) (auto split: sum.splits)
  next
    case True
    then obtain u chunk where ok: "k = Inr u" "item = Inr chunk" by blast
    let ?buf = "buf @ chunk"
    have len: "length ?buf + length (delivered rest) < 2 ^ 64" using Cons.prems(3) ok(2) by simp
    show ?thesis
    proof (cases "length ?buf \<ge> WRITE_BATCH_BYTES")
      case False
      then have "chunk_loop write_at idx expected_len pos tot (cnt + 1) ?buf rest env1 = (env', r)"
        using step ok by (simp add: Let_def)
      from Cons.IH[OF this _ len] s1 Cons.prems(2) show ?thesis by simp
    next
      case big: True
      then have ne: "?buf \<noteq> []" by auto
      obtain env2 f where f: "flush_batch write_at expected_len pos tot ?buf env1 = (env2, f)"
        by (cases "flush_batch write_at expected_len pos tot ?buf env1")
      have fl: "valid (fe_storage env2)" "\<And>w. f = Inr w \<Longrightarrow> unat w = length ?buf \<and>
          admits (unat pos) (length ?buf) \<and> unat tot + length ?buf \<le> unat expected_len"
        using flush_batch_guarded[OF f _ _ ne] len s1 Cons.prems(2) by auto
      show ?thesis
      proof (cases "\<exists>w p. f = Inr w \<and> checked_add pos w = Some p")
        case False
        have "env' = env2 \<and> (\<exists>e. r = Inl e)"
        proof (cases f)
          case (Inl e)
          then show ?thesis using step ok big f by (auto simp: Let_def)
        next
          case (Inr w)
          then have "checked_add pos w = None" using False by auto
          then show ?thesis using step ok big f Inr by (auto simp: Let_def)
        qed
        then show ?thesis using fl(1) by auto
      next
        case True
        then obtain w p where w: "f = Inr w" "checked_add pos w = Some p" by blast
        note fw = fl(2)[OF w(1)]
        have p: "unat p = unat pos + length ?buf" using w(2) fw by (simp add: checked_add_Some_iff)
        have "unat tot + unat w \<le> unat expected_len" "unat expected_len < 2 ^ LENGTH(64)"
          using fw by (simp_all only: unsigned_less)
        then have t: "unat (tot + w) = unat tot + length ?buf"
          using fw by (subst unat_add_no_overflow) linarith+
        obtain env3 where rec: "chunk_loop write_at idx expected_len p (tot + w) (cnt + 1) [] rest env3 = (env', r)"
          and s3: "fe_storage env3 = fe_storage env2"
          using Cons.prems(1) ch ok big f w by (fastforce simp: Let_def)
        have len': "length ([] :: u8 list) + length (delivered rest) < 2 ^ 64" using len by simp
        have ih: "valid (fe_storage env') \<and> (\<forall>pos' tot' buf'. r = Inr (pos', tot', buf') \<longrightarrow>
            length buf' < 2 ^ 64 \<and> (\<exists>lens. pieces admits (unat p) lens \<and>
              unat pos' = unat p + sum_list lens \<and> unat tot' = unat (tot + w) + sum_list lens))"
          by (rule Cons.IH[OF rec _ len']) (simp add: s3 fl(1))
        show ?thesis
        proof (intro conjI allI impI)
          fix pos' tot' buf' assume "r = Inr (pos', tot', buf')"
          with ih obtain lens where l: "pieces admits (unat p) lens" "unat pos' = unat p + sum_list lens"
            "unat tot' = unat (tot + w) + sum_list lens" by blast
          then show "\<exists>lens. pieces admits (unat pos) lens \<and> unat pos' = unat pos + sum_list lens \<and>
              unat tot' = unat tot + sum_list lens"
            using fw ne p t by (intro exI[of _ "length ?buf # lens"]) simp
        qed (use ih in auto)
      qed
    qed
  qed
qed

text \<open>A successful attempt wrote the whole range in pieces that the storage admits.\<close>

lemma single_fragment_guarded:
  assumes run: "download_single_fragment write_at permit opened elapsed idx st en env = (env', Inr (n, d))"
    and valid: "valid (fe_storage env)"
    and len: "\<forall>stream. opened = Inr stream \<longrightarrow> length (delivered stream) < 2 ^ 64"
  shows "st \<le> en \<and> (\<exists>lens. pieces admits (unat st) lens \<and> sum_list lens = unat en + 1 - unat st)"
proof -
  obtain env1 k where ch: "check_control env = (env1, k)" by (cases "check_control env")
  obtain env2 i where ra: "race_control env1 = (env2, i)" by (cases "race_control env1")
  have s2: "fe_storage env2 = fe_storage env" using ch ra by simp
  note run' = run[unfolded download_single_fragment_def ch]
  obtain stream l where ok: "opened = Inr stream" "checked_sub en st \<noteq> None"
    "Option.bind (checked_sub en st) (\<lambda>l. checked_add l 1) = Some l" "i = None"
    using run' ra by (auto split: sum.splits option.splits simp: bind_eq_Some_conv)
  then have le: "st \<le> en" and l: "unat l = unat en + 1 - unat st"
    by (auto simp: bind_eq_Some_conv checked_sub_Some_iff checked_add_Some_iff unat_sub word_le_nat_alt)
  obtain env3 c where cl: "chunk_loop write_at idx l st 0 0 [] stream env2 = (env3, c)"
    by (cases "chunk_loop write_at idx l st 0 0 [] stream env2")
  obtain pos tot buf where c: "c = Inr (pos, tot, buf)"
    using run' ra ok cl by (cases c) (auto split: sum.splits)
  have "length (delivered stream) < 2 ^ 64" using len ok(1) by blast
  with chunk_loop_guarded[OF cl] valid s2 c obtain lens where lens: "valid (fe_storage env3)"
    "length buf < 2 ^ 64" "pieces admits (unat st) lens" "unat pos = unat st + sum_list lens"
    "unat tot = sum_list lens" by auto
  show ?thesis
  proof (cases "buf = []")
    case True
    then have "tot = l" using run' ra ok cl c by (auto split: sum.splits if_splits)
    then show ?thesis using lens(3,5) l le by auto
  next
    case False
    obtain env4 f where f: "flush_batch write_at l pos tot buf env3 = (env4, f)"
      by (cases "flush_batch write_at l pos tot buf env3")
    obtain w where w: "f = Inr w" "tot + w = l"
      using run' ra ok cl c f False by (auto split: sum.splits if_splits)
    from flush_batch_guarded[OF f lens(2,1) False] w(1)
    have fw: "unat w = length buf" "admits (unat pos) (length buf)" "unat tot + length buf \<le> unat l" by auto
    have "unat l < 2 ^ LENGTH(64)" by (rule unsigned_less)
    then have "unat tot + unat w < 2 ^ LENGTH(64)" using fw by linarith
    from unat_add_no_overflow[OF this] have "unat l = sum_list lens + length buf"
      using w(2) fw(1) lens(5) by simp
    then show ?thesis
      using le l lens fw(2) False by (intro conjI exI[of _ "lens @ [length buf]"]) (auto simp: pieces_append)
  qed
qed

end

end
