(* ===== verification/Win_File.thy ===== *)
theory Win_File
  imports Write_Guards
begin

text \<open>
  \<open>tachyon-io/src/winio.rs\<close>: the file that is opened without the buffering of Windows, which takes
  only whole sectors, or in the standard way.
\<close>

section \<open>The file\<close>

record win_file =
  wf_file :: os_file
  wf_no_buffering :: bool

definition open_optimized :: "os_file \<Rightarrow> win_file" where
  "open_optimized f = \<lparr>wf_file = f, wf_no_buffering = True\<rparr>"

definition open_standard :: "os_file \<Rightarrow> win_file" where
  "open_standard f = \<lparr>wf_file = f, wf_no_buffering = False\<rparr>"

definition SECTOR_SIZE :: nat where "SECTOR_SIZE = 512"

definition check_sectors :: "platform \<Rightarrow> win_file \<Rightarrow> nat \<Rightarrow> nat \<Rightarrow> unit download_result" where
  "check_sectors platform w offset len =
     (if platform = PlatformWindows \<and> wf_no_buffering w then
        (if offset mod SECTOR_SIZE \<noteq> 0 then Inl (Io ''offset not aligned'')
         else if len mod SECTOR_SIZE \<noteq> 0 then Inl (Io ''length not aligned'')
         else Inr ())
      else Inr ())"

definition win_write_at :: "platform \<Rightarrow> nat \<Rightarrow> u8 list \<Rightarrow> win_file \<Rightarrow> win_file \<times> nat download_result" where
  "win_write_at platform offset data w =
     (case check_sectors platform w offset (length data) of
        Inl e \<Rightarrow> (w, Inl e)
      | Inr _ \<Rightarrow>
          (case file_write_at offset data (wf_file w) of (f, r) \<Rightarrow> (w\<lparr>wf_file := f\<rparr>, r)))"

definition win_read_at :: "platform \<Rightarrow> nat \<Rightarrow> nat \<Rightarrow> win_file \<Rightarrow> u8 list download_result" where
  "win_read_at platform offset len w =
     and_then (check_sectors platform w offset len) (\<lambda>_. file_read_at offset len (wf_file w))"

definition win_preallocate :: "nat \<Rightarrow> win_file \<Rightarrow> win_file \<times> unit download_result" where
  "win_preallocate n w = (case file_set_len n (wf_file w) of (f, r) \<Rightarrow> (w\<lparr>wf_file := f\<rparr>, r))"

definition win_sync :: "win_file \<Rightarrow> unit download_result" where
  "win_sync w = file_sync (wf_file w)"

definition win_file_size :: "win_file \<Rightarrow> u64 download_result" where
  "win_file_size w = file_size (wf_file w)"

section \<open>What it is as a storage\<close>

text \<open>It keeps the contract of a storage, and without buffering admits only whole sectors.\<close>

interpretation win_storage: async_storage "win_write_at platform" "\<lambda>w. of_bytes (wf_file w)" for platform
proof
  fix off :: nat and d :: "u8 list" and s s' :: win_file and n e
  obtain f r where fw: "file_write_at off d (wf_file s) = (f, r)" by (cases "file_write_at off d (wf_file s)")
  show "n \<le> length d \<and> of_bytes (wf_file s') = overlay (of_bytes (wf_file s)) off (take n d)"
    if "win_write_at platform off d s = (s', Inr n)"
    using that fw os_file.write_ok[of off d "wf_file s" f n] by (auto simp: win_write_at_def split: sum.splits)
  show "of_bytes (wf_file s') = of_bytes (wf_file s)" if "win_write_at platform off d s = (s', Inl e)"
    using that fw os_file.write_err[of off d "wf_file s" f e] by (auto simp: win_write_at_def split: sum.splits)
qed

definition whole_sectors :: "nat \<Rightarrow> nat \<Rightarrow> bool" where
  "whole_sectors offset len = (512 dvd offset \<and> 512 dvd len)"

interpretation unbuffered: guarded_storage "win_write_at PlatformWindows" wf_no_buffering whole_sectors
proof
  fix off :: nat and d :: "u8 list" and s s' :: win_file and r n
  show "wf_no_buffering s'" if "wf_no_buffering s" "win_write_at PlatformWindows off d s = (s', r)"
    using that by (auto simp: win_write_at_def split: sum.splits prod.splits)
  show "whole_sectors off (length d)"
    if "wf_no_buffering s" "win_write_at PlatformWindows off d s = (s', Inr n)"
    using that by (auto simp: win_write_at_def check_sectors_def SECTOR_SIZE_def whole_sectors_def
        dvd_eq_mod_eq_0 split: if_splits)
qed

lemma whole_sector_pieces: "pieces whole_sectors off lens \<Longrightarrow> 512 dvd sum_list lens"
  by (induction lens arbitrary: off) (auto simp: whole_sectors_def)

section \<open>Properties\<close>

text \<open>
  C40. Which downloads the strategy \<open>WinAligned\<close> can finish on Windows: an attempt at a fragment succeeds
  only if the fragment begins and ends at a boundary of a sector, so a file whose length is not a
  multiple of 512 is never downloaded.
\<close>

theorem unbuffered_attempt_needs_sectors:
  assumes "download_single_fragment (win_write_at PlatformWindows) permit opened elapsed idx st en env
      = (env', Inr (n, d))"
    and "wf_no_buffering (fe_storage env)"
    and "\<forall>stream. opened = Inr stream \<longrightarrow> length (delivered stream) < 2 ^ 64"
  shows "512 dvd unat st \<and> 512 dvd unat en + 1"
proof -
  from unbuffered.single_fragment_guarded[OF assms] obtain lens
    where lens: "st \<le> en" "pieces whole_sectors (unat st) lens" "sum_list lens = unat en + 1 - unat st" by blast
  have le: "unat st \<le> unat en" using lens(1) by (simp add: word_le_nat_alt)
  then have "lens \<noteq> []" using lens(3) by auto
  then have "512 dvd unat st" using lens(2) by (cases lens) (auto simp: whole_sectors_def)
  moreover have "unat en + 1 = unat st + sum_list lens" using lens(3) le by simp
  ultimately show ?thesis using whole_sector_pieces[OF lens(2)] by simp
qed

definition sector_env :: "win_file frag_env" where
  "sector_env = \<lparr>fe_storage = open_optimized \<lparr>of_bytes = [], of_outcomes = []\<rparr>, fe_control = None,
     fe_limiter = None, fe_clock = [], fe_waits = [], fe_progress = False, fe_full = [], fe_sent = []\<rparr>"

lemma sector_run:
  "length data = 512 \<Longrightarrow>
   snd (download_single_fragment (win_write_at PlatformWindows) (Inr ()) (Inr [Inr data]) 7 0 0 511 sector_env)
     = Inr (512, 7)"
  by (auto simp: download_single_fragment_def sector_env_def open_optimized_def check_control_def
      race_control_def checked_sub_def checked_add_def flush_batch_def write_all_at.simps win_write_at_def
      check_sectors_def SECTOR_SIZE_def file_write_at_def throttle_def send_progress_def Let_def)

theorem unbuffered_attempt_needs_sectors_witness:
  "512 dvd unat (0 :: u64) \<and> 512 dvd unat (511 :: u64) + 1"
proof -
  have "length (replicate 512 (7 :: u8)) = 512" by simp
  from sector_run[OF this] obtain env' where
    "download_single_fragment (win_write_at PlatformWindows) (Inr ()) (Inr [Inr (replicate 512 7)]) 7 0 0 511 sector_env
       = (env', Inr (512, 7))" by (metis prod.collapse)
  from unbuffered_attempt_needs_sectors[OF this] show ?thesis
    by (simp add: sector_env_def open_optimized_def)
qed

end
