(* ===== verification/Io_Uring.thy ===== *)
theory Io_Uring
  imports Storage_IO Write_Guards
begin

text \<open>
  \<open>tachyon-io/src/iouring.rs\<close>, on Linux: the set-up of the ring, the bitmap of its fixed buffers, and
  the operations of \<open>AsyncStorage\<close>. The kernel is a parameter: what it does with a queue entry on the
  bytes of the entry's buffer and on its own state, which holds the file.
\<close>

section \<open>Configuration\<close>

record io_uring_config =
  uc_sq_depth :: u32
  uc_cq_depth :: u32
  uc_buffer_size :: usize
  uc_buffer_count :: usize
  uc_sqpoll :: bool
  uc_sqpoll_idle_ms :: u32

definition io_uring_default :: io_uring_config where
  "io_uring_default =
     \<lparr>uc_sq_depth = 256, uc_cq_depth = 512, uc_buffer_size = 64 * 1024, uc_buffer_count = 16,
      uc_sqpoll = False, uc_sqpoll_idle_ms = 1000\<rparr>"

datatype uring_state = UringCreated | UringReady | UringUnavailable

definition validate_fixed_buffer_config :: "io_uring_config \<Rightarrow> unit download_result" where
  "validate_fixed_buffer_config config =
     (if uc_buffer_size config = 0 then Inl (Io ''buffer size is zero'')
      else if uc_buffer_count config = 0 then Inl (Io ''buffer count is zero'')
      else if uc_buffer_size config > 0xFFFFFFFF then Inl (Io ''buffer size'')
      else Inr ())"

definition validate_fixed_buffer_write_len :: "usize \<Rightarrow> usize \<Rightarrow> unit download_result" where
  "validate_fixed_buffer_write_len n buffer_len =
     (if n > buffer_len then Inl (Io ''write exceeds buffer'')
      else if n > 0xFFFFFFFF then Inl (Io ''write exceeds u32'')
      else Inr ())"

section \<open>Buffers\<close>

record aligned_buffer =
  ab_storage :: "u8 list"
  ab_offset :: usize
  ab_len :: usize

text \<open>\<open>base\<close> is the address of the allocation; \<^term>\<open>None\<close> is a failed assertion or an overflow.\<close>

definition aligned_alloc :: "usize \<Rightarrow> usize \<Rightarrow> usize \<Rightarrow> aligned_buffer option" where
  "aligned_alloc base sz align =
     (if sz = 0 \<or> \<not> is_power_of_two align then None
      else
        (let padding = align - 1
         in map_option (\<lambda>storage_len.
              (let misalignment = base AND padding
               in \<lparr>ab_storage = replicate (unat storage_len) 0,
                   ab_offset = (if misalignment = 0 then 0 else align - misalignment), ab_len = sz\<rparr>))
              (checked_add sz padding)))"

text \<open>The bytes that the kernel sees, and the buffer with other bytes there.\<close>

definition window :: "aligned_buffer \<Rightarrow> u8 list" where
  "window b = take (unat (ab_len b)) (drop (unat (ab_offset b)) (ab_storage b))"

definition set_window :: "u8 list \<Rightarrow> aligned_buffer \<Rightarrow> aligned_buffer" where
  "set_window d b =
     b\<lparr>ab_storage := take (unat (ab_offset b)) (ab_storage b) @ d
                     @ drop (unat (ab_offset b) + length d) (ab_storage b)\<rparr>"

text \<open>\<open>trailing_zeros\<close> of the standard library: the position of the lowest bit that is set, or 64.\<close>

definition trailing_zeros :: "u64 \<Rightarrow> nat" where
  "trailing_zeros w = length (takeWhile (\<lambda>i. \<not> bit w i) [0..<64])"

text \<open>
  The loop of compare and exchange: \<open>seen\<close> are the values that failed exchanges found. The code takes
  the lowest bit that is set; the bits that are set mark the buffers in use.
\<close>

fun alloc_buffer_index :: "u64 list \<Rightarrow> u64 \<Rightarrow> (nat \<times> u64) option" where
  "alloc_buffer_index [] current =
     (let idx = trailing_zeros current
      in if idx \<ge> 64 then None else Some (idx, current OR push_bit idx 1))"
| "alloc_buffer_index (actual # seen) current =
     (if trailing_zeros current \<ge> 64 then None else alloc_buffer_index seen actual)"

definition free_buffer_index :: "nat \<Rightarrow> u64 \<Rightarrow> u64" where
  "free_buffer_index idx bitmap = (if idx \<ge> 64 then bitmap else bitmap AND NOT (push_bit idx 1))"

section \<open>The ring\<close>

datatype sqe = ReadFixed u64 u32 u16 | WriteFixed u64 u32 u16 | Fsync

text \<open>\<open>uh_sq\<close>: entries pushed and not taken by the kernel; \<open>uh_cq\<close>: results not taken by the program.\<close>

record uring_handle =
  uh_poisoned :: bool
  uh_sq :: "sqe list"
  uh_cq :: "32 word list"
  uh_buffers :: "aligned_buffer list"
  uh_bitmap :: u64

record uring_storage =
  us_config :: io_uring_config
  us_path :: string
  us_open :: bool
  us_state :: uring_state
  us_ring :: "uring_handle option"

record 'k uring_kernel =
  uk_run :: "sqe \<Rightarrow> u8 list \<Rightarrow> 'k \<Rightarrow> u8 list \<times> 'k \<times> 32 word"
  uk_fallocate :: "u64 \<Rightarrow> 'k \<Rightarrow> 'k \<times> string option"
  uk_sync_all :: "'k \<Rightarrow> 'k \<times> string option"
  uk_len :: "'k \<Rightarrow> string + u64"

text \<open>
  What happens around one operation: how often the exchange fails spuriously, whether the submission
  queue has room, and whether the system call fails, before or after the kernel took the entries.
\<close>

record uring_turn =
  ut_spurious :: nat
  ut_room :: bool
  ut_submit :: "string option"
  ut_taken :: bool

definition uring_new :: "string \<Rightarrow> io_uring_config \<Rightarrow> uring_storage" where
  "uring_new path config =
     \<lparr>us_config = config, us_path = path, us_open = False, us_state = UringCreated, us_ring = None\<rparr>"

record uring_setup =
  ui_build :: "string option"
  ui_base :: "nat \<Rightarrow> usize"
  ui_register :: "string option"
  ui_open :: "string option"

definition used_mask :: "usize \<Rightarrow> u64" where
  "used_mask buffer_count = (if buffer_count \<ge> 64 then 0 else push_bit (unat buffer_count) (NOT 0))"

definition alloc_buffers :: "(nat \<Rightarrow> usize) \<Rightarrow> io_uring_config \<Rightarrow> aligned_buffer list option" where
  "alloc_buffers base config =
     those (map (\<lambda>i. aligned_alloc (base i) (uc_buffer_size config) 4096) [0..<unat (uc_buffer_count config)])"

text \<open>\<^term>\<open>None\<close> is a panic. After an error the engine stays as it was.\<close>

definition uring_init :: "uring_setup \<Rightarrow> uring_storage \<Rightarrow> (uring_storage \<times> unit download_result) option" where
  "uring_init setup us =
     (case validate_fixed_buffer_config (us_config us) of
        Inl e \<Rightarrow> Some (us, Inl e)
      | Inr _ \<Rightarrow>
          (case ui_build setup of
             Some e \<Rightarrow> Some (us, Inl (Io e))
           | None \<Rightarrow>
               Option.bind (alloc_buffers (ui_base setup) (us_config us)) (\<lambda>buffers.
                 (case ui_register setup of
                    Some e \<Rightarrow> Some (us, Inl (Io e))
                  | None \<Rightarrow>
                      (case ui_open setup of
                         Some e \<Rightarrow> Some (us, Inl (Io e))
                       | None \<Rightarrow>
                           Some (us\<lparr>us_open := True,
                                    us_ring := Some \<lparr>uh_poisoned = False, uh_sq = [], uh_cq = [],
                                      uh_buffers = buffers, uh_bitmap = used_mask (of_nat (length buffers))\<rparr>,
                                    us_state := UringReady\<rparr>, Inr ()))))))"

text \<open>The kernel takes the entries in order and appends their results.\<close>

definition run_sqe :: "'k uring_kernel \<Rightarrow> sqe \<Rightarrow> uring_handle \<times> 'k \<Rightarrow> uring_handle \<times> 'k" where
  "run_sqe kern q hk =
     (case hk of (h, k) \<Rightarrow>
        (case q of
           Fsync \<Rightarrow>
             (case uk_run kern q [] k of (_, k, res) \<Rightarrow> (h\<lparr>uh_cq := uh_cq h @ [res]\<rparr>, k))
         | ReadFixed _ _ idx \<Rightarrow>
             (case uk_run kern q (window (uh_buffers h ! unat idx)) k of
                (d, k, res) \<Rightarrow>
                  (h\<lparr>uh_buffers := (uh_buffers h)[unat idx := set_window d (uh_buffers h ! unat idx)],
                     uh_cq := uh_cq h @ [res]\<rparr>, k))
         | WriteFixed _ _ idx \<Rightarrow>
             (case uk_run kern q (window (uh_buffers h ! unat idx)) k of
                (_, k, res) \<Rightarrow> (h\<lparr>uh_cq := uh_cq h @ [res]\<rparr>, k))))"

definition take_sqes :: "'k uring_kernel \<Rightarrow> uring_handle \<times> 'k \<Rightarrow> uring_handle \<times> 'k" where
  "take_sqes kern hk =
     (case fold (run_sqe kern) (uh_sq (fst hk)) hk of (h, k) \<Rightarrow> (h\<lparr>uh_sq := []\<rparr>, k))"

text \<open>Push, submit and wait, and take one result, which need not be that of the entry just pushed.\<close>

definition submit_one ::
    "'k uring_kernel \<Rightarrow> uring_turn \<Rightarrow> sqe \<Rightarrow> uring_handle \<times> 'k \<Rightarrow> (uring_handle \<times> 'k) \<times> 32 word download_result" where
  "submit_one kern turn q hk =
     (case hk of (h, k) \<Rightarrow>
        if \<not> ut_room turn then ((h, k), Inl (Io ''submission queue full''))
        else
          (let h = h\<lparr>uh_sq := uh_sq h @ [q]\<rparr>
           in case ut_submit turn of
                Some e \<Rightarrow> (if ut_taken turn then take_sqes kern (h, k) else (h, k), Inl (Io e))
              | None \<Rightarrow>
                  (case take_sqes kern (h, k) of
                     (h, k) \<Rightarrow>
                       (case uh_cq h of
                          [] \<Rightarrow> ((h, k), Inl (Io ''completion queue closed''))
                        | res # cq \<Rightarrow>
                            ((h\<lparr>uh_cq := cq\<rparr>, k),
                             if sint res < 0 then Inl (Io ''os error'') else Inr res)))))"

text \<open>
  The blocking task that holds the lock of the ring. A body without a result panics: the lock is
  poisoned and the join reports an error.
\<close>

type_synonym 'k uring_world = "uring_storage \<times> 'k"

definition locked ::
    "(uring_handle \<times> 'k \<Rightarrow> (uring_handle \<times> 'k) \<times> 'a download_result option) \<Rightarrow> uring_handle \<Rightarrow> 'k uring_world \<Rightarrow>
     'k uring_world \<times> 'a download_result" where
  "locked body h w =
     (case w of (us, k) \<Rightarrow>
        if uh_poisoned h then ((us, k), Inl (Io ''poisoned''))
        else
          (case body (h, k) of
             ((h, k), Some r) \<Rightarrow> ((us\<lparr>us_ring := Some h\<rparr>, k), r)
           | ((h, k), None) \<Rightarrow> ((us\<lparr>us_ring := Some (h\<lparr>uh_poisoned := True\<rparr>)\<rparr>, k), Inl (Io ''panic''))))"

text \<open>A buffer is taken for the operation and given back after it; an index out of range panics.\<close>

definition with_buffer ::
    "nat \<Rightarrow> (nat \<Rightarrow> uring_handle \<times> 'k \<Rightarrow> (uring_handle \<times> 'k) \<times> 'a download_result) \<Rightarrow> uring_handle \<times> 'k \<Rightarrow>
     (uring_handle \<times> 'k) \<times> 'a download_result option" where
  "with_buffer spurious io hk =
     (case hk of (h, k) \<Rightarrow>
        (case alloc_buffer_index (replicate spurious (uh_bitmap h)) (uh_bitmap h) of
           None \<Rightarrow> ((h, k), Some (Inl (Io ''buffers exhausted'')))
         | Some (idx, bitmap) \<Rightarrow>
             (let h = h\<lparr>uh_bitmap := bitmap\<rparr>
              in if idx \<ge> length (uh_buffers h) then ((h, k), None)
                 else
                   (case io idx (h, k) of
                      ((h, k), r) \<Rightarrow>
                        ((h\<lparr>uh_bitmap := free_buffer_index idx (uh_bitmap h)\<rparr>, k), Some r)))))"

section \<open>Operations\<close>

definition read_fixed ::
    "'k uring_kernel \<Rightarrow> uring_turn \<Rightarrow> u64 \<Rightarrow> usize \<Rightarrow> nat \<Rightarrow> uring_handle \<times> 'k \<Rightarrow>
     (uring_handle \<times> 'k) \<times> u8 list download_result" where
  "read_fixed kern turn offset read_len idx hk =
     (let actual_len = min read_len (ab_len (uh_buffers (fst hk) ! idx))
      in case submit_one kern turn (ReadFixed offset (ucast actual_len) (of_nat idx)) hk of
           (hk, r) \<Rightarrow>
             (hk, map_sum id (\<lambda>bytes_read. take (unat bytes_read) (window (uh_buffers (fst hk) ! idx))) r))"

definition submit_read ::
    "'k uring_kernel \<Rightarrow> uring_turn \<Rightarrow> u64 \<Rightarrow> usize \<Rightarrow> 'k uring_world \<Rightarrow> 'k uring_world \<times> u8 list download_result" where
  "submit_read kern turn offset read_len w =
     (case us_ring (fst w) of
        None \<Rightarrow> (w, Inl (Io ''not connected''))
      | Some h \<Rightarrow>
          if \<not> us_open (fst w) then (w, Inl (Io ''not open''))
          else locked (with_buffer (ut_spurious turn) (read_fixed kern turn offset read_len)) h w)"

definition write_fixed ::
    "'k uring_kernel \<Rightarrow> uring_turn \<Rightarrow> u64 \<Rightarrow> u8 list \<Rightarrow> nat \<Rightarrow> uring_handle \<times> 'k \<Rightarrow>
     (uring_handle \<times> 'k) \<times> usize download_result" where
  "write_fixed kern turn offset data idx hk =
     (case hk of (h, k) \<Rightarrow>
        (let h = h\<lparr>uh_buffers := (uh_buffers h)[idx := set_window data (uh_buffers h ! idx)]\<rparr>
         in case submit_one kern turn (WriteFixed offset (of_nat (length data)) (of_nat idx)) (h, k) of
              (hk, r) \<Rightarrow> (hk, map_sum id (\<lambda>res. ucast res) r)))"

definition submit_write ::
    "'k uring_kernel \<Rightarrow> uring_turn \<Rightarrow> u64 \<Rightarrow> u8 list \<Rightarrow> 'k uring_world \<Rightarrow> 'k uring_world \<times> usize download_result" where
  "submit_write kern turn offset data w =
     (case us_ring (fst w) of
        None \<Rightarrow> (w, Inl (Io ''not connected''))
      | Some h \<Rightarrow>
          if \<not> us_open (fst w) then (w, Inl (Io ''not open''))
          else
            (case uh_buffers h of
               [] \<Rightarrow> (w, Inl (Io ''no buffers''))
             | b # _ \<Rightarrow>
                 (case validate_fixed_buffer_write_len (of_nat (length data)) (ab_len b) of
                    Inl e \<Rightarrow> (w, Inl e)
                  | Inr _ \<Rightarrow>
                      locked (with_buffer (ut_spurious turn) (write_fixed kern turn offset data)) h w)))"

definition submit_sync :: "'k uring_kernel \<Rightarrow> uring_turn \<Rightarrow> 'k uring_world \<Rightarrow> 'k uring_world \<times> unit download_result" where
  "submit_sync kern turn w =
     (case us_ring (fst w) of
        None \<Rightarrow> (w, Inl (Io ''not connected''))
      | Some h \<Rightarrow>
          if \<not> us_open (fst w) then (w, Inl (Io ''not open''))
          else
            locked (\<lambda>hk.
              (case submit_one kern turn Fsync hk of (hk, r) \<Rightarrow> (hk, Some (map_sum id (\<lambda>_. ()) r)))) h w)"

definition submit_allocate :: "'k uring_kernel \<Rightarrow> u64 \<Rightarrow> 'k uring_world \<Rightarrow> 'k uring_world \<times> unit download_result" where
  "submit_allocate kern sz w =
     (case w of (us, k) \<Rightarrow>
        if \<not> us_open us then ((us, k), Inl (Io ''not open''))
        else
          (case uk_fallocate kern sz k of
             (k, Some e) \<Rightarrow> ((us, k), Inl (Io e))
           | (k, None) \<Rightarrow> ((us, k), Inr ())))"

definition if_ready :: "'k uring_world \<Rightarrow> 'k uring_world \<times> 'a download_result \<Rightarrow> 'k uring_world \<times> 'a download_result" where
  "if_ready w r = (if us_state (fst w) = UringReady then r else (w, Inl (Io ''not connected'')))"

definition uring_write_at ::
    "'k uring_kernel \<Rightarrow> uring_turn \<Rightarrow> u64 \<Rightarrow> u8 list \<Rightarrow> 'k uring_world \<Rightarrow> 'k uring_world \<times> usize download_result" where
  "uring_write_at kern turn offset data w =
     if_ready w
       (case validate_fixed_buffer_write_len (of_nat (length data)) (uc_buffer_size (us_config (fst w))) of
          Inl e \<Rightarrow> (w, Inl e)
        | Inr _ \<Rightarrow> submit_write kern turn offset data w)"

definition uring_read_at ::
    "'k uring_kernel \<Rightarrow> uring_turn \<Rightarrow> u64 \<Rightarrow> usize \<Rightarrow> 'k uring_world \<Rightarrow> 'k uring_world \<times> u8 list download_result" where
  "uring_read_at kern turn offset read_len w = if_ready w (submit_read kern turn offset read_len w)"

definition uring_sync :: "'k uring_kernel \<Rightarrow> uring_turn \<Rightarrow> 'k uring_world \<Rightarrow> 'k uring_world \<times> unit download_result" where
  "uring_sync kern turn w = if_ready w (submit_sync kern turn w)"

definition uring_allocate :: "'k uring_kernel \<Rightarrow> u64 \<Rightarrow> 'k uring_world \<Rightarrow> 'k uring_world \<times> unit download_result" where
  "uring_allocate kern sz w = if_ready w (submit_allocate kern sz w)"

definition uring_file_size :: "'k uring_kernel \<Rightarrow> 'k uring_world \<Rightarrow> u64 download_result" where
  "uring_file_size kern w =
     snd (if_ready w
       (w, if us_open (fst w) then map_err Io (uk_len kern (snd w)) else Inl (Io ''not open'')))"

definition uring_close :: "'k uring_kernel \<Rightarrow> 'k uring_world \<Rightarrow> 'k uring_world \<times> unit download_result" where
  "uring_close kern w =
     (case w of (us, k) \<Rightarrow>
        if us_state us = UringReady \<and> us_open us then
          (case uk_sync_all kern k of
             (k, Some e) \<Rightarrow> ((us, k), Inl (Io e))
           | (k, None) \<Rightarrow> ((us, k), Inr ()))
        else ((us, k), Inr ()))"

section \<open>The bitmap\<close>

lemma trailing_zeros_used_mask: "trailing_zeros (used_mask n) = min (unat n) 64"
proof (cases "64 \<le> n")
  case True
  then have n: "64 \<le> unat n" by (simp add: word_le_nat_alt)
  have all: "takeWhile (\<lambda>i. True) xs = xs" for xs :: "nat list" by (induction xs) auto
  show ?thesis using True n by (simp add: used_mask_def trailing_zeros_def all)
next
  case False
  then have n: "unat n < 64" by (simp add: not_le word_less_nat_alt)
  have parts: "[0..<64] = [0..<unat n] @ unat n # [Suc (unat n)..<64]"
    using n by (metis upt_conv_Cons upt_add_eq_append zero_le le_add_diff_inverse less_imp_le)
  have low: "\<not> bit (used_mask n) i" if "i < unat n" for i
    using that False by (simp add: used_mask_def bit_simps)
  have high: "bit (used_mask n) (unat n)"
    using n False by (simp add: used_mask_def bit_simps)
  have "takeWhile (\<lambda>i. \<not> bit (used_mask n) i) [0..<64] = [0..<unat n]"
    unfolding parts by (subst takeWhile_append2) (use low high in auto)
  then show ?thesis using n by (simp add: trailing_zeros_def)
qed

lemma alloc_buffer_index_same:
  "alloc_buffer_index (replicate n w) w =
     (if trailing_zeros w \<ge> 64 then None else Some (trailing_zeros w, w OR push_bit (trailing_zeros w) 1))"
  by (induction n) (simp_all add: Let_def)

text \<open>
  A ring whose lowest set bit is not that of a buffer: no buffer is found, or one that does not exist,
  and only synchronisations are ever queued.
\<close>

definition dead :: "uring_storage \<Rightarrow> bool" where
  "dead us = (case us_ring us of
     None \<Rightarrow> True
   | Some h \<Rightarrow> set (uh_sq h) \<subseteq> {Fsync} \<and>
       (uh_poisoned h \<or> min 64 (length (uh_buffers h)) \<le> trailing_zeros (uh_bitmap h)))"

lemma with_buffer_dead:
  assumes "min 64 (length (uh_buffers h)) \<le> trailing_zeros (uh_bitmap h)"
    and "with_buffer n io (h, k) = ((h', k'), r)"
  shows "(r = None \<or> r = Some (Inl (Io ''buffers exhausted''))) \<and> k' = k \<and> uh_poisoned h' = uh_poisoned h \<and>
    uh_sq h' = uh_sq h \<and> (r \<noteq> None \<longrightarrow> h' = h)"
proof (cases "trailing_zeros (uh_bitmap h) \<ge> 64")
  case True
  then show ?thesis using assms(2) by (auto simp: with_buffer_def alloc_buffer_index_same)
next
  case False
  then show ?thesis
    using assms by (auto simp: with_buffer_def alloc_buffer_index_same Let_def min_def split: if_splits)
qed

lemma locked_with_buffer_dead:
  assumes "dead us" "us_ring us = Some h" "locked (with_buffer n io) h (us, k) = ((us', k'), r)"
  shows "dead us' \<and> k' = k \<and> (\<exists>e. r = Inl e)"
proof (cases "uh_poisoned h")
  case True
  then show ?thesis using assms by (auto simp: locked_def)
next
  case False
  then have d: "min 64 (length (uh_buffers h)) \<le> trailing_zeros (uh_bitmap h)"
    using assms(1,2) by (simp add: dead_def)
  obtain h1 k1 r1 where wb: "with_buffer n io (h, k) = ((h1, k1), r1)" by (metis prod.collapse)
  from with_buffer_dead[OF d wb] show ?thesis
    using assms False wb d by (auto simp: locked_def dead_def)
qed

lemma write_dead:
  assumes "dead us" "uring_write_at kern turn offset data (us, k) = ((us', k'), r)"
  shows "dead us' \<and> k' = k \<and> (\<exists>e. r = Inl e)"
proof -
  have "(us' = us \<and> k' = k \<and> (\<exists>e. r = Inl e)) \<or>
      (\<exists>h. us_ring us = Some h \<and>
         locked (with_buffer (ut_spurious turn) (write_fixed kern turn offset data)) h (us, k) = ((us', k'), r))"
    using assms(2)
    by (simp add: uring_write_at_def if_ready_def submit_write_def
        split: if_splits sum.splits option.splits list.splits) blast+
  then consider "us' = us \<and> k' = k \<and> (\<exists>e. r = Inl e)"
    | h where "us_ring us = Some h"
        "locked (with_buffer (ut_spurious turn) (write_fixed kern turn offset data)) h (us, k) = ((us', k'), r)" by blast
  then show ?thesis
  proof cases
    case 2
    from locked_with_buffer_dead[OF assms(1) 2] show ?thesis .
  qed (simp add: assms(1))
qed

lemma read_dead:
  assumes "dead us" "uring_read_at kern turn offset n (us, k) = ((us', k'), r)"
  shows "dead us' \<and> k' = k \<and> (\<exists>e. r = Inl e)"
proof -
  have "(us' = us \<and> k' = k \<and> (\<exists>e. r = Inl e)) \<or>
      (\<exists>h. us_ring us = Some h \<and>
         locked (with_buffer (ut_spurious turn) (read_fixed kern turn offset n)) h (us, k) = ((us', k'), r))"
    using assms(2)
    by (simp add: uring_read_at_def if_ready_def submit_read_def split: if_splits option.splits) blast+
  then consider "us' = us \<and> k' = k \<and> (\<exists>e. r = Inl e)"
    | h where "us_ring us = Some h"
        "locked (with_buffer (ut_spurious turn) (read_fixed kern turn offset n)) h (us, k) = ((us', k'), r)" by blast
  then show ?thesis
  proof cases
    case 2
    from locked_with_buffer_dead[OF assms(1) 2] show ?thesis .
  qed (simp add: assms(1))
qed

section \<open>Set-up\<close>

lemma length_those: "those xs = Some ys \<Longrightarrow> length ys = length xs"
  by (induction xs arbitrary: ys) (auto split: option.splits)

lemma init_dead:
  assumes "uring_init setup us = Some (us', Inr ())"
  shows "dead us'"
proof -
  obtain buffers where b: "alloc_buffers (ui_base setup) (us_config us) = Some buffers"
    "us_ring us' = Some \<lparr>uh_poisoned = False, uh_sq = [], uh_cq = [], uh_buffers = buffers,
       uh_bitmap = used_mask (of_nat (length buffers))\<rparr>"
    using assms by (auto simp: uring_init_def bind_eq_Some_conv split: sum.splits option.splits)
  then have "length buffers = unat (uc_buffer_count (us_config us))"
    by (auto simp: alloc_buffers_def dest: length_those)
  then show ?thesis using b(2) by (simp add: dead_def trailing_zeros_used_mask)
qed

text \<open>The buffers lie on a boundary of 4096 bytes, inside their allocation.\<close>

lemma aligned_alloc_aligned:
  assumes "aligned_alloc base sz 4096 = Some b"
  shows "4096 dvd uint (base + ab_offset b) \<and> unat (ab_offset b) < 4096 \<and>
    unat (ab_offset b) + unat (ab_len b) \<le> length (ab_storage b)"
proof -
  have mask: "base AND 4095 = take_bit 12 base" by (simp add: take_bit_eq_mask mask_eq_exp_minus_1)
  define m where "m = uint base mod 4096"
  have "uint (base AND 4095) = take_bit 12 (uint base)" by (simp only: mask unsigned_take_bit_eq)
  then have m: "uint (base AND 4095) = m" "0 \<le> m" "m < 4096"
    by (simp_all add: m_def take_bit_eq_mod)
  have len: "length (ab_storage b) = unat sz + 4095" "ab_len b = sz"
    using assms by (auto simp: aligned_alloc_def Let_def checked_add_Some_iff split: if_splits)
  show ?thesis
  proof (cases "base AND 4095 = 0")
    case True
    then have "ab_offset b = 0" "m = 0"
      using assms m(1) by (auto simp: aligned_alloc_def Let_def split: if_splits)
    then show ?thesis using len m_def by auto
  next
    case False
    then have off: "ab_offset b = 4096 - (base AND 4095)"
      using assms by (auto simp: aligned_alloc_def Let_def split: if_splits)
    have pos: "0 < m" using False m(1,2) by (metis uint_0_iff less_le)
    have le: "base AND 4095 \<le> 4096" using m by (simp add: word_le_def)
    have "uint (4096 - (base AND 4095)) = 4096 - m"
      using le m(1) by (simp add: uint_sub_lem[THEN iffD1] word_le_def)
    then have o: "uint (ab_offset b) = 4096 - m" by (simp add: off)
    have "uint (base + ab_offset b) = (uint base + (4096 - m)) mod 2 ^ 64"
      by (simp add: uint_word_ariths o)
    moreover have next_block: "b + (4096 - b mod 4096) = 4096 * (b div 4096 + 1)" for b :: int by presburger
    have "uint base + (4096 - m) = 4096 * (uint base div 4096 + 1)" unfolding m_def by (rule next_block)
    then have "4096 dvd uint base + (4096 - m)" by (rule dvdI)
    ultimately have "4096 dvd uint (base + ab_offset b)" by (simp add: dvd_mod)
    moreover have "unat (ab_offset b) < 4096" using o pos by (simp add: unat_eq_nat_uint)
    ultimately show ?thesis using len by auto
  qed
qed

section \<open>Traces\<close>

datatype uring_op =
    UWrite uring_turn u64 "u8 list"
  | URead uring_turn u64 usize
  | USync uring_turn
  | UAllocate u64
  | UClose

fun is_transfer :: "uring_op \<Rightarrow> bool" where
  "is_transfer (UWrite _ _ _) = True"
| "is_transfer (URead _ _ _) = True"
| "is_transfer _ = False"

text \<open>An operation and whether it succeeded.\<close>

fun uring_op_run :: "'k uring_kernel \<Rightarrow> uring_op \<Rightarrow> 'k uring_world \<Rightarrow> 'k uring_world \<times> bool" where
  "uring_op_run kern (UWrite turn offset data) w = (case uring_write_at kern turn offset data w of (w, r) \<Rightarrow> (w, is_ok r))"
| "uring_op_run kern (URead turn offset n) w = (case uring_read_at kern turn offset n w of (w, r) \<Rightarrow> (w, is_ok r))"
| "uring_op_run kern (USync turn) w = (case uring_sync kern turn w of (w, r) \<Rightarrow> (w, is_ok r))"
| "uring_op_run kern (UAllocate n) w = (case uring_allocate kern n w of (w, r) \<Rightarrow> (w, is_ok r))"
| "uring_op_run kern UClose w = (case uring_close kern w of (w, r) \<Rightarrow> (w, is_ok r))"

fun uring_trace :: "'k uring_kernel \<Rightarrow> uring_op list \<Rightarrow> 'k uring_world \<Rightarrow> 'k uring_world \<times> (uring_op \<times> bool) list" where
  "uring_trace kern [] w = (w, [])"
| "uring_trace kern (op # ops) w =
     (case uring_op_run kern op w of
        (w, ok) \<Rightarrow> (case uring_trace kern ops w of (w, outs) \<Rightarrow> (w, (op, ok) # outs)))"

text \<open>
  What \<open>fsync\<close> and \<open>fallocate\<close> are documented to do: the first leaves the content of the file, the
  second at most adds zero bytes at its end.
\<close>

definition keeps_content :: "('k \<Rightarrow> u8 list) \<Rightarrow> 'k uring_kernel \<Rightarrow> bool" where
  "keeps_content content kern =
     (\<forall>k. content (fst (snd (uk_run kern Fsync [] k))) = content k \<and>
          content (fst (uk_sync_all kern k)) = content k \<and>
          (\<forall>n. \<exists>z. content (fst (uk_fallocate kern n k)) = content k @ replicate z 0))"

lemma take_fsyncs:
  assumes "keeps_content content kern" "set (uh_sq h) \<subseteq> {Fsync}" "take_sqes kern (h, k) = (h', k')"
  shows "uh_sq h' = [] \<and> uh_poisoned h' = uh_poisoned h \<and> uh_buffers h' = uh_buffers h \<and>
    uh_bitmap h' = uh_bitmap h \<and> content k' = content k"
proof -
  have "uh_poisoned g' = uh_poisoned g \<and> uh_buffers g' = uh_buffers g \<and> uh_bitmap g' = uh_bitmap g \<and>
      content k' = content k"
    if "set qs \<subseteq> {Fsync}" "fold (run_sqe kern) qs (g, k) = (g', k')" for qs g g' k k'
    using that
  proof (induction qs arbitrary: g k)
    case (Cons q qs)
    obtain d k1 res where run: "uk_run kern Fsync [] k = (d, k1, res)" by (metis prod.collapse)
    then have "content k1 = content k" using assms(1) by (metis keeps_content_def fst_conv snd_conv)
    then show ?case using Cons.IH[of "g\<lparr>uh_cq := uh_cq g @ [res]\<rparr>" k1] Cons.prems run
      by (simp add: run_sqe_def)
  qed simp
  then show ?thesis using assms(2,3) by (auto simp: take_sqes_def split: prod.splits)
qed

lemma sync_dead:
  assumes ok: "keeps_content content kern" and "dead us" "uring_sync kern turn (us, k) = ((us', k'), r)"
  shows "dead us' \<and> content k' = content k"
proof -
  consider "us' = us \<and> k' = k" | h where "us_ring us = Some h" "\<not> uh_poisoned h"
      "locked (\<lambda>hk. (case submit_one kern turn Fsync hk of (hk, r) \<Rightarrow> (hk, Some (map_sum id (\<lambda>_. ()) r)))) h (us, k)
        = ((us', k'), r)"
    using assms(3) by (cases "us_ring us")
      (auto simp: uring_sync_def if_ready_def submit_sync_def locked_def split: if_splits)
  then show ?thesis
  proof cases
    case 2
    have d: "set (uh_sq h) \<subseteq> {Fsync}" "min 64 (length (uh_buffers h)) \<le> trailing_zeros (uh_bitmap h)"
      using assms(2) 2(1,2) by (simp_all add: dead_def)
    let ?h = "h\<lparr>uh_sq := uh_sq h @ [Fsync]\<rparr>"
    obtain h1 k1 where t: "take_sqes kern (?h, k) = (h1, k1)" by (cases "take_sqes kern (?h, k)")
    have "set (uh_sq ?h) \<subseteq> {Fsync}" using d(1) by simp
    note h1 = take_fsyncs[OF ok this t]
    obtain h2 k2 q where s: "submit_one kern turn Fsync (h, k) = ((h2, k2), q)" by (metis prod.collapse)
    have "content k2 = content k \<and> set (uh_sq h2) \<subseteq> {Fsync} \<and> uh_buffers h2 = uh_buffers h \<and>
        uh_bitmap h2 = uh_bitmap h"
      using s t h1 d(1) by (auto simp: submit_one_def Let_def split: if_splits option.splits list.splits)
    then show ?thesis using 2 s d(2) by (auto simp: locked_def dead_def)
  qed (simp add: assms(2))
qed

lemma op_dead:
  assumes "keeps_content content kern" "dead us" "uring_op_run kern op (us, k) = ((us', k'), b)"
  shows "dead us' \<and> (is_transfer op \<longrightarrow> \<not> b) \<and> (\<exists>z. content k' = content k @ replicate z 0)"
proof (cases op)
  case (UWrite turn offset data)
  obtain u q r where w: "uring_write_at kern turn offset data (us, k) = ((u, q), r)" by (metis prod.collapse)
  from write_dead[OF assms(2) this] show ?thesis using assms(3) UWrite w by (auto intro: exI[of _ 0])
next
  case (URead turn offset n)
  obtain u q r where w: "uring_read_at kern turn offset n (us, k) = ((u, q), r)" by (metis prod.collapse)
  from read_dead[OF assms(2) this] show ?thesis using assms(3) URead w by (auto intro: exI[of _ 0])
next
  case (USync turn)
  obtain u q r where w: "uring_sync kern turn (us, k) = ((u, q), r)" by (metis prod.collapse)
  from sync_dead[OF assms(1,2) this] show ?thesis using assms(3) USync w by (auto intro: exI[of _ 0])
next
  case (UAllocate n)
  obtain z where "content (fst (uk_fallocate kern n k)) = content k @ replicate z 0"
    using assms(1) unfolding keeps_content_def by blast
  then show ?thesis using assms(2,3) UAllocate
    by (auto simp: uring_allocate_def if_ready_def submit_allocate_def
        split: if_splits prod.splits option.splits intro: exI[of _ z] exI[of _ 0])
next
  case UClose
  have "content (fst (uk_sync_all kern k)) = content k" using assms(1) by (simp add: keeps_content_def)
  then show ?thesis using assms(2,3) UClose
    by (auto simp: uring_close_def split: if_splits prod.splits option.splits intro: exI[of _ 0])
qed

lemma trace_dead:
  assumes "keeps_content content kern" "dead us" "uring_trace kern ops (us, k) = ((us', k'), outs)"
  shows "(\<forall>(op, b) \<in> set outs. is_transfer op \<longrightarrow> \<not> b) \<and> (\<exists>z. content k' = content k @ replicate z 0)"
  using assms(2,3)
proof (induction ops arbitrary: us k outs)
  case Nil
  then show ?case by (auto intro: exI[of _ 0])
next
  case (Cons op ops)
  obtain u1 k1 b where o: "uring_op_run kern op (us, k) = ((u1, k1), b)" by (metis prod.collapse)
  obtain w2 outs' where t: "uring_trace kern ops (u1, k1) = (w2, outs')"
    by (cases "uring_trace kern ops (u1, k1)")
  have outs: "w2 = (us', k')" "outs = (op, b) # outs'" using Cons.prems(2) o t by auto
  note d = op_dead[OF assms(1) Cons.prems(1) o]
  then obtain z where z: "content k1 = content k @ replicate z 0" by blast
  from Cons.IH[of u1 k1 outs'] d t outs obtain z' where
    "\<forall>(op, b) \<in> set outs'. is_transfer op \<longrightarrow> \<not> b" "content k' = content k1 @ replicate z' 0" by auto
  then show ?case using d z outs(2)
    by (intro conjI exI[of _ "z + z'"]) (auto simp: replicate_add)
qed

section \<open>The engine as the storage of a download\<close>

definition calm_turn :: uring_turn where
  "calm_turn = \<lparr>ut_spurious = 0, ut_room = True, ut_submit = None, ut_taken = False\<rparr>"

definition uring_backend ::
    "'k uring_kernel \<Rightarrow> nat \<Rightarrow> u8 list \<Rightarrow> 'k uring_world \<times> uring_turn list \<Rightarrow>
     ('k uring_world \<times> uring_turn list) \<times> nat download_result" where
  "uring_backend kern offset data s =
     (case s of (w, turns) \<Rightarrow>
        (case uring_write_at kern (head_or calm_turn turns) (of_nat offset) data w of
           (w, r) \<Rightarrow> ((w, tl turns), map_sum id unat r)))"

interpretation uring: guarded_storage "uring_backend kern" "\<lambda>s. dead (fst (fst s))" "\<lambda>_ _. False" for kern
proof
  fix s s' :: "'a uring_world \<times> uring_turn list" and off :: nat and d :: "u8 list" and r n
  obtain us k turns where s: "s = ((us, k), turns)" by (metis prod.collapse)
  obtain us1 k1 q where w: "uring_write_at kern (head_or calm_turn turns) (of_nat off) d (us, k) = ((us1, k1), q)"
    by (metis prod.collapse)
  have dead: "dead us1 \<and> k1 = k \<and> (\<exists>e. q = Inl e)" if "dead us" by (rule write_dead[OF that w])
  show "dead (fst (fst s'))" if "dead (fst (fst s))" "uring_backend kern off d s = (s', r)"
    using that dead s w by (auto simp: uring_backend_def)
  show False if "dead (fst (fst s))" "uring_backend kern off d s = (s', Inr n)"
    using that dead s w by (auto simp: uring_backend_def)
qed

section \<open>Properties\<close>

text \<open>
  C38. The \<open>io_uring\<close> engine transfers nothing. Once it is initialised, with any configuration, no write
  and no read ever succeeds, whatever the kernel answers, and in any sequence of operations the file
  gets no byte of the download: at most zeros are appended by the allocation. The bitmap has a bit set
  for each buffer in use and for each that does not exist, and the code takes the lowest bit that is
  set for a free one.
\<close>

theorem uring_never_transfers:
  assumes "uring_init setup (uring_new path config) = Some (us, Inr ())"
    and "uring_trace kern ops (us, k) = ((us', k'), outs)" "keeps_content content kern"
  shows "filter (\<lambda>(op, ok). is_transfer op \<and> ok) outs = [] \<and>
    (\<exists>z. content k' = content k @ replicate z 0)"
  using trace_dead[OF assms(3) init_dead[OF assms(1)] assms(2)] by (auto simp: filter_empty_conv)

text \<open>A kernel that does what is asked: the file is its bytes.\<close>

definition plain_kernel :: "u8 list uring_kernel" where
  "plain_kernel =
     \<lparr>uk_run = (\<lambda>q d k. case q of
          Fsync \<Rightarrow> (d, k, 0)
        | ReadFixed off n _ \<Rightarrow>
            (let got = take (unat n) (drop (unat off) k) in (got @ drop (length got) d, k, of_nat (length got)))
        | WriteFixed off n _ \<Rightarrow> (d, overlay k (unat off) (take (unat n) d), ucast n)),
      uk_fallocate = (\<lambda>n k. (k @ replicate (unat n - length k) 0, None)),
      uk_sync_all = (\<lambda>k. (k, None)), uk_len = (\<lambda>k. Inr (of_nat (length k)))\<rparr>"

definition tiny_config :: io_uring_config where
  "tiny_config = io_uring_default\<lparr>uc_buffer_size := 1, uc_buffer_count := 1\<rparr>"

definition plain_setup :: uring_setup where
  "plain_setup = \<lparr>ui_build = None, ui_base = (\<lambda>_. 0), ui_register = None, ui_open = None\<rparr>"

lemma tiny_init: "\<exists>us. uring_init plain_setup (uring_new ''f'' tiny_config) = Some (us, Inr ())"
  by (simp add: uring_init_def uring_new_def tiny_config_def io_uring_default_def plain_setup_def
      validate_fixed_buffer_config_def alloc_buffers_def aligned_alloc_def is_power_of_two_def
      checked_add_def Let_def)

theorem uring_never_transfers_witness:
  "\<exists>us us' k' outs. uring_init plain_setup (uring_new ''f'' tiny_config) = Some (us, Inr ()) \<and>
     uring_trace plain_kernel [UAllocate 2, UWrite calm_turn 0 [7]] (us, []) = ((us', k'), outs) \<and>
     filter (\<lambda>(op, ok). is_transfer op \<and> ok) outs = [] \<and> (\<exists>z. k' = replicate z 0)"
proof -
  obtain us where us: "uring_init plain_setup (uring_new ''f'' tiny_config) = Some (us, Inr ())"
    using tiny_init by blast
  obtain us' k' outs where t:
    "uring_trace plain_kernel [UAllocate 2, UWrite calm_turn 0 [7]] (us, []) = ((us', k'), outs)"
    by (metis prod.collapse)
  have "keeps_content id plain_kernel" by (auto simp: keeps_content_def plain_kernel_def)
  from uring_never_transfers[OF us t this] us t show ?thesis by auto
qed

text \<open>
  A download to the \<open>io_uring\<close> engine cannot finish: no attempt at any fragment succeeds, whatever
  the server sends.
\<close>

theorem uring_attempt_never_succeeds:
  assumes "uring_init setup (uring_new path config) = Some (us, Inr ())"
    and "fst (fst (fe_storage env)) = us"
    and "\<forall>stream. opened = Inr stream \<longrightarrow> length (delivered stream) < 2 ^ 64"
  shows "\<exists>e. snd (download_single_fragment (uring_backend kern) permit opened elapsed idx st en env) = Inl e"
proof (cases "snd (download_single_fragment (uring_backend kern) permit opened elapsed idx st en env)")
  case (Inr r)
  then obtain env' n d where run:
    "download_single_fragment (uring_backend kern) permit opened elapsed idx st en env = (env', Inr (n, d))"
    by (metis prod.collapse)
  have "dead (fst (fst (fe_storage env)))" using init_dead[OF assms(1)] assms(2) by simp
  from uring.single_fragment_guarded[OF run this assms(3)] obtain lens
    where lens: "st \<le> en" "pieces (\<lambda>_ _. False) (unat st) lens" "sum_list lens = unat en + 1 - unat st" by blast
  then have "lens = []" by (cases lens) auto
  then show ?thesis using lens(1,3) by (simp add: word_le_nat_alt)
qed simp

definition uring_env :: "uring_storage \<Rightarrow> (u8 list uring_world \<times> uring_turn list) frag_env" where
  "uring_env us = \<lparr>fe_storage = ((us, []), []), fe_control = None, fe_limiter = None, fe_clock = [],
     fe_waits = [], fe_progress = False, fe_full = [], fe_sent = []\<rparr>"

theorem uring_attempt_never_succeeds_witness:
  "\<exists>us e. uring_init plain_setup (uring_new ''f'' tiny_config) = Some (us, Inr ()) \<and>
     snd (download_single_fragment (uring_backend plain_kernel) (Inr ()) (Inr [Inr [7]]) 0 0 0 0 (uring_env us)) = Inl e"
proof -
  obtain us where us: "uring_init plain_setup (uring_new ''f'' tiny_config) = Some (us, Inr ())"
    using tiny_init by blast
  have "fst (fst (fe_storage (uring_env us))) = us"
    "\<forall>stream. Inr [Inr [7]] = (Inr stream :: u8 list download_result list download_result) \<longrightarrow>
       length (delivered stream) < 2 ^ 64"
    by (auto simp: uring_env_def)
  from uring_attempt_never_succeeds[OF us this] us show ?thesis by blast
qed

end
