(* ===== verification/Iocp.thy ===== *)
theory Iocp
  imports Storage_IO "HOL-Library.Multiset"
begin

text \<open>
  \<open>tachyon-io/src/iocp.rs\<close> on Windows: writes through a completion port. Every interleaving of the
  writes, the polling thread, the kernel and the drop of the storage is a sequence of actions on the
  shared state; the memory that the kernel uses while a write is pending is what must stay alive.
\<close>

section \<open>Errors\<close>

definition map_windows_error :: "u32 \<Rightarrow> download_error" where
  "map_windows_error code =
     (if code = 38 then Io ''UnexpectedEof''
      else if code = 5 then Forbidden 403
      else if code = 112 then Io ''StorageFull''
      else if code = 995 then Cancelled_Error
      else if code = 996 \<or> code = 997 then Io ''WouldBlock''
      else Io ''os error'')"

text \<open>\<open>rtl\<close> is \<open>RtlNtStatusToDosError\<close>.\<close>

definition map_ntstatus_error :: "(32 word \<Rightarrow> u32) \<Rightarrow> 32 word \<Rightarrow> download_error" where
  "map_ntstatus_error rtl status = map_windows_error (rtl status)"

section \<open>OVERLAPPED\<close>

record kernel_overlapped =
  ko_internal :: u64
  ko_internal_high :: u64
  ko_offset_low :: u32
  ko_offset_high :: u32

definition new_for_offset :: "u64 \<Rightarrow> kernel_overlapped" where
  "new_for_offset offset =
     \<lparr>ko_internal = 0, ko_internal_high = 0, ko_offset_low = ucast offset,
      ko_offset_high = ucast (drop_bit 32 offset)\<rparr>"

definition ov_reset :: "u64 \<Rightarrow> kernel_overlapped \<Rightarrow> kernel_overlapped" where
  "ov_reset offset ov =
     ov\<lparr>ko_internal := 0, ko_internal_high := 0, ko_offset_low := ucast offset,
        ko_offset_high := ucast (drop_bit 32 offset)\<rparr>"

text \<open>The offset the kernel reads from the two halves.\<close>

definition ov_offset :: "kernel_overlapped \<Rightarrow> u64" where
  "ov_offset ov = push_bit 32 (ucast (ko_offset_high ov)) OR ucast (ko_offset_low ov)"

lemma split_offset: "push_bit 32 (ucast (ucast (drop_bit 32 x) :: u32)) OR ucast (ucast x :: u32) = (x :: u64)"
  by (rule bit_word_eqI) (auto simp: bit_simps)

lemma ov_offset_set [simp]:
  "ov_offset (new_for_offset x) = x" "ov_offset (ov_reset x ov) = x"
  by (simp_all add: ov_offset_def new_for_offset_def ov_reset_def split_offset)

section \<open>State\<close>

text \<open>
  The key of a write is the address of its OVERLAPPED. \<open>io_task\<close> and \<open>pk_task\<close> tell whose write the
  kernel works on and \<open>ic_finished\<close> what it answered; the program does not see them.
\<close>

datatype iocp_state = IocpCreated | IocpReady | IocpClosed

record pending_write =
  pw_task :: nat
  pw_data :: "u8 list"

record kernel_io =
  io_key :: usize
  io_task :: nat
  io_offset :: u64
  io_data :: "u8 list"
  io_cancelled :: bool

record packet =
  pk_key :: usize
  pk_task :: nat
  pk_bytes :: nat
  pk_status :: "32 word"

text \<open>A call of \<open>write_at\<close>, and the thread in \<open>poller_loop\<close> with the rest of its batch.\<close>

datatype write_phase =
    WNew u64 "u8 list"
  | WHolding usize "u8 list"
  | WRegistered usize
  | WSyncDone usize nat
  | WFailed usize u32
  | WWaiting usize
  | WDropped usize
  | WDone "nat download_result"

datatype poller =
    PollerWait
  | PollerBatch "packet list"
  | PollerGot usize pending_write "nat download_result" "packet list"
  | PollerSent usize "packet list"
  | PollerExit

text \<open>The drop of the storage; the flag of \<open>DropShut\<close> and \<open>DropClosed\<close> is that the registry is leaked.\<close>

datatype drop_phase = DropLive | DropDraining | DropShut bool | DropClosed bool

record iocp =
  ic_state :: iocp_state
  ic_file :: "os_file option"
  ic_registry :: "usize \<Rightarrow> pending_write option"
  ic_pool :: "usize list"
  ic_mem :: "usize \<Rightarrow> kernel_overlapped"
  ic_inflight :: "kernel_io list"
  ic_port :: "packet list"
  ic_poller :: poller
  ic_tasks :: "write_phase list"
  ic_results :: "nat \<Rightarrow> nat download_result option"
  ic_drop :: drop_phase
  ic_finished :: "(nat \<times> nat \<times> 32 word) list"

section \<open>Set-up\<close>

definition iocp_new :: "write_phase list \<Rightarrow> iocp" where
  "iocp_new tasks =
     \<lparr>ic_state = IocpCreated, ic_file = None, ic_registry = Map.empty, ic_pool = [],
      ic_mem = (\<lambda>_. new_for_offset 0), ic_inflight = [], ic_port = [], ic_poller = PollerExit,
      ic_tasks = tasks, ic_results = Map.empty, ic_drop = DropLive, ic_finished = []\<rparr>"

text \<open>What the system calls of \<open>init\<close> answer, in their order.\<close>

record iocp_setup =
  is_open :: "string + os_file"
  is_port :: "string option"
  is_modes :: "string option"
  is_spawn :: "string option"

definition iocp_init :: "iocp_setup \<Rightarrow> iocp \<Rightarrow> iocp \<times> unit download_result" where
  "iocp_init setup s =
     (if ic_state s \<noteq> IocpCreated then (s, Inl (Io ''AlreadyExists''))
      else
        (case is_open setup of
           Inl e \<Rightarrow> (s, Inl (Io e))
         | Inr f \<Rightarrow>
             (case is_port setup of
                Some e \<Rightarrow> (s, Inl (Io e))
              | None \<Rightarrow>
                  (case is_modes setup of
                     Some e \<Rightarrow> (s, Inl (Io e))
                   | None \<Rightarrow>
                       (case is_spawn setup of
                          Some e \<Rightarrow> (s, Inl (Io e))
                        | None \<Rightarrow>
                            (s\<lparr>ic_file := Some f, ic_poller := PollerWait, ic_state := IocpReady\<rparr>, Inr ()))))))"

text \<open>The operations that do not use the port: on a clone of the file handle.\<close>

definition clone_ready_file :: "string option \<Rightarrow> iocp \<Rightarrow> os_file download_result" where
  "clone_ready_file clone_error s =
     (if ic_state s \<noteq> IocpReady then Inl (Io ''not connected'')
      else and_then (ok_or (ic_file s) (Io ''not connected'')) (\<lambda>f.
             case clone_error of Some e \<Rightarrow> Inl (Io e) | None \<Rightarrow> Inr f))"

definition iocp_read_at :: "string option \<Rightarrow> nat \<Rightarrow> nat \<Rightarrow> iocp \<Rightarrow> u8 list download_result" where
  "iocp_read_at clone_error off n s = and_then (clone_ready_file clone_error s) (file_read_at off n)"

definition iocp_sync :: "string option \<Rightarrow> iocp \<Rightarrow> unit download_result" where
  "iocp_sync clone_error s = and_then (clone_ready_file clone_error s) file_sync"

definition iocp_allocate :: "string option \<Rightarrow> nat \<Rightarrow> iocp \<Rightarrow> iocp \<times> unit download_result" where
  "iocp_allocate clone_error n s =
     (case clone_ready_file clone_error s of
        Inl e \<Rightarrow> (s, Inl e)
      | Inr f \<Rightarrow> (case file_set_len n f of (f, r) \<Rightarrow> (s\<lparr>ic_file := Some f\<rparr>, r)))"

definition iocp_file_size :: "string option \<Rightarrow> iocp \<Rightarrow> u64 download_result" where
  "iocp_file_size clone_error s = and_then (clone_ready_file clone_error s) file_size"

section \<open>The pool and the registry\<close>

text \<open>\<open>fresh\<close> is the address that \<open>Box::new\<close> returns.\<close>

definition pool_acquire :: "usize \<Rightarrow> u64 \<Rightarrow> iocp \<Rightarrow> iocp \<times> usize" where
  "pool_acquire fresh offset s =
     (case ic_pool s of
        k # ks \<Rightarrow> (s\<lparr>ic_pool := ks, ic_mem := (ic_mem s)(k := ov_reset offset (ic_mem s k))\<rparr>, k)
      | [] \<Rightarrow> (s\<lparr>ic_mem := (ic_mem s)(fresh := new_for_offset offset)\<rparr>, fresh))"

definition pool_release :: "usize \<Rightarrow> iocp \<Rightarrow> iocp" where
  "pool_release k s = s\<lparr>ic_pool := ic_pool s @ [k], ic_mem := (ic_mem s)(k := ov_reset 0 (ic_mem s k))\<rparr>"

definition unregister :: "usize \<Rightarrow> iocp \<Rightarrow> iocp" where
  "unregister k s =
     (case ic_registry s k of
        None \<Rightarrow> s
      | Some _ \<Rightarrow> pool_release k (s\<lparr>ic_registry := (ic_registry s)(k := None)\<rparr>))"

definition pending_none :: "iocp \<Rightarrow> bool" where
  "pending_none s = (ic_registry s = Map.empty)"

text \<open>\<open>CancelIoEx\<close> with the key of one write, or of all.\<close>

definition cancel_io :: "(usize \<Rightarrow> bool) \<Rightarrow> iocp \<Rightarrow> iocp" where
  "cancel_io which s =
     s\<lparr>ic_inflight := map (\<lambda>io. if which (io_key io) then io\<lparr>io_cancelled := True\<rparr> else io) (ic_inflight s)\<rparr>"

definition guard_drop :: "usize \<Rightarrow> iocp \<Rightarrow> iocp" where
  "guard_drop k s = (if ic_registry s k = None then s else cancel_io (\<lambda>x. x = k) s)"

definition cancel_pending_operations :: "iocp \<Rightarrow> iocp" where
  "cancel_pending_operations s =
     (if pending_none s then s
      else case ic_file s of None \<Rightarrow> s | Some _ \<Rightarrow> cancel_io (\<lambda>_. True) s)"

definition set_phase :: "nat \<Rightarrow> write_phase \<Rightarrow> iocp \<Rightarrow> iocp" where
  "set_phase t ph s = s\<lparr>ic_tasks := (ic_tasks s)[t := ph]\<rparr>"

section \<open>Actions\<close>

text \<open>
  An atomic step of a write \<open>t\<close>, of the kernel, of the polling thread or of the drop. The parameters are
  what the environment decides: addresses, how much was written, codes, how many packets are taken.
\<close>

datatype iocp_action =
    ActAcquire nat usize
  | ActRegister nat
  | ActSyncWrite nat nat
  | ActPendWrite nat
  | ActFailWrite nat u32
  | ActFinish nat
  | ActReceive nat
  | ActDropFuture nat
  | ActComplete nat nat "32 word"
  | ActTake nat
  | ActPoll
  | ActPollerExit
  | ActDropStorage
  | ActDrainTimeout
  | ActClose

text \<open>Addresses in use: the pool, the registry, and what a write or the polling thread holds.\<close>

definition held_key :: "write_phase \<Rightarrow> usize option" where
  "held_key ph = (case ph of WHolding k _ \<Rightarrow> Some k | _ \<Rightarrow> None)"

definition poller_key :: "poller \<Rightarrow> usize option" where
  "poller_key q = (case q of PollerGot k _ _ _ \<Rightarrow> Some k | PollerSent k _ \<Rightarrow> Some k | _ \<Rightarrow> None)"

definition allocated :: "iocp \<Rightarrow> usize \<Rightarrow> bool" where
  "allocated s k =
     (k \<in> set (ic_pool s) \<or> ic_registry s k \<noteq> None \<or> Some k \<in> set (map held_key (ic_tasks s)) \<or>
      poller_key (ic_poller s) = Some k)"

definition settled :: "write_phase \<Rightarrow> bool" where
  "settled ph = (case ph of WNew _ _ \<Rightarrow> True | WDropped _ \<Rightarrow> True | WDone _ \<Rightarrow> True | _ \<Rightarrow> False)"

text \<open>\<open>WriteFile\<close> is given the low half of the length.\<close>

definition write_len :: "u8 list \<Rightarrow> nat" where
  "write_len d = unat (of_nat (length d) :: u32)"

definition file_written :: "u64 \<Rightarrow> u8 list \<Rightarrow> os_file option \<Rightarrow> os_file option" where
  "file_written off d f = map_option (\<lambda>f. f\<lparr>of_bytes := overlay (of_bytes f) (unat off) d\<rparr>) f"

text \<open>The steps of a write, whose phase says which is next.\<close>

definition write_acquire :: "nat \<Rightarrow> usize \<Rightarrow> iocp \<Rightarrow> iocp option" where
  "write_acquire t fresh s =
     (case ic_tasks s ! t of
        WNew off d \<Rightarrow>
          if ic_drop s \<noteq> DropLive \<or> allocated s fresh then None
          else if ic_state s \<noteq> IocpReady then Some (set_phase t (WDone (Inl (Io ''not connected''))) s)
          else
            (case pool_acquire fresh off s of
               (s, k) \<Rightarrow>
                 Some (case ic_file s of
                         None \<Rightarrow> set_phase t (WDone (Inl (Io ''not connected''))) s
                       | Some _ \<Rightarrow> set_phase t (WHolding k d) s))
      | _ \<Rightarrow> None)"

definition write_register :: "nat \<Rightarrow> iocp \<Rightarrow> iocp option" where
  "write_register t s =
     (case ic_tasks s ! t of
        WHolding k d \<Rightarrow>
          Some (set_phase t (WRegistered k)
            (s\<lparr>ic_registry := (ic_registry s)(k \<mapsto> \<lparr>pw_task = t, pw_data = d\<rparr>)\<rparr>))
      | _ \<Rightarrow> None)"

text \<open>\<open>WriteFile\<close> uses the memory that the registry holds: the data and the OVERLAPPED.\<close>

definition write_sync :: "nat \<Rightarrow> nat \<Rightarrow> iocp \<Rightarrow> iocp option" where
  "write_sync t n s =
     (case ic_tasks s ! t of
        WRegistered k \<Rightarrow>
          (case ic_registry s k of
             Some p \<Rightarrow>
               if n \<le> write_len (pw_data p) then
                 Some (set_phase t (WSyncDone k n)
                   (s\<lparr>ic_file := file_written (ov_offset (ic_mem s k)) (take n (pw_data p)) (ic_file s)\<rparr>))
               else None
           | None \<Rightarrow> None)
      | _ \<Rightarrow> None)"

definition write_pend :: "nat \<Rightarrow> iocp \<Rightarrow> iocp option" where
  "write_pend t s =
     (case ic_tasks s ! t of
        WRegistered k \<Rightarrow>
          (case ic_registry s k of
             Some p \<Rightarrow>
               Some (set_phase t (WWaiting k)
                 (s\<lparr>ic_inflight := ic_inflight s @
                     [\<lparr>io_key = k, io_task = t, io_offset = ov_offset (ic_mem s k),
                       io_data = take (write_len (pw_data p)) (pw_data p), io_cancelled = False\<rparr>]\<rparr>))
           | None \<Rightarrow> None)
      | _ \<Rightarrow> None)"

definition write_fail :: "nat \<Rightarrow> u32 \<Rightarrow> iocp \<Rightarrow> iocp option" where
  "write_fail t code s =
     (case ic_tasks s ! t of
        WRegistered k \<Rightarrow> if code = 997 then None else Some (set_phase t (WFailed k code) s)
      | _ \<Rightarrow> None)"

definition write_finish :: "nat \<Rightarrow> iocp \<Rightarrow> iocp option" where
  "write_finish t s =
     (case ic_tasks s ! t of
        WSyncDone k n \<Rightarrow> Some (set_phase t (WDone (Inr n)) (unregister k s))
      | WFailed k code \<Rightarrow> Some (set_phase t (WDone (Inl (map_windows_error code))) (unregister k s))
      | _ \<Rightarrow> None)"

definition write_receive :: "nat \<Rightarrow> iocp \<Rightarrow> iocp option" where
  "write_receive t s =
     (case ic_tasks s ! t of
        WWaiting k \<Rightarrow> map_option (\<lambda>r. set_phase t (WDone r) s) (ic_results s t)
      | _ \<Rightarrow> None)"

text \<open>The caller drops the future of the write, at the only point where it waits.\<close>

definition future_drop :: "nat \<Rightarrow> iocp \<Rightarrow> iocp option" where
  "future_drop t s =
     (case ic_tasks s ! t of
        WWaiting k \<Rightarrow> Some (set_phase t (WDropped k) (guard_drop k s))
      | _ \<Rightarrow> None)"

text \<open>The kernel ends the write of place \<open>i\<close> after \<open>n\<close> bytes, with a status, and queues a packet.\<close>

definition kernel_complete :: "nat \<Rightarrow> nat \<Rightarrow> 32 word \<Rightarrow> iocp \<Rightarrow> iocp option" where
  "kernel_complete i n status s =
     (if i < length (ic_inflight s) \<and> n \<le> length (io_data (ic_inflight s ! i)) then
        (let io = ic_inflight s ! i in
         Some (s\<lparr>ic_inflight := remove_nth i (ic_inflight s),
                 ic_port := ic_port s @
                   [\<lparr>pk_key = io_key io, pk_task = io_task io, pk_bytes = n, pk_status = status\<rparr>],
                 ic_file := file_written (io_offset io) (take n (io_data io)) (ic_file s),
                 ic_finished := (io_task io, n, status) # ic_finished s\<rparr>))
      else None)"

definition is_shut :: "drop_phase \<Rightarrow> bool" where
  "is_shut d = (case d of DropShut _ \<Rightarrow> True | DropClosed _ \<Rightarrow> True | _ \<Rightarrow> False)"

definition poller_take :: "nat \<Rightarrow> iocp \<Rightarrow> iocp option" where
  "poller_take n s =
     (if ic_poller s = PollerWait \<and> \<not> is_shut (ic_drop s) \<and> 0 < n \<and> n \<le> 16 \<and> n \<le> length (ic_port s)
      then Some (s\<lparr>ic_poller := PollerBatch (take n (ic_port s)), ic_port := drop n (ic_port s)\<rparr>)
      else None)"

definition completion_result :: "(32 word \<Rightarrow> u32) \<Rightarrow> nat \<Rightarrow> 32 word \<Rightarrow> nat download_result" where
  "completion_result rtl bytes status =
     (if status = 0 then Inr bytes else Inl (map_ntstatus_error rtl status))"

text \<open>
  \<open>complete_pending_write\<close> for each packet in turn: take the write out of the registry, send the
  result, give the OVERLAPPED back to the pool. A packet with an unknown key is skipped.
\<close>

definition poller_step :: "(32 word \<Rightarrow> u32) \<Rightarrow> iocp \<Rightarrow> iocp option" where
  "poller_step rtl s =
     (case ic_poller s of
        PollerBatch [] \<Rightarrow> Some (s\<lparr>ic_poller := PollerWait\<rparr>)
      | PollerBatch (e # es) \<Rightarrow>
          (case ic_registry s (pk_key e) of
             None \<Rightarrow> Some (s\<lparr>ic_poller := PollerBatch es\<rparr>)
           | Some p \<Rightarrow>
               Some (s\<lparr>ic_registry := (ic_registry s)(pk_key e := None),
                       ic_poller := PollerGot (pk_key e) p (completion_result rtl (pk_bytes e) (pk_status e)) es\<rparr>))
      | PollerGot k p r es \<Rightarrow>
          Some (s\<lparr>ic_results := (ic_results s)(pw_task p \<mapsto> r), ic_poller := PollerSent k es\<rparr>)
      | PollerSent k es \<Rightarrow> Some (pool_release k (s\<lparr>ic_poller := PollerBatch es\<rparr>))
      | _ \<Rightarrow> None)"

definition poller_exit :: "iocp \<Rightarrow> iocp option" where
  "poller_exit s =
     (if ic_poller s = PollerWait \<and> is_shut (ic_drop s) then Some (s\<lparr>ic_poller := PollerExit\<rparr>) else None)"

text \<open>
  The drop of the storage: no call is left that borrows it. With writes pending it cancels them and
  waits, at most five seconds, until the registry is empty or leaks the registry.
\<close>

definition storage_drop :: "iocp \<Rightarrow> iocp option" where
  "storage_drop s =
     (if list_all settled (ic_tasks s) then
        (case ic_drop s of
           DropLive \<Rightarrow>
             Some (if pending_none s then s\<lparr>ic_drop := DropShut False\<rparr>
                   else (cancel_pending_operations s)\<lparr>ic_drop := DropDraining\<rparr>)
         | DropDraining \<Rightarrow> if pending_none s then Some (s\<lparr>ic_drop := DropShut False\<rparr>) else None
         | _ \<Rightarrow> None)
      else None)"

definition drain_timeout :: "iocp \<Rightarrow> iocp option" where
  "drain_timeout s =
     (if ic_drop s = DropDraining \<and> \<not> pending_none s then Some (s\<lparr>ic_drop := DropShut True\<rparr>) else None)"

definition storage_close :: "iocp \<Rightarrow> iocp option" where
  "storage_close s =
     (case ic_drop s of
        DropShut leaked \<Rightarrow>
          if ic_poller s = PollerExit then
            Some (s\<lparr>ic_drop := DropClosed leaked, ic_state := IocpClosed, ic_file := None, ic_pool := [],
                    ic_registry := (if leaked then ic_registry s else Map.empty)\<rparr>)
          else None
      | _ \<Rightarrow> None)"

fun iocp_act :: "(32 word \<Rightarrow> u32) \<Rightarrow> iocp_action \<Rightarrow> iocp \<Rightarrow> iocp option" where
  "iocp_act rtl (ActAcquire t fresh) s = (if t < length (ic_tasks s) then write_acquire t fresh s else None)"
| "iocp_act rtl (ActRegister t) s = (if t < length (ic_tasks s) then write_register t s else None)"
| "iocp_act rtl (ActSyncWrite t n) s = (if t < length (ic_tasks s) then write_sync t n s else None)"
| "iocp_act rtl (ActPendWrite t) s = (if t < length (ic_tasks s) then write_pend t s else None)"
| "iocp_act rtl (ActFailWrite t code) s = (if t < length (ic_tasks s) then write_fail t code s else None)"
| "iocp_act rtl (ActFinish t) s = (if t < length (ic_tasks s) then write_finish t s else None)"
| "iocp_act rtl (ActReceive t) s = (if t < length (ic_tasks s) then write_receive t s else None)"
| "iocp_act rtl (ActDropFuture t) s = (if t < length (ic_tasks s) then future_drop t s else None)"
| "iocp_act rtl (ActComplete i n status) s = kernel_complete i n status s"
| "iocp_act rtl (ActTake n) s = poller_take n s"
| "iocp_act rtl ActPoll s = poller_step rtl s"
| "iocp_act rtl ActPollerExit s = poller_exit s"
| "iocp_act rtl ActDropStorage s = storage_drop s"
| "iocp_act rtl ActDrainTimeout s = drain_timeout s"
| "iocp_act rtl ActClose s = storage_close s"

inductive iocp_reach :: "(32 word \<Rightarrow> u32) \<Rightarrow> iocp \<Rightarrow> iocp \<Rightarrow> bool" for rtl s0 where
  reach_refl: "iocp_reach rtl s0 s0"
| reach_step: "iocp_reach rtl s0 s \<Longrightarrow> iocp_act rtl a s = Some s' \<Longrightarrow> iocp_reach rtl s0 s'"

section \<open>The invariant\<close>

definition poller_batch :: "poller \<Rightarrow> packet list" where
  "poller_batch q = (case q of PollerBatch es \<Rightarrow> es | PollerGot _ _ _ es \<Rightarrow> es | PollerSent _ es \<Rightarrow> es | _ \<Rightarrow> [])"

text \<open>The writes the kernel has, or has answered and the program has not seen: key and call.\<close>

definition kernel_writes :: "iocp \<Rightarrow> (usize \<times> nat) list" where
  "kernel_writes s =
     map (\<lambda>io. (io_key io, io_task io)) (ic_inflight s) @
     map (\<lambda>e. (pk_key e, pk_task e)) (ic_port s @ poller_batch (ic_poller s))"

text \<open>Phases in which a call uses the registered key itself, and in which it left it to the kernel.\<close>

definition busy :: "write_phase \<Rightarrow> usize \<Rightarrow> bool" where
  "busy ph k = (ph = WRegistered k \<or> (\<exists>n. ph = WSyncDone k n) \<or> (\<exists>c. ph = WFailed k c))"

definition parked :: "write_phase \<Rightarrow> usize \<Rightarrow> bool" where
  "parked ph k = (ph = WWaiting k \<or> ph = WDropped k)"

definition answered :: "(32 word \<Rightarrow> u32) \<Rightarrow> (nat \<times> nat \<times> 32 word) list \<Rightarrow> nat \<Rightarrow> nat download_result \<Rightarrow> bool" where
  "answered rtl finished t r = (\<exists>n st. (t, n, st) \<in> set finished \<and> r = completion_result rtl n st)"

definition inv_pool where
  "inv_pool pool reg pk =
     (distinct pool \<and> (\<forall>k \<in> set pool. reg k = None) \<and>
      (\<forall>k. pk = Some k \<longrightarrow> k \<notin> set pool \<and> reg k = None))"

definition inv_held where
  "inv_held T pool reg pk =
     ((\<forall>t k d. t < length T \<longrightarrow> T ! t = WHolding k d \<longrightarrow> k \<notin> set pool \<and> reg k = None \<and> pk \<noteq> Some k) \<and>
      (\<forall>t u k d e. t < length T \<longrightarrow> u < length T \<longrightarrow> T ! t = WHolding k d \<longrightarrow> T ! u = WHolding k e \<longrightarrow> t = u))"

definition inv_owned where
  "inv_owned T reg =
     ((\<forall>k p. reg k = Some p \<longrightarrow> pw_task p < length T \<and> (busy (T ! pw_task p) k \<or> parked (T ! pw_task p) k)) \<and>
      (\<forall>t k. t < length T \<longrightarrow> busy (T ! t) k \<longrightarrow> (\<exists>p. reg k = Some p \<and> pw_task p = t)))"

definition inv_kernel where
  "inv_kernel T reg ks =
     (distinct (map fst ks) \<and>
      (\<forall>k t. (k, t) \<in> set ks \<longrightarrow> t < length T \<and> (\<exists>p. reg k = Some p \<and> pw_task p = t) \<and> parked (T ! t) k))"

definition inv_results where
  "inv_results rtl T reg res finished =
     (\<forall>t r. res t = Some r \<longrightarrow> t < length T \<and> (\<forall>k p. reg k = Some p \<longrightarrow> pw_task p \<noteq> t) \<and>
        answered rtl finished t r \<and> ((\<exists>k. parked (T ! t) k) \<or> (\<exists>r. T ! t = WDone r)))"

definition inv_got where
  "inv_got rtl T reg res finished q =
     (\<forall>k p r es. q = PollerGot k p r es \<longrightarrow> pw_task p < length T \<and> parked (T ! pw_task p) k \<and>
        res (pw_task p) = None \<and> (\<forall>k' p'. reg k' = Some p' \<longrightarrow> pw_task p' \<noteq> pw_task p) \<and>
        answered rtl finished (pw_task p) r)"

definition inv_packets where
  "inv_packets finished es = (\<forall>e \<in> set es. (pk_task e, pk_bytes e, pk_status e) \<in> set finished)"

definition inv_wait where
  "inv_wait T res ks q =
     (\<forall>t k. t < length T \<longrightarrow> T ! t = WWaiting k \<longrightarrow> res t = None \<longrightarrow>
        (k, t) \<in> set ks \<or> (\<exists>p r es. q = PollerGot k p r es \<and> pw_task p = t))"

definition inv_drop where
  "inv_drop T reg d =
     ((d \<noteq> DropLive \<longrightarrow> (\<forall>t < length T. settled (T ! t))) \<and>
      (d = DropShut False \<or> d = DropClosed False \<longrightarrow> reg = Map.empty))"

definition iocp_inv :: "(32 word \<Rightarrow> u32) \<Rightarrow> iocp \<Rightarrow> bool" where
  "iocp_inv rtl s =
     (inv_pool (ic_pool s) (ic_registry s) (poller_key (ic_poller s)) \<and>
      inv_held (ic_tasks s) (ic_pool s) (ic_registry s) (poller_key (ic_poller s)) \<and>
      inv_owned (ic_tasks s) (ic_registry s) \<and>
      inv_kernel (ic_tasks s) (ic_registry s) (kernel_writes s) \<and>
      inv_results rtl (ic_tasks s) (ic_registry s) (ic_results s) (ic_finished s) \<and>
      inv_got rtl (ic_tasks s) (ic_registry s) (ic_results s) (ic_finished s) (ic_poller s) \<and>
      inv_packets (ic_finished s) (ic_port s @ poller_batch (ic_poller s)) \<and>
      inv_wait (ic_tasks s) (ic_results s) (kernel_writes s) (ic_poller s) \<and>
      inv_drop (ic_tasks s) (ic_registry s) (ic_drop s))"

lemmas iocp_invs = inv_pool_def inv_held_def inv_owned_def inv_kernel_def inv_results_def inv_got_def
  inv_packets_def inv_wait_def inv_drop_def

lemma iocp_invD:
  assumes "iocp_inv rtl s"
  shows "inv_pool (ic_pool s) (ic_registry s) (poller_key (ic_poller s))"
    and "inv_held (ic_tasks s) (ic_pool s) (ic_registry s) (poller_key (ic_poller s))"
    and "inv_owned (ic_tasks s) (ic_registry s)"
    and "inv_kernel (ic_tasks s) (ic_registry s) (kernel_writes s)"
    and "inv_results rtl (ic_tasks s) (ic_registry s) (ic_results s) (ic_finished s)"
    and "inv_got rtl (ic_tasks s) (ic_registry s) (ic_results s) (ic_finished s) (ic_poller s)"
    and "inv_packets (ic_finished s) (ic_port s @ poller_batch (ic_poller s))"
    and "inv_wait (ic_tasks s) (ic_results s) (kernel_writes s) (ic_poller s)"
    and "inv_drop (ic_tasks s) (ic_registry s) (ic_drop s)"
  using assms by (simp_all add: iocp_inv_def)

lemma inv_busyD:
  "iocp_inv rtl s \<Longrightarrow> t < length (ic_tasks s) \<Longrightarrow> busy (ic_tasks s ! t) k \<Longrightarrow>
   \<exists>p. ic_registry s k = Some p \<and> pw_task p = t"
  by (simp add: iocp_inv_def inv_owned_def)

lemma inv_ownedD:
  "iocp_inv rtl s \<Longrightarrow> ic_registry s k = Some p \<Longrightarrow>
   pw_task p < length (ic_tasks s) \<and> (busy (ic_tasks s ! pw_task p) k \<or> parked (ic_tasks s ! pw_task p) k)"
  by (simp add: iocp_inv_def inv_owned_def)

lemma phase_simps [simp]:
  "\<not> busy (WNew x d) k" "\<not> busy (WHolding k' d) k" "\<not> busy (WWaiting k') k" "\<not> busy (WDropped k') k"
  "\<not> busy (WDone r) k" "\<not> parked (WNew x d) k" "\<not> parked (WHolding k' d) k" "\<not> parked (WRegistered k') k"
  "\<not> parked (WSyncDone k' n) k" "\<not> parked (WFailed k' c) k" "\<not> parked (WDone r) k"
  "busy (WRegistered k') k \<longleftrightarrow> k' = k" "busy (WSyncDone k' n) k \<longleftrightarrow> k' = k" "busy (WFailed k' c) k \<longleftrightarrow> k' = k"
  "parked (WWaiting k') k \<longleftrightarrow> k' = k" "parked (WDropped k') k \<longleftrightarrow> k' = k"
  "settled (WNew x d)" "settled (WDropped k)" "settled (WDone r)" "\<not> settled (WHolding k d)"
  "\<not> settled (WRegistered k)" "\<not> settled (WSyncDone k n)" "\<not> settled (WFailed k c)" "\<not> settled (WWaiting k)"
  by (auto simp: busy_def parked_def settled_def)

lemma inv_init:
  assumes "ic_tasks s = map (\<lambda>(off, d). WNew off d) calls" "ic_registry s = Map.empty" "ic_pool s = []"
    "ic_inflight s = []" "ic_port s = []" "ic_poller s = PollerWait" "ic_results s = Map.empty"
    "ic_drop s = DropLive"
  shows "iocp_inv rtl s"
proof -
  have new: "\<exists>x d. ic_tasks s ! t = WNew x d" if "t < length (ic_tasks s)" for t
    using that assms(1) by (cases "calls ! t") simp
  show ?thesis
    using assms(2-) new
    by (force simp: iocp_inv_def iocp_invs kernel_writes_def poller_key_def poller_batch_def busy_def)
qed

lemma inv_register:
  assumes "iocp_inv rtl s" "t < length (ic_tasks s)" "write_register t s = Some s'"
  shows "iocp_inv rtl s'"
proof -
  obtain k d where k: "ic_tasks s ! t = WHolding k d"
    and s': "s' = set_phase t (WRegistered k) (s\<lparr>ic_registry := (ic_registry s)(k \<mapsto> \<lparr>pw_task = t, pw_data = d\<rparr>)\<rparr>)"
    using assms(3) by (auto simp: write_register_def split: write_phase.splits)
  have i: "k \<notin> set (ic_pool s)" "ic_registry s k = None" "poller_key (ic_poller s) \<noteq> Some k"
    using assms(1,2) k by (auto simp: iocp_inv_def inv_held_def)
  have kw: "kernel_writes s' = kernel_writes s" by (simp add: s' kernel_writes_def set_phase_def)
  have p: "inv_pool (ic_pool s') (ic_registry s') (poller_key (ic_poller s'))"
    using assms(1) i by (auto simp: iocp_inv_def inv_pool_def s' set_phase_def)
  have h: "inv_held (ic_tasks s') (ic_pool s') (ic_registry s') (poller_key (ic_poller s'))"
    using assms(1,2) i k
    by (auto simp: iocp_inv_def inv_held_def s' set_phase_def nth_list_update split: if_splits)
  have o: "inv_owned (ic_tasks s') (ic_registry s')"
    using assms(1,2) i k
    by (fastforce simp: iocp_inv_def inv_owned_def s' set_phase_def nth_list_update split: if_splits)
  have ke: "inv_kernel (ic_tasks s') (ic_registry s') (kernel_writes s')"
    using assms(1,2) i k unfolding kw
    by (fastforce simp: iocp_inv_def inv_kernel_def s' set_phase_def nth_list_update split: if_splits)
  have r: "inv_results rtl (ic_tasks s') (ic_registry s') (ic_results s') (ic_finished s')"
    using assms(1,2) i k
    by (fastforce simp: iocp_inv_def inv_results_def s' set_phase_def nth_list_update split: if_splits)
  have g: "inv_got rtl (ic_tasks s') (ic_registry s') (ic_results s') (ic_finished s') (ic_poller s')"
    using assms(1,2) i k
    by (fastforce simp: iocp_inv_def inv_got_def s' set_phase_def nth_list_update split: if_splits)
  have w: "inv_wait (ic_tasks s') (ic_results s') (kernel_writes s') (ic_poller s')"
    using assms(1,2) i k unfolding kw
    by (fastforce simp: iocp_inv_def inv_wait_def s' set_phase_def nth_list_update split: if_splits)
  have d: "inv_drop (ic_tasks s') (ic_registry s') (ic_drop s')"
    using assms(1,2) i k
    by (fastforce simp: iocp_inv_def inv_drop_def s' set_phase_def nth_list_update split: if_splits)
  show ?thesis using assms(1) p h o ke r g w d by (simp add: iocp_inv_def s' set_phase_def)
qed

text \<open>A call that uses its key itself has no result, and neither kernel nor thread works for it.\<close>

lemma busy_alone:
  assumes "iocp_inv rtl s" "t < length (ic_tasks s)" "busy (ic_tasks s ! t) k"
  shows "ic_results s t = None" "ic_poller s = PollerGot k' p' r es \<Longrightarrow> t \<noteq> pw_task p'"
    "(x, u) \<in> set (kernel_writes s) \<Longrightarrow> t \<noteq> u"
    "ic_registry s x = Some p \<Longrightarrow> pw_task p = t \<Longrightarrow> x = k"
    "ic_tasks s ! t \<noteq> WHolding y d" "ic_tasks s ! t \<noteq> WWaiting y" "\<not> settled (ic_tasks s ! t)"
    "busy (ic_tasks s ! t) x \<Longrightarrow> x = k"
proof -
  have old: "\<not> parked (ic_tasks s ! t) x" "ic_tasks s ! t \<noteq> WDone q" for x q using assms(3) by (auto simp: busy_def)
  obtain p where p: "ic_registry s k = Some p" "pw_task p = t" using inv_busyD[OF assms] by blast
  show "ic_results s t = None"
    using iocp_invD(5)[OF assms(1)] p by (cases "ic_results s t") (auto simp: inv_results_def)
  show "t \<noteq> pw_task p'" if "ic_poller s = PollerGot k' p' r es"
    using iocp_invD(6)[OF assms(1)] that p by (auto simp: inv_got_def)
  show "t \<noteq> u" if "(x, u) \<in> set (kernel_writes s)"
    using iocp_invD(4)[OF assms(1)] that old(1) unfolding inv_kernel_def by blast
  show "busy (ic_tasks s ! t) x \<Longrightarrow> x = k" using assms(3) by (auto simp: busy_def)
  then show "x = k" if "ic_registry s x = Some p" "pw_task p = t" for p
    using inv_ownedD[OF assms(1) that(1)] that(2) old by auto
  show "ic_tasks s ! t \<noteq> WHolding y d" "ic_tasks s ! t \<noteq> WWaiting y" "\<not> settled (ic_tasks s ! t)"
    using assms(3) by (auto simp: busy_def)
qed

lemma inv_busy:
  assumes "iocp_inv rtl s" "t < length (ic_tasks s)" "busy (ic_tasks s ! t) k" "\<forall>k'. busy ph k' \<longleftrightarrow> k' = k"
    and "\<forall>k'. \<not> parked ph k'" "\<not> settled ph"
  shows "iocp_inv rtl (set_phase t ph (s\<lparr>ic_file := f\<rparr>))"
proof -
  define s' where s': "s' = set_phase t ph (s\<lparr>ic_file := f\<rparr>)"
  note alone = busy_alone[OF assms(1-3)]
  have ph: "ph \<noteq> WHolding k' d" "ph \<noteq> WWaiting k'" "ph \<noteq> WDone r" for k' d r
    using assms(4-6) by auto
  have same: "ic_tasks s' ! u = ic_tasks s ! u" if "t \<noteq> u" for u using that by (simp add: s' set_phase_def)
  have new: "ic_tasks s' ! t = ph" using assms(2) by (simp add: s' set_phase_def)
  have rest: "length (ic_tasks s') = length (ic_tasks s)" "ic_registry s' = ic_registry s" "ic_pool s' = ic_pool s"
    "ic_poller s' = ic_poller s" "ic_results s' = ic_results s" "ic_finished s' = ic_finished s"
    "ic_drop s' = ic_drop s" "ic_port s' = ic_port s" "kernel_writes s' = kernel_writes s"
    by (simp_all add: s' set_phase_def kernel_writes_def)
  have o: "inv_owned (ic_tasks s') (ic_registry s')"
    unfolding inv_owned_def rest
  proof (intro conjI allI impI)
    fix k' p assume r: "ic_registry s k' = Some p"
    show "pw_task p < length (ic_tasks s)" using inv_ownedD[OF assms(1) r] by simp
    show "busy (ic_tasks s' ! pw_task p) k' \<or> parked (ic_tasks s' ! pw_task p) k'"
      using inv_ownedD[OF assms(1) r] alone(4)[OF r] assms(4) new same by (cases "t = pw_task p") auto
  next
    fix u k' assume u: "u < length (ic_tasks s)" "busy (ic_tasks s' ! u) k'"
    then have "busy (ic_tasks s ! u) k'" using assms(3,4) new same by (cases "t = u") auto
    from inv_busyD[OF assms(1) u(1) this] show "\<exists>p. ic_registry s k' = Some p \<and> pw_task p = u" .
  qed
  have h: "inv_held (ic_tasks s') (ic_pool s) (ic_registry s) (poller_key (ic_poller s))"
    using iocp_invD(2)[OF assms(1)] new same ph(1) unfolding inv_held_def rest by metis
  have ke: "inv_kernel (ic_tasks s') (ic_registry s) (kernel_writes s)"
    using iocp_invD(4)[OF assms(1)] alone(3) same unfolding inv_kernel_def rest by auto
  have r: "inv_results rtl (ic_tasks s') (ic_registry s) (ic_results s) (ic_finished s)"
    using iocp_invD(5)[OF assms(1)] alone(1) same unfolding inv_results_def rest by (metis option.distinct(1))
  have g: "inv_got rtl (ic_tasks s') (ic_registry s) (ic_results s) (ic_finished s) (ic_poller s)"
    using iocp_invD(6)[OF assms(1)] alone(2) same unfolding inv_got_def rest by auto
  have w: "inv_wait (ic_tasks s') (ic_results s) (kernel_writes s) (ic_poller s)"
    using iocp_invD(8)[OF assms(1)] new same ph(2) unfolding inv_wait_def rest by metis
  have d: "inv_drop (ic_tasks s') (ic_registry s) (ic_drop s)"
    using iocp_invD(9)[OF assms(1)] alone(7) assms(2) unfolding inv_drop_def rest by blast
  have "iocp_inv rtl s'" using iocp_invD(1,7)[OF assms(1)] o h ke r g w d unfolding iocp_inv_def rest by blast
  then show ?thesis by (simp add: s')
qed

lemma inv_finish:
  assumes "iocp_inv rtl s" "t < length (ic_tasks s)" "write_finish t s = Some s'"
  shows "iocp_inv rtl s'"
proof -
  obtain k res where k: "busy (ic_tasks s ! t) k" and u: "s' = set_phase t (WDone res) (unregister k s)"
  proof (cases "ic_tasks s ! t")
    case (WSyncDone k n)
    then show ?thesis using assms(3) by (intro that[of k "Inr n"]) (simp_all add: write_finish_def)
  next
    case (WFailed k c)
    then show ?thesis using assms(3)
      by (intro that[of k "Inl (map_windows_error c)"]) (simp_all add: write_finish_def)
  qed (use assms(3) in \<open>simp_all add: write_finish_def\<close>)
  note alone = busy_alone[OF assms(1,2) k]
  obtain p where p: "ic_registry s k = Some p" "pw_task p = t" using inv_busyD[OF assms(1,2) k] by blast
  have s': "s' = set_phase t (WDone res) (pool_release k (s\<lparr>ic_registry := (ic_registry s)(k := None)\<rparr>))"
    using u p by (simp add: unregister_def)
  have same: "ic_tasks s' ! u = ic_tasks s ! u" if "t \<noteq> u" for u
    using that by (simp add: s' set_phase_def pool_release_def)
  have new: "ic_tasks s' ! t = WDone res" using assms(2) by (simp add: s' set_phase_def pool_release_def)
  have rest: "length (ic_tasks s') = length (ic_tasks s)" "ic_registry s' = (ic_registry s)(k := None)"
    "ic_pool s' = ic_pool s @ [k]" "ic_poller s' = ic_poller s" "ic_results s' = ic_results s"
    "ic_finished s' = ic_finished s" "ic_drop s' = ic_drop s" "ic_port s' = ic_port s"
    "kernel_writes s' = kernel_writes s"
    by (simp_all add: s' set_phase_def kernel_writes_def pool_release_def)
  have free: "k \<notin> set (ic_pool s)" "poller_key (ic_poller s) \<noteq> Some k"
    using iocp_invD(1)[OF assms(1)] p by (auto simp: inv_pool_def)
  have other: "t \<noteq> pw_task q" if "((ic_registry s)(k := None)) x = Some q" for x q
    using that alone(4)[of x q] by (auto split: if_splits)
  have pl: "inv_pool (ic_pool s @ [k]) ((ic_registry s)(k := None)) (poller_key (ic_poller s))"
    using iocp_invD(1)[OF assms(1)] free by (auto simp: inv_pool_def)
  have h: "inv_held (ic_tasks s') (ic_pool s @ [k]) ((ic_registry s)(k := None)) (poller_key (ic_poller s))"
    unfolding inv_held_def rest
  proof (intro conjI allI impI)
    fix u k' d assume u: "u < length (ic_tasks s)" "ic_tasks s' ! u = WHolding k' d"
    then have "ic_tasks s ! u = WHolding k' d" using new same by (cases "t = u") auto
    then have i: "k' \<notin> set (ic_pool s)" "ic_registry s k' = None" "poller_key (ic_poller s) \<noteq> Some k'"
      using iocp_invD(2)[OF assms(1)] u(1) unfolding inv_held_def by blast+
    then show "k' \<notin> set (ic_pool s @ [k])" "((ic_registry s)(k := None)) k' = None"
      "poller_key (ic_poller s) \<noteq> Some k'" using p by auto
    fix v e assume v: "v < length (ic_tasks s)" "ic_tasks s' ! v = WHolding k' e"
    then have "ic_tasks s ! v = WHolding k' e" using new same by (cases "t = v") auto
    then show "u = v" using iocp_invD(2)[OF assms(1)] u(1) v(1) \<open>ic_tasks s ! u = _\<close> unfolding inv_held_def by blast
  qed
  have o: "inv_owned (ic_tasks s') ((ic_registry s)(k := None))"
    unfolding inv_owned_def rest
  proof (intro conjI allI impI)
    fix k' p' assume r: "((ic_registry s)(k := None)) k' = Some p'"
    then have "ic_registry s k' = Some p'" by (auto split: if_splits)
    from inv_ownedD[OF assms(1) this] same[OF other[OF r]]
    show "pw_task p' < length (ic_tasks s)"
      "busy (ic_tasks s' ! pw_task p') k' \<or> parked (ic_tasks s' ! pw_task p') k'" by simp_all
  next
    fix u k' assume u: "u < length (ic_tasks s)" "busy (ic_tasks s' ! u) k'"
    then have ne: "t \<noteq> u" using new by auto
    then have b: "busy (ic_tasks s ! u) k'" using u(2) same by simp
    from inv_busyD[OF assms(1) u(1) b] obtain p' where "ic_registry s k' = Some p'" "pw_task p' = u" by blast
    moreover from this have "k' \<noteq> k" using p ne by auto
    ultimately show "\<exists>p. ((ic_registry s)(k := None)) k' = Some p \<and> pw_task p = u" by auto
  qed
  have ke: "inv_kernel (ic_tasks s') ((ic_registry s)(k := None)) (kernel_writes s)"
  proof -
    have "x \<noteq> k" if "(x, u) \<in> set (kernel_writes s)" for x u
      using iocp_invD(4)[OF assms(1)] that alone(3)[OF that] p unfolding inv_kernel_def by force
    then show ?thesis
      using iocp_invD(4)[OF assms(1)] alone(3) same unfolding inv_kernel_def rest by auto
  qed
  have r: "inv_results rtl (ic_tasks s') ((ic_registry s)(k := None)) (ic_results s) (ic_finished s)"
    unfolding inv_results_def rest
  proof (intro allI impI)
    fix u q assume q: "ic_results s u = Some q"
    then have "t \<noteq> u" using alone(1) by auto
    then show "u < length (ic_tasks s) \<and> (\<forall>x p. ((ic_registry s)(k := None)) x = Some p \<longrightarrow> pw_task p \<noteq> u) \<and>
        answered rtl (ic_finished s) u q \<and> ((\<exists>k. parked (ic_tasks s' ! u) k) \<or> (\<exists>r. ic_tasks s' ! u = WDone r))"
      using iocp_invD(5)[OF assms(1)] q same by (auto simp: inv_results_def split: if_splits)
  qed
  have g: "inv_got rtl (ic_tasks s') ((ic_registry s)(k := None)) (ic_results s) (ic_finished s) (ic_poller s)"
    using iocp_invD(6)[OF assms(1)] alone(2) same unfolding inv_got_def rest by auto
  have w: "inv_wait (ic_tasks s') (ic_results s) (kernel_writes s) (ic_poller s)"
    using iocp_invD(8)[OF assms(1)] new same unfolding inv_wait_def rest by (metis write_phase.distinct)
  have d: "inv_drop (ic_tasks s') ((ic_registry s)(k := None)) (ic_drop s)"
    using iocp_invD(9)[OF assms(1)] alone(7) assms(2) p unfolding inv_drop_def rest by auto
  show ?thesis using iocp_invD(7)[OF assms(1)] pl o h ke r g w d unfolding iocp_inv_def rest by blast
qed
lemma inv_receive:
  assumes "iocp_inv rtl s" "t < length (ic_tasks s)" "write_receive t s = Some s'"
  shows "iocp_inv rtl s'"
proof -
  obtain k r where k: "ic_tasks s ! t = WWaiting k" "ic_results s t = Some r" and s': "s' = set_phase t (WDone r) s"
    using assms(3) by (auto simp: write_receive_def split: write_phase.splits)
  have kw: "kernel_writes s' = kernel_writes s" by (simp add: s' kernel_writes_def set_phase_def)
  have un: "\<And>k p. ic_registry s k = Some p \<Longrightarrow> pw_task p \<noteq> t"
    using assms(1) k(2) by (auto simp: iocp_inv_def inv_results_def)
  have h: "inv_held (ic_tasks s') (ic_pool s') (ic_registry s') (poller_key (ic_poller s'))"
    using iocp_invD(2)[OF assms(1)] assms(2) k un
    by (fastforce simp: inv_held_def s' set_phase_def nth_list_update split: if_splits)
  have o: "inv_owned (ic_tasks s') (ic_registry s')"
    using iocp_invD(3)[OF assms(1)] assms(2) k un
    by (fastforce simp: inv_owned_def s' set_phase_def nth_list_update split: if_splits)
  have ke: "inv_kernel (ic_tasks s') (ic_registry s') (kernel_writes s')"
    using iocp_invD(4)[OF assms(1)] assms(2) k un unfolding kw
    by (fastforce simp: inv_kernel_def s' set_phase_def nth_list_update split: if_splits)
  have r: "inv_results rtl (ic_tasks s') (ic_registry s') (ic_results s') (ic_finished s')"
    using iocp_invD(5)[OF assms(1)] assms(2) k un
    by (fastforce simp: inv_results_def s' set_phase_def nth_list_update split: if_splits)
  have g: "inv_got rtl (ic_tasks s') (ic_registry s') (ic_results s') (ic_finished s') (ic_poller s')"
    using iocp_invD(6)[OF assms(1)] assms(2) k un
    by (fastforce simp: inv_got_def s' set_phase_def nth_list_update split: if_splits)
  have w: "inv_wait (ic_tasks s') (ic_results s') (kernel_writes s') (ic_poller s')"
    using iocp_invD(8)[OF assms(1)] assms(2) k un unfolding kw
    by (fastforce simp: inv_wait_def s' set_phase_def nth_list_update split: if_splits)
  have d: "inv_drop (ic_tasks s') (ic_registry s') (ic_drop s')"
    using iocp_invD(9)[OF assms(1)] assms(2) k un
    by (fastforce simp: inv_drop_def s' set_phase_def nth_list_update split: if_splits)
  show ?thesis using assms(1) h o ke r g w d by (simp add: iocp_inv_def s' set_phase_def)
qed

lemma inv_pend:
  assumes "iocp_inv rtl s" "t < length (ic_tasks s)" "write_pend t s = Some s'"
  shows "iocp_inv rtl s'"
proof -
  obtain k p where k: "ic_tasks s ! t = WRegistered k" "ic_registry s k = Some p"
    and s': "s' = set_phase t (WWaiting k) (s\<lparr>ic_inflight := ic_inflight s @
         [\<lparr>io_key = k, io_task = t, io_offset = ov_offset (ic_mem s k),
           io_data = take (write_len (pw_data p)) (pw_data p), io_cancelled = False\<rparr>]\<rparr>)"
    using assms(3) by (auto simp: write_pend_def split: write_phase.splits option.splits)
  have "busy (ic_tasks s ! t) k" using k(1) by simp
  note alone = busy_alone[OF assms(1,2) this]
  have own: "pw_task p = t" using inv_busyD[OF assms(1,2)] k by fastforce
  have fresh: "k \<notin> fst ` set (kernel_writes s)"
    using iocp_invD(4)[OF assms(1)] alone(3) k own unfolding inv_kernel_def by fastforce
  have kw: "mset (kernel_writes s') = mset ((k, t) # kernel_writes s)"
    by (simp add: s' kernel_writes_def set_phase_def)
  note kws = kw[THEN mset_eq_setD]
  have same: "mset (map fst (kernel_writes s')) = mset (map fst ((k, t) # kernel_writes s))"
    by (simp only: mset_map kw)
  have dist: "distinct (map fst (kernel_writes s'))"
    using mset_eq_imp_distinct_iff[OF same] fresh iocp_invD(4)[OF assms(1)] by (simp add: inv_kernel_def)
  have un: "\<And>q. ic_results s t = Some q \<Longrightarrow> False" using alone(1) by simp
  have h: "inv_held (ic_tasks s') (ic_pool s') (ic_registry s') (poller_key (ic_poller s'))"
    using iocp_invD(2)[OF assms(1)] assms(2) k own
    by (fastforce simp: inv_held_def s' set_phase_def nth_list_update split: if_splits)
  have o: "inv_owned (ic_tasks s') (ic_registry s')"
    unfolding inv_owned_def
  proof (intro conjI allI impI)
    fix k' q assume "ic_registry s' k' = Some q"
    then have q: "ic_registry s k' = Some q" by (simp add: s' set_phase_def)
    show "pw_task q < length (ic_tasks s')" using inv_ownedD[OF assms(1) q] by (simp add: s' set_phase_def)
    show "busy (ic_tasks s' ! pw_task q) k' \<or> parked (ic_tasks s' ! pw_task q) k'"
      using inv_ownedD[OF assms(1) q] alone(4)[OF q] assms(2)
      by (cases "t = pw_task q") (auto simp: s' set_phase_def)
  next
    fix u k' assume u: "u < length (ic_tasks s')" "busy (ic_tasks s' ! u) k'"
    then have "u < length (ic_tasks s)" "busy (ic_tasks s ! u) k'"
      using assms(2) by (auto simp: s' set_phase_def nth_list_update split: if_splits)
    from inv_busyD[OF assms(1) this] show "\<exists>p. ic_registry s' k' = Some p \<and> pw_task p = u"
      by (simp add: s' set_phase_def)
  qed
  have ke: "inv_kernel (ic_tasks s') (ic_registry s') (kernel_writes s')"
    using iocp_invD(4)[OF assms(1)] assms(2) k own dist unfolding inv_kernel_def kws
    by (fastforce simp: s' set_phase_def nth_list_update split: if_splits)
  have r: "inv_results rtl (ic_tasks s') (ic_registry s') (ic_results s') (ic_finished s')"
    using iocp_invD(5)[OF assms(1)] assms(2) k own
    by (fastforce simp: inv_results_def s' set_phase_def nth_list_update split: if_splits)
  have g: "inv_got rtl (ic_tasks s') (ic_registry s') (ic_results s') (ic_finished s') (ic_poller s')"
    using iocp_invD(6)[OF assms(1)] assms(2) k own
    by (fastforce simp: inv_got_def s' set_phase_def nth_list_update split: if_splits)
  have w: "inv_wait (ic_tasks s') (ic_results s') (kernel_writes s') (ic_poller s')"
    using iocp_invD(8)[OF assms(1)] assms(2) k own unfolding inv_wait_def kws
    by (fastforce simp: s' set_phase_def nth_list_update split: if_splits)
  have d: "inv_drop (ic_tasks s') (ic_registry s') (ic_drop s')"
    using iocp_invD(9)[OF assms(1)] assms(2) k own
    by (fastforce simp: inv_drop_def s' set_phase_def nth_list_update split: if_splits)
  show ?thesis using assms(1) h o ke r g w d by (simp add: iocp_inv_def s' set_phase_def)
qed

lemma inv_future_drop:
  assumes "iocp_inv rtl s" "t < length (ic_tasks s)" "future_drop t s = Some s'"
  shows "iocp_inv rtl s'"
proof -
  obtain k where k: "ic_tasks s ! t = WWaiting k" and u: "s' = set_phase t (WDropped k) (guard_drop k s)"
    using assms(3) by (auto simp: future_drop_def split: write_phase.splits)
  obtain ios where gd: "guard_drop k s = s\<lparr>ic_inflight := ios\<rparr>"
    "map (\<lambda>io. (io_key io, io_task io)) ios = map (\<lambda>io. (io_key io, io_task io)) (ic_inflight s)"
  proof (cases "ic_registry s k = None")
    case True
    then show ?thesis by (intro that[of "ic_inflight s"]) (simp_all add: guard_drop_def)
  next
    case False
    then show ?thesis
      by (intro that[of "map (\<lambda>io. if io_key io = k then io\<lparr>io_cancelled := True\<rparr> else io) (ic_inflight s)"])
        (auto simp: guard_drop_def cancel_io_def)
  qed
  have s': "s' = set_phase t (WDropped k) (s\<lparr>ic_inflight := ios\<rparr>)" using u gd(1) by simp
  have kw: "kernel_writes s' = kernel_writes s" by (simp add: s' kernel_writes_def set_phase_def gd(2))
  have h: "inv_held (ic_tasks s') (ic_pool s') (ic_registry s') (poller_key (ic_poller s'))"
    using iocp_invD(2)[OF assms(1)] assms(2) k
    by (fastforce simp: inv_held_def s' set_phase_def nth_list_update split: if_splits)
  have o: "inv_owned (ic_tasks s') (ic_registry s')"
    using iocp_invD(3)[OF assms(1)] assms(2) k
    by (fastforce simp: inv_owned_def s' set_phase_def nth_list_update split: if_splits)
  have ke: "inv_kernel (ic_tasks s') (ic_registry s') (kernel_writes s')"
    using iocp_invD(4)[OF assms(1)] assms(2) k unfolding kw
    by (fastforce simp: inv_kernel_def s' set_phase_def nth_list_update split: if_splits)
  have r: "inv_results rtl (ic_tasks s') (ic_registry s') (ic_results s') (ic_finished s')"
    using iocp_invD(5)[OF assms(1)] assms(2) k
    by (fastforce simp: inv_results_def s' set_phase_def nth_list_update split: if_splits)
  have g: "inv_got rtl (ic_tasks s') (ic_registry s') (ic_results s') (ic_finished s') (ic_poller s')"
    using iocp_invD(6)[OF assms(1)] assms(2) k
    by (fastforce simp: inv_got_def s' set_phase_def nth_list_update split: if_splits)
  have w: "inv_wait (ic_tasks s') (ic_results s') (kernel_writes s') (ic_poller s')"
    using iocp_invD(8)[OF assms(1)] assms(2) k unfolding kw
    by (fastforce simp: inv_wait_def s' set_phase_def nth_list_update split: if_splits)
  have d: "inv_drop (ic_tasks s') (ic_registry s') (ic_drop s')"
    using iocp_invD(9)[OF assms(1)] assms(2) k
    by (fastforce simp: inv_drop_def s' set_phase_def nth_list_update split: if_splits)
  show ?thesis using assms(1) h o ke r g w d by (simp add: iocp_inv_def s' set_phase_def)
qed

text \<open>Actions of the kernel, the thread and the drop leave the calls alone.\<close>

lemma mset_remove_nth: "i < length xs \<Longrightarrow> mset xs = add_mset (xs ! i) (mset (remove_nth i xs))"
  by (metis id_take_nth_drop mset_append mset.simps(2) remove_nth_def union_mset_add_mset_right)

lemma inv_permute:
  assumes "iocp_inv rtl s" "mset (kernel_writes s') = mset (kernel_writes s)"
    and "ic_tasks s' = ic_tasks s" "ic_registry s' = ic_registry s" "ic_pool s' = ic_pool s"
    and "ic_results s' = ic_results s" "set (ic_finished s) \<subseteq> set (ic_finished s')"
    and "poller_key (ic_poller s') = poller_key (ic_poller s)"
    and "\<And>k p r es. ic_poller s' = PollerGot k p r es \<Longrightarrow> \<exists>es. ic_poller s = PollerGot k p r es"
    and "\<And>k p r es. ic_poller s = PollerGot k p r es \<Longrightarrow> \<exists>es. ic_poller s' = PollerGot k p r es"
    and "inv_packets (ic_finished s') (ic_port s' @ poller_batch (ic_poller s'))"
    and "inv_drop (ic_tasks s') (ic_registry s') (ic_drop s')"
  shows "iocp_inv rtl s'"
proof -
  have ks: "set (kernel_writes s') = set (kernel_writes s)" using assms(2) by (rule mset_eq_setD)
  have "mset (map fst (kernel_writes s')) = mset (map fst (kernel_writes s))"
    by (simp only: mset_map assms(2))
  then have dist: "distinct (map fst (kernel_writes s')) = distinct (map fst (kernel_writes s))"
    by (rule mset_eq_imp_distinct_iff)
  have ans: "answered rtl (ic_finished s) t r \<Longrightarrow> answered rtl (ic_finished s') t r" for t r
    using assms(7) by (auto simp: answered_def)
  have "inv_kernel (ic_tasks s) (ic_registry s) (kernel_writes s')"
    using iocp_invD(4)[OF assms(1)] by (simp add: inv_kernel_def ks dist)
  moreover have "inv_results rtl (ic_tasks s) (ic_registry s) (ic_results s) (ic_finished s')"
    using iocp_invD(5)[OF assms(1)] ans by (auto simp: inv_results_def)
  moreover have "inv_got rtl (ic_tasks s) (ic_registry s) (ic_results s) (ic_finished s') (ic_poller s')"
    unfolding inv_got_def
  proof (intro allI impI)
    fix k p r es assume "ic_poller s' = PollerGot k p r es"
    from assms(9)[OF this] obtain es' where "ic_poller s = PollerGot k p r es'" by blast
    then show "pw_task p < length (ic_tasks s) \<and> parked (ic_tasks s ! pw_task p) k \<and>
        ic_results s (pw_task p) = None \<and> (\<forall>k' p'. ic_registry s k' = Some p' \<longrightarrow> pw_task p' \<noteq> pw_task p) \<and>
        answered rtl (ic_finished s') (pw_task p) r"
      using iocp_invD(6)[OF assms(1)] ans unfolding inv_got_def by blast
  qed
  moreover have "inv_wait (ic_tasks s) (ic_results s) (kernel_writes s') (ic_poller s')"
    using iocp_invD(8)[OF assms(1)] assms(10) unfolding inv_wait_def ks by blast
  ultimately show ?thesis
    using iocp_invD(1-3)[OF assms(1)] assms(11,12) unfolding iocp_inv_def assms(3-6,8) by blast
qed

lemma inv_complete:
  assumes "iocp_inv rtl s" "kernel_complete i n status s = Some s'"
  shows "iocp_inv rtl s'"
proof (rule inv_permute[OF assms(1)])
  have i: "i < length (ic_inflight s)" using assms(2) by (auto simp: kernel_complete_def split: if_splits)
  let ?io = "ic_inflight s ! i"
  have s': "s' = s\<lparr>ic_inflight := remove_nth i (ic_inflight s),
      ic_port := ic_port s @ [\<lparr>pk_key = io_key ?io, pk_task = io_task ?io, pk_bytes = n, pk_status = status\<rparr>],
      ic_file := file_written (io_offset ?io) (take n (io_data ?io)) (ic_file s),
      ic_finished := (io_task ?io, n, status) # ic_finished s\<rparr>"
    using assms(2) by (auto simp: kernel_complete_def Let_def split: if_splits)
  show "mset (kernel_writes s') = mset (kernel_writes s)"
    using mset_remove_nth[OF i] by (simp add: s' kernel_writes_def)
  show "inv_packets (ic_finished s') (ic_port s' @ poller_batch (ic_poller s'))"
    using iocp_invD(7)[OF assms(1)] by (auto simp: s' inv_packets_def)
  show "inv_drop (ic_tasks s') (ic_registry s') (ic_drop s')" using iocp_invD(9)[OF assms(1)] by (simp add: s')
qed (use assms(2) in \<open>auto simp: kernel_complete_def Let_def split: if_splits\<close>)

lemma inv_take:
  assumes "iocp_inv rtl s" "poller_take n s = Some s'"
  shows "iocp_inv rtl s'"
proof (rule inv_permute[OF assms(1)])
  have s': "s' = s\<lparr>ic_poller := PollerBatch (take n (ic_port s)), ic_port := drop n (ic_port s)\<rparr>"
    and w: "ic_poller s = PollerWait"
    using assms(2) by (auto simp: poller_take_def split: if_splits)
  have m: "mset (drop n xs) + mset (take n xs) = mset xs" for xs :: "packet list"
    by (metis append_take_drop_id mset_append union_commute)
  show "mset (kernel_writes s') = mset (kernel_writes s)"
    using m[of "ic_port s"] by (simp add: s' w kernel_writes_def poller_batch_def image_mset_union[symmetric])
  show "inv_packets (ic_finished s') (ic_port s' @ poller_batch (ic_poller s'))"
    using iocp_invD(7)[OF assms(1)]
    by (auto simp: s' w inv_packets_def poller_batch_def dest: in_set_takeD in_set_dropD)
  show "inv_drop (ic_tasks s') (ic_registry s') (ic_drop s')" using iocp_invD(9)[OF assms(1)] by (simp add: s')
qed (use assms(2) in \<open>auto simp: poller_take_def poller_key_def split: if_splits\<close>)

lemma inv_acquire:
  assumes "iocp_inv rtl s" "t < length (ic_tasks s)" "write_acquire t fresh s = Some s'"
  shows "iocp_inv rtl s'"
proof -
  obtain off d where new: "ic_tasks s ! t = WNew off d" and live: "ic_drop s = DropLive" "\<not> allocated s fresh"
    using assms(3) by (auto simp: write_acquire_def split: write_phase.splits if_splits)
  obtain s1 k where acq: "pool_acquire fresh off s = (s1, k)" by (cases "pool_acquire fresh off s")
  obtain pool mem where s1: "s1 = s\<lparr>ic_pool := pool, ic_mem := mem\<rparr>" and pool: "distinct pool" "set pool \<subseteq> set (ic_pool s)"
    and k: "k \<notin> set pool" "ic_registry s k = None" "poller_key (ic_poller s) \<noteq> Some k"
      "\<And>u e. u < length (ic_tasks s) \<Longrightarrow> ic_tasks s ! u \<noteq> WHolding k e"
  proof (cases "ic_pool s")
    case Nil
    have "\<And>u e. u < length (ic_tasks s) \<Longrightarrow> ic_tasks s ! u \<noteq> WHolding fresh e"
      using live(2) by (force simp: allocated_def held_key_def in_set_conv_nth)
    moreover have "s1 = s\<lparr>ic_pool := [], ic_mem := (ic_mem s)(fresh := new_for_offset off)\<rparr>" "k = fresh"
      using acq Nil by (auto simp: pool_acquire_def)
    ultimately show ?thesis
      using live(2) that[of "(ic_mem s)(fresh := new_for_offset off)" "[]"] by (auto simp: allocated_def)
  next
    case (Cons x ks)
    then have x: "x = k" "s1 = s\<lparr>ic_pool := ks, ic_mem := (ic_mem s)(k := ov_reset off (ic_mem s k))\<rparr>"
      using acq by (auto simp: pool_acquire_def)
    have "\<And>u e. u < length (ic_tasks s) \<Longrightarrow> ic_tasks s ! u \<noteq> WHolding k e"
      using iocp_invD(2)[OF assms(1)] Cons x(1) by (force simp: inv_held_def)
    then show ?thesis
      using iocp_invD(1)[OF assms(1)] Cons x that[of "(ic_mem s)(k := ov_reset off (ic_mem s k))" ks]
      by (auto simp: inv_pool_def)
  qed
  obtain ph pl' mem' where s': "s' = set_phase t ph (s\<lparr>ic_pool := pl', ic_mem := mem'\<rparr>)"
    and ph: "(\<exists>r. ph = WDone r) \<or> ph = WHolding k d" and pl': "pl' = pool \<or> (\<exists>r. ph = WDone r) \<and> pl' = ic_pool s"
  proof (cases "ic_state s = IocpReady")
    case True
    then show ?thesis using assms(3) new live acq s1
      by (cases "ic_file s"; intro that[of _ mem pool]) (auto simp: write_acquire_def)
  next
    case False
    then show ?thesis using assms(3) new live
      by (intro that[of "WDone (Inl (Io ''not connected''))" "ic_mem s" "ic_pool s"]) (auto simp: write_acquire_def)
  qed
  have sub: "set pl' \<subseteq> set (ic_pool s)" "distinct pl'"
    using pl' pool iocp_invD(1)[OF assms(1)] by (auto simp: inv_pool_def)
  have ph': "\<not> busy ph x" "\<not> parked ph x" "ph \<noteq> WWaiting x" for x using ph by auto
  have kw: "kernel_writes s' = kernel_writes s" by (simp add: s' kernel_writes_def set_phase_def)
  have un: "ic_results s t = None"
  proof (cases "ic_results s t")
    case (Some q)
    then have "(\<exists>k. parked (ic_tasks s ! t) k) \<or> (\<exists>r. ic_tasks s ! t = WDone r)"
      using iocp_invD(5)[OF assms(1)] unfolding inv_results_def by blast
    then show ?thesis using new by simp
  qed simp
  have rest: "length (ic_tasks s') = length (ic_tasks s)" "ic_registry s' = ic_registry s" "ic_pool s' = pl'"
    "ic_poller s' = ic_poller s" "ic_results s' = ic_results s" "ic_finished s' = ic_finished s"
    "ic_drop s' = ic_drop s" "ic_port s' = ic_port s" "kernel_writes s' = kernel_writes s"
    by (simp_all add: s' set_phase_def kernel_writes_def)
  have same: "ic_tasks s' ! u = ic_tasks s ! u" if "t \<noteq> u" for u using that by (simp add: s' set_phase_def)
  have at: "ic_tasks s' ! t = ph" using assms(2) by (simp add: s' set_phase_def)
  have idle: "\<not> busy (ic_tasks s ! t) x" "\<not> parked (ic_tasks s ! t) x" for x using new by simp_all
  have nt: "t \<noteq> pw_task p" if "ic_registry s x = Some p" for x p
    using inv_ownedD[OF assms(1) that] idle by auto
  have p: "inv_pool pl' (ic_registry s) (poller_key (ic_poller s))"
    using iocp_invD(1)[OF assms(1)] sub by (auto simp: inv_pool_def)
  have h: "inv_held (ic_tasks s') pl' (ic_registry s) (poller_key (ic_poller s))"
    unfolding inv_held_def rest
  proof (intro conjI allI impI)
    fix u k' e assume u: "u < length (ic_tasks s)" "ic_tasks s' ! u = WHolding k' e"
    have i: "k' \<notin> set pl' \<and> ic_registry s k' = None \<and> poller_key (ic_poller s) \<noteq> Some k'"
    proof (cases "t = u")
      case True
      then have "k' = k" "pl' = pool" using u(2) at ph pl' by auto
      then show ?thesis using k by simp
    next
      case False
      then show ?thesis using iocp_invD(2)[OF assms(1)] u same[OF False] sub unfolding inv_held_def by (metis subsetD)
    qed
    then show "k' \<notin> set pl'" "ic_registry s k' = None" "poller_key (ic_poller s) \<noteq> Some k'" by simp_all
    fix v e' assume v: "v < length (ic_tasks s)" "ic_tasks s' ! v = WHolding k' e'"
    consider "t = u" "t = v" | "t = u" "t \<noteq> v" | "t \<noteq> u" "t = v" | "t \<noteq> u" "t \<noteq> v" by blast
    then show "u = v"
    proof cases
      case 2
      then have "k' = k" using u(2) at ph by auto
      then show ?thesis using k(4) v same[OF 2(2)] by simp
    next
      case 3
      then have "k' = k" using v(2) at ph by auto
      then show ?thesis using k(4) u same[OF 3(1)] by simp
    next
      case 4
      then show ?thesis using iocp_invD(2)[OF assms(1)] u v same unfolding inv_held_def by metis
    qed simp
  qed
  have o: "inv_owned (ic_tasks s') (ic_registry s)"
    unfolding inv_owned_def rest
  proof (intro conjI allI impI)
    fix x p assume r: "ic_registry s x = Some p"
    show "pw_task p < length (ic_tasks s)" "busy (ic_tasks s' ! pw_task p) x \<or> parked (ic_tasks s' ! pw_task p) x"
      using inv_ownedD[OF assms(1) r] same[OF nt[OF r]] by simp_all
  next
    fix u x assume u: "u < length (ic_tasks s)" "busy (ic_tasks s' ! u) x"
    then have "t \<noteq> u" using at ph'(1) by auto
    then show "\<exists>p. ic_registry s x = Some p \<and> pw_task p = u" using inv_busyD[OF assms(1) u(1)] u(2) same by simp
  qed
  have ke: "inv_kernel (ic_tasks s') (ic_registry s) (kernel_writes s)"
    unfolding inv_kernel_def rest
  proof (intro conjI allI impI)
    fix x u assume "(x, u) \<in> set (kernel_writes s)"
    then have i: "u < length (ic_tasks s)" "\<exists>p. ic_registry s x = Some p \<and> pw_task p = u" "parked (ic_tasks s ! u) x"
      using iocp_invD(4)[OF assms(1)] unfolding inv_kernel_def by blast+
    then have "t \<noteq> u" using idle(2) by auto
    then show "u < length (ic_tasks s)" "\<exists>p. ic_registry s x = Some p \<and> pw_task p = u" "parked (ic_tasks s' ! u) x"
      using i same by simp_all
  qed (use iocp_invD(4)[OF assms(1)] in \<open>simp add: inv_kernel_def\<close>)
  have r: "inv_results rtl (ic_tasks s') (ic_registry s) (ic_results s) (ic_finished s)"
    using iocp_invD(5)[OF assms(1)] un same unfolding inv_results_def rest by (metis option.distinct(1))
  have g: "inv_got rtl (ic_tasks s') (ic_registry s) (ic_results s) (ic_finished s) (ic_poller s)"
    using iocp_invD(6)[OF assms(1)] idle(2) same unfolding inv_got_def rest by metis
  have w: "inv_wait (ic_tasks s') (ic_results s) (kernel_writes s) (ic_poller s)"
    using iocp_invD(8)[OF assms(1)] at same ph'(3) unfolding inv_wait_def rest by metis
  have d: "inv_drop (ic_tasks s') (ic_registry s) (ic_drop s)" using live(1) by (simp add: inv_drop_def)
  show ?thesis using iocp_invD(7)[OF assms(1)] p h o ke r g w d unfolding iocp_inv_def rest by blast
qed

lemma inv_storage_drop:
  assumes "iocp_inv rtl s" "storage_drop s = Some s'"
  shows "iocp_inv rtl s'"
proof (rule inv_permute[OF assms(1)])
  obtain ios d where s': "s' = s\<lparr>ic_inflight := ios, ic_drop := d\<rparr>"
    and ios: "map (\<lambda>io. (io_key io, io_task io)) ios = map (\<lambda>io. (io_key io, io_task io)) (ic_inflight s)"
    and d: "d = DropShut False \<and> pending_none s \<or> d = DropDraining" and settled: "list_all settled (ic_tasks s)"
  proof -
    have c: "(cancel_pending_operations s)\<lparr>ic_drop := x\<rparr> =
        s\<lparr>ic_inflight := ic_inflight (cancel_pending_operations s), ic_drop := x\<rparr>" for x
      by (auto simp: cancel_pending_operations_def cancel_io_def split: option.splits)
    have m: "map (\<lambda>io. (io_key io, io_task io)) (ic_inflight (cancel_pending_operations s)) =
        map (\<lambda>io. (io_key io, io_task io)) (ic_inflight s)"
      by (auto simp: cancel_pending_operations_def cancel_io_def split: option.splits)
    have all: "list_all settled (ic_tasks s)" using assms(2) by (auto simp: storage_drop_def split: if_splits)
    consider "pending_none s" "s' = s\<lparr>ic_drop := DropShut False\<rparr>"
      | "s' = (cancel_pending_operations s)\<lparr>ic_drop := DropDraining\<rparr>"
      using assms(2) by (auto simp: storage_drop_def split: drop_phase.splits if_splits)
    then show ?thesis
    proof cases
      case 1
      then have "s' = s\<lparr>ic_inflight := ic_inflight s, ic_drop := DropShut False\<rparr>" by simp
      from that[OF this] 1(1) all show ?thesis by simp
    next
      case 2
      from that[OF 2[unfolded c] m] all show ?thesis by simp
    qed
  qed
  show "mset (kernel_writes s') = mset (kernel_writes s)" by (simp add: s' kernel_writes_def ios)
  show "inv_packets (ic_finished s') (ic_port s' @ poller_batch (ic_poller s'))"
    using iocp_invD(7)[OF assms(1)] by (simp add: s')
  show "inv_drop (ic_tasks s') (ic_registry s') (ic_drop s')"
    using d settled by (auto simp: s' inv_drop_def pending_none_def list_all_length)
  show "ic_tasks s' = ic_tasks s" "ic_registry s' = ic_registry s" "ic_pool s' = ic_pool s"
    "ic_results s' = ic_results s" "set (ic_finished s) \<subseteq> set (ic_finished s')"
    "poller_key (ic_poller s') = poller_key (ic_poller s)" by (simp_all add: s')
  show "\<exists>es. ic_poller s = PollerGot k p r es" if "ic_poller s' = PollerGot k p r es" for k p r es
    using that by (simp add: s')
  show "\<exists>es. ic_poller s' = PollerGot k p r es" if "ic_poller s = PollerGot k p r es" for k p r es
    using that by (simp add: s')
qed

lemma inv_drain_timeout:
  assumes "iocp_inv rtl s" "drain_timeout s = Some s'"
  shows "iocp_inv rtl s'"
  using assms by (auto simp: drain_timeout_def iocp_inv_def inv_drop_def kernel_writes_def split: if_splits)

lemma inv_exit:
  assumes "iocp_inv rtl s" "poller_exit s = Some s'"
  shows "iocp_inv rtl s'"
  using assms by (auto simp: poller_exit_def iocp_inv_def inv_got_def inv_wait_def kernel_writes_def
      poller_key_def poller_batch_def split: if_splits)

lemma inv_close:
  assumes "iocp_inv rtl s" "storage_close s = Some s'"
  shows "iocp_inv rtl s'"
proof -
  obtain b where b: "ic_drop s = DropShut b" and s': "s' = s\<lparr>ic_drop := DropClosed b, ic_state := IocpClosed,
      ic_file := None, ic_pool := [], ic_registry := (if b then ic_registry s else Map.empty)\<rparr>"
    using assms(2) by (auto simp: storage_close_def split: drop_phase.splits if_splits)
  have "(if b then ic_registry s else Map.empty) = ic_registry s"
    using iocp_invD(9)[OF assms(1)] b by (simp add: inv_drop_def)
  then show ?thesis using assms(1) b
    by (auto simp: s' iocp_inv_def inv_pool_def inv_held_def inv_drop_def kernel_writes_def)
qed

text \<open>Every packet is that of a registered write, and of the call that waits for it.\<close>

lemma packet_registered:
  assumes "iocp_inv rtl s" "ic_poller s = PollerBatch (e # es)"
  shows "\<exists>p. ic_registry s (pk_key e) = Some p \<and> pw_task p = pk_task e"
    and "pk_task e < length (ic_tasks s)" "parked (ic_tasks s ! pk_task e) (pk_key e)"
    and "(pk_task e, pk_bytes e, pk_status e) \<in> set (ic_finished s)"
proof -
  have "(pk_key e, pk_task e) \<in> set (kernel_writes s)" by (simp add: kernel_writes_def assms(2) poller_batch_def)
  then show "\<exists>p. ic_registry s (pk_key e) = Some p \<and> pw_task p = pk_task e"
    "pk_task e < length (ic_tasks s)" "parked (ic_tasks s ! pk_task e) (pk_key e)"
    using iocp_invD(4)[OF assms(1)] unfolding inv_kernel_def by blast+
  show "(pk_task e, pk_bytes e, pk_status e) \<in> set (ic_finished s)"
    using iocp_invD(7)[OF assms(1)] by (simp add: inv_packets_def assms(2) poller_batch_def)
qed

lemma inv_poll_take_out:
  assumes inv: "iocp_inv rtl s" and b: "ic_poller s = PollerBatch (e # es)" and p: "ic_registry s (pk_key e) = Some p"
    and s': "s' = s\<lparr>ic_registry := (ic_registry s)(pk_key e := None),
      ic_poller := PollerGot (pk_key e) p (completion_result rtl (pk_bytes e) (pk_status e)) es\<rparr>"
  shows "iocp_inv rtl s'"
proof -
  define k t where kt: "k = pk_key e" "t = pk_task e"
  note pk = packet_registered[OF inv b]
  have own: "pw_task p = t" using pk(1) p kt by auto
  have parked: "parked (ic_tasks s ! t) k" and len: "t < length (ic_tasks s)" using pk(2,3) kt by simp_all
  have ks: "mset (kernel_writes s) = add_mset (k, t) (mset (kernel_writes s'))"
    by (simp add: kernel_writes_def b poller_batch_def s' kt)
  have "mset (map fst (kernel_writes s)) = mset (map fst ((k, t) # kernel_writes s'))"
    by (simp only: mset_map ks mset.simps)
  from mset_eq_imp_distinct_iff[OF this]
  have dist: "distinct (map fst (kernel_writes s'))" "k \<notin> fst ` set (kernel_writes s')"
    using iocp_invD(4)[OF inv] by (simp_all add: inv_kernel_def)
  have sub: "set (kernel_writes s) = insert (k, t) (set (kernel_writes s'))"
    using ks[THEN arg_cong[where f = set_mset]] by simp
  have only: "x = k" if x: "ic_registry s x = Some q" "pw_task q = t" for x q
  proof -
    have "\<not> busy (ic_tasks s ! t) x" using parked by (auto simp: busy_def parked_def)
    then have "parked (ic_tasks s ! t) x" using inv_ownedD[OF inv x(1)] x(2) by simp
    then show ?thesis using parked by (auto simp: parked_def)
  qed
  have none: "ic_results s t = None"
    using iocp_invD(5)[OF inv] p own by (cases "ic_results s t") (auto simp: inv_results_def)
  have pk0: "poller_key (ic_poller s) = None" by (simp add: poller_key_def b)
  let ?reg = "(ic_registry s)(k := None)"
  have rest: "ic_tasks s' = ic_tasks s" "ic_registry s' = ?reg" "ic_pool s' = ic_pool s"
    "ic_results s' = ic_results s" "ic_finished s' = ic_finished s" "ic_drop s' = ic_drop s" "ic_port s' = ic_port s"
    "ic_poller s' = PollerGot k p (completion_result rtl (pk_bytes e) (pk_status e)) es"
    "poller_key (PollerGot k p (completion_result rtl (pk_bytes e) (pk_status e)) es) = Some k"
    "poller_batch (PollerGot k p (completion_result rtl (pk_bytes e) (pk_status e)) es) = es"
    by (simp_all add: s' kt poller_key_def poller_batch_def)
  have free: "k \<notin> set (ic_pool s)" using iocp_invD(1)[OF inv] p kt by (auto simp: inv_pool_def)
  have "inv_pool (ic_pool s) ?reg (Some k)" using iocp_invD(1)[OF inv] free by (auto simp: inv_pool_def)
  moreover have "inv_held (ic_tasks s) (ic_pool s) ?reg (Some k)"
    using iocp_invD(2)[OF inv] p kt unfolding inv_held_def
    by (metis fun_upd_apply option.distinct(1) option.inject)
  moreover have "inv_owned (ic_tasks s) ?reg"
    unfolding inv_owned_def
  proof (intro conjI allI impI)
    fix x q assume "?reg x = Some q"
    then have "ic_registry s x = Some q" by (auto split: if_splits)
    from inv_ownedD[OF inv this]
    show "pw_task q < length (ic_tasks s)" "busy (ic_tasks s ! pw_task q) x \<or> parked (ic_tasks s ! pw_task q) x" by simp_all
  next
    fix u x assume u: "u < length (ic_tasks s)" "busy (ic_tasks s ! u) x"
    from inv_busyD[OF inv this] obtain q where q: "ic_registry s x = Some q" "pw_task q = u" by blast
    have "x \<noteq> k"
    proof
      assume "x = k"
      then have "u = t" using q p own kt by simp
      then show False using u(2) parked by (auto simp: busy_def parked_def)
    qed
    then show "\<exists>q. ?reg x = Some q \<and> pw_task q = u" using q by auto
  qed
  moreover have "inv_kernel (ic_tasks s) ?reg (kernel_writes s')"
    unfolding inv_kernel_def
  proof (intro conjI allI impI)
    fix x u assume xu: "(x, u) \<in> set (kernel_writes s')"
    then have "x \<noteq> k" using dist(2) by force
    then show "u < length (ic_tasks s)" "\<exists>q. ?reg x = Some q \<and> pw_task q = u" "parked (ic_tasks s ! u) x"
      using iocp_invD(4)[OF inv] xu sub unfolding inv_kernel_def by auto
  qed (rule dist(1))
  moreover have "inv_results rtl (ic_tasks s) ?reg (ic_results s) (ic_finished s)"
    using iocp_invD(5)[OF inv] unfolding inv_results_def by (metis fun_upd_apply option.distinct(1))
  moreover have "inv_got rtl (ic_tasks s) ?reg (ic_results s) (ic_finished s) (ic_poller s')"
  proof -
    have "pw_task q \<noteq> t" if "?reg x = Some q" for x q
      using that only[of x q] by (auto split: if_splits)
    moreover have "answered rtl (ic_finished s) t (completion_result rtl (pk_bytes e) (pk_status e))"
      using pk(4) kt by (auto simp: answered_def)
    ultimately show ?thesis using own parked len none by (auto simp: inv_got_def rest split: if_splits)
  qed
  moreover have "inv_packets (ic_finished s) (ic_port s @ es)"
    using iocp_invD(7)[OF inv] by (auto simp: inv_packets_def b poller_batch_def)
  moreover have "inv_wait (ic_tasks s) (ic_results s) (kernel_writes s') (ic_poller s')"
    unfolding inv_wait_def
  proof (intro allI impI)
    fix u x assume u: "u < length (ic_tasks s)" "ic_tasks s ! u = WWaiting x" "ic_results s u = None"
    have "(x, u) \<in> set (kernel_writes s) \<or> (\<exists>p r es. ic_poller s = PollerGot x p r es \<and> pw_task p = u)"
      using iocp_invD(8)[OF inv] u unfolding inv_wait_def by blast
    then have "(x, u) \<in> set (kernel_writes s') \<or> x = k \<and> u = t" using sub b by auto
    then show "(x, u) \<in> set (kernel_writes s') \<or> (\<exists>p r es. ic_poller s' = PollerGot x p r es \<and> pw_task p = u)"
      using own rest(8) by auto
  qed
  moreover have "inv_drop (ic_tasks s) ?reg (ic_drop s)"
    using iocp_invD(9)[OF inv] p kt unfolding inv_drop_def by auto
  ultimately show ?thesis unfolding iocp_inv_def rest by blast
qed

lemma inv_poll_send:
  assumes inv: "iocp_inv rtl s" and g: "ic_poller s = PollerGot k p r es"
    and s': "s' = s\<lparr>ic_results := (ic_results s)(pw_task p \<mapsto> r), ic_poller := PollerSent k es\<rparr>"
  shows "iocp_inv rtl s'"
proof -
  let ?t = "pw_task p"
  have got: "?t < length (ic_tasks s)" "parked (ic_tasks s ! ?t) k" "ic_results s ?t = None"
    "\<And>x q. ic_registry s x = Some q \<Longrightarrow> pw_task q \<noteq> ?t" "answered rtl (ic_finished s) ?t r"
    using iocp_invD(6)[OF inv] g unfolding inv_got_def by blast+
  have rest: "ic_tasks s' = ic_tasks s" "ic_registry s' = ic_registry s" "ic_pool s' = ic_pool s"
    "ic_finished s' = ic_finished s" "ic_drop s' = ic_drop s" "ic_port s' = ic_port s"
    "ic_results s' = (ic_results s)(?t \<mapsto> r)" "ic_poller s' = PollerSent k es" "kernel_writes s' = kernel_writes s"
    "poller_key (PollerSent k es) = poller_key (ic_poller s)" "poller_batch (PollerSent k es) = poller_batch (ic_poller s)"
    by (simp_all add: s' kernel_writes_def poller_key_def poller_batch_def g)
  have "inv_results rtl (ic_tasks s) (ic_registry s) ((ic_results s)(?t \<mapsto> r)) (ic_finished s)"
    unfolding inv_results_def
  proof (intro allI impI)
    fix u q assume q: "((ic_results s)(?t \<mapsto> r)) u = Some q"
    show "u < length (ic_tasks s) \<and> (\<forall>k p. ic_registry s k = Some p \<longrightarrow> pw_task p \<noteq> u) \<and>
        answered rtl (ic_finished s) u q \<and> ((\<exists>k. parked (ic_tasks s ! u) k) \<or> (\<exists>r. ic_tasks s ! u = WDone r))"
    proof (cases "u = ?t")
      case True
      then show ?thesis using q got by auto
    next
      case False
      then have "ic_results s u = Some q" using q by simp
      then show ?thesis using iocp_invD(5)[OF inv] unfolding inv_results_def by blast
    qed
  qed
  moreover have "inv_got rtl (ic_tasks s) (ic_registry s) ((ic_results s)(?t \<mapsto> r)) (ic_finished s) (PollerSent k es)"
    by (simp add: inv_got_def)
  moreover have "inv_wait (ic_tasks s) ((ic_results s)(?t \<mapsto> r)) (kernel_writes s) (PollerSent k es)"
    unfolding inv_wait_def
  proof (intro allI impI)
    fix u x assume u: "u < length (ic_tasks s)" "ic_tasks s ! u = WWaiting x" "((ic_results s)(?t \<mapsto> r)) u = None"
    then have "u \<noteq> ?t" "ic_results s u = None" by (auto split: if_splits)
    then show "(x, u) \<in> set (kernel_writes s) \<or> (\<exists>p r es'. PollerSent k es = PollerGot x p r es' \<and> pw_task p = u)"
      using iocp_invD(8)[OF inv] u(1,2) g unfolding inv_wait_def by (metis poller.inject(2))
  qed
  ultimately show ?thesis
    using iocp_invD(1-4,7,9)[OF inv] unfolding iocp_inv_def rest by blast
qed

lemma inv_poll_release:
  assumes inv: "iocp_inv rtl s" and g: "ic_poller s = PollerSent k es"
    and s': "s' = pool_release k (s\<lparr>ic_poller := PollerBatch es\<rparr>)"
  shows "iocp_inv rtl s'"
proof -
  have rest: "ic_tasks s' = ic_tasks s" "ic_registry s' = ic_registry s" "ic_pool s' = ic_pool s @ [k]"
    "ic_finished s' = ic_finished s" "ic_drop s' = ic_drop s" "ic_port s' = ic_port s"
    "ic_results s' = ic_results s" "ic_poller s' = PollerBatch es" "kernel_writes s' = kernel_writes s"
    "poller_key (PollerBatch es) = None" "poller_batch (PollerBatch es) = poller_batch (ic_poller s)"
    by (simp_all add: s' pool_release_def kernel_writes_def poller_key_def poller_batch_def g)
  have k: "poller_key (ic_poller s) = Some k" by (simp add: g poller_key_def)
  have "inv_pool (ic_pool s @ [k]) (ic_registry s) None"
    using iocp_invD(1)[OF inv] k by (auto simp: inv_pool_def)
  moreover have "inv_held (ic_tasks s) (ic_pool s @ [k]) (ic_registry s) None"
    using iocp_invD(2)[OF inv] k unfolding inv_held_def by auto
  moreover have "inv_got rtl (ic_tasks s) (ic_registry s) (ic_results s) (ic_finished s) (PollerBatch es)"
    by (simp add: inv_got_def)
  moreover have "inv_wait (ic_tasks s) (ic_results s) (kernel_writes s) (PollerBatch es)"
    using iocp_invD(8)[OF inv] g by (simp add: inv_wait_def)
  ultimately show ?thesis
    using iocp_invD(3-5,7,9)[OF inv] unfolding iocp_inv_def rest by blast
qed

lemma inv_poll:
  assumes "iocp_inv rtl s" "poller_step rtl s = Some s'"
  shows "iocp_inv rtl s'"
proof (cases "ic_poller s")
  case (PollerBatch es)
  show ?thesis
  proof (cases es)
    case Nil
    then show ?thesis
      using assms PollerBatch
      by (auto simp: poller_step_def iocp_inv_def inv_got_def inv_wait_def kernel_writes_def poller_key_def poller_batch_def)
  next
    case (Cons e rest)
    then have b: "ic_poller s = PollerBatch (e # rest)" using PollerBatch by simp
    obtain p where p: "ic_registry s (pk_key e) = Some p" using packet_registered(1)[OF assms(1) b] by blast
    show ?thesis
      by (rule inv_poll_take_out[OF assms(1) b p]) (use assms(2) b p in \<open>simp add: poller_step_def\<close>)
  qed
next
  case (PollerGot k p r es)
  then show ?thesis using inv_poll_send[OF assms(1) PollerGot] assms(2) by (simp add: poller_step_def)
next
  case (PollerSent k es)
  then show ?thesis using inv_poll_release[OF assms(1) PollerSent] assms(2) by (simp add: poller_step_def)
qed (use assms(2) in \<open>simp_all add: poller_step_def\<close>)

lemma inv_act:
  assumes "iocp_inv rtl s" "iocp_act rtl a s = Some s'"
  shows "iocp_inv rtl s'"
proof (cases a)
  case (ActSyncWrite t n)
  then obtain k f where "t < length (ic_tasks s)" "ic_tasks s ! t = WRegistered k"
    "s' = set_phase t (WSyncDone k n) (s\<lparr>ic_file := f\<rparr>)"
    using assms(2) by (auto simp: write_sync_def split: if_splits write_phase.splits option.splits)
  then show ?thesis using inv_busy[OF assms(1), of t k "WSyncDone k n" f] by auto
next
  case (ActFailWrite t c)
  then obtain k where "t < length (ic_tasks s)" "ic_tasks s ! t = WRegistered k"
    "s' = set_phase t (WFailed k c) (s\<lparr>ic_file := ic_file s\<rparr>)"
    using assms(2) by (auto simp: write_fail_def split: if_splits write_phase.splits)
  then show ?thesis using inv_busy[OF assms(1), of t k "WFailed k c" "ic_file s"] by auto
next
  case (ActAcquire t fresh)
  then show ?thesis using assms inv_acquire by (auto split: if_splits)
next
  case (ActRegister t)
  then show ?thesis using assms inv_register by (auto split: if_splits)
next
  case (ActPendWrite t)
  then show ?thesis using assms inv_pend by (auto split: if_splits)
next
  case (ActFinish t)
  then show ?thesis using assms inv_finish by (auto split: if_splits)
next
  case (ActReceive t)
  then show ?thesis using assms inv_receive by (auto split: if_splits)
next
  case (ActDropFuture t)
  then show ?thesis using assms inv_future_drop by (auto split: if_splits)
next
  case (ActComplete i n st)
  then show ?thesis using assms inv_complete by auto
next
  case (ActTake n)
  then show ?thesis using assms inv_take by auto
next
  case ActPoll
  then show ?thesis using assms inv_poll by auto
next
  case ActPollerExit
  then show ?thesis using assms inv_exit by auto
next
  case ActDropStorage
  then show ?thesis using assms inv_storage_drop by auto
next
  case ActDrainTimeout
  then show ?thesis using assms inv_drain_timeout by auto
next
  case ActClose
  then show ?thesis using assms inv_close by auto
qed

lemma inv_reach: "iocp_reach rtl s0 s \<Longrightarrow> iocp_inv rtl s0 \<Longrightarrow> iocp_inv rtl s"
  by (induction rule: iocp_reach.induct) (auto intro: inv_act)

section \<open>Properties\<close>

definition new_writes :: "(u64 \<times> u8 list) list \<Rightarrow> write_phase list" where
  "new_writes calls = map (\<lambda>(off, d). WNew off d) calls"

lemma init_inv:
  "iocp_init setup (iocp_new (new_writes calls)) = (s0, Inr ()) \<Longrightarrow> iocp_inv rtl s0"
  by (rule inv_init[of _ calls])
    (auto simp: iocp_init_def iocp_new_def new_writes_def split: sum.splits option.splits)

text \<open>
  C39. The memory of a pending write stays alive and is not given to another. In every interleaving of
  writes, dropped futures, kernel, polling thread and drop of the storage, also after it: each write
  that the kernel works on or has answered is in the registry under its key, with its own call, so
  its data and OVERLAPPED exist; no two have one key; what is in the pool is free, once each; and a
  result that a call gets is what the kernel answered to this call.
\<close>

theorem iocp_memory_safe:
  assumes "iocp_init setup (iocp_new (new_writes calls)) = (s0, Inr ())" "iocp_reach rtl s0 s"
  shows "list_all (\<lambda>(k, t). map_option pw_task (ic_registry s k) = Some t) (kernel_writes s) \<and>
    distinct (map fst (kernel_writes s)) \<and> distinct (ic_pool s) \<and> set (ic_pool s) \<inter> dom (ic_registry s) = {} \<and>
    {(t, r). ic_results s t = Some r} \<subseteq>
      (\<lambda>(t, n, st). (t, completion_result rtl n st)) ` set (ic_finished s)"
proof -
  have inv: "iocp_inv rtl s" by (rule inv_reach[OF assms(2) init_inv[OF assms(1)]])
  have "list_all (\<lambda>(k, t). map_option pw_task (ic_registry s k) = Some t) (kernel_writes s)"
    using iocp_invD(4)[OF inv] by (fastforce simp: inv_kernel_def list_all_iff)
  moreover have "distinct (map fst (kernel_writes s))" using iocp_invD(4)[OF inv] by (simp add: inv_kernel_def)
  moreover have "distinct (ic_pool s)" "set (ic_pool s) \<inter> dom (ic_registry s) = {}"
    using iocp_invD(1)[OF inv] by (auto simp: inv_pool_def)
  moreover have "{(t, r). ic_results s t = Some r} \<subseteq>
      (\<lambda>(t, n, st). (t, completion_result rtl n st)) ` set (ic_finished s)"
    using iocp_invD(5)[OF inv] by (force simp: inv_results_def answered_def)
  ultimately show ?thesis by blast
qed

text \<open>Running a list of actions.\<close>

fun iocp_run :: "(32 word \<Rightarrow> u32) \<Rightarrow> iocp_action list \<Rightarrow> iocp \<Rightarrow> iocp option" where
  "iocp_run rtl [] s = Some s"
| "iocp_run rtl (a # as) s = Option.bind (iocp_act rtl a s) (iocp_run rtl as)"

lemma iocp_run_reach: "iocp_run rtl as s = Some s' \<Longrightarrow> iocp_reach rtl s0 s \<Longrightarrow> iocp_reach rtl s0 s'"
  by (induction as arbitrary: s) (auto simp: bind_eq_Some_conv intro: reach_step)

definition iocp_plain_setup :: iocp_setup where
  "iocp_plain_setup = \<lparr>is_open = Inr \<lparr>of_bytes = [], of_outcomes = []\<rparr>, is_port = None, is_modes = None, is_spawn = None\<rparr>"

definition two_writes :: iocp where
  "two_writes = fst (iocp_init iocp_plain_setup (iocp_new (new_writes [(0, [1]), (8, [2])])))"

lemma two_writes_init: "iocp_init iocp_plain_setup (iocp_new (new_writes [(0, [1]), (8, [2])])) = (two_writes, Inr ())"
  by (simp add: two_writes_def iocp_init_def iocp_new_def iocp_plain_setup_def)

lemma two_writes_reach: "iocp_run rtl as two_writes = Some s \<Longrightarrow> iocp_reach rtl two_writes s"
  by (rule iocp_run_reach[OF _ reach_refl])

text \<open>The first write ends, and its OVERLAPPED is used again by the second.\<close>

definition reuse_trace :: "iocp_action list" where
  "reuse_trace = [ActAcquire 0 16, ActRegister 0, ActPendWrite 0, ActComplete 0 1 0, ActTake 1, ActPoll, ActPoll,
     ActPoll, ActAcquire 1 99, ActRegister 1, ActPendWrite 1]"

lemmas iocp_exec = two_writes_def iocp_init_def iocp_new_def iocp_plain_setup_def new_writes_def write_acquire_def
  write_register_def write_pend_def kernel_complete_def poller_take_def poller_step_def future_drop_def
  guard_drop_def cancel_io_def pool_acquire_def pool_release_def set_phase_def allocated_def held_key_def
  poller_key_def write_len_def file_written_def remove_nth_def is_shut_def

lemma reuse_trace_run:
  "\<exists>s. iocp_run rtl reuse_trace two_writes = Some s \<and> kernel_writes s = [(16, 1)] \<and>
     ic_tasks s = [WWaiting 16, WWaiting 16] \<and> ic_drop s = DropLive \<and> ic_registry s 16 \<noteq> None \<and>
     ic_results s 0 = Some (Inr 1) \<and> (\<exists>io. ic_inflight s = [io] \<and> io_key io = 16 \<and> io_task io = 1)"
  by (simp add: reuse_trace_def iocp_exec kernel_writes_def poller_batch_def completion_result_def Let_def)

theorem iocp_memory_safe_witness:
  "\<exists>s. iocp_run id reuse_trace two_writes = Some s \<and> set (ic_pool s) \<inter> dom (ic_registry s) = {} \<and>
     {(t, r). ic_results s t = Some r} \<subseteq> (\<lambda>(t, n, st). (t, completion_result id n st)) ` set (ic_finished s)"
proof -
  obtain s where s: "iocp_run id reuse_trace two_writes = Some s" using reuse_trace_run by blast
  from iocp_memory_safe[OF two_writes_init two_writes_reach[OF s]] s show ?thesis by blast
qed

text \<open>A call never waits for nothing: its result is there, or the kernel or the thread is about to give it.\<close>

lemma iocp_no_lost_write:
  assumes "iocp_init setup (iocp_new (new_writes calls)) = (s0, Inr ())" "iocp_reach rtl s0 s"
    and "t < length (ic_tasks s)" "ic_tasks s ! t = WWaiting k"
  shows "ic_results s t \<noteq> None \<or> (k, t) \<in> set (kernel_writes s) \<or>
    (\<exists>p r es. ic_poller s = PollerGot k p r es \<and> pw_task p = t)"
  using iocp_invD(8)[OF inv_reach[OF assms(2) init_inv[OF assms(1)]]] assms(3,4) unfolding inv_wait_def by blast

text \<open>
  A dropped future can cancel the write of another call: after its own write has ended its key is
  that of another, and the guard asks only whether the key is in the registry.
\<close>

theorem dropped_future_cancels_other:
  "\<exists>s io. iocp_reach rtl two_writes s \<and> ic_inflight s = [io] \<and> io_cancelled io \<and> io_task io = 1 \<and>
     ic_tasks s = [WDropped 16, WWaiting 16] \<and> ic_drop s = DropLive"
proof -
  obtain s io where s: "iocp_run rtl reuse_trace two_writes = Some s" "ic_tasks s = [WWaiting 16, WWaiting 16]"
    "ic_drop s = DropLive" "ic_registry s 16 \<noteq> None" "ic_inflight s = [io]" "io_key io = 16" "io_task io = 1"
    using reuse_trace_run[of rtl] by blast
  let ?s = "set_phase 0 (WDropped 16) (guard_drop 16 s)"
  have "iocp_act rtl (ActDropFuture 0) s = Some ?s" by (simp add: future_drop_def s(2))
  from reach_step[OF two_writes_reach[OF s(1)] this] have "iocp_reach rtl two_writes ?s" .
  moreover obtain p where "ic_registry s 16 = Some p" using s(4) by blast
  then have "ic_inflight ?s = [io\<lparr>io_cancelled := True\<rparr>]"
    using s(5,6) by (simp add: guard_drop_def cancel_io_def set_phase_def)
  moreover have "ic_tasks ?s = [WDropped 16, WWaiting 16]" "ic_drop ?s = DropLive"
    using s by (simp_all add: guard_drop_def cancel_io_def set_phase_def)
  ultimately show ?thesis using s(7) by (intro exI[of _ ?s] exI[of _ "io\<lparr>io_cancelled := True\<rparr>"]) simp
qed

end
