(* ===== verification/Fragment_Task.thy ===== *)
theory Fragment_Task
  imports Fragment_Download Circuit_Breaker
begin

text \<open>
  The task \<open>execute_fragmented_download\<close> of \<open>downloader.rs\<close> spawns for each fragment: attempts
  with exponential backoff behind the circuit breaker of the source. The breakers are shared with
  the other tasks; \<open>ai_others\<close> is what these did to them since the last step of this one. Waiting for
  the semaphore and sleeping only take time; the sleeps are recorded.
\<close>

record attempt_input =
  ai_others :: "source_breakers \<Rightarrow> source_breakers"
  ai_now :: nat
  ai_permit :: "unit download_result"
  ai_opened :: "u8 list download_result list download_result"
  ai_elapsed :: duration
  ai_others_meanwhile :: "source_breakers \<Rightarrow> source_breakers"
  ai_later :: nat

record 's task_env =
  te_frag :: "'s frag_env"
  te_breakers :: source_breakers
  te_metrics :: "metrics option"
  te_sleeps :: "u64 list"

definition attempt_backoff :: "download_error \<Rightarrow> u32 \<Rightarrow> u32 \<Rightarrow> u64" where
  "attempt_backoff e frag_index attempt =
     (case e of
        Throttled (Some secs) \<Rightarrow> min secs 1024
      | _ \<Rightarrow>
          (let base_secs = push_bit (unat (min attempt 10)) 1
           in if base_secs \<le> 1 then 1
              else
                (let seed = ucast frag_index * 0x9E3779B97F4A7C15 + ucast attempt;
                     log2 = trailing_zeros base_secs;
                     hash = seed * 0x517cc1b727220a95;
                     jitter = drop_bit (64 - log2) hash
                 in max (saturating_sub base_secs jitter) 1)))"

definition count_error :: "'s task_env \<Rightarrow> 's task_env" where
  "count_error te = te\<lparr>te_metrics := map_option inc_error (te_metrics te)\<rparr>"

definition touch_breakers :: "(source_breakers \<Rightarrow> source_breakers) \<Rightarrow> 's task_env \<Rightarrow> 's task_env" where
  "touch_breakers f te = te\<lparr>te_breakers := f (te_breakers te)\<rparr>"

definition sleep :: "u64 \<Rightarrow> 's task_env \<Rightarrow> 's task_env" where
  "sleep secs te = te\<lparr>te_sleeps := te_sleeps te @ [secs]\<rparr>"

text \<open>The attempt behind the breaker, without the retry decision.\<close>

definition guarded_attempt ::
    "'s write_op \<Rightarrow> string \<Rightarrow> u32 \<Rightarrow> u64 \<Rightarrow> u64 \<Rightarrow> attempt_input \<Rightarrow> 's task_env \<Rightarrow>
     's task_env \<times> (u64 \<times> duration) download_result option" where
  "guarded_attempt wr source idx st en inp te =
     (case breakers_allow (ai_now inp) source (ai_others inp (te_breakers te)) of
        (br, allowed) \<Rightarrow>
          (let te = te\<lparr>te_breakers := br\<rparr>
           in if \<not> allowed then (te, None)
              else
                (case download_single_fragment wr (ai_permit inp) (ai_opened inp) (ai_elapsed inp)
                        idx st en (te_frag te) of
                   (env, r) \<Rightarrow>
                     (touch_breakers (ai_others_meanwhile inp) (te\<lparr>te_frag := env\<rparr>), Some r))))"

function fragment_task ::
    "'s write_op \<Rightarrow> string \<Rightarrow> u32 \<Rightarrow> u64 \<Rightarrow> u64 \<Rightarrow> u32 \<Rightarrow> (u32 \<Rightarrow> attempt_input) \<Rightarrow> u32 \<Rightarrow> 's task_env \<Rightarrow>
     's task_env \<times> ((u32 \<times> download_error) + (u32 \<times> u64 \<times> duration))" where
  "fragment_task wr source idx st en mr inputs attempt te =
     (case guarded_attempt wr source idx st en (inputs attempt) te of
        (te, None) \<Rightarrow>
          if attempt \<ge> mr then (te, Inl (idx, Network ''circuit open''))
          else fragment_task wr source idx st en mr inputs (attempt + 1) (sleep 1 te)
      | (te, Some (Inr (downloaded, dur))) \<Rightarrow>
          (touch_breakers (breakers_success source) te, Inr (idx, downloaded, dur))
      | (te, Some (Inl e)) \<Rightarrow>
          if \<not> is_retryable e \<or> attempt \<ge> mr then
            (touch_breakers (breakers_failure (ai_later (inputs attempt)) source) (count_error te),
             Inl (idx, e))
          else
            fragment_task wr source idx st en mr inputs (attempt + 1)
              (sleep (attempt_backoff e idx attempt)
                 (touch_breakers (breakers_failure (ai_later (inputs attempt)) source) te)))"
  by pat_completeness auto
termination
  by (relation "measure (\<lambda>(_, _, _, _, _, mr, _, attempt, _). unat mr - unat attempt)")
    (auto simp: not_le word_less_nat_alt unat_suc_below intro!: diff_less_mono2)

declare fragment_task.simps [simp del]

section \<open>What a task does\<close>

lemma task_env_simps [simp]:
  "te_frag (count_error te) = te_frag te" "te_frag (touch_breakers f te) = te_frag te"
  "te_frag (sleep w te) = te_frag te"
  "te_sleeps (count_error te) = te_sleeps te" "te_sleeps (touch_breakers f te) = te_sleeps te"
  "te_sleeps (sleep w te) = te_sleeps te @ [w]"
  by (simp_all add: count_error_def touch_breakers_def sleep_def)

lemma guarded_attempt_cases:
  assumes "guarded_attempt wr source idx st en inp te = (te', r)"
  obtains "r = None" "te_frag te' = te_frag te" "te_sleeps te' = te_sleeps te"
  | env q where "r = Some q" "te_frag te' = env" "te_sleeps te' = te_sleeps te"
    "download_single_fragment wr (ai_permit inp) (ai_opened inp) (ai_elapsed inp) idx st en (te_frag te)
       = (env, q)"
  using assms by (auto simp: guarded_attempt_def Let_def split: prod.splits if_splits)

text \<open>The induction that follows the attempts.\<close>

lemma fragment_task_ind:
  assumes "fragment_task wr source idx st en mr inputs attempt te = (te', r)"
    and stop: "\<And>attempt te te1. guarded_attempt wr source idx st en (inputs attempt) te = (te1, None) \<Longrightarrow>
      attempt \<ge> mr \<Longrightarrow> P attempt te te1 (Inl (idx, Network ''circuit open''))"
    and ok: "\<And>attempt te te1 n d.
      guarded_attempt wr source idx st en (inputs attempt) te = (te1, Some (Inr (n, d))) \<Longrightarrow>
      P attempt te (touch_breakers (breakers_success source) te1) (Inr (idx, n, d))"
    and fail: "\<And>attempt te te1 e.
      guarded_attempt wr source idx st en (inputs attempt) te = (te1, Some (Inl e)) \<Longrightarrow>
      \<not> is_retryable e \<or> attempt \<ge> mr \<Longrightarrow>
      P attempt te (touch_breakers (breakers_failure (ai_later (inputs attempt)) source) (count_error te1))
        (Inl (idx, e))"
    and retry: "\<And>attempt te te1 q w f te2 r.
      guarded_attempt wr source idx st en (inputs attempt) te = (te1, q) \<Longrightarrow>
      q = None \<or> (\<exists>e. q = Some (Inl e) \<and> is_retryable e \<and> w = attempt_backoff e idx attempt) \<Longrightarrow>
      attempt < mr \<Longrightarrow> P (attempt + 1) (sleep w (touch_breakers f te1)) te2 r \<Longrightarrow> P attempt te te2 r"
  shows "P attempt te te' r"
  using assms(1)
proof (induction "unat mr - unat attempt" arbitrary: attempt te rule: less_induct)
  case less
  obtain te1 q where g: "guarded_attempt wr source idx st en (inputs attempt) te = (te1, q)"
    by (cases "guarded_attempt wr source idx st en (inputs attempt) te")
  note step = less.prems[unfolded fragment_task.simps[of wr source idx st en mr inputs attempt te] g]
  have smaller: "unat mr - unat (attempt + 1) < unat mr - unat attempt" if "attempt < mr"
    using that by (simp add: word_less_nat_alt unat_suc_below diff_less_mono2)
  have id: "te1 = touch_breakers (\<lambda>b. b) te1" by (simp add: touch_breakers_def)
  consider "q = None" | n d where "q = Some (Inr (n, d))" | e where "q = Some (Inl e)"
    by (cases q rule: option.exhaust) (auto, metis old.prod.exhaust sum.exhaust)
  then show ?case
  proof cases
    case 1
    show ?thesis
    proof (cases "attempt \<ge> mr")
      case True
      then show ?thesis using step 1 stop[OF g[unfolded 1]] by auto
    next
      case False
      then have lt: "attempt < mr" by simp
      have "fragment_task wr source idx st en mr inputs (attempt + 1) (sleep 1 te1) = (te', r)"
        using step 1 False by simp
      from less.hyps[OF smaller[OF lt] this]
      have "P (attempt + 1) (sleep 1 (touch_breakers (\<lambda>b. b) te1)) te' r" using id by simp
      then show ?thesis by (rule retry[OF g _ lt, rotated]) (use 1 in simp)
    qed
  next
    case 2
    then show ?thesis using step ok[OF g[unfolded 2]] by auto
  next
    case 3
    show ?thesis
    proof (cases "\<not> is_retryable e \<or> attempt \<ge> mr")
      case True
      then show ?thesis using step 3 fail[OF g[unfolded 3] True] by auto
    next
      case False
      then have lt: "attempt < mr" using not_le by blast
      have "fragment_task wr source idx st en mr inputs (attempt + 1)
          (sleep (attempt_backoff e idx attempt)
            (touch_breakers (breakers_failure (ai_later (inputs attempt)) source) te1)) = (te', r)"
        using step 3 False by simp
      from less.hyps[OF smaller[OF lt] this] show ?thesis
        by (rule retry[OF g _ lt, rotated]) (use 3 False in simp)
    qed
  qed
qed

lemma fragment_task_sleeps:
  assumes "fragment_task wr source idx st en mr inputs attempt te = (te', r)"
  shows "length (te_sleeps te') \<le> length (te_sleeps te) + (unat mr - unat attempt)"
  using assms
proof (rule fragment_task_ind)
  fix attempt te te1 q w f te2 and r :: "(u32 \<times> download_error) + (u32 \<times> u64 \<times> duration)"
  assume g: "guarded_attempt wr source idx st en (inputs attempt) te = (te1, q)" and lt: "attempt < mr"
    and IH: "length (te_sleeps te2) \<le>
      length (te_sleeps (sleep w (touch_breakers f te1))) + (unat mr - unat (attempt + 1))"
  have "te_sleeps te1 = te_sleeps te" using g by (rule guarded_attempt_cases) simp_all
  moreover have "unat (attempt + 1) = unat attempt + 1" "unat attempt < unat mr"
    using lt by (simp_all add: word_less_nat_alt unat_suc_below)
  ultimately show "length (te_sleeps te2) \<le> length (te_sleeps te) + (unat mr - unat attempt)"
    using IH by simp
qed (auto elim!: guarded_attempt_cases)

context async_storage
begin

lemma fragment_task_bytes:
  assumes "fragment_task write_at source idx st en mr inputs attempt te = (te', r)"
    and "\<forall>k stream. ai_opened (inputs k) = Inr stream \<longrightarrow> length (delivered stream) < 2 ^ 64"
  shows "(\<forall>i. i < unat st \<or> unat en < i \<longrightarrow>
       byte_at (content (fe_storage (te_frag te'))) i = byte_at (content (fe_storage (te_frag te))) i) \<and>
    (\<forall>j n d. r = Inr (j, n, d) \<longrightarrow> j = idx \<and> st \<le> en \<and> unat n = unat en + 1 - unat st \<and>
       (\<exists>k stream. ai_opened (inputs k) = Inr stream \<and> all_ok stream \<and>
          length (delivered stream) = unat n \<and>
          (\<forall>i. unat st \<le> i \<and> i \<le> unat en \<longrightarrow>
             byte_at (content (fe_storage (te_frag te'))) i = delivered stream ! (i - unat st))))"
    (is "?P attempt te te' r")
  using assms(1)
proof (rule fragment_task_ind[where P = ?P])
  note stream_len = assms(2)[rule_format]
  have one: "\<forall>i. i < unat st \<or> unat en < i \<longrightarrow>
      byte_at (content (fe_storage (te_frag te1))) i = byte_at (content (fe_storage (te_frag te))) i"
    if "guarded_attempt write_at source idx st en (inputs k) te = (te1, q)" for k te te1 q
    using that
  proof (rule guarded_attempt_cases)
    fix env v assume "te_frag te1 = env"
      and d: "download_single_fragment write_at (ai_permit (inputs k)) (ai_opened (inputs k))
        (ai_elapsed (inputs k)) idx st en (te_frag te) = (env, v)"
    then show ?thesis using single_fragment_bytes[OF d, THEN conjunct1] stream_len by blast
  qed simp
  {
    fix k te te1 assume "guarded_attempt write_at source idx st en (inputs k) te = (te1, None)"
    from one[OF this] show "?P k te te1 (Inl (idx, Network ''circuit open''))" by simp
  next
    fix k te te1 e assume "guarded_attempt write_at source idx st en (inputs k) te = (te1, Some (Inl e))"
    from one[OF this]
    show "?P k te (touch_breakers (breakers_failure (ai_later (inputs k)) source) (count_error te1))
      (Inl (idx, e))" by simp
  next
    fix k te te1 n d assume g: "guarded_attempt write_at source idx st en (inputs k) te = (te1, Some (Inr (n, d)))"
    from g show "?P k te (touch_breakers (breakers_success source) te1) (Inr (idx, n, d))"
    proof (rule guarded_attempt_cases)
      fix env q assume q: "Some (Inr (n, d)) = Some q" "te_frag te1 = env"
        and run: "download_single_fragment write_at (ai_permit (inputs k)) (ai_opened (inputs k))
          (ai_elapsed (inputs k)) idx st en (te_frag te) = (env, q)"
      from single_fragment_bytes[OF run, THEN conjunct2, rule_format] stream_len q(1) obtain stream
        where s: "ai_opened (inputs k) = Inr stream" "all_ok stream" "st \<le> en"
          "length (delivered stream) = unat n" "unat n = unat en + 1 - unat st"
          "\<forall>i. unat st \<le> i \<and> i \<le> unat en \<longrightarrow>
             byte_at (content (fe_storage env)) i = delivered stream ! (i - unat st)" by blast
      then show ?thesis using one[OF g] q(2) by auto
    qed simp_all
  next
    fix k te te1 q w f te2 r
    assume g: "guarded_attempt write_at source idx st en (inputs k) te = (te1, q)"
      and IH: "?P (k + 1) (sleep w (touch_breakers f te1)) te2 r"
    show "?P k te te2 r"
      by (rule conjI, use one[OF g] IH[THEN conjunct1] in simp, rule IH[THEN conjunct2])
  }
qed

end

text \<open>
  The backoff the loop computes inline is that of \<open>FragmentRecord::backoff_duration\<close> with the same
  seed, so it has the same bounds; a server's Retry-After is honoured up to 1024 seconds.
\<close>

lemma attempt_backoff_record:
  assumes "\<forall>secs. e \<noteq> Throttled (Some secs)" "fr_retry_count r = attempt"
  shows "attempt_backoff e idx attempt =
    backoff_secs (Some (ucast idx * 0x9E3779B97F4A7C15 + ucast attempt)) r"
proof -
  have "attempt_backoff e idx attempt =
      (let base_secs = push_bit (unat (min attempt 10)) 1
       in if base_secs \<le> 1 then 1
          else (let seed = ucast idx * 0x9E3779B97F4A7C15 + ucast attempt;
                    log2 = trailing_zeros base_secs;
                    hash = seed * 0x517cc1b727220a95;
                    jitter = drop_bit (64 - log2) hash
                in max (saturating_sub base_secs jitter) 1))"
    using assms(1) by (auto simp: attempt_backoff_def split: download_error.splits option.splits)
  then show ?thesis
    using assms(2) by (auto simp: backoff_secs_def Let_def not_le max_def)
qed

end
