(* ===== verification/Interleaved_Writes.thy ===== *)
theory Interleaved_Writes
  imports Fragment_Task Orchestrator
begin

text \<open>
  The fragments of a file are downloaded by concurrent tasks that write one file through positional
  writes. What a task writes does not depend on what the file holds, so a task run on a storage that
  only logs its writes tells them all; the file after any interleaving of the tasks is the result of
  any merge of their logs.
\<close>

section \<open>A storage that logs\<close>

type_synonym write_log = "(nat \<times> u8 list) list"

record log_storage =
  ls_outcomes :: "write_outcome list"
  ls_log :: write_log

text \<open>\<open>write_at\<close> with the same outcomes as a file: what reaches the disk is appended to the log.\<close>

definition log_write_at :: "nat \<Rightarrow> u8 list \<Rightarrow> log_storage \<Rightarrow> log_storage \<times> nat download_result" where
  "log_write_at off d ls =
     (let outcome = (case ls_outcomes ls of [] \<Rightarrow> WFull | w # _ \<Rightarrow> w);
          ls = ls\<lparr>ls_outcomes := tl (ls_outcomes ls)\<rparr>
      in case outcome of
           WErr \<Rightarrow> (ls, Inl (Io ''write_at''))
         | WFull \<Rightarrow> (ls\<lparr>ls_log := ls_log ls @ [(off, d)]\<rparr>, Inr (length d))
         | WShort n \<Rightarrow>
             (ls\<lparr>ls_log := ls_log ls @ [(off, take n d)]\<rparr>, Inr (min n (length d))))"

definition apply_log :: "u8 list \<Rightarrow> write_log \<Rightarrow> u8 list" where
  "apply_log c ws = foldl (\<lambda>c (off, d). overlay c off d) c ws"

lemma apply_log_simps [simp]:
  "apply_log c [] = c"
  "apply_log c ((off, d) # ws) = apply_log (overlay c off d) ws"
  "apply_log c (ws @ vs) = apply_log (apply_log c ws) vs"
  by (simp_all add: apply_log_def)

text \<open>The log is a file for every initial content, and writes the file as the file itself would.\<close>

interpretation logged: async_storage log_write_at "\<lambda>ls. apply_log c (ls_log ls)" for c
proof
  fix off :: nat and d :: "u8 list" and s s' :: log_storage and n e
  show "n \<le> length d \<and> apply_log c (ls_log s') = overlay (apply_log c (ls_log s)) off (take n d)"
    if "log_write_at off d s = (s', Inr n)"
    using that by (auto simp: log_write_at_def Let_def min_def split: write_outcome.splits list.splits)
  show "apply_log c (ls_log s') = apply_log c (ls_log s)" if "log_write_at off d s = (s', Inl e)"
    using that by (auto simp: log_write_at_def Let_def split: write_outcome.splits list.splits)
qed

lemma log_write_at_file:
  "file_write_at off d \<lparr>of_bytes = apply_log c (ls_log ls), of_outcomes = ls_outcomes ls\<rparr> =
     (case log_write_at off d ls of
        (ls', r) \<Rightarrow> (\<lparr>of_bytes = apply_log c (ls_log ls'), of_outcomes = ls_outcomes ls'\<rparr>, r))"
  by (auto simp: file_write_at_def log_write_at_def Let_def split: write_outcome.splits list.splits)

section \<open>Logs that stay in a range\<close>

definition touches :: "nat \<times> u8 list \<Rightarrow> nat \<Rightarrow> bool" where
  "touches w i = (fst w \<le> i \<and> i < fst w + length (snd w))"

lemma byte_at_apply_log_untouched:
  "\<forall>w \<in> set ws. \<not> touches w i \<Longrightarrow> byte_at (apply_log c ws) i = byte_at c i"
proof (induction ws arbitrary: c)
  case (Cons w ws)
  obtain off d where w: "w = (off, d)" by (cases w)
  have "byte_at (overlay c off d) i = byte_at c i"
    using Cons.prems w by (auto simp: touches_def byte_at_overlay)
  with Cons w show ?case by simp
qed simp

lemma byte_at_apply_log_touched:
  "\<exists>w \<in> set ws. touches w i \<Longrightarrow> byte_at (apply_log c ws) i = byte_at (apply_log c' ws) i"
proof (induction ws rule: rev_induct)
  case (snoc w ws)
  obtain off d where w: "w = (off, d)" by (cases w)
  show ?case
  proof (cases "touches w i")
    case True
    then show ?thesis using w by (simp add: touches_def byte_at_overlay)
  next
    case False
    then have "\<exists>w \<in> set ws. touches w i" using snoc.prems by auto
    from snoc.IH[OF this] show ?thesis by (simp add: w byte_at_overlay)
  qed
qed simp

lemma untouched_if_unchanged:
  assumes "\<And>c. byte_at (apply_log c ws) i = byte_at c i"
  shows "\<forall>w \<in> set ws. \<not> touches w i"
proof (rule ccontr)
  assume "\<not> ?thesis"
  then have "byte_at (apply_log [] ws) i = byte_at (apply_log (replicate (Suc i) 1) ws) i"
    by (intro byte_at_apply_log_touched) auto
  then have "byte_at [] i = byte_at (replicate (Suc i) 1) i" using assms by simp
  then show False by (simp add: byte_at_def del: replicate_Suc)
qed

section \<open>Merging logs\<close>

text \<open>
  A merge of the logs of the tasks: the writes in the order in which they reach the file, each with
  its task. The writes of one task keep their order.
\<close>

definition merge_of :: "(nat \<Rightarrow> write_log) \<Rightarrow> nat \<Rightarrow> (nat \<times> nat \<times> u8 list) list \<Rightarrow> bool" where
  "merge_of logs tasks zs =
     (fst ` set zs \<subseteq> {..<tasks} \<and>
      (\<forall>k < tasks. map snd (filter (\<lambda>z. fst z = k) zs) = logs k))"

lemma byte_at_merge_own:
  assumes "\<forall>z \<in> set zs. fst z \<noteq> k \<longrightarrow> \<not> touches (snd z) i"
  shows "byte_at (apply_log c (map snd zs)) i = byte_at (apply_log c (map snd (filter (\<lambda>z. fst z = k) zs))) i"
  using assms
proof (induction zs rule: rev_induct)
  case (snoc z zs)
  obtain j off d where z: "z = (j, off, d)" by (cases z)
  from snoc have IH: "byte_at (apply_log c (map snd zs)) i =
      byte_at (apply_log c (map snd (filter (\<lambda>z. fst z = k) zs))) i" by simp
  show ?case
    using IH snoc.prems z by (auto simp: byte_at_overlay touches_def)
qed simp

lemma merge_member:
  assumes "merge_of logs tasks zs" "w \<in> set (map snd zs)"
  shows "\<exists>k < tasks. w \<in> set (logs k)"
proof -
  obtain z where z: "z \<in> set zs" "w = snd z" using assms(2) by auto
  then have "fst z < tasks" "map snd (filter (\<lambda>y. fst y = fst z) zs) = logs (fst z)"
    using assms(1) by (auto simp: merge_of_def)
  moreover have "w \<in> set (map snd (filter (\<lambda>y. fst y = fst z) zs))" using z by auto
  ultimately show ?thesis by auto
qed

lemma merge_byte:
  assumes "merge_of logs tasks zs" "k < tasks"
    and "\<And>j w. j < tasks \<Longrightarrow> j \<noteq> k \<Longrightarrow> w \<in> set (logs j) \<Longrightarrow> \<not> touches w i"
  shows "byte_at (apply_log c (map snd zs)) i = byte_at (apply_log c (logs k)) i"
proof -
  have "\<not> touches (snd z) i" if "z \<in> set zs" "fst z \<noteq> k" for z
  proof -
    have j: "fst z < tasks" using assms(1) that(1) by (auto simp: merge_of_def)
    have "snd z \<in> set (map snd (filter (\<lambda>y. fst y = fst z) zs))" using that(1) by auto
    moreover have "map snd (filter (\<lambda>y. fst y = fst z) zs) = logs (fst z)"
      using assms(1) j by (auto simp: merge_of_def)
    ultimately have "snd z \<in> set (logs (fst z))" by simp
    with assms(3) j that(2) show ?thesis by blast
  qed
  with byte_at_merge_own[of zs k i c] assms(1,2) show ?thesis by (simp add: merge_of_def)
qed

section \<open>All fragments together\<close>

text \<open>
  The run of the task of fragment \<open>k\<close> from the start: its first attempt on an empty log.
\<close>

definition run_fragment ::
    "string \<Rightarrow> u32 \<Rightarrow> (nat \<Rightarrow> u32 \<Rightarrow> attempt_input) \<Rightarrow> (nat \<Rightarrow> log_storage task_env) \<Rightarrow> fragment_info \<Rightarrow> nat \<Rightarrow>
     log_storage task_env \<times> ((u32 \<times> download_error) + (u32 \<times> u64 \<times> duration))" where
  "run_fragment source mr inputs tes f k =
     fragment_task log_write_at source (fi_index f) (fi_start f) (fi_end f) mr (inputs k) 0 (tes k)"

definition fragment_log :: "log_storage task_env \<Rightarrow> write_log" where
  "fragment_log te = ls_log (fe_storage (te_frag te))"

definition streams_fit :: "(u32 \<Rightarrow> attempt_input) \<Rightarrow> bool" where
  "streams_fit inp = (\<forall>a stream. ai_opened (inp a) = Inr stream \<longrightarrow> length (delivered stream) < 2 ^ 64)"

text \<open>
  The server answers a range request that it serves to the end with bytes of the remote file.
\<close>

definition honest :: "u8 list \<Rightarrow> fragment_info \<Rightarrow> (u32 \<Rightarrow> attempt_input) \<Rightarrow> bool" where
  "honest remote f inp =
     (\<forall>a stream. ai_opened (inp a) = Inr stream \<and> all_ok stream \<and>
        length (delivered stream) = unat (fi_end f) + 1 - unat (fi_start f) \<longrightarrow>
        delivered stream = take (length (delivered stream)) (drop (unat (fi_start f)) remote))"

lemma run_fragment_untouched:
  assumes "run_fragment source mr inputs tes f k = (te, r)" "streams_fit (inputs k)"
    and "fragment_log (tes k) = []" "i < unat (fi_start f) \<or> unat (fi_end f) < i"
  shows "\<forall>w \<in> set (fragment_log te). \<not> touches w i"
proof (rule untouched_if_unchanged)
  fix c
  from logged.fragment_task_bytes[OF assms(1)[unfolded run_fragment_def], of c] assms(2-4)
  show "byte_at (apply_log c (fragment_log te)) i = byte_at c i"
    unfolding streams_fit_def fragment_log_def by auto
qed

lemma run_fragment_bytes:
  assumes "run_fragment source mr inputs tes f k = (te, Inr (j, n, d))" "streams_fit (inputs k)"
    and "honest remote f (inputs k)" "unat (fi_end f) < length remote"
    and "unat (fi_start f) \<le> i" "i \<le> unat (fi_end f)"
  shows "byte_at (apply_log c (fragment_log te)) i = remote ! i"
proof -
  from logged.fragment_task_bytes[OF assms(1)[unfolded run_fragment_def], of c, THEN conjunct2]
    assms(2) obtain a stream where s: "ai_opened (inputs k a) = Inr stream" "all_ok stream"
      "length (delivered stream) = unat n" "unat n = unat (fi_end f) + 1 - unat (fi_start f)"
      "\<forall>i. unat (fi_start f) \<le> i \<and> i \<le> unat (fi_end f) \<longrightarrow>
        byte_at (apply_log c (fragment_log te)) i = delivered stream ! (i - unat (fi_start f))"
    unfolding streams_fit_def fragment_log_def by blast
  have len: "length (delivered stream) = unat (fi_end f) + 1 - unat (fi_start f)" using s(3,4) by simp
  have d: "delivered stream = take (length (delivered stream)) (drop (unat (fi_start f)) remote)"
    using assms(3) s(1,2) len unfolding honest_def by blast
  have "byte_at (apply_log c (fragment_log te)) i = delivered stream ! (i - unat (fi_start f))"
    using s(5) assms(5,6) by blast
  also have "\<dots> = take (length (delivered stream)) (drop (unat (fi_start f)) remote) ! (i - unat (fi_start f))"
    by (rule arg_cong[OF d])
  also have "\<dots> = remote ! i" using len assms(4-6) by simp
  finally show ?thesis .
qed

lemma apply_log_length:
  assumes "\<forall>w \<in> set ws. \<forall>i. touches w i \<longrightarrow> i < length c"
  shows "length (apply_log c ws) = length c"
  using assms
proof (induction ws arbitrary: c)
  case (Cons w ws)
  obtain off d where w: "w = (off, d)" by (cases w)
  have "length (overlay c off d) = length c"
  proof (cases "d = []")
    case False
    then have "touches w (off + length d - 1)" using w by (cases d) (auto simp: touches_def)
    then have "off + length d - 1 < length c" using Cons.prems by simp
    then show ?thesis using False by (simp add: length_overlay)
  qed simp
  then show ?case using Cons w by simp
qed simp

lemma merged_fragments_bytes:
  assumes tiling: "tiles 0 fs (length remote)" and room: "length remote \<le> length c"
    and runs: "\<forall>k < length fs. \<exists>j n d. run_fragment source mr inputs tes (fs ! k) k = (tes' k, Inr (j, n, d))"
    and env: "\<forall>k < length fs. streams_fit (inputs k) \<and> honest remote (fs ! k) (inputs k) \<and>
      fragment_log (tes k) = []"
    and zs: "merge_of (\<lambda>k. fragment_log (tes' k)) (length fs) zs"
  shows "apply_log c (map snd zs) = remote @ drop (length remote) c"
proof -
  let ?logs = "\<lambda>k. fragment_log (tes' k)"
  have fin: "unat (fi_end (fs ! k)) < length remote \<and> unat (fi_start (fs ! k)) \<le> unat (fi_end (fs ! k))"
    if "k < length fs" for k
    using tiles_range[OF tiling that] by blast
  have outside: "\<not> touches w i"
    if "k < length fs" "w \<in> set (?logs k)" "i < unat (fi_start (fs ! k)) \<or> unat (fi_end (fs ! k)) < i" for k w i
    using runs env run_fragment_untouched that by blast
  have bytes: "byte_at (apply_log c (map snd zs)) i = remote ! i" if i: "i < length remote" for i
  proof -
    obtain k where k: "k < length fs" "unat (fi_start (fs ! k)) \<le> i" "i \<le> unat (fi_end (fs ! k))"
      and uniq: "\<And>j. j < length fs \<and> unat (fi_start (fs ! j)) \<le> i \<and> i \<le> unat (fi_end (fs ! j)) \<Longrightarrow> j = k"
      using tiles_cover[OF tiling _ i] by auto
    have "byte_at (apply_log c (map snd zs)) i = byte_at (apply_log c (?logs k)) i"
    proof (rule merge_byte[OF zs k(1)])
      fix j w assume "j < length fs" "j \<noteq> k" "w \<in> set (?logs j)"
      then show "\<not> touches w i" using outside[of j w i] uniq[of j] by force
    qed
    also have "\<dots> = remote ! i"
      using runs env k fin[OF k(1)] run_fragment_bytes by blast
    finally show ?thesis .
  qed
  have inside: "\<forall>w \<in> set (map snd zs). \<forall>i. touches w i \<longrightarrow> i < length remote"
  proof (intro ballI allI impI)
    fix w i assume w: "w \<in> set (map snd zs)" and t: "touches w i"
    then obtain k where k: "k < length fs" "w \<in> set (?logs k)" using merge_member[OF zs] by blast
    then have "\<not> unat (fi_end (fs ! k)) < i" using outside[OF k, of i] t by blast
    then show "i < length remote" using fin[OF k(1)] by simp
  qed
  have len: "length (apply_log c (map snd zs)) = length c"
    using inside room by (intro apply_log_length) fastforce
  have rest: "byte_at (apply_log c (map snd zs)) i = byte_at c i" if "length remote \<le> i" for i
    using inside that by (intro byte_at_apply_log_untouched) fastforce
  show ?thesis
  proof (rule overlay_ext)
    show "length (apply_log c (map snd zs)) = length (remote @ drop (length remote) c)"
      using len room by simp
    fix i
    show "byte_at (apply_log c (map snd zs)) i = byte_at (remote @ drop (length remote) c) i"
      using bytes[of i] rest[of i] room by (cases "i < length remote") (auto simp: byte_at_def nth_append)
  qed
qed

lemma merged_fragments_are_file:
  assumes "tiles 0 fs (length remote)"
    and "\<forall>k < length fs. \<exists>j n d. run_fragment source mr inputs tes (fs ! k) k = (tes' k, Inr (j, n, d))"
    and "\<forall>k < length fs. streams_fit (inputs k) \<and> honest remote (fs ! k) (inputs k) \<and>
      fragment_log (tes k) = []"
    and "merge_of (\<lambda>k. fragment_log (tes' k)) (length fs) zs"
  shows "apply_log (replicate (length remote) 0) (map snd zs) = remote"
  using merged_fragments_bytes[OF assms(1) _ assms(2-4), of "replicate (length remote) 0"] by simp

section \<open>A run of two fragments\<close>

definition sample_orch :: "nat orchestrator" where
  "sample_orch = orchestrator_new counting_sem pool_config_default"

definition sample_fs :: "fragment_info list" where
  "sample_fs =
     [\<lparr>fi_index = 0, fi_start = 0, fi_end = 1, fi_size = 2, fi_downloaded = 0, fi_hash = None\<rparr>,
      \<lparr>fi_index = 1, fi_start = 2, fi_end = 2, fi_size = 1, fi_downloaded = 0, fi_hash = None\<rparr>]"

lemma sample_plan: "plan_fragments sample_orch 3 True (Some 2) = Some sample_fs"
  by (simp add: sample_fs_def sample_orch_def orchestrator_new_def plan_fragments_def effective_size_def plan_loop.simps checked_add_def fragment_info_new_def Let_def MAX_FRAGMENT_COUNT_def)

definition sample_inputs :: "nat \<Rightarrow> u32 \<Rightarrow> attempt_input" where
  "sample_inputs k a =
     \<lparr>ai_others = (\<lambda>b. b), ai_now = 0, ai_permit = Inr (),
      ai_opened = (if k = 0 then Inr [Inr [7], Inr [8]] else if a = 0 then Inl (Network ''reset'') else Inr [Inr [9]]),
      ai_elapsed = 0, ai_others_meanwhile = (\<lambda>b. b), ai_later = 0\<rparr>"

definition sample_te :: "log_storage task_env" where
  "sample_te = \<lparr>te_frag = \<lparr>fe_storage = \<lparr>ls_outcomes = [WShort 1], ls_log = []\<rparr>, fe_control = None,
      fe_limiter = None, fe_clock = [], fe_waits = [], fe_progress = False, fe_full = [], fe_sent = []\<rparr>,
     te_breakers = breakers_new 5 30, te_metrics = None, te_sleeps = []\<rparr>"

lemmas sample_defs = run_fragment_def guarded_attempt_def breakers_allow_def breaker_entry_def
  breaker_allow_def breaker_failure_def breakers_failure_def breakers_success_def breaker_success_def
  breaker_new_def breaker_state_def breakers_new_def touch_breakers_def sleep_def
  download_single_fragment_def check_control_def race_control_def checked_sub_def checked_add_def
  flush_batch_def log_write_at_def throttle_def send_progress_def sample_inputs_def sample_te_def
  Let_def fragment_log_def

abbreviation "sample_run k \<equiv> run_fragment ''s'' 3 sample_inputs (\<lambda>_. sample_te) (sample_fs ! k) k"

lemma sample_run_0:
  "snd (sample_run 0) = Inr (0, 2, 0)" "fragment_log (fst (sample_run 0)) = [(0, [7]), (1, [8])]"
  by (simp_all add: sample_defs sample_fs_def fragment_task.simps write_all_at.simps)

lemma sample_run_1:
  "snd (sample_run 1) = Inr (1, 1, 0)" "fragment_log (fst (sample_run 1)) = [(2, [9])]"
  by (simp_all add: sample_defs sample_fs_def fragment_task.simps write_all_at.simps)
    (simp_all add: word_le_nat_alt)

lemma sample_honest:
  "streams_fit (sample_inputs 0)" "streams_fit (sample_inputs 1)"
  "honest [7, 8, 9] (sample_fs ! 0) (sample_inputs 0)"
  "honest [7, 8, 9] (sample_fs ! 1) (sample_inputs 1)"
  by (simp_all add: streams_fit_def honest_def sample_inputs_def sample_fs_def)

lemma sample_te_log: "fragment_log sample_te = []"
  by (simp add: sample_te_def fragment_log_def)

text \<open>
  A planned download whose fragment tasks all succeed leaves exactly the remote file on disk,
  whatever the order in which the writes of the concurrent tasks reach it, the retries, the short
  writes and the failed attempts in between: \<open>tes' k\<close> is the end of the task of fragment \<open>k\<close>, \<open>zs\<close> any
  interleaving of their writes, and a server that serves a range to its end serves it truthfully.
\<close>

theorem concurrent_download_correct:
  assumes cfg: "scheduler_config_ok (or_scheduler_config orch)"
    and len: "length remote < 2 ^ 64"
    and plan: "plan_fragments orch (of_nat (length remote)) supports_range suggested = Some fs"
    and runs: "\<forall>k < length fs. \<exists>j n d. run_fragment source mr inputs tes (fs ! k) k = (tes' k, Inr (j, n, d))"
    and env: "\<forall>k < length fs. streams_fit (inputs k) \<and> honest remote (fs ! k) (inputs k) \<and>
      fragment_log (tes k) = []"
    and zs: "merge_of (\<lambda>k. fragment_log (tes' k)) (length fs) zs"
  shows "apply_log (replicate (length remote) 0) (map snd zs) = remote"
proof -
  obtain gs where "plan_fragments orch (of_nat (length remote)) supports_range suggested = Some gs"
    "tiles 0 gs (unat (of_nat (length remote) :: u64))"
    using plan_fragments_ok[OF cfg] by blast
  moreover have "unat (of_nat (length remote) :: u64) = length remote"
    using len by (simp add: unat_of_nat_eq)
  ultimately have "tiles 0 fs (length remote)" using plan by simp
  from merged_fragments_are_file[OF this runs env zs] show ?thesis .
qed

theorem concurrent_download_correct_witness:
  "apply_log [0, 0, 0] [(0, [7]), (2, [9]), (1, [8])] = [7, 8, 9]"
proof -
  let ?zs = "[(0, 0, [7]), (1, 2, [9]), (0, 1, [8])] :: (nat \<times> nat \<times> u8 list) list"
  have two: "length sample_fs = 2" by (simp add: sample_fs_def)
  have split: "k < 2 \<longleftrightarrow> k = 0 \<or> k = 1" for k :: nat by auto
  have plan: "plan_fragments sample_orch (of_nat (length [7, 8, 9 :: u8])) True (Some 2) = Some sample_fs"
    using sample_plan by (simp add: sample_fs_def)
  have runs: "\<forall>k < length sample_fs. \<exists>j n d. sample_run k = (fst (sample_run k), Inr (j, n, d))"
    unfolding two split using sample_run_0(1) sample_run_1(1) by (metis prod.collapse)
  have env: "\<forall>k < length sample_fs. streams_fit (sample_inputs k) \<and>
      honest [7, 8, 9] (sample_fs ! k) (sample_inputs k) \<and> fragment_log sample_te = []"
    unfolding two split using sample_honest sample_te_log by auto
  have zs: "merge_of (\<lambda>k. fragment_log (fst (sample_run k))) (length sample_fs) ?zs"
    unfolding merge_of_def two split using sample_run_0(2) sample_run_1(2) by auto
  have ok: "scheduler_config_ok (or_scheduler_config sample_orch)"
    using scheduler_config_default_ok by (simp add: sample_orch_def orchestrator_new_def)
  have "length [7, 8, 9 :: u8] < 2 ^ 64" by simp
  from concurrent_download_correct[OF ok this plan runs env zs]
  have "apply_log (replicate (length [7, 8, 9 :: u8]) 0) (map snd ?zs) = [7, 8, 9]" .
  moreover have "replicate (length [7, 8, 9 :: u8]) 0 = [0, 0, 0 :: u8]" by simp
  moreover have "map snd ?zs = [(0, [7]), (2, [9]), (1, [8])]" by simp
  ultimately show ?thesis by (simp only:)
qed

end
