(* ===== verification/Download_Task.thy ===== *)
theory Download_Task
  imports Fragment_Task Orchestrator Adaptive_Scheduler Save_Path
begin

text \<open>
  \<open>DownloadTask\<close> of \<open>tachyon-engine/src/downloader.rs\<close>: probe, storage, plan, execution and
  verification of one download, and \<open>run\<close>, which puts them together. The network, the disk and the
  control channel are the record \<open>world\<close>; the tasks of the fragments are its field \<open>w_tasks\<close>, which
  tells in which order they end and what they leave on disk. A panic, or a loop that does not end, is
  \<^term>\<open>None\<close>.
\<close>

section \<open>The task and its world\<close>

text \<open>The storage behind \<open>DynStorage\<close>.\<close>

record 's storage_ops =
  so_open :: "real_path \<Rightarrow> io_strategy \<Rightarrow> 's download_result"
  so_write :: "'s write_op"
  so_read :: "nat \<Rightarrow> nat \<Rightarrow> 's \<Rightarrow> u8 list download_result"
  so_allocate :: "nat \<Rightarrow> 's \<Rightarrow> 's \<times> unit download_result"
  so_sync :: "'s \<Rightarrow> unit download_result"

record ('s, 'p) download_task =
  dt_url :: string
  dt_config :: download_config
  dt_storage :: "'s option"
  dt_orchestrator :: "'p orchestrator"
  dt_scheduler :: adaptive_scheduler
  dt_control :: bool
  dt_state :: download_state
  dt_metadata :: "file_metadata option"
  dt_fragments :: "fragment_record list"
  dt_completed :: "u32 list"
  dt_rate_limiter :: "rate_limiter option"
  dt_metrics :: "metrics option"
  dt_breakers :: source_breakers

type_synonym fragment_spec = "u32 \<times> u64 \<times> u64"

text \<open>How a fragment task ends, with the clock when its end is noticed.\<close>

datatype joined =
    JoinPanic
  | Joined "64 word" "(u32 \<times> download_error) + (u32 \<times> u64 \<times> duration)"

record 's world =
  w_host :: "string \<Rightarrow> string download_result"
  w_probe :: "file_metadata download_result"
  w_probe_watch :: "observation list"
  w_fs :: fs
  w_cwd :: real_path
  w_state :: download_state
  w_allocate_watch :: "observation list"
  w_allocate_ran :: bool
  w_control :: "observation list list"
  w_permit :: "unit download_result"
  w_opened :: "u8 list download_result list download_result"
  w_clock :: "64 word list"
  w_elapsed :: duration
  w_tasks :: "fragment_spec list \<Rightarrow> 's \<Rightarrow> 's \<times> joined list"
  w_verify_watch :: "observation list"

text \<open>\<open>with_pool_and_scheduler\<close> after the URL was accepted; \<open>orch\<close> is on the given pool or a new one.\<close>

definition download_task_new ::
    "string \<Rightarrow> download_config \<Rightarrow> 'p orchestrator \<Rightarrow> adaptive_scheduler \<Rightarrow> ('s, 'p) download_task" where
  "download_task_new url cfg orch sched =
     \<lparr>dt_url = url, dt_config = cfg, dt_storage = None, dt_orchestrator = orch, dt_scheduler = sched,
      dt_control = False, dt_state = Pending, dt_metadata = None, dt_fragments = [], dt_completed = [],
      dt_rate_limiter = None, dt_metrics = None, dt_breakers = breakers_new 5 (from_secs 30)\<rparr>"

definition set_completed_fragments ::
    "u32 list \<Rightarrow> ('s, 'p) download_task \<Rightarrow> ('s, 'p) download_task" where
  "set_completed_fragments completed t = t\<lparr>dt_completed := completed\<rparr>"

definition set_control_rx :: "('s, 'p) download_task \<Rightarrow> ('s, 'p) download_task" where
  "set_control_rx t = t\<lparr>dt_control := True\<rparr>"

definition set_rate_limiter :: "rate_limiter \<Rightarrow> ('s, 'p) download_task \<Rightarrow> ('s, 'p) download_task" where
  "set_rate_limiter l t = t\<lparr>dt_rate_limiter := Some l\<rparr>"

section \<open>Probe, storage and plan\<close>

definition probe ::
    "'s world \<Rightarrow> ('s, 'p) download_task \<Rightarrow> ('s, 'p) download_task \<times> unit download_result" where
  "probe w t =
     (case dt_metadata t of
        Some _ \<Rightarrow> (t, Inr ())
      | None \<Rightarrow>
          (case w_probe w of
             Inl e \<Rightarrow> (t, Inl e)
           | Inr md \<Rightarrow> (t\<lparr>dt_metadata := Some md\<rparr>, Inr ())))"

definition init_storage ::
    "'s storage_ops \<Rightarrow> 's world \<Rightarrow> ('s, 'p) download_task \<Rightarrow> ('s, 'p) download_task \<times> unit download_result" where
  "init_storage ops w t =
     (case dt_storage t of
        Some _ \<Rightarrow> (t, Inr ())
      | None \<Rightarrow>
          (case dt_metadata t of
             None \<Rightarrow> (t, Inl (Config ''probe first''))
           | Some md \<Rightarrow>
               (let dir = parse_path (download_dir (dt_config t));
                    final_path = path_join dir (parse_path (md_file_name md))
                in case validate_save_path (w_fs w) (w_cwd w) final_path dir of
                     (_, Inl e) \<Rightarrow> (t, Inl e)
                   | (_, Inr canonical) \<Rightarrow>
                       (case so_open ops canonical (io_strategy (dt_config t)) of
                          Inl e \<Rightarrow> (t, Inl e)
                        | Inr s \<Rightarrow> (t\<lparr>dt_storage := Some s\<rparr>, Inr ())))))"

text \<open>The fragments that an earlier run completed, by index.\<close>

fun mark_completed :: "u32 list \<Rightarrow> fragment_record list \<Rightarrow> fragment_record list \<times> unit download_result" where
  "mark_completed [] frs = (frs, Inr ())"
| "mark_completed (done_index # rest) frs =
     (let i = unat done_index
      in if i < length frs \<and> fr_state (frs ! i) = FPending then
           (let f = frs ! i;
                f = f\<lparr>fr_info := (fr_info f)\<lparr>fi_downloaded := fi_size (fr_info f)\<rparr>\<rparr>
            in case start_download f of
                 (f, Inl e) \<Rightarrow> (frs[i := f], Inl e)
               | (f, Inr _) \<Rightarrow>
                   (case complete_download_fast (fi_size (fr_info f)) 0 f of
                      (f, Inl e) \<Rightarrow> (frs[i := f], Inl e)
                    | (f, Inr _) \<Rightarrow> mark_completed rest (frs[i := f])))
         else mark_completed rest frs)"

definition plan ::
    "(f64 \<Rightarrow> f64) \<Rightarrow> ('s, 'p) download_task \<Rightarrow>
     (('s, 'p) download_task \<times> fragment_info list download_result) option" where
  "plan fexp t =
     (case dt_metadata t of
        None \<Rightarrow> Some (t, Inl (Config ''probe first''))
      | Some md \<Rightarrow>
          (let fsize = (case md_file_size md of Some n \<Rightarrow> n | None \<Rightarrow> 0)
           in Option.bind (recommend fexp (dt_scheduler t) fsize (max_concurrent_fragments (dt_config t)))
                (\<lambda>recommendation.
                   let suggested = (if f64_lt (Fin 0) (rec_confidence recommendation)
                                    then Some (rec_fragment_size recommendation) else None)
                   in Option.bind
                        (plan_fragments (dt_orchestrator t) fsize (md_supports_range md) suggested)
                        (\<lambda>fs.
                           let frs = map (\<lambda>info. fragment_record_new info (max_retries (dt_config t))) fs
                           in case mark_completed (dt_completed t) frs of
                                (frs, Inl e) \<Rightarrow> Some (t\<lparr>dt_fragments := frs\<rparr>, Inl e)
                              | (frs, Inr _) \<Rightarrow> Some (t\<lparr>dt_fragments := frs\<rparr>, Inr fs)))))"

definition prepare_storage ::
    "'s storage_ops \<Rightarrow> ('s, 'p) download_task \<Rightarrow> ('s, 'p) download_task \<times> unit download_result" where
  "prepare_storage ops t =
     (case dt_metadata t of
        None \<Rightarrow> (t, Inl (Config ''probe first''))
      | Some md \<Rightarrow>
          (let sz = (case md_file_size md of Some n \<Rightarrow> n | None \<Rightarrow> 0)
           in case dt_storage t of
                None \<Rightarrow> (t, Inl (Config ''no storage''))
              | Some s \<Rightarrow>
                  if sz > 0 then
                    (case so_allocate ops (unat sz) s of (s, r) \<Rightarrow> (t\<lparr>dt_storage := Some s\<rparr>, r))
                  else (t, Inr ())))"

section \<open>Execution\<close>

definition effective_limiter :: "('s, 'p) download_task \<Rightarrow> rate_limiter option" where
  "effective_limiter t =
     (case dt_rate_limiter t of
        Some l \<Rightarrow> Some l
      | None \<Rightarrow>
          (case rate_limit_bytes_per_sec (dt_config t) of
             Some bps \<Rightarrow> if bps > 0 then Some (limiter_new bps) else None
           | None \<Rightarrow> None))"

text \<open>The chunks of the whole body, each written once behind the last.\<close>

fun full_loop ::
    "'s write_op \<Rightarrow> u64 option \<Rightarrow> u64 \<Rightarrow> u64 \<Rightarrow> u8 list download_result list \<Rightarrow> 's frag_env \<Rightarrow>
     's frag_env \<times> u64 download_result" where
  "full_loop wr expected_size limit pos [] env = (env, Inr pos)"
| "full_loop wr expected_size limit pos (item # rest) env =
     (case check_control env of
        (env, Inl e) \<Rightarrow> (env, Inl e)
      | (env, Inr _) \<Rightarrow>
          (case item of
             Inl e \<Rightarrow> (env, Inl e)
           | Inr chunk \<Rightarrow>
               (case (if expected_size \<noteq> None then Inr ()
                      else
                        (case checked_add pos (of_nat (length chunk)) of
                           None \<Rightarrow> Inl (Config ''length overflow'')
                         | Some attempted \<Rightarrow>
                             if attempted > limit then Inl (Config ''over the limit'') else Inr ())) of
                  Inl e \<Rightarrow> (env, Inl e)
                | Inr _ \<Rightarrow>
                    (case wr (unat pos) chunk (fe_storage env) of
                       (s, Inl e) \<Rightarrow> (env\<lparr>fe_storage := s\<rparr>, Inl e)
                     | (s, Inr written) \<Rightarrow>
                         full_loop wr expected_size limit (pos + of_nat written) rest
                           (throttle (of_nat written) (env\<lparr>fe_storage := s\<rparr>))))))"

text \<open>What is left of the world of the loop: the storage and the shared limiter.\<close>

definition leave_env :: "'s frag_env \<Rightarrow> ('s, 'p) download_task \<Rightarrow> ('s, 'p) download_task" where
  "leave_env env t =
     t\<lparr>dt_storage := Some (fe_storage env),
       dt_rate_limiter := (if dt_rate_limiter t = None then None else fe_limiter env)\<rparr>"

definition with_storage :: "'s \<Rightarrow> unit frag_env \<Rightarrow> 's frag_env" where
  "with_storage s env =
     \<lparr>fe_storage = s, fe_control = fe_control env, fe_limiter = fe_limiter env,
      fe_clock = fe_clock env, fe_waits = fe_waits env, fe_progress = fe_progress env,
      fe_full = fe_full env, fe_sent = fe_sent env\<rparr>"

text \<open>After the last chunk: the size, the record of the only fragment, the metrics.\<close>

definition finish_full ::
    "'s world \<Rightarrow> u64 option \<Rightarrow> u64 \<Rightarrow> ('s, 'p) download_task \<Rightarrow>
     ('s, 'p) download_task \<times> unit download_result" where
  "finish_full w expected_size pos t =
     (if expected_size \<noteq> None \<and> expected_size \<noteq> Some pos then (t, Inl (Io ''incomplete data''))
      else
        (case (case dt_fragments t of
                 [] \<Rightarrow> ([], Inr ())
               | f # fs \<Rightarrow>
                   (case (if fr_state f = FPending then start_download f else (f, Inr ())) of
                      (f, Inl e) \<Rightarrow> (f # fs, Inl e)
                    | (f, Inr _) \<Rightarrow>
                        (case complete_download_fast pos (w_elapsed w) f of (f, r) \<Rightarrow> (f # fs, r)))) of
           (fs, Inl e) \<Rightarrow> (t\<lparr>dt_fragments := fs\<rparr>, Inl e)
         | (fs, Inr _) \<Rightarrow>
             (t\<lparr>dt_fragments := fs,
                dt_metrics := map_option (\<lambda>m. inc_fragment (add_bytes pos m)) (dt_metrics t),
                dt_state := Completed\<rparr>, Inr ())))"

definition execute_full_download ::
    "'s storage_ops \<Rightarrow> 's world \<Rightarrow> ('s, 'p) download_task \<Rightarrow>
     ('s, 'p) download_task \<times> unit download_result" where
  "execute_full_download ops w t =
     (let env = \<lparr>fe_storage = (), fe_control = (if dt_control t then Some (w_control w) else None),
                 fe_limiter = effective_limiter t, fe_clock = w_clock w, fe_waits = [],
                 fe_progress = False, fe_full = [], fe_sent = []\<rparr>
      in case check_control env of
           (env, Inl e) \<Rightarrow> (t, Inl e)
         | (env, Inr _) \<Rightarrow>
             (case w_host w (dt_url t) of
                Inl e \<Rightarrow> (t, Inl e)
              | Inr _ \<Rightarrow>
                  (case w_permit w of
                     Inl e \<Rightarrow> (t, Inl e)
                   | Inr _ \<Rightarrow>
                       (case race_control env of
                          (env, Some e) \<Rightarrow> (t, Inl e)
                        | (env, None) \<Rightarrow>
                            (case w_opened w of
                               Inl e \<Rightarrow> (t, Inl e)
                             | Inr stream \<Rightarrow>
                                 (case dt_storage t of
                                    None \<Rightarrow> (t, Inl (Config ''no storage''))
                                  | Some s \<Rightarrow>
                                      (let expected_size = Option.bind (dt_metadata t) md_file_size
                                       in case full_loop (so_write ops) expected_size
                                                 (max_full_stream_bytes (dt_config t)) 0 stream (with_storage s env) of
                                            (env, Inl e) \<Rightarrow> (leave_env env t, Inl e)
                                          | (env, Inr pos) \<Rightarrow>
                                              finish_full w expected_size pos (leave_env env t))))))))"

text \<open>Starting the pending fragments: \<open>start_download\<close> on the record, one more in the metrics.\<close>

definition fragment_specs :: "fragment_record list \<Rightarrow> fragment_spec list" where
  "fragment_specs frs =
     map (\<lambda>f. (fi_index (fr_info f), fi_start (fr_info f), fi_end (fr_info f)))
       (filter (\<lambda>f. fr_state f = FPending) frs)"

fun spawn_fragments ::
    "fragment_spec list \<Rightarrow> ('s, 'p) download_task \<Rightarrow> ('s, 'p) download_task \<times> unit download_result" where
  "spawn_fragments [] t = (t, Inr ())"
| "spawn_fragments ((i, _, _) # rest) t =
     (if length (dt_fragments t) \<le> unat i then (t, Inl (Config ''index out of range''))
      else
        (case start_download (dt_fragments t ! unat i) of
           (_, Inl e) \<Rightarrow> (t, Inl e)
         | (f, Inr _) \<Rightarrow>
             spawn_fragments rest
               (t\<lparr>dt_fragments := (dt_fragments t)[unat i := f],
                  dt_metrics := map_option inc_fragment (dt_metrics t)\<rparr>)))"

text \<open>The bandwidth of a finished fragment goes to the scheduler and to the shared limiter.\<close>

definition feed_back ::
    "64 word \<Rightarrow> u64 \<Rightarrow> duration \<Rightarrow> ('s, 'p) download_task \<Rightarrow> ('s, 'p) download_task" where
  "feed_back now downloaded dur t =
     (let secs = as_secs_f64 dur;
          bytes_per_sec =
            (if f64_lt (Fin 0) secs then word_of_f64 (f64_div (f64_of_word downloaded) secs) else 0)
      in if bytes_per_sec > 0 then
           t\<lparr>dt_scheduler := observe_bandwidth bytes_per_sec (dt_scheduler t),
             dt_rate_limiter := map_option (update_rate now bytes_per_sec) (dt_rate_limiter t)\<rparr>
         else t)"

fun join_loop ::
    "joined list \<Rightarrow> ('s, 'p) download_task \<Rightarrow> (('s, 'p) download_task \<times> unit download_result) option" where
  "join_loop [] t = Some (t, Inr ())"
| "join_loop (JoinPanic # _) t = Some (t\<lparr>dt_state := Failed\<rparr>, Inl (Other ''fragment task panic''))"
| "join_loop (Joined _ (Inl (i, e)) # _) t =
     (let frs = dt_fragments t
      in Some (t\<lparr>dt_fragments := (if unat i < length frs then frs[unat i := force_fail (frs ! unat i)]
                                   else frs),
                 dt_state := Failed\<rparr>, Inl e))"
| "join_loop (Joined now (Inr (i, downloaded, dur)) # rest) t =
     (if length (dt_fragments t) \<le> unat i then None
      else
        (case complete_download_fast downloaded dur (dt_fragments t ! unat i) of
           (f, Inl e) \<Rightarrow> Some (t, Inl e)
         | (f, Inr _) \<Rightarrow>
             (let t = t\<lparr>dt_fragments := (dt_fragments t)[unat i := f],
                         dt_metrics := map_option (add_bytes downloaded) (dt_metrics t)\<rparr>
              in join_loop rest
                   (case fr_last_duration f of None \<Rightarrow> t | Some d \<Rightarrow> feed_back now downloaded d t))))"

definition effective_concurrency :: "recommendation \<Rightarrow> u32 \<Rightarrow> u32" where
  "effective_concurrency r limit = max (min (rec_concurrency r) limit) 1"

text \<open>
  \<open>w_tasks\<close> runs under a semaphore of \<^const>\<open>effective_concurrency\<close> permits, which decides about
  time only; the recommendation can panic.
\<close>

definition execute_fragmented_download ::
    "(f64 \<Rightarrow> f64) \<Rightarrow> 's storage_ops \<Rightarrow> 's world \<Rightarrow> ('s, 'p) download_task \<Rightarrow>
     (('s, 'p) download_task \<times> unit download_result) option" where
  "execute_fragmented_download fexp ops w t =
     (if max_concurrent_fragments (dt_config t) = 0
      then Some (t, Inl (Config ''max_concurrent_fragments is 0''))
      else
        (let fsize = (case Option.bind (dt_metadata t) md_file_size of Some n \<Rightarrow> n | None \<Rightarrow> 0)
         in case recommend fexp (dt_scheduler t) fsize (max_concurrent_fragments (dt_config t)) of
              None \<Rightarrow> None
            | Some _ \<Rightarrow>
                (case dt_storage t of
                   None \<Rightarrow> Some (t, Inl (Config ''no storage''))
                 | Some s \<Rightarrow>
                     (case w_host w (dt_url t) of
                        Inl e \<Rightarrow> Some (t, Inl e)
                      | Inr _ \<Rightarrow>
                          (let specs = fragment_specs (dt_fragments t)
                           in case spawn_fragments specs t of
                                (t, Inl e) \<Rightarrow> Some (t, Inl e)
                              | (t, Inr _) \<Rightarrow>
                                  (case w_tasks w specs s of
                                     (s, ends) \<Rightarrow>
                                       (case join_loop ends (t\<lparr>dt_storage := Some s\<rparr>) of
                                          None \<Rightarrow> None
                                        | Some (t, Inl e) \<Rightarrow> Some (t, Inl e)
                                        | Some (t, Inr _) \<Rightarrow>
                                            (case so_sync ops s of
                                               Inl e \<Rightarrow> Some (t, Inl e)
                                             | Inr _ \<Rightarrow> Some (t\<lparr>dt_state := Completed\<rparr>, Inr ())))))))))"

definition execute ::
    "(f64 \<Rightarrow> f64) \<Rightarrow> 's storage_ops \<Rightarrow> 's world \<Rightarrow> ('s, 'p) download_task \<Rightarrow>
     (('s, 'p) download_task \<times> unit download_result) option" where
  "execute fexp ops w t =
     (let t = t\<lparr>dt_state := Downloading\<rparr>
      in case dt_metadata t of
           None \<Rightarrow> Some (t, Inl (Config ''probe first''))
         | Some md \<Rightarrow>
             if md_file_size md = Some 0 then Some (t\<lparr>dt_state := Completed\<rparr>, Inr ())
             else if \<not> md_supports_range md \<or> length (dt_fragments t) \<le> 1
             then Some (execute_full_download ops w t)
             else execute_fragmented_download fexp ops w t)"

section \<open>Verification\<close>

abbreviation VERIFY_HASH_CHUNK_SIZE :: u64 where "VERIFY_HASH_CHUNK_SIZE \<equiv> 1024 * 1024"

text \<open>The bytes a hasher is fed; \<^term>\<open>None\<close> when a read of nothing keeps the loop from moving.\<close>

partial_function (option) hash_loop ::
    "(nat \<Rightarrow> nat \<Rightarrow> u8 list download_result) \<Rightarrow> u64 \<Rightarrow> u64 \<Rightarrow> u8 list \<Rightarrow> u8 list download_result option" where
  "hash_loop rd offset fend hashed =
     (if offset < fend then
        (case rd (unat offset) (unat (min (fend - offset) VERIFY_HASH_CHUNK_SIZE)) of
           Inl e \<Rightarrow> Some (Inl e)
         | Inr bytes \<Rightarrow> hash_loop rd (offset + of_nat (length bytes)) fend (hashed @ bytes))
      else Some (Inr hashed))"

fun verify_fragments ::
    "(u8 list \<Rightarrow> string) \<Rightarrow> (nat \<Rightarrow> nat \<Rightarrow> u8 list download_result) \<Rightarrow> fragment_info list \<Rightarrow> bool \<Rightarrow>
     bool download_result option" where
  "verify_fragments blake3 rd [] has_expected = Some (Inr has_expected)"
| "verify_fragments blake3 rd (f # fs) has_expected =
     (case fi_hash f of
        None \<Rightarrow> verify_fragments blake3 rd fs has_expected
      | Some expected_hash \<Rightarrow>
          (case hash_loop rd (fi_start f) (fi_start f + fi_size f) [] of
             None \<Rightarrow> None
           | Some (Inl e) \<Rightarrow> Some (Inl e)
           | Some (Inr bytes) \<Rightarrow>
               if blake3 bytes \<noteq> expected_hash
               then Some (Inl (ChecksumMismatch expected_hash (blake3 bytes)))
               else verify_fragments blake3 rd fs True))"

text \<open>A mismatch sets \<^const>\<open>Failed\<close>, a failed read leaves \<^const>\<open>Verifying\<close>.\<close>

definition verify ::
    "(u8 list \<Rightarrow> string) \<Rightarrow> 's storage_ops \<Rightarrow> ('s, 'p) download_task \<Rightarrow>
     (('s, 'p) download_task \<times> unit download_result) option" where
  "verify blake3 ops t =
     (if \<not> verify_checksum (dt_config t) then Some (t, Inr ())
      else
        (let t = t\<lparr>dt_state := Verifying\<rparr>
         in case dt_storage t of
              None \<Rightarrow> Some (t, Inl (Config ''no storage''))
            | Some s \<Rightarrow>
                (case verify_fragments blake3 (\<lambda>off n. so_read ops off n s) (map fr_info (dt_fragments t)) False of
                   None \<Rightarrow> None
                 | Some (Inl (ChecksumMismatch a b)) \<Rightarrow>
                     Some (t\<lparr>dt_state := Failed\<rparr>, Inl (ChecksumMismatch a b))
                 | Some (Inl e) \<Rightarrow> Some (t, Inl e)
                 | Some (Inr False) \<Rightarrow> Some (t\<lparr>dt_state := Failed\<rparr>, Inl NoExpectedChecksum)
                 | Some (Inr True) \<Rightarrow> Some (t, Inr ()))))"

section \<open>The whole run\<close>

fun wait_for_cancel :: "observation list \<Rightarrow> bool" where
  "wait_for_cancel [] = False"
| "wait_for_cancel (Sees state # r) = (state = Cancelled \<or> wait_for_cancel r)"
| "wait_for_cancel (ChannelClosed # r) = True"
| "wait_for_cancel (PauseTimeout # r) = wait_for_cancel r"

definition check_cancelled :: "'s world \<Rightarrow> ('s, 'p) download_task \<Rightarrow> unit download_result" where
  "check_cancelled w t =
     (if dt_control t \<and> w_state w = Cancelled then Inl Cancelled_Error else Inr ())"

text \<open>
  A step that races with the cancel signal. The receiver is taken out of the task and put back only
  when the step succeeds; \<open>dropped\<close> is what the abandoned step leaves behind.
\<close>

definition or_cancel ::
    "observation list \<Rightarrow> (('s, 'p) download_task \<Rightarrow> ('s, 'p) download_task) \<Rightarrow>
     (('s, 'p) download_task \<Rightarrow> (('s, 'p) download_task \<times> unit download_result) option) \<Rightarrow>
     ('s, 'p) download_task \<Rightarrow> (('s, 'p) download_task \<times> unit download_result) option" where
  "or_cancel obs dropped step t =
     (if \<not> dt_control t then step t
      else
        (let t = t\<lparr>dt_control := False\<rparr>
         in if wait_for_cancel obs
            then Some ((dropped t)\<lparr>dt_state := Cancelled\<rparr>, Inl Cancelled_Error)
            else (case step t of
                    None \<Rightarrow> None
                  | Some (t, Inl e) \<Rightarrow> Some (t, Inl e)
                  | Some (t, Inr _) \<Rightarrow> Some (t\<lparr>dt_control := True\<rparr>, Inr ()))))"

fun and_next ::
    "(('s, 'p) download_task \<times> 'a download_result) option \<Rightarrow>
     (('s, 'p) download_task \<Rightarrow> (('s, 'p) download_task \<times> unit download_result) option) \<Rightarrow>
     (('s, 'p) download_task \<times> unit download_result) option" where
  "and_next None f = None"
| "and_next (Some (t, Inl e)) f = Some (t, Inl e)"
| "and_next (Some (t, Inr _)) f = f t"

definition run_inner ::
    "(f64 \<Rightarrow> f64) \<Rightarrow> (u8 list \<Rightarrow> string) \<Rightarrow> 's storage_ops \<Rightarrow> 's world \<Rightarrow> ('s, 'p) download_task \<Rightarrow>
     (('s, 'p) download_task \<times> unit download_result) option" where
  "run_inner fexp blake3 ops w t =
     and_next (or_cancel (w_probe_watch w) (\<lambda>t. t) (\<lambda>t. Some (probe w t)) t) (\<lambda>t.
     and_next (Some (init_storage ops w t)) (\<lambda>t.
     and_next (Some (t, check_cancelled w t)) (\<lambda>t.
     and_next (plan fexp t) (\<lambda>t.
     and_next (or_cancel (w_allocate_watch w)
                 (\<lambda>t. if w_allocate_ran w then fst (prepare_storage ops t) else t)
                 (\<lambda>t. Some (prepare_storage ops t)) t) (\<lambda>t.
     and_next (execute fexp ops w t) (\<lambda>t.
     and_next (or_cancel (w_verify_watch w) (\<lambda>t. t) (verify blake3 ops) t) (\<lambda>t.
       Some (t\<lparr>dt_state := Completed\<rparr>, Inr ()))))))))"

definition apply_terminal_error ::
    "download_error \<Rightarrow> ('s, 'p) download_task \<Rightarrow> ('s, 'p) download_task" where
  "apply_terminal_error e t =
     (let target = (if e = Cancelled_Error \<or> dt_state t = Cancelled then Cancelled else Failed)
      in case try_transition (dt_state t) target of
           Inr new_state \<Rightarrow> t\<lparr>dt_state := new_state\<rparr>
         | Inl _ \<Rightarrow> t\<lparr>dt_state := target\<rparr>)"

definition run ::
    "(f64 \<Rightarrow> f64) \<Rightarrow> (u8 list \<Rightarrow> string) \<Rightarrow> 's storage_ops \<Rightarrow> 's world \<Rightarrow> ('s, 'p) download_task \<Rightarrow>
     (('s, 'p) download_task \<times> unit download_result) option" where
  "run fexp blake3 ops w t =
     (case run_inner fexp blake3 ops w t of
        None \<Rightarrow> None
      | Some (t, Inl e) \<Rightarrow> Some (apply_terminal_error e t, Inl e)
      | Some (t, Inr _) \<Rightarrow> Some (t, Inr ()))"

definition task_progress :: "('s, 'p) download_task \<Rightarrow> f64" where
  "task_progress t =
     (if dt_state t = Completed then Fin 1
      else if dt_fragments t = [] then
        (if Option.bind (dt_metadata t) md_file_size = Some 0 then Fin 1 else Fin 0)
      else
        (let total_size = sum_list (map (\<lambda>f. fi_size (fr_info f)) (dt_fragments t))
         in if total_size = 0 then Fin 1
            else f64_div (f64_of_word (sum_list (map (\<lambda>f. fi_downloaded (fr_info f)) (dt_fragments t))))
                   (f64_of_word total_size)))"

section \<open>Resuming\<close>

definition resumed :: "fragment_record \<Rightarrow> fragment_record" where
  "resumed f = f\<lparr>fr_info := (fr_info f)\<lparr>fi_downloaded := fi_size (fr_info f)\<rparr>, fr_last_duration := Some 0,
                 fr_state := FDone\<rparr>"

lemma mark_completed_spec:
  assumes "mark_completed done_list frs = (frs', r)"
  shows "r = Inr () \<and> length frs' = length frs \<and>
    (\<forall>i < length frs. frs' ! i =
       (if i \<in> unat ` set done_list \<and> fr_state (frs ! i) = FPending then resumed (frs ! i) else frs ! i))"
  using assms
proof (induction done_list arbitrary: frs)
  case (Cons d ds)
  let ?i = "unat d"
  show ?case
  proof (cases "?i < length frs \<and> fr_state (frs ! ?i) = FPending")
    case True
    then have "mark_completed ds (frs[?i := resumed (frs ! ?i)]) = (frs', r)"
      using Cons.prems by (simp add: Let_def start_download_def complete_download_fast_def resumed_def)
    from Cons.IH[OF this] True show ?thesis
      by (auto simp: nth_list_update resumed_def)
  next
    case False
    then have "mark_completed ds frs = (frs', r)" using Cons.prems by (auto simp: Let_def split: if_splits)
    from Cons.IH[OF this] False show ?thesis by auto
  qed
qed auto

lemma mark_completed_ok:
  obtains frs' where "mark_completed ds frs = (frs', Inr ())"
  using mark_completed_spec[of ds frs] by (cases "mark_completed ds frs") auto

lemma plan_cases:
  assumes "plan fexp t = Some (t', r)" "dt_metadata t = Some md"
  obtains fs suggested where
    "plan_fragments (dt_orchestrator t) (case md_file_size md of Some n \<Rightarrow> n | None \<Rightarrow> 0)
       (md_supports_range md) suggested = Some fs"
    "r = Inr fs"
    "t' = t\<lparr>dt_fragments := fst (mark_completed (dt_completed t)
       (map (\<lambda>info. fragment_record_new info (max_retries (dt_config t))) fs))\<rparr>"
proof -
  let ?n = "case md_file_size md of Some n \<Rightarrow> n | None \<Rightarrow> 0"
  let ?result = "\<lambda>fs. case mark_completed (dt_completed t)
        (map (\<lambda>info. fragment_record_new info (max_retries (dt_config t))) fs) of
        (frs, Inl e) \<Rightarrow> Some (t\<lparr>dt_fragments := frs\<rparr>, Inl e)
      | (frs, Inr _) \<Rightarrow> Some (t\<lparr>dt_fragments := frs\<rparr>, Inr fs)"
  have "\<exists>rc :: recommendation. recommend fexp (dt_scheduler t) ?n (max_concurrent_fragments (dt_config t)) = Some rc \<and>
      Option.bind (plan_fragments (dt_orchestrator t) ?n (md_supports_range md)
      (if f64_lt (Fin 0) (rec_confidence rc) then Some (rec_fragment_size rc) else None)) ?result = Some (t', r)"
    using assms(1) unfolding plan_def Let_def assms(2) option.case bind_eq_Some_conv[of "recommend a b c d" for a b c d] .
  then obtain sugg fs where
    fs: "plan_fragments (dt_orchestrator t) ?n (md_supports_range md) sugg = Some fs"
    and eq: "?result fs = Some (t', r)"
    unfolding bind_eq_Some_conv by blast
  obtain frs where m: "mark_completed (dt_completed t)
      (map (\<lambda>info. fragment_record_new info (max_retries (dt_config t))) fs) = (frs, Inr ())"
    by (rule mark_completed_ok)
  show thesis
    by (rule that[OF fs]) (use eq m in simp_all)
qed

lemma plan_records:
  assumes cfg: "scheduler_config_ok (or_scheduler_config (dt_orchestrator t))"
    and "plan fexp t = Some (t', Inr fs)" "dt_metadata t = Some md"
  shows "length (dt_fragments t') = length fs \<and>
    (\<forall>i < length fs. unat (fi_index (fs ! i)) = i \<and>
       dt_fragments t' ! i =
         (let f = fragment_record_new (fs ! i) (max_retries (dt_config t))
          in if fi_index (fs ! i) \<in> set (dt_completed t) then resumed f else f))"
proof -
  let ?frs = "map (\<lambda>info. fragment_record_new info (max_retries (dt_config t))) fs"
  from plan_cases[OF assms(2,3)] obtain suggested where
    fs: "plan_fragments (dt_orchestrator t) (case md_file_size md of Some n \<Rightarrow> n | None \<Rightarrow> 0)
       (md_supports_range md) suggested = Some fs"
    and t': "t' = t\<lparr>dt_fragments := fst (mark_completed (dt_completed t) ?frs)\<rparr>" by auto
  have idx: "map (\<lambda>f. unat (fi_index f)) fs = [0..<length fs]"
    using plan_fragments_ok[OF cfg, of "case md_file_size md of Some n \<Rightarrow> n | None \<Rightarrow> 0"
      "md_supports_range md" suggested] fs by simp
  have pos: "unat (fi_index (fs ! i)) = i" if "i < length fs" for i
    using arg_cong[OF idx, of "\<lambda>l. l ! i"] that by simp
  obtain frs r where m: "mark_completed (dt_completed t) ?frs = (frs, r)"
    by (cases "mark_completed (dt_completed t) ?frs")
  have mem: "i \<in> unat ` set (dt_completed t) \<longleftrightarrow> fi_index (fs ! i) \<in> set (dt_completed t)"
    if "i < length fs" for i
    using pos[OF that] by (metis image_iff word_unat_eq_iff)
  from mark_completed_spec[OF m] pos mem t' m show ?thesis
    by (simp add: Let_def fragment_record_new_def)
qed

lemma fragment_specs_planned:
  assumes "scheduler_config_ok (or_scheduler_config (dt_orchestrator t))"
    and "plan fexp t = Some (t', Inr fs)" "dt_metadata t = Some md"
  shows "fragment_specs (dt_fragments t') =
    map (\<lambda>f. (fi_index f, fi_start f, fi_end f)) (filter (\<lambda>f. fi_index f \<notin> set (dt_completed t)) fs)"
proof -
  note r = plan_records[OF assms]
  define mk where "mk = (\<lambda>info. let f = fragment_record_new info (max_retries (dt_config t))
    in if fi_index info \<in> set (dt_completed t) then resumed f else f)"
  have "dt_fragments t' = map mk fs"
    using r by (intro nth_equalityI) (auto simp: mk_def Let_def)
  moreover have "fr_state (mk f) = FPending \<longleftrightarrow> fi_index f \<notin> set (dt_completed t)"
    "fi_index (fr_info (mk f)) = fi_index f" "fi_start (fr_info (mk f)) = fi_start f"
    "fi_end (fr_info (mk f)) = fi_end f" for f
    by (auto simp: mk_def Let_def fragment_record_new_def resumed_def)
  ultimately show ?thesis by (simp add: fragment_specs_def filter_map o_def)
qed

section \<open>Planned fragments carry no hash\<close>


lemma plan_loop_no_hash:
  assumes "plan_loop n eff offset index acc = Some fs" "\<forall>f \<in> set acc. fi_hash f = None"
  shows "\<forall>f \<in> set fs. fi_hash f = None"
proof -
  have "(\<forall>f \<in> set acc. fi_hash f = None) \<longrightarrow> (\<forall>f \<in> set fs. fi_hash f = None)"
  proof (rule plan_loop.raw_induct[OF _ assms(1), where P = "\<lambda>n eff offset index acc fs.
      (\<forall>f \<in> set acc. fi_hash f = None) \<longrightarrow> (\<forall>f \<in> set fs. fi_hash f = None)"])
    fix rec n eff offset index acc fs
    assume IH: "\<And>a b c d e y. rec a b c d e = Some y \<Longrightarrow>
        (\<forall>f \<in> set e. fi_hash f = None) \<longrightarrow> (\<forall>f \<in> set y. fi_hash f = None)"
      and step: "(if offset < n then
        (let remaining = n - offset; sz = min remaining eff; fend = offset + sz - 1
         in Option.bind (fragment_info_new index offset fend sz) (\<lambda>f.
            Option.bind (checked_add index 1) (\<lambda>index'.
              rec n eff (offset + sz) index' (acc @ [f]))))
      else Some acc) = Some fs"
    show "(\<forall>f \<in> set acc. fi_hash f = None) \<longrightarrow> (\<forall>f \<in> set fs. fi_hash f = None)"
      using step by (auto simp: Let_def bind_eq_Some_conv fragment_info_new_Some_iff split: if_splits dest!: IH)
  qed
  then show ?thesis using assms(2) by blast
qed

lemma plan_fragments_no_hash:
  "plan_fragments orch n supports_range suggested = Some fs \<Longrightarrow> \<forall>f \<in> set fs. fi_hash f = None"
  by (auto simp: plan_fragments_def Let_def bind_eq_Some_conv fragment_info_new_Some_iff
      split: if_splits option.splits dest!: plan_loop_no_hash)

definition unhashed :: "fragment_record list \<Rightarrow> bool" where
  "unhashed frs = (\<forall>f \<in> set frs. fi_hash (fr_info f) = None)"

lemma unhashed_update: "unhashed frs \<Longrightarrow> fi_hash (fr_info f) = None \<Longrightarrow> unhashed (frs[i := f])"
  using set_update_subset_insert[of frs i f] by (auto simp: unhashed_def)

lemma unhashed_nth: "unhashed frs \<Longrightarrow> i < length frs \<Longrightarrow> fi_hash (fr_info (frs ! i)) = None"
  by (simp add: unhashed_def)

lemma spawn_fragments_spec:
  assumes "spawn_fragments specs t = (t', r)"
  shows "(\<exists>frs m. t' = t\<lparr>dt_fragments := frs, dt_metrics := m\<rparr>) \<and>
    length (dt_fragments t') = length (dt_fragments t) \<and>
    (unhashed (dt_fragments t) \<longrightarrow> unhashed (dt_fragments t')) \<and>
    (r = Inr () \<longrightarrow> (\<forall>i < length (dt_fragments t). fr_state (dt_fragments t' ! i) =
       (if i \<in> (\<lambda>s. unat (fst s)) ` set specs then FDownloading else fr_state (dt_fragments t ! i))))"
  using assms
proof (induction specs arbitrary: t)
  case Nil
  then show ?case by (auto intro!: exI[of _ "dt_fragments t'"] exI[of _ "dt_metrics t'"])
next
  case (Cons s specs)
  obtain i a b where s: "s = (i, a, b)" by (cases s)
  show ?case
  proof (cases "unat i < length (dt_fragments t) \<and> fr_state (dt_fragments t ! unat i) = FPending")
    case False
    then have "t' = t" "r \<noteq> Inr ()"
      using Cons.prems by (auto simp: s start_download_def illegal_def split: if_splits)
    then show ?thesis by (auto intro!: exI[of _ "dt_fragments t'"] exI[of _ "dt_metrics t'"])
  next
    case True
    define u where "u = t\<lparr>dt_fragments := (dt_fragments t)
        [unat i := (dt_fragments t ! unat i)\<lparr>fr_state := FDownloading\<rparr>],
      dt_metrics := map_option inc_fragment (dt_metrics t)\<rparr>"
    have "spawn_fragments specs u = (t', r)"
      using Cons.prems True by (simp add: s start_download_def u_def)
    note IH = Cons.IH[OF this]
    have "unhashed (dt_fragments t) \<longrightarrow> unhashed (dt_fragments u)"
      using True by (auto simp: u_def intro!: unhashed_update unhashed_nth)
    then show ?thesis
      using IH True by (auto simp: s u_def nth_list_update)
  qed
qed

fun joined_ok :: "joined \<Rightarrow> bool" where
  "joined_ok (Joined _ (Inr _)) = True"
| "joined_ok _ = False"

fun joined_index :: "joined \<Rightarrow> nat option" where
  "joined_index (Joined _ (Inr (i, _))) = Some (unat i)"
| "joined_index _ = None"

lemma feed_back_fields [simp]:
  "dt_fragments (feed_back now n d t) = dt_fragments t" "dt_storage (feed_back now n d t) = dt_storage t"
  "dt_config (feed_back now n d t) = dt_config t" "dt_control (feed_back now n d t) = dt_control t"
  "dt_metadata (feed_back now n d t) = dt_metadata t"
  by (simp_all add: feed_back_def Let_def)

lemma join_loop_spec:
  assumes "join_loop ends t = Some (t', r)"
  shows "dt_storage t' = dt_storage t \<and> dt_config t' = dt_config t \<and> dt_control t' = dt_control t \<and>
    dt_metadata t' = dt_metadata t \<and> length (dt_fragments t') = length (dt_fragments t) \<and>
    (unhashed (dt_fragments t) \<longrightarrow> unhashed (dt_fragments t')) \<and>
    (r = Inr () \<longrightarrow> list_all joined_ok ends \<and> (\<forall>i < length (dt_fragments t). fr_state (dt_fragments t' ! i) =
       (if Some i \<in> joined_index ` set ends then FDone else fr_state (dt_fragments t ! i))))"
  using assms
proof (induction ends arbitrary: t)
  case (Cons x rest)
  consider "x = JoinPanic" | now i e where "x = Joined now (Inl (i, e))"
    | now i n dur where "x = Joined now (Inr (i, n, dur))"
    by (cases x rule: joined.exhaust) (auto, metis sum.exhaust prod.exhaust)
  then show ?case
  proof cases
    case 3
    show ?thesis
    proof (cases "unat i < length (dt_fragments t) \<and> fr_state (dt_fragments t ! unat i) = FDownloading")
      case False
      then show ?thesis using Cons.prems 3
        by (auto simp: complete_download_fast_def illegal_def not_less split: if_splits)
    next
      case True
      define f where "f = (dt_fragments t ! unat i)\<lparr>
        fr_info := (fr_info (dt_fragments t ! unat i))\<lparr>fi_downloaded := n\<rparr>,
        fr_last_duration := Some dur, fr_state := FDone\<rparr>"
      define u where "u = t\<lparr>dt_fragments := (dt_fragments t)[unat i := f],
        dt_metrics := map_option (add_bytes n) (dt_metrics t)\<rparr>"
      have c: "complete_download_fast n dur (dt_fragments t ! unat i) = (f, Inr ())"
        using True by (simp add: complete_download_fast_def f_def)
      have "join_loop rest (feed_back now n dur u) = Some (t', r)"
        using Cons.prems True c 3 by (simp add: Let_def u_def) (simp add: f_def)
      note IH = Cons.IH[OF this]
      have "unhashed (dt_fragments t) \<longrightarrow> unhashed (dt_fragments u)"
        using True by (auto simp: u_def f_def intro!: unhashed_update unhashed_nth)
      then show ?thesis
        using IH True 3 by (auto simp: u_def f_def nth_list_update)
    qed
  qed (use Cons.prems in \<open>auto simp: Let_def force_fail_def intro!: unhashed_update unhashed_nth\<close>)
qed auto

lemma finish_full_spec:
  assumes "finish_full w expected_size pos t = (t', r)"
  shows "dt_storage t' = dt_storage t \<and> dt_config t' = dt_config t \<and> dt_control t' = dt_control t \<and>
    dt_metadata t' = dt_metadata t \<and> length (dt_fragments t') = length (dt_fragments t) \<and>
    (unhashed (dt_fragments t) \<longrightarrow> unhashed (dt_fragments t')) \<and>
    (r = Inr () \<longrightarrow> (expected_size = None \<or> expected_size = Some pos) \<and>
       (dt_fragments t \<noteq> [] \<longrightarrow> fr_state (hd (dt_fragments t)) \<in> {FPending, FDownloading} \<and>
          dt_fragments t' \<noteq> [] \<and> fr_state (hd (dt_fragments t')) = FDone))"
  using assms
  by (auto simp: finish_full_def start_download_def complete_download_fast_def illegal_def unhashed_def
      split: if_splits list.splits prod.splits sum.splits)

section \<open>What a run goes through\<close>

lemma execute_full_spec:
  assumes "execute_full_download ops w t = (t', r)"
  shows "dt_config t' = dt_config t \<and> dt_control t' = dt_control t \<and> dt_metadata t' = dt_metadata t \<and>
    (unhashed (dt_fragments t) \<longrightarrow> unhashed (dt_fragments t'))"
  using assms
  by (auto simp: execute_full_download_def Let_def leave_env_def
      split: prod.splits sum.splits option.splits dest!: finish_full_spec)

lemma execute_fragmented_cases:
  assumes "execute_fragmented_download fexp ops w t = Some (t', r)"
  obtains (early) e where "t' = t" "r = Inl e"
  | (spawn) e where "spawn_fragments (fragment_specs (dt_fragments t)) t = (t', Inl e)" "r = Inl e"
  | (joined) s u s' ends t1 r1 where "dt_storage t = Some s"
    "spawn_fragments (fragment_specs (dt_fragments t)) t = (u, Inr ())"
    "w_tasks w (fragment_specs (dt_fragments t)) s = (s', ends)"
    "join_loop ends (u\<lparr>dt_storage := Some s'\<rparr>) = Some (t1, r1)"
    "r = Inr () \<and> r1 = Inr () \<and> t' = t1\<lparr>dt_state := Completed\<rparr> \<or> r \<noteq> Inr () \<and> t' = t1"
proof -
  note run = assms[unfolded execute_fragmented_download_def Let_def]
  obtain u rs where u: "spawn_fragments (fragment_specs (dt_fragments t)) t = (u, rs)"
    by (cases "spawn_fragments (fragment_specs (dt_fragments t)) t")
  show thesis
  proof (cases "\<exists>e. t' = t \<and> r = Inl e")
    case True
    then show ?thesis using early by blast
  next
    case False
    then obtain s where s: "dt_storage t = Some s"
      using run by (cases "dt_storage t") (auto split: if_splits option.splits)
    show ?thesis
    proof (cases rs)
      case (Inl e)
      then show ?thesis using False run u s
        by (intro spawn[of e]) (auto split: if_splits option.splits sum.splits)
    next
      case (Inr v)
      obtain s' ends where k: "w_tasks w (fragment_specs (dt_fragments t)) s = (s', ends)"
        by (cases "w_tasks w (fragment_specs (dt_fragments t)) s")
      from False run u s Inr k have "(case join_loop ends (u\<lparr>dt_storage := Some s'\<rparr>) of
            None \<Rightarrow> None
          | Some (t, Inl e) \<Rightarrow> Some (t, Inl e)
          | Some (t, Inr _) \<Rightarrow>
              (case so_sync ops s' of
                 Inl e \<Rightarrow> Some (t, Inl e)
               | Inr _ \<Rightarrow> Some (t\<lparr>dt_state := Completed\<rparr>, Inr ()))) = Some (t', r)"
        by (auto split: if_splits option.splits sum.splits)
      moreover from this obtain t1 r1 where j: "join_loop ends (u\<lparr>dt_storage := Some s'\<rparr>) = Some (t1, r1)"
        by (cases "join_loop ends (u\<lparr>dt_storage := Some s'\<rparr>)") auto
      ultimately have "r = Inr () \<and> r1 = Inr () \<and> t' = t1\<lparr>dt_state := Completed\<rparr> \<or> r \<noteq> Inr () \<and> t' = t1"
        by (cases r1; cases "so_sync ops s'") auto
      with joined[OF s _ k j] u Inr show ?thesis by simp
    qed
  qed
qed

lemma execute_fragmented_spec:
  assumes "execute_fragmented_download fexp ops w t = Some (t', r)"
  shows "dt_config t' = dt_config t \<and> dt_control t' = dt_control t \<and> dt_metadata t' = dt_metadata t \<and>
    (unhashed (dt_fragments t) \<longrightarrow> unhashed (dt_fragments t'))"
  using assms
proof (cases rule: execute_fragmented_cases)
  case (joined s u s' ends t1 r1)
  from spawn_fragments_spec[OF joined(2)] join_loop_spec[OF joined(4)] joined(5) show ?thesis by auto
qed (auto dest: spawn_fragments_spec)

lemma execute_spec:
  assumes "execute fexp ops w t = Some (t', r)"
  shows "dt_config t' = dt_config t \<and> dt_control t' = dt_control t \<and> dt_metadata t' = dt_metadata t \<and>
    (unhashed (dt_fragments t) \<longrightarrow> unhashed (dt_fragments t'))"
  using assms
  by (auto simp: execute_def Let_def split: option.splits if_splits
      dest!: execute_full_spec execute_fragmented_spec)

text \<open>A successful run went through every step.\<close>

lemma and_next_Ok:
  "and_next x f = Some (t', Inr ()) \<longleftrightarrow> (\<exists>t v. x = Some (t, Inr v) \<and> f t = Some (t', Inr ()))"
  by (cases "(x, f)" rule: and_next.cases) auto

lemma or_cancel_Ok:
  "or_cancel obs dropped step t = Some (t', Inr ()) \<longleftrightarrow>
     (if dt_control t then \<not> wait_for_cancel obs \<and>
        (\<exists>t1. step (t\<lparr>dt_control := False\<rparr>) = Some (t1, Inr ()) \<and> t' = t1\<lparr>dt_control := True\<rparr>)
      else step t = Some (t', Inr ()))"
  by (auto simp: or_cancel_def Let_def split: option.splits prod.splits sum.splits)

lemma plan_unhashed:
  assumes "plan fexp t = Some (t', Inr fs)"
  shows "dt_config t' = dt_config t \<and> unhashed (dt_fragments t')"
proof -
  obtain md where md: "dt_metadata t = Some md" using assms by (auto simp: plan_def split: option.splits)
  from plan_cases[OF assms md] obtain suggested where
    fs: "plan_fragments (dt_orchestrator t) (case md_file_size md of Some n \<Rightarrow> n | None \<Rightarrow> 0)
       (md_supports_range md) suggested = Some fs"
    and t': "t' = t\<lparr>dt_fragments := fst (mark_completed (dt_completed t)
       (map (\<lambda>info. fragment_record_new info (max_retries (dt_config t))) fs))\<rparr>" by auto
  let ?frs = "map (\<lambda>info. fragment_record_new info (max_retries (dt_config t))) fs"
  have new: "fi_hash (fr_info f) = None" if "f \<in> set ?frs" for f
    using that plan_fragments_no_hash[OF fs] by (auto simp: fragment_record_new_def)
  obtain frs r where m: "mark_completed (dt_completed t) ?frs = (frs, r)"
    by (cases "mark_completed (dt_completed t) ?frs")
  have "fi_hash (fr_info (frs ! i)) = None" if "i < length frs" for i
    using mark_completed_spec[OF m] new that by (auto simp: resumed_def)
  then have "unhashed frs" by (auto simp: unhashed_def in_set_conv_nth)
  then show ?thesis using t' m by simp
qed

lemma verify_unhashed:
  assumes "unhashed (dt_fragments t)" "verify blake3 ops t = Some (t', Inr ())"
  shows "\<not> verify_checksum (dt_config t)"
proof
  assume v: "verify_checksum (dt_config t)"
  have "verify_fragments blake3 rd fs b = Some (Inr b)" if "\<forall>f \<in> set fs. fi_hash f = None" for rd fs b
    using that by (induction fs) auto
  then have "verify_fragments blake3 rd (map fr_info (dt_fragments t)) False = Some (Inr False)" for rd
    using assms(1) by (auto simp: unhashed_def)
  then show False using assms(2) v by (auto simp: verify_def Let_def split: option.splits)
qed

lemma prepare_storage_fields:
  "prepare_storage ops t = (t', r) \<Longrightarrow> dt_config t' = dt_config t \<and> dt_fragments t' = dt_fragments t \<and>
    dt_metadata t' = dt_metadata t \<and> dt_control t' = dt_control t \<and> dt_url t' = dt_url t"
  by (auto simp: prepare_storage_def Let_def split: option.splits prod.splits if_splits)

lemma probe_fields:
  "probe w t = (t', r) \<Longrightarrow> dt_config t' = dt_config t \<and> dt_storage t' = dt_storage t \<and>
    dt_completed t' = dt_completed t \<and> dt_orchestrator t' = dt_orchestrator t \<and> dt_url t' = dt_url t"
  by (auto simp: probe_def split: option.splits sum.splits)

lemma init_storage_fields:
  "init_storage ops w t = (t', r) \<Longrightarrow> dt_config t' = dt_config t \<and> dt_metadata t' = dt_metadata t \<and>
    dt_completed t' = dt_completed t \<and> dt_orchestrator t' = dt_orchestrator t \<and> dt_url t' = dt_url t"
  by (auto simp: init_storage_def Let_def split: option.splits sum.splits prod.splits)

lemma run_inner_Ok:
  assumes "run_inner fexp blake3 ops w t = Some (t', Inr ())"
  obtains t1 t2 t3 fs t4 t5 t6 where
    "or_cancel (w_probe_watch w) (\<lambda>t. t) (\<lambda>t. Some (probe w t)) t = Some (t1, Inr ())"
    "init_storage ops w t1 = (t2, Inr ())" "plan fexp t2 = Some (t3, Inr fs)"
    "or_cancel (w_allocate_watch w) (\<lambda>t. if w_allocate_ran w then fst (prepare_storage ops t) else t)
       (\<lambda>t. Some (prepare_storage ops t)) t3 = Some (t4, Inr ())"
    "execute fexp ops w t4 = Some (t5, Inr ())"
    "or_cancel (w_verify_watch w) (\<lambda>t. t) (verify blake3 ops) t5 = Some (t6, Inr ())"
    "t' = t6\<lparr>dt_state := Completed\<rparr>"
  using assms unfolding run_inner_def by (auto simp: and_next_Ok)

lemma run_inner_not_verified:
  assumes "run_inner fexp blake3 ops w t = Some (t', Inr ())"
  shows "\<not> verify_checksum (dt_config t) \<and> dt_state t' = Completed"
  using assms
proof (rule run_inner_Ok)
  fix t1 t2 t3 fs t4 t5 t6
  assume s: "or_cancel (w_probe_watch w) (\<lambda>t. t) (\<lambda>t. Some (probe w t)) t = Some (t1, Inr ())"
    "init_storage ops w t1 = (t2, Inr ())" "plan fexp t2 = Some (t3, Inr fs)"
    "or_cancel (w_allocate_watch w) (\<lambda>t. if w_allocate_ran w then fst (prepare_storage ops t) else t)
       (\<lambda>t. Some (prepare_storage ops t)) t3 = Some (t4, Inr ())"
    "execute fexp ops w t4 = Some (t5, Inr ())"
    "or_cancel (w_verify_watch w) (\<lambda>t. t) (verify blake3 ops) t5 = Some (t6, Inr ())"
    "t' = t6\<lparr>dt_state := Completed\<rparr>"
  have 1: "dt_config t1 = dt_config t"
    using s(1) by (auto simp: or_cancel_Ok split: if_splits dest!: probe_fields)
  note 2 = init_storage_fields[OF s(2)]
  note 3 = plan_unhashed[OF s(3)]
  have 4: "dt_config t4 = dt_config t3 \<and> dt_fragments t4 = dt_fragments t3"
    using s(4) by (auto simp: or_cancel_Ok split: if_splits dest!: prepare_storage_fields)
  note 5 = execute_spec[OF s(5)]
  have "\<not> verify_checksum (dt_config t5)"
  proof (cases "dt_control t5")
    case True
    then obtain t7 where "verify blake3 ops (t5\<lparr>dt_control := False\<rparr>) = Some (t7, Inr ())"
      using s(6) by (auto simp: or_cancel_Ok)
    from verify_unhashed[OF _ this] 3 4 5 show ?thesis by simp
  next
    case False
    then have "verify blake3 ops t5 = Some (t6, Inr ())" using s(6) by (simp add: or_cancel_Ok)
    from verify_unhashed[OF _ this] 3 4 5 show ?thesis by simp
  qed
  with 1 2 3 4 5 s(7) show ?thesis by simp
qed

section \<open>The bytes of a full download\<close>

context async_storage
begin

lemma full_loop_bytes:
  assumes "full_loop write_at es limit pos items env = (env', Inr n)"
    and "unat pos + length (delivered items) < 2 ^ 64"
  shows "all_ok items \<and> (\<exists>k \<le> length (delivered items). unat n = unat pos + k \<and>
    (k = length (delivered items) \<longrightarrow>
       content (fe_storage env') = overlay (content (fe_storage env)) (unat pos) (delivered items)))"
  using assms
proof (induction items arbitrary: pos env)
  case Nil
  then show ?case by (auto simp: all_ok_def)
next
  case (Cons item rest)
  obtain env1 where c: "check_control env = (env1, Inr ())"
    using Cons.prems(1) by (auto split: prod.splits sum.splits)
  then have c1: "fe_storage env1 = fe_storage env" by simp
  obtain chunk where item: "item = Inr chunk" using Cons.prems(1) c by (cases item) auto
  obtain s r where w: "write_at (unat pos) chunk (fe_storage env1) = (s, r)"
    by (cases "write_at (unat pos) chunk (fe_storage env1)")
  obtain m where r: "r = Inr m"
    using Cons.prems(1) c item w by (cases r) (auto split: sum.splits)
  note wr = write_ok[OF w[unfolded r]]
  have loop: "full_loop write_at es limit (pos + of_nat m) rest (throttle (of_nat m) (env1\<lparr>fe_storage := s\<rparr>)) = (env', Inr n)"
    using Cons.prems(1) c item w r by (auto split: sum.splits)
  have m: "m \<le> length chunk" using wr by simp
  have pos: "unat (pos + of_nat m) = unat pos + m"
    using Cons.prems(2) m item by (simp add: unat_word_ariths unat_of_nat)
  have room: "unat (pos + of_nat m) + length (delivered rest) < 2 ^ 64"
    using Cons.prems(2) m item pos by simp
  from Cons.IH[OF loop room] obtain k where ok: "all_ok rest" and k: "k \<le> length (delivered rest)"
    "unat n = unat pos + m + k"
    "k = length (delivered rest) \<longrightarrow> content (fe_storage env') = overlay (content s) (unat pos + m) (delivered rest)"
    using pos by auto
  show ?case
  proof (intro conjI exI[of _ "m + k"] impI)
    show "all_ok (item # rest)" using ok item by (simp add: all_ok_def is_ok_def)
    show "m + k \<le> length (delivered (item # rest))" using m k item by simp
    show "unat n = unat pos + (m + k)" using k by simp
    assume "m + k = length (delivered (item # rest))"
    then have "m = length chunk" "k = length (delivered rest)" using m k item by auto
    then show "content (fe_storage env') = overlay (content (fe_storage env)) (unat pos) (delivered (item # rest))"
      using k(3) wr c1 item by (simp add: overlay_append)
  qed
qed

end

end
