(* ===== verification/Download_Run.thy ===== *)
theory Download_Run
  imports Interleaved_Writes Download_Task
begin

text \<open>
  \<open>DownloadTask::run\<close> on a file of the operating system, with the fragment tasks of
  \<open>Interleaved_Writes\<close> behind \<open>w_tasks\<close>: what a run that reports success leaves on disk.
\<close>

section \<open>A file and its tasks\<close>

definition file_ops :: "os_file \<Rightarrow> os_file storage_ops" where
  "file_ops f =
     \<lparr>so_open = (\<lambda>_ _. Inr f), so_write = file_write_at, so_read = file_read_at,
      so_allocate = file_allocate, so_sync = file_sync\<rparr>"

definition spec_of :: "fragment_info \<Rightarrow> fragment_spec" where
  "spec_of f = (fi_index f, fi_start f, fi_end f)"

fun joined_result :: "joined \<Rightarrow> ((u32 \<times> download_error) + (u32 \<times> u64 \<times> duration)) option" where
  "joined_result JoinPanic = None"
| "joined_result (Joined _ r) = Some r"

text \<open>
  The fragment tasks of \<open>fs\<close> against an honest server took the file from \<open>s\<close> to \<open>s'\<close>: their
  results are those that were joined, and their writes reached the file in some order.
\<close>

definition merged_run ::
    "u8 list \<Rightarrow> string \<Rightarrow> u32 \<Rightarrow> fragment_info list \<Rightarrow> os_file \<Rightarrow> os_file \<Rightarrow> joined list \<Rightarrow> bool" where
  "merged_run remote url mr fs s s' ends =
     (\<exists>inputs tes zs.
        (\<forall>k < length fs. streams_fit (inputs k) \<and> honest remote (fs ! k) (inputs k) \<and>
           fragment_log (tes k) = []) \<and>
        merge_of (\<lambda>k. fragment_log (fst (run_fragment url mr inputs tes (fs ! k) k))) (length fs) zs \<and>
        of_bytes s' = apply_log (of_bytes s) (map snd zs) \<and>
        joined_result ` set ends =
          (\<lambda>k. Some (snd (run_fragment url mr inputs tes (fs ! k) k))) ` {..<length fs})"

text \<open>What \<open>w_tasks\<close> stands for, as far as all the tasks end well.\<close>

definition faithful_tasks ::
    "u8 list \<Rightarrow> string \<Rightarrow> u32 \<Rightarrow> os_file world \<Rightarrow> fragment_info list \<Rightarrow> bool" where
  "faithful_tasks remote url mr w fs =
     (\<forall>s. list_all joined_ok (snd (w_tasks w (map spec_of fs) s)) \<longrightarrow>
        merged_run remote url mr fs s (fst (w_tasks w (map spec_of fs) s))
          (snd (w_tasks w (map spec_of fs) s)))"

lemma run_fragment_index:
  assumes "run_fragment source mr inputs tes f k = (te, Inr (j, n, d))" "streams_fit (inputs k)"
  shows "j = fi_index f"
  using logged.fragment_task_bytes[OF assms(1)[unfolded run_fragment_def], THEN conjunct2] assms(2)
  by (auto simp: streams_fit_def)

lemma joined_ok_result: "joined_ok x \<longleftrightarrow> (\<exists>r. joined_result x = Some (Inr r))"
  by (cases x rule: joined_ok.cases) auto

lemma joined_index_result: "joined_index x = Some i \<longleftrightarrow> (\<exists>j n d. joined_result x = Some (Inr (j, n, d)) \<and> i = unat j)"
  by (cases x rule: joined_index.cases) auto

lemma faithful_tasks_join:
  assumes "faithful_tasks remote url mr w fs" "w_tasks w (map spec_of fs) s = (s', ends)"
    and ok: "list_all joined_ok ends" and tiling: "tiles 0 fs (length remote)"
    and room: "length remote \<le> length (of_bytes s)"
  shows "of_bytes s' = remote @ drop (length remote) (of_bytes s) \<and>
    (\<forall>k < length fs. Some (unat (fi_index (fs ! k))) \<in> joined_index ` set ends)"
proof -
  have "merged_run remote url mr fs s s' ends"
    using assms(1,2) ok unfolding faithful_tasks_def by (metis fst_conv snd_conv)
  then obtain inputs tes zs where
    env: "\<forall>k < length fs. streams_fit (inputs k) \<and> honest remote (fs ! k) (inputs k) \<and>
        fragment_log (tes k) = []"
    and zs: "merge_of (\<lambda>k. fragment_log (fst (run_fragment url mr inputs tes (fs ! k) k))) (length fs) zs"
    and bytes: "of_bytes s' = apply_log (of_bytes s) (map snd zs)"
    and res: "joined_result ` set ends =
        (\<lambda>k. Some (snd (run_fragment url mr inputs tes (fs ! k) k))) ` {..<length fs}"
    unfolding merged_run_def by (elim exE conjE) (rule that)
  have runs: "\<exists>x \<in> set ends. \<exists>n d. joined_result x = Some (Inr (fi_index (fs ! k), n, d)) \<and>
      snd (run_fragment url mr inputs tes (fs ! k) k) = Inr (fi_index (fs ! k), n, d)"
    if k: "k < length fs" for k
  proof -
    have "Some (snd (run_fragment url mr inputs tes (fs ! k) k)) \<in> joined_result ` set ends"
      unfolding res using k by blast
    then obtain x where x: "x \<in> set ends" "joined_result x = Some (snd (run_fragment url mr inputs tes (fs ! k) k))"
      by (metis imageE)
    then obtain j n d where r: "snd (run_fragment url mr inputs tes (fs ! k) k) = Inr (j, n, d)"
      using ok[unfolded list_all_iff joined_ok_result, rule_format, OF x(1)] by auto
    then have "run_fragment url mr inputs tes (fs ! k) k =
        (fst (run_fragment url mr inputs tes (fs ! k) k), Inr (j, n, d))" by (simp add: prod_eq_iff)
    from run_fragment_index[OF this] have "j = fi_index (fs ! k)" using env k by blast
    with x r show ?thesis by auto
  qed
  have "\<forall>k < length fs. \<exists>j n d. run_fragment url mr inputs tes (fs ! k) k =
      (fst (run_fragment url mr inputs tes (fs ! k) k), Inr (j, n, d))"
  proof (intro allI impI)
    fix k assume "k < length fs"
    from runs[OF this] show "\<exists>j n d. run_fragment url mr inputs tes (fs ! k) k =
        (fst (run_fragment url mr inputs tes (fs ! k) k), Inr (j, n, d))" by (auto simp: prod_eq_iff)
  qed
  from merged_fragments_bytes[OF tiling room this env zs] bytes
  have "of_bytes s' = remote @ drop (length remote) (of_bytes s)" by simp
  moreover have "Some (unat (fi_index (fs ! k))) \<in> joined_index ` set ends" if "k < length fs" for k
    using runs[OF that] by (auto simp: image_iff joined_index_result eq_commute[of "Some _"])
  ultimately show ?thesis by blast
qed

section \<open>The bytes of an execution\<close>

lemma full_loop_all_ok: "full_loop wr es limit pos items env = (env', Inr n) \<Longrightarrow> all_ok items"
proof (induction items arbitrary: pos env)
  case (Cons item rest)
  then show ?case
    by (cases item) (auto simp: all_ok_def is_ok_def split: prod.splits sum.splits)
qed (simp add: all_ok_def)

section \<open>The bytes a run leaves\<close>

lemma execute_full_Ok:
  assumes "execute_full_download ops w t = (t', Inr ())"
  shows "\<exists>s stream env env' pos. dt_storage t = Some s \<and> w_opened w = Inr stream \<and> fe_storage env = s \<and>
    full_loop (so_write ops) (Option.bind (dt_metadata t) md_file_size)
      (max_full_stream_bytes (dt_config t)) 0 stream env = (env', Inr pos) \<and>
    finish_full w (Option.bind (dt_metadata t) md_file_size) pos (leave_env env' t) = (t', Inr ())"
proof -
  from assms obtain s stream env0 where s: "dt_storage t = Some s" "w_opened w = Inr stream"
    and l: "(case full_loop (so_write ops) (Option.bind (dt_metadata t) md_file_size)
        (max_full_stream_bytes (dt_config t)) 0 stream (with_storage s env0) of
        (env, Inl e) \<Rightarrow> (leave_env env t, Inl e)
      | (env, Inr pos) \<Rightarrow>
          finish_full w (Option.bind (dt_metadata t) md_file_size) pos (leave_env env t)) = (t', Inr ())"
    unfolding execute_full_download_def Let_def
    by (auto split: prod.splits sum.splits option.splits)
  have "fe_storage (with_storage s env0) = s" by (simp add: with_storage_def)
  moreover from l obtain env' pos where
    "full_loop (so_write ops) (Option.bind (dt_metadata t) md_file_size)
      (max_full_stream_bytes (dt_config t)) 0 stream (with_storage s env0) = (env', Inr pos)"
    by (auto split: prod.splits sum.splits)
  ultimately show ?thesis using s l by fastforce
qed

lemma length_word_0:
  assumes "length xs < 2 ^ 64"
  shows "(of_nat (length xs) :: u64) = 0 \<longleftrightarrow> xs = []" "unat (of_nat (length xs) :: u64) = length xs"
proof -
  show *: "unat (of_nat (length xs) :: u64) = length xs" using assms by (simp add: unat_of_nat_eq)
  show "(of_nat (length xs) :: u64) = 0 \<longleftrightarrow> xs = []" by (metis * length_0_conv unat_0 unat_eq_zero)
qed

lemma execute_leaves_bytes:
  assumes run: "execute fexp (file_ops f0) w t = Some (t', Inr ())"
    and md: "dt_metadata t = Some md" "md_file_size md = Some (of_nat (length remote))"
      "length remote < 2 ^ 64"
    and disk: "dt_storage t = Some s" "length remote \<le> length (of_bytes s)"
    and frs: "dt_fragments t = map (\<lambda>i. fragment_record_new i mr) fs" "tiles 0 fs (length remote)"
      "map (\<lambda>f. unat (fi_index f)) fs = [0..<length fs]" "\<not> md_supports_range md \<Longrightarrow> length fs \<le> 1"
    and server: "faithful_tasks remote (dt_url t) mr w fs"
      "\<forall>stream. w_opened w = Inr stream \<and> all_ok stream \<longrightarrow> delivered stream = remote"
  shows "\<exists>f. dt_storage t' = Some f \<and> of_bytes f = remote @ drop (length remote) (of_bytes s) \<and>
    list_all is_done (dt_fragments t')"
proof -
  define u where "u = t\<lparr>dt_state := Downloading\<rparr>"
  have u: "dt_metadata u = dt_metadata t" "dt_storage u = dt_storage t" "dt_fragments u = dt_fragments t"
    "dt_url u = dt_url t"
    by (simp_all add: u_def)
  have sz: "(of_nat (length remote) :: u64) = 0 \<longleftrightarrow> remote = []"
    and un: "unat (of_nat (length remote) :: u64) = length remote"
    using length_word_0[OF md(3)] by simp_all
  have step: "execute fexp (file_ops f0) w t =
      (if remote = [] then Some (u\<lparr>dt_state := Completed\<rparr>, Inr ())
       else if \<not> md_supports_range md \<or> length fs \<le> 1 then Some (execute_full_download (file_ops f0) w u)
       else execute_fragmented_download fexp (file_ops f0) w u)"
    unfolding execute_def Let_def u_def[symmetric] using md(1,2) sz frs(1) u(1,3) by simp
  consider (empty) "remote = []" "t' = u\<lparr>dt_state := Completed\<rparr>"
    | (full) "remote \<noteq> []" "length fs \<le> 1" "execute_full_download (file_ops f0) w u = (t', Inr ())"
    | (fragmented) "execute_fragmented_download fexp (file_ops f0) w u = Some (t', Inr ())"
  proof (cases "remote = []")
    case True
    show thesis by (rule empty[OF True]) (use run step True in simp)
  next
    case False
    show thesis
    proof (cases "\<not> md_supports_range md \<or> length fs \<le> 1")
      case True
      then have "length fs \<le> 1" using frs(4) by blast
      then show thesis by (rule full[OF False]) (use run step True False in simp)
    next
      case no: False
      show thesis by (rule fragmented) (use run step no False in simp)
    qed
  qed
  then show ?thesis
  proof cases
    case empty
    then have "fs = []" using frs(2) by (cases fs) (auto dest: tiles_le)
    with empty disk frs(1) u show ?thesis by simp
  next
    case full
    have es: "Option.bind (dt_metadata u) md_file_size = Some (of_nat (length remote))"
      using u md(1,2) by simp
    obtain s1 stream env env' pos where
      w: "dt_storage u = Some s1" "w_opened w = Inr stream" "fe_storage env = s1" and
      loop: "full_loop file_write_at (Some (of_nat (length remote))) (max_full_stream_bytes (dt_config u))
        0 stream env = (env', Inr pos)" and
      fin: "finish_full w (Some (of_nat (length remote))) pos (leave_env env' u) = (t', Inr ())"
      using execute_full_Ok[OF full(3), unfolded es file_ops_def storage_ops.simps] by (elim exE conjE)
    note end_spec = finish_full_spec[OF fin]
    have pos: "unat pos = length remote" using end_spec un by auto
    obtain ok: "all_ok stream" and d: "delivered stream = remote"
      using loop server(2) w(2) by (auto dest: full_loop_all_ok)
    have "of_bytes (fe_storage env') = overlay (of_bytes s) 0 remote"
      using os_file.full_loop_bytes[OF loop] d md(3) pos w(1,3) u(2) disk(1) by auto
    then have bytes: "of_bytes (fe_storage env') = remote @ drop (length remote) (of_bytes s)"
      using full(1) by (simp add: overlay_def)
    have "length (dt_fragments t') \<le> 1"
      using end_spec full(2) frs(1) u(3) by (simp add: leave_env_def)
    then have "list_all is_done (dt_fragments t')"
      using end_spec frs(1) u(3) full(1,2) frs(2)
      by (cases "dt_fragments t'"; cases fs) (auto simp: leave_env_def is_done_def)
    then show ?thesis using end_spec bytes by (auto simp: leave_env_def)
  next
    case fragmented
    then show ?thesis
    proof (cases rule: execute_fragmented_cases)
      case (joined s0 v s' ends t1 r1)
      have specs: "fragment_specs (dt_fragments u) = map spec_of fs"
        using frs(1) u(3) by (simp add: fragment_specs_def spec_of_def fragment_record_new_def o_def filter_map)
      have s0: "s0 = s" using joined(1) disk(1) u(2) by simp
      note sp = spawn_fragments_spec[OF joined(2)]
      have r: "join_loop ends (v\<lparr>dt_storage := Some s'\<rparr>) = Some (t1, Inr ())" "t' = t1\<lparr>dt_state := Completed\<rparr>"
        using joined(4,5) by auto
      note jn = join_loop_spec[OF r(1)]
      have server': "faithful_tasks remote (dt_url t) mr w fs" by (rule server(1))
      from faithful_tasks_join[OF this joined(3)[unfolded specs s0] _ frs(2) disk(2)] jn
      have bytes: "of_bytes s' = remote @ drop (length remote) (of_bytes s)"
        and all: "k < length fs \<Longrightarrow> Some (unat (fi_index (fs ! k))) \<in> joined_index ` set ends" for k
        by blast+
      have idx: "unat (fi_index (fs ! k)) = k" if "k < length fs" for k
        using arg_cong[OF frs(3), of "\<lambda>l. l ! k"] that by simp
      have len: "length (dt_fragments t1) = length fs" using jn sp frs(1) u(3) by simp
      have "fr_state (dt_fragments t1 ! k) = FDone" if "k < length fs" for k
        using jn all[OF that] idx[OF that] that sp frs(1) u(3) by simp
      then have "list_all is_done (dt_fragments t')"
        using len r(2) by (simp add: list_all_length is_done_def)
      then show ?thesis using bytes jn r(2) by simp
    qed simp_all
  qed
qed

section \<open>The bytes of a run\<close>

lemma plan_one_fragment:
  "plan_fragments orch n False suggested = Some fs \<Longrightarrow> length fs \<le> 1"
  by (auto simp: plan_fragments_def split: if_splits)

lemma verify_storage:
  "verify blake3 ops t = Some (t', Inr ()) \<Longrightarrow> dt_storage t' = dt_storage t \<and> dt_fragments t' = dt_fragments t"
  by (auto simp: verify_def Let_def split: if_splits option.splits sum.splits bool.splits download_error.splits)

lemma allocated_bytes:
  assumes "prepare_storage (file_ops f0) t = (t', Inr ())" "dt_storage t = Some s"
    and "dt_metadata t = Some md" "md_file_size md = Some n"
  shows "\<exists>f. dt_storage t' = Some f \<and> of_bytes f = of_bytes s @ replicate (unat n - length (of_bytes s)) 0"
  using assms
  by (auto simp: prepare_storage_def file_ops_def file_allocate_def unat_gt_0 word_gt_0 split: prod.splits if_splits)

lemma run_leaves_bytes:
  assumes run: "run fexp blake3 (file_ops f0) w t = Some (t', Inr ())"
    and fresh: "dt_storage t = None" "dt_metadata t = None" "dt_completed t = []"
    and cfg: "scheduler_config_ok (or_scheduler_config (dt_orchestrator t))"
    and remote: "w_probe w = Inr md" "md_file_size md = Some (of_nat (length remote))" "length remote < 2 ^ 64"
    and server: "\<forall>fs. faithful_tasks remote (dt_url t) (max_retries (dt_config t)) w fs"
      "\<forall>stream. w_opened w = Inr stream \<and> all_ok stream \<longrightarrow> delivered stream = remote"
  shows "\<exists>f. dt_storage t' = Some f \<and> of_bytes f = remote @ drop (length remote) (of_bytes f0) \<and>
    list_all is_done (dt_fragments t')"
proof -
  let ?n = "of_nat (length remote) :: u64"
  have "run_inner fexp blake3 (file_ops f0) w t = Some (t', Inr ())"
    using run by (auto simp: run_def split: option.splits prod.splits sum.splits)
  then show ?thesis
  proof (rule run_inner_Ok)
    fix t1 t2 t3 fs t4 t5 t6
    assume s: "or_cancel (w_probe_watch w) (\<lambda>t. t) (\<lambda>t. Some (probe w t)) t = Some (t1, Inr ())"
      "init_storage (file_ops f0) w t1 = (t2, Inr ())" "plan fexp t2 = Some (t3, Inr fs)"
      "or_cancel (w_allocate_watch w) (\<lambda>t. if w_allocate_ran w then fst (prepare_storage (file_ops f0) t) else t)
         (\<lambda>t. Some (prepare_storage (file_ops f0) t)) t3 = Some (t4, Inr ())"
      "execute fexp (file_ops f0) w t4 = Some (t5, Inr ())"
      "or_cancel (w_verify_watch w) (\<lambda>t. t) (verify blake3 (file_ops f0)) t5 = Some (t6, Inr ())"
      "t' = t6\<lparr>dt_state := Completed\<rparr>"
    have 1: "dt_metadata t1 = Some md" "dt_storage t1 = None" "dt_completed t1 = []" "dt_url t1 = dt_url t"
      "dt_config t1 = dt_config t" "dt_orchestrator t1 = dt_orchestrator t"
      using s(1) fresh remote(1) by (auto simp: or_cancel_Ok probe_def split: if_splits)
    have 2: "dt_storage t2 = Some f0"
      using s(2) 1(1,2) by (auto simp: init_storage_def Let_def file_ops_def split: prod.splits sum.splits)
    note same2 = init_storage_fields[OF s(2)]
    have md2: "dt_metadata t2 = Some md" using same2 1 by simp
    obtain suggested where
      plan: "plan_fragments (dt_orchestrator t) ?n (md_supports_range md) suggested = Some fs"
      and t3: "t3 = t2\<lparr>dt_fragments := map (\<lambda>i. fragment_record_new i (max_retries (dt_config t))) fs\<rparr>"
      using plan_cases[OF s(3) md2] same2 1 remote(2) by auto
    obtain sz: "unat ?n = length remote" using length_word_0[OF remote(3)] by blast
    from plan_fragments_ok[OF cfg, of ?n "md_supports_range md" suggested] plan sz
    have tiling: "tiles 0 fs (length remote)" "map (\<lambda>f. unat (fi_index f)) fs = [0..<length fs]" by auto
    have "\<exists>c v. prepare_storage (file_ops f0) (t3\<lparr>dt_control := c\<rparr>) = (v, Inr ()) \<and>
        dt_storage t4 = dt_storage v \<and> dt_metadata t4 = dt_metadata v \<and> dt_fragments t4 = dt_fragments v \<and>
        dt_url t4 = dt_url v"
    proof (cases "dt_control t3")
      case True
      then show ?thesis using s(4) by (intro exI[of _ False]) (auto simp: or_cancel_Ok)
    next
      case False
      then have same: "t3\<lparr>dt_control := False\<rparr> = t3" by simp
      have "prepare_storage (file_ops f0) t3 = (t4, Inr ())" using False s(4) by (simp add: or_cancel_Ok)
      then show ?thesis by (intro exI[of _ False] exI[of _ t4]) (simp only: same simp_thms)
    qed
    then obtain c v where v: "prepare_storage (file_ops f0) (t3\<lparr>dt_control := c\<rparr>) = (v, Inr ())"
      "dt_storage t4 = dt_storage v" "dt_metadata t4 = dt_metadata v" "dt_fragments t4 = dt_fragments v"
      "dt_url t4 = dt_url v" by blast
    define u where "u = t3\<lparr>dt_control := c\<rparr>"
    have a: "prepare_storage (file_ops f0) u = (v, Inr ())" "dt_storage u = Some f0"
      "dt_metadata u = Some md" "dt_fragments u = dt_fragments t3" "dt_url u = dt_url t"
      "dt_storage t4 = dt_storage v" "dt_metadata t4 = dt_metadata v" "dt_fragments t4 = dt_fragments v"
      "dt_url t4 = dt_url v"
      using v 1 2 same2 md2 t3 by (simp_all add: u_def)
    note same4 = prepare_storage_fields[OF a(1)]
    obtain f1 where f1: "dt_storage t4 = Some f1"
      "of_bytes f1 = of_bytes f0 @ replicate (length remote - length (of_bytes f0)) 0"
      using allocated_bytes[OF a(1-3) remote(2)] a(6) sz by auto
    have room: "length remote \<le> length (of_bytes f1)" by (simp add: f1(2))
    have "\<exists>f. dt_storage t5 = Some f \<and> of_bytes f = remote @ drop (length remote) (of_bytes f1) \<and>
        list_all is_done (dt_fragments t5)"
    proof (rule execute_leaves_bytes[OF s(5) _ remote(2,3) f1(1) room _ tiling])
      show "dt_metadata t4 = Some md" using a(3,7) same4 by simp
      show "dt_fragments t4 = map (\<lambda>i. fragment_record_new i (max_retries (dt_config t))) fs"
        using a(4,8) same4 t3 by simp
      show "length fs \<le> 1" if "\<not> md_supports_range md" using plan_one_fragment plan that by simp
      show "faithful_tasks remote (dt_url t4) (max_retries (dt_config t)) w fs"
        using server(1) a(5,9) same4 by simp
    qed (rule server(2))
    moreover have "drop (length remote) (of_bytes f1) = drop (length remote) (of_bytes f0)"
      by (simp add: f1(2))
    moreover have "dt_storage t6 = dt_storage t5 \<and> dt_fragments t6 = dt_fragments t5"
      using s(6) by (auto simp: or_cancel_Ok split: if_splits dest!: verify_storage)
    ultimately show ?thesis using s(7) by auto
  qed
qed

section \<open>Tasks that run one after the other\<close>

definition honest_input :: "u8 list \<Rightarrow> u64 \<Rightarrow> u64 \<Rightarrow> attempt_input" where
  "honest_input remote st en =
     \<lparr>ai_others = (\<lambda>b. b), ai_now = 0, ai_permit = Inr (),
      ai_opened = Inr [Inr (take (unat en + 1 - unat st) (drop (unat st) remote))],
      ai_elapsed = 0, ai_others_meanwhile = (\<lambda>b. b), ai_later = 0\<rparr>"

definition sequential_run ::
    "u8 list \<Rightarrow> string \<Rightarrow> u32 \<Rightarrow> fragment_spec \<Rightarrow>
     log_storage task_env \<times> ((u32 \<times> download_error) + (u32 \<times> u64 \<times> duration))" where
  "sequential_run remote url mr spec =
     (case spec of (i, st, en) \<Rightarrow>
        fragment_task log_write_at url i st en mr (\<lambda>_. honest_input remote st en) 0
          \<lparr>te_frag = \<lparr>fe_storage = \<lparr>ls_outcomes = [], ls_log = []\<rparr>, fe_control = None, fe_limiter = None,
             fe_clock = [], fe_waits = [], fe_progress = False, fe_full = [], fe_sent = []\<rparr>,
           te_breakers = breakers_new 5 (from_secs 30), te_metrics = None, te_sleeps = []\<rparr>)"

definition sequential_tasks ::
    "u8 list \<Rightarrow> string \<Rightarrow> u32 \<Rightarrow> fragment_spec list \<Rightarrow> os_file \<Rightarrow> os_file \<times> joined list" where
  "sequential_tasks remote url mr specs s =
     (let runs = map (sequential_run remote url mr) specs
      in (s\<lparr>of_bytes := apply_log (of_bytes s) (concat (map (\<lambda>r. fragment_log (fst r)) runs))\<rparr>,
          map (\<lambda>r. Joined 0 (snd r)) runs))"

lemma merge_of_concat:
  "merge_of logs n (concat (map (\<lambda>k. map (Pair k) (logs k)) [0..<n]))"
proof -
  have "filter (\<lambda>z. fst z = k) (concat (map (\<lambda>j. map (Pair j) (logs j)) [0..<n])) =
      (if k < n then map (Pair k) (logs k) else [])" for k
  proof (induction n)
    case (Suc n)
    have "filter (\<lambda>z. fst z = k) (map (Pair n) (logs n)) = (if k = n then map (Pair k) (logs k) else [])"
      by (auto simp: filter_map o_def)
    with Suc show ?case by auto
  qed simp
  then show ?thesis by (auto simp: merge_of_def o_def)
qed

lemma sequential_tasks_faithful:
  assumes "length remote < 2 ^ 64" "w_tasks w = sequential_tasks remote url mr"
  shows "faithful_tasks remote url mr w fs"
  unfolding faithful_tasks_def merged_run_def
proof (intro allI impI exI conjI)
  fix s
  let ?inputs = "\<lambda>k (_ :: u32). honest_input remote (fi_start (fs ! k)) (fi_end (fs ! k))"
  let ?te = "\<lparr>te_frag = \<lparr>fe_storage = \<lparr>ls_outcomes = [], ls_log = []\<rparr>, fe_control = None, fe_limiter = None,
             fe_clock = [], fe_waits = [], fe_progress = False, fe_full = [], fe_sent = []\<rparr>,
           te_breakers = breakers_new 5 (from_secs 30), te_metrics = None, te_sleeps = []\<rparr>"
  let ?run = "\<lambda>k. run_fragment url mr ?inputs (\<lambda>_. ?te) (fs ! k) k"
  have run: "?run k = sequential_run remote url mr (spec_of (fs ! k))" for k
    by (simp add: run_fragment_def sequential_run_def spec_of_def)
  have runs: "map (sequential_run remote url mr) (map spec_of fs) = map ?run [0..<length fs]"
    unfolding run by (rule nth_equalityI) simp_all
  show "streams_fit (?inputs k)" "honest remote (fs ! k) (?inputs k)" "fragment_log ?te = []" for k
    using assms(1) by (auto simp: streams_fit_def honest_def honest_input_def fragment_log_def)
  show "merge_of (\<lambda>k. fragment_log (fst (?run k))) (length fs)
      (concat (map (\<lambda>k. map (Pair k) (fragment_log (fst (?run k)))) [0..<length fs]))"
    by (rule merge_of_concat)
  show "of_bytes (fst (w_tasks w (map spec_of fs) s)) = apply_log (of_bytes s)
      (map snd (concat (map (\<lambda>k. map (Pair k) (fragment_log (fst (?run k)))) [0..<length fs])))"
    unfolding assms(2) sequential_tasks_def Let_def runs by (simp add: map_concat o_def)
  show "joined_result ` set (snd (w_tasks w (map spec_of fs) s)) = (\<lambda>k. Some (snd (?run k))) ` {..<length fs}"
    unfolding assms(2) sequential_tasks_def Let_def runs by (auto simp: image_image lessThan_atLeast0)
qed

section \<open>A run on a file that was longer\<close>

definition two_byte_config :: scheduler_config where
  "two_byte_config = scheduler_config_default\<lparr>min_fragment_size := 2, max_fragment_size := 2\<rparr>"

definition demo_task :: "(os_file, nat) download_task" where
  "demo_task = download_task_new ''http://h/a''
     ((download_config_default ''/dl'')\<lparr>verify_checksum := False\<rparr>)
     (with_scheduler_config counting_sem pool_config_default two_byte_config) adaptive_default"

definition demo_metadata :: file_metadata where
  "demo_metadata = \<lparr>md_file_name = ''a'', md_file_size = Some 3, md_content_type = None,
     md_supports_range = True, md_etag = None, md_last_modified = None\<rparr>"

definition demo_world :: "os_file world" where
  "demo_world =
     \<lparr>w_host = (\<lambda>_. Inr ''h''), w_probe = Inr demo_metadata, w_probe_watch = [], w_fs = Save_Path.sample_fs,
      w_cwd = [], w_state = Downloading, w_allocate_watch = [], w_allocate_ran = False, w_control = [],
      w_permit = Inr (), w_opened = Inr [Inr [7, 8, 9]], w_clock = [], w_elapsed = 1,
      w_tasks = sequential_tasks [7, 8, 9] ''http://h/a'' 3, w_verify_watch = []\<rparr>"

definition old_file :: os_file where
  "old_file = \<lparr>of_bytes = [0, 0, 0, 5], of_outcomes = []\<rparr>"

lemma demo_recommend: "\<exists>r. recommend fexp adaptive_default n m = Some r \<and> rec_confidence r = Fin 0"
  by (simp add: recommend_def adaptive_default_def adaptive_new_def predict_def confidence_def predictor_new_def
   suggest_fragment_size_def Let_def)

lemma demo_plan: "plan_fragments (dt_orchestrator demo_task) 3 True None = Some Interleaved_Writes.sample_fs"
proof -
  have "\<exists>n. compute_fragment_size 3 bw 2 2 target high medium = Some n \<and> 2 \<le> n \<and> n \<le> 2"
    for bw target high medium by (rule compute_fragment_size_range) simp_all
  then have c: "compute_fragment_size 3 bw 2 2 target high medium = Some 2" for bw target high medium
    by (metis order_antisym)
  show ?thesis
    by (simp add: demo_task_def download_task_new_def with_scheduler_config_def two_byte_config_def c
      plan_fragments_def effective_size_def plan_loop.simps checked_add_def fragment_info_new_def
      MAX_FRAGMENT_COUNT_def Interleaved_Writes.sample_fs_def)
qed

lemma demo_path: "validate_save_path Save_Path.sample_fs [] (path_join (parse_path ''/dl'') (parse_path ''a'')) (parse_path ''/dl'')
  = (Save_Path.sample_fs, Inr [''dl'', ''a''])"
  by (simp add: parse_path_def path_join_def segment_component_def eval_fs)

lemma demo_seq: "snd (sequential_tasks [7, 8, 9] ''http://h/a'' 3 (map spec_of Interleaved_Writes.sample_fs) f) =
   [Joined 0 (Inr (0, 2, 0)), Joined 0 (Inr (1, 1, 0))]"
  by (simp add: sequential_tasks_def sequential_run_def Interleaved_Writes.sample_fs_def spec_of_def honest_input_def Let_def
     sample_defs from_secs_def fragment_task.simps write_all_at.simps)


lemma feed_back_zero: "feed_back now n 0 t = t"
proof -
  have "f64_of_nat 0 = Fin 0" "rnd 0 = Fin 0" by (simp_all add: f64_of_nat_def rnd_def)
  moreover have "f64_of_nat 1000000000 = Fin 1000000000"
    using rnd_exact_of_nat[of 1000000000] by (simp add: f64_of_nat_def rnd_def)
  ultimately show ?thesis by (simp add: feed_back_def as_secs_f64_def)
qed

lemma demo_run: "\<exists>t'. run fexp blake3 (file_ops old_file) demo_world demo_task = Some (t', Inr ())"
proof -
  obtain r where r: "recommend fexp adaptive_default 3 16 = Some r" "rec_confidence r = Fin 0"
    using demo_recommend by blast
  define t1 where "t1 = demo_task\<lparr>dt_metadata := Some demo_metadata\<rparr>"
  define t2 where "t2 = t1\<lparr>dt_storage := Some old_file\<rparr>"
  define t3 where "t3 = t2\<lparr>dt_fragments := map (\<lambda>i. fragment_record_new i 3) Interleaved_Writes.sample_fs\<rparr>"
  have 0: "dt_control demo_task = False" "dt_metadata demo_task = None" "dt_storage demo_task = None"
    "dt_scheduler demo_task = adaptive_default" "dt_completed demo_task = []"
    "download_dir (dt_config demo_task) = ''/dl''" "max_concurrent_fragments (dt_config demo_task) = 16"
    "max_retries (dt_config demo_task) = 3" "verify_checksum (dt_config demo_task) = False"
    "dt_url demo_task = ''http://h/a''"
    by (simp_all add: demo_task_def download_task_new_def download_config_default_def)
  have 1: "probe demo_world demo_task = (t1, Inr ())"
    by (simp add: probe_def 0 demo_world_def t1_def)
  have 2: "init_storage (file_ops old_file) demo_world t1 = (t2, Inr ())"
    using demo_path by (simp add: init_storage_def 0 t1_def t2_def demo_world_def demo_metadata_def file_ops_def)
  have 3: "plan fexp t2 = Some (t3, Inr Interleaved_Writes.sample_fs)"
    using r demo_plan by (simp add: plan_def 0 t1_def t2_def t3_def demo_metadata_def)
  define t4 where "t4 = t3"
  have 4: "prepare_storage (file_ops old_file) t3 = (t4, Inr ())"
    by (simp add: prepare_storage_def t3_def t4_def t2_def t1_def demo_metadata_def file_ops_def file_allocate_def old_file_def)
  obtain f where seq: "sequential_tasks [7, 8, 9] ''http://h/a'' 3 (map spec_of Interleaved_Writes.sample_fs) old_file =
      (f, [Joined 0 (Inr (0, 2, 0)), Joined 0 (Inr (1, 1, 0))])"
    using demo_seq by (metis prod.collapse)
  obtain t5 where 5: "execute fexp (file_ops old_file) demo_world t4 = Some (t5, Inr ())"
    using seq r
    by (simp add: feed_back_zero Let_def file_sync_def execute_def 0 t4_def t3_def t2_def t1_def demo_metadata_def
      execute_fragmented_download_def demo_world_def fragment_specs_def fragment_record_new_def Interleaved_Writes.sample_fs_def
      spec_of_def start_download_def complete_download_fast_def file_ops_def)
  have same: "dt_control t1 = False" "dt_control t3 = False" "dt_control t5 = False" "verify_checksum (dt_config t5) = False"
    using execute_spec[OF 5] by (simp_all add: t1_def t2_def t3_def t4_def 0)
  show ?thesis
    using 1 2 3 4 5 same 0(1)
    by (simp add: run_def run_inner_def or_cancel_def check_cancelled_def verify_def t2_def)
qed

text \<open>
  C20. A run that reports success leaves the remote file on disk: the bytes of an honest server,
  fetched whole or by concurrent fragment tasks with retries and short writes, then whatever an
  older, longer file had behind them; every fragment is done. The older tail stays because the
  file is opened without truncation and \<open>fallocate\<close> never shrinks it.
\<close>

theorem run_leaves_remote_file:
  assumes run: "run fexp blake3 (file_ops f0) w t = Some (t', Inr ())"
    and fresh: "dt_storage t = None" "dt_metadata t = None" "dt_completed t = []"
    and cfg: "scheduler_config_ok (or_scheduler_config (dt_orchestrator t))"
    and remote: "w_probe w = Inr md" "md_file_size md = Some (of_nat (length remote))" "length remote < 2 ^ 64"
    and server: "\<forall>fs. faithful_tasks remote (dt_url t) (max_retries (dt_config t)) w fs"
      "\<forall>stream. w_opened w = Inr stream \<and> all_ok stream \<longrightarrow> delivered stream = remote"
  shows "\<exists>f. dt_storage t' = Some f \<and> of_bytes f = remote @ drop (length remote) (of_bytes f0) \<and>
    list_all is_done (dt_fragments t')"
  by (rule run_leaves_bytes[OF assms])

theorem run_leaves_remote_file_witness:
  "\<exists>t' f. run (\<lambda>x. x) (\<lambda>_. []) (file_ops old_file) demo_world demo_task = Some (t', Inr ()) \<and>
     dt_storage t' = Some f \<and> of_bytes f = [7, 8, 9, 5]"
proof -
  obtain t' where run: "run (\<lambda>x. x) (\<lambda>_. []) (file_ops old_file) demo_world demo_task = Some (t', Inr ())"
    using demo_run by blast
  have task: "dt_storage demo_task = None" "dt_metadata demo_task = None" "dt_completed demo_task = []"
    "dt_url demo_task = ''http://h/a''" "max_retries (dt_config demo_task) = 3"
    by (simp_all add: demo_task_def download_task_new_def download_config_default_def)
  have cfg: "scheduler_config_ok (or_scheduler_config (dt_orchestrator demo_task))"
    using scheduler_config_default_ok
    by (simp add: scheduler_config_ok_def demo_task_def download_task_new_def with_scheduler_config_def
        two_byte_config_def)
  have remote: "w_probe demo_world = Inr demo_metadata"
    "md_file_size demo_metadata = Some (of_nat (length [7, 8, 9 :: u8]))" "length [7, 8, 9 :: u8] < 2 ^ 64"
    by (simp_all add: demo_world_def demo_metadata_def)
  have tasks: "\<forall>fs. faithful_tasks [7, 8, 9] (dt_url demo_task) (max_retries (dt_config demo_task)) demo_world fs"
    using sequential_tasks_faithful[of "[7, 8, 9]" demo_world "''http://h/a''" 3] remote(3) task(4,5)
    by (simp add: demo_world_def)
  have stream: "\<forall>stream. w_opened demo_world = Inr stream \<and> all_ok stream \<longrightarrow> delivered stream = [7, 8, 9]"
    by (simp add: demo_world_def)
  from run_leaves_remote_file[OF run task(1-3) cfg remote tasks stream] run
  show ?thesis by (auto simp: old_file_def)
qed

lemma apply_terminal_error_state:
  "dt_state (apply_terminal_error e t) = (if e = Cancelled_Error \<or> dt_state t = Cancelled then Cancelled else Failed)"
  by (simp add: apply_terminal_error_def try_transition_def Let_def)

text \<open>
  C21. However a run ends, the task is in a final state, \<^const>\<open>Completed\<close> exactly when the run
  reports success and \<^const>\<open>Cancelled\<close> when it reports a cancellation.
\<close>

theorem run_outcome:
  assumes "run fexp blake3 ops w t = Some (t', r)"
  shows "is_terminal (dt_state t') \<and> (dt_state t' = Completed \<longleftrightarrow> r = Inr ()) \<and>
    (r = Inl Cancelled_Error \<longrightarrow> dt_state t' = Cancelled)"
proof (cases r)
  case (Inl e)
  then show ?thesis
    using assms by (auto simp: run_def apply_terminal_error_state split: if_splits option.splits prod.splits sum.splits)
next
  case (Inr u)
  then have "run_inner fexp blake3 ops w t = Some (t', Inr ())"
    using assms by (auto simp: run_def split: option.splits prod.splits sum.splits)
  from run_inner_not_verified[OF this] Inr show ?thesis by simp
qed

theorem run_outcome_witness:
  "\<exists>t'. run (\<lambda>x. x) (\<lambda>_. []) (file_ops old_file) demo_world demo_task = Some (t', Inr ()) \<and>
     dt_state t' = Completed"
proof -
  obtain t' where run: "run (\<lambda>x. x) (\<lambda>_. []) (file_ops old_file) demo_world demo_task = Some (t', Inr ())"
    using demo_run by blast
  from run_outcome[OF run] run show ?thesis by blast
qed





text \<open>
  A file of one fragment cannot be resumed once that fragment is complete: it is downloaded
  again as a whole and then refused, because its record is already done.
\<close>

theorem completed_single_fragment_fails:
  assumes "dt_metadata t = Some md" "md_file_size md \<noteq> Some 0"
    and "dt_fragments t = [f]" "fr_state f = FDone"
  shows "execute fexp ops w t \<noteq> Some (t', Inr ())"
proof
  assume "execute fexp ops w t = Some (t', Inr ())"
  then have "execute_full_download ops w (t\<lparr>dt_state := Downloading\<rparr>) = (t', Inr ())"
    using assms by (simp add: execute_def)
  from execute_full_Ok[OF this] obtain env pos where
    "finish_full w (Option.bind (dt_metadata t) md_file_size) pos
      (leave_env env (t\<lparr>dt_state := Downloading\<rparr>)) = (t', Inr ())" by auto
  from finish_full_spec[OF this] assms(3,4) show False by (simp add: leave_env_def)
qed

definition resumed_task :: "(os_file, nat) download_task" where
  "resumed_task =
     demo_task\<lparr>dt_metadata := Some demo_metadata, dt_storage := Some old_file,
       dt_fragments := [fragment_record_new (hd Interleaved_Writes.sample_fs) 3\<lparr>fr_state := FDone\<rparr>]\<rparr>"

theorem completed_single_fragment_fails_witness:
  "\<forall>t'. execute (\<lambda>x. x) (file_ops old_file) demo_world resumed_task \<noteq> Some (t', Inr ())"
  by (rule allI, rule completed_single_fragment_fails[where md = demo_metadata and
        f = "fragment_record_new (hd Interleaved_Writes.sample_fs) 3\<lparr>fr_state := FDone\<rparr>"])
    (simp_all add: resumed_task_def demo_metadata_def fragment_record_new_def)

definition unknown_size_task :: "(os_file, nat) download_task" where
  "unknown_size_task =
     demo_task\<lparr>dt_metadata := Some (demo_metadata\<lparr>md_file_size := None\<rparr>),
       dt_storage := Some \<lparr>of_bytes = [], of_outcomes = [WShort 1]\<rparr>\<rparr>"

text \<open>
  When the size is unknown a short write loses data without an error: the rest of the chunk is
  not written again, and there is no length to compare with.
\<close>

theorem short_write_lost:
  "\<exists>t'. execute (\<lambda>x. x) (file_ops old_file) demo_world unknown_size_task = Some (t', Inr ()) \<and>
     w_opened demo_world = Inr [Inr [7, 8, 9]] \<and> map_option of_bytes (dt_storage t') = Some [7]"
  by (simp add: execute_def unknown_size_task_def execute_full_download_def demo_world_def demo_task_def
      download_task_new_def download_config_default_def demo_metadata_def check_control_def race_control_def
      effective_limiter_def with_storage_def file_ops_def checked_add_def default_max_full_stream_bytes_def
      file_write_at_def throttle_def finish_full_def leave_env_def overlay_def Let_def)

end
