(* ===== verification/Mirror.thy ===== *)
theory Mirror
  imports Errors Core_Types "HOL-Library.Multiset"
begin

text \<open>
  \<open>tachyon-engine/src/mirror.rs\<close>: a protocol that races a primary source and its mirrors. Source 0
  is the primary, source \<open>i + 1\<close> the mirror of index \<open>i\<close>. What a source answers to a URL is the
  parameter \<open>reply\<close>, with \<^term>\<open>None\<close> for a panic; the order in which the spawned tasks end
  and whether the primary ends within its 500 ms are parameters too. The result lists the requests
  made, as pairs of a source and the URL it is asked for.
\<close>

record mirror_protocol =
  mp_mirrors :: "string list"
  mp_selected :: "nat option"

definition mirror_new :: "string list \<Rightarrow> mirror_protocol" where
  "mirror_new mirrors = \<lparr>mp_mirrors = mirrors, mp_selected = None\<rparr>"

definition source_url :: "mirror_protocol \<Rightarrow> string \<Rightarrow> nat \<Rightarrow> string" where
  "source_url mp url s = (if s = 0 then url else mp_mirrors mp ! (s - 1))"

type_synonym 'a replies = "nat \<Rightarrow> string \<Rightarrow> 'a download_result option"

section \<open>Racing\<close>

text \<open>The loops over \<open>join_next\<close>: the first success wins; the probe keeps the last error, a download the first.\<close>

definition joined :: "'a download_result option \<Rightarrow> 'a download_result" where
  "joined r = (case r of None \<Rightarrow> Inl (Io ''join error'') | Some r \<Rightarrow> r)"

fun probe_loop :: "download_error option \<Rightarrow> (nat \<times> 'a download_result option) list \<Rightarrow> download_error + nat \<times> 'a" where
  "probe_loop last_err [] =
     Inl (case last_err of Some e \<Rightarrow> e | None \<Rightarrow> Protocol ''all probes failed'')"
| "probe_loop last_err ((s, r) # rs) =
     (case joined r of
        Inr meta \<Rightarrow> Inr (s, meta)
      | Inl e \<Rightarrow> probe_loop (Some e) rs)"

fun race_loop :: "string \<Rightarrow> download_error option \<Rightarrow> 'a download_result option list \<Rightarrow> 'a download_result" where
  "race_loop label first_err [] =
     Inl (case first_err of Some e \<Rightarrow> e | None \<Rightarrow> Protocol (''all mirrors failed'' @ label))"
| "race_loop label first_err (r # rs) =
     (case joined r of
        Inr x \<Rightarrow> Inr x
      | Inl e \<Rightarrow> race_loop label (if first_err = None then Some e else first_err) rs)"

text \<open>\<open>order\<close>: the sources, in the order in which their probes end.\<close>

definition mirror_probe ::
    "file_metadata replies \<Rightarrow> nat list \<Rightarrow> string \<Rightarrow> mirror_protocol \<Rightarrow>
     mirror_protocol \<times> file_metadata download_result option" where
  "mirror_probe reply order url mp =
     (if mp_mirrors mp = [] then
        (case reply 0 url of
           Some (Inr meta) \<Rightarrow> (mp\<lparr>mp_selected := Some 0\<rparr>, Some (Inr meta))
         | r \<Rightarrow> (mp, r))
      else
        (case probe_loop None (map (\<lambda>s. (s, reply s (source_url mp url s))) order) of
           Inr (s, meta) \<Rightarrow> (mp\<lparr>mp_selected := Some s\<rparr>, Some (Inr meta))
         | Inl e \<Rightarrow> (mp, Some (Inl e))))"

definition mirror_race ::
    "'a replies \<Rightarrow> nat list \<Rightarrow> string \<Rightarrow> mirror_protocol \<Rightarrow> 'a download_result" where
  "mirror_race reply order label mp =
     race_loop label None (map (\<lambda>i. reply (i + 1) (mp_mirrors mp ! i)) order)"

text \<open>\<open>order\<close>: the mirrors, in the order in which their downloads end.\<close>

definition race_download ::
    "'a replies \<Rightarrow> bool \<Rightarrow> nat list \<Rightarrow> string \<Rightarrow> string \<Rightarrow> mirror_protocol \<Rightarrow>
     (nat \<times> string) list \<times> 'a download_result option" where
  "race_download reply in_time order label url mp =
     (case mp_selected mp of
        Some s \<Rightarrow> ([(s, url)], reply s url)
      | None \<Rightarrow>
          (let race = ((0, url) # map (\<lambda>i. (i + 1, mp_mirrors mp ! i)) [0..<length (mp_mirrors mp)],
                       Some (mirror_race reply order label mp))
           in if \<not> in_time then race
              else case reply 0 url of
                     None \<Rightarrow> ([(0, url)], None)
                   | Some (Inr x) \<Rightarrow> ([(0, url)], Some (Inr x))
                   | Some (Inl _) \<Rightarrow> race))"

text \<open>The three downloads of the trait differ in the request only.\<close>

definition mirror_download_range ::
    "(u64 \<Rightarrow> u64 \<Rightarrow> 'a replies) \<Rightarrow> bool \<Rightarrow> nat list \<Rightarrow> string \<Rightarrow> u64 \<Rightarrow> u64 \<Rightarrow> mirror_protocol \<Rightarrow>
     (nat \<times> string) list \<times> 'a download_result option" where
  "mirror_download_range reply in_time order url s e mp =
     race_download (reply s e) in_time order '''' url mp"

definition mirror_download_range_stream ::
    "(u64 \<Rightarrow> u64 \<Rightarrow> 'a replies) \<Rightarrow> bool \<Rightarrow> nat list \<Rightarrow> string \<Rightarrow> u64 \<Rightarrow> u64 \<Rightarrow> mirror_protocol \<Rightarrow>
     (nat \<times> string) list \<times> 'a download_result option" where
  "mirror_download_range_stream reply in_time order url s e mp =
     race_download (reply s e) in_time order ''(stream)'' url mp"

definition mirror_download_full ::
    "'a replies \<Rightarrow> bool \<Rightarrow> nat list \<Rightarrow> string \<Rightarrow> mirror_protocol \<Rightarrow>
     (nat \<times> string) list \<times> 'a download_result option" where
  "mirror_download_full reply in_time order url mp =
     race_download reply in_time order ''(full)'' url mp"

section \<open>Lemmas\<close>

lemma joined_Inr [simp]: "joined r = Inr x \<longleftrightarrow> r = Some (Inr x)"
  by (auto simp: joined_def split: option.splits)

lemma probe_loop_Inr:
  "probe_loop err rs = Inr (s, meta) \<Longrightarrow> (s, Some (Inr meta)) \<in> set rs"
  by (induction err rs rule: probe_loop.induct) (auto split: sum.splits)

lemma probe_loop_Inl:
  "probe_loop err rs = Inl e \<Longrightarrow> (s, Some (Inr meta)) \<notin> set rs"
  by (induction err rs rule: probe_loop.induct) (auto split: sum.splits simp: joined_def)

lemma race_loop_Inr: "race_loop label err rs = Inr x \<Longrightarrow> Some (Inr x) \<in> set rs"
  by (induction label err rs rule: race_loop.induct) (auto split: sum.splits)

lemma race_loop_Inl: "race_loop label err rs = Inl e \<Longrightarrow> Some (Inr x) \<notin> set rs"
  by (induction label err rs rule: race_loop.induct) (auto split: sum.splits simp: joined_def)

lemma race_loop_error:
  "race_loop label err rs = Inl e \<Longrightarrow>
     e = (case err of Some e \<Rightarrow> e | None \<Rightarrow>
            (case rs of r # _ \<Rightarrow> projl (joined r) | [] \<Rightarrow> Protocol (''all mirrors failed'' @ label)))"
proof (induction label err rs rule: race_loop.induct)
  case (2 label err r rs)
  then show ?case by (cases "joined r") (auto split: option.splits)
qed (auto split: option.splits)

lemma mirror_race_Inr:
  assumes "mset order = mset [0..<length (mp_mirrors mp)]"
  shows "(\<exists>x. mirror_race reply order label mp = Inr x) \<longleftrightarrow>
      (\<exists>i < length (mp_mirrors mp). \<exists>x. reply (i + 1) (mp_mirrors mp ! i) = Some (Inr x))"
    and "mirror_race reply order label mp = Inr x \<Longrightarrow>
      \<exists>i < length (mp_mirrors mp). reply (i + 1) (mp_mirrors mp ! i) = Some (Inr x)"
proof -
  let ?rs = "map (\<lambda>i. reply (i + 1) (mp_mirrors mp ! i)) order"
  have set: "set order = {0..<length (mp_mirrors mp)}"
    using assms by (metis set_mset_mset set_upt)
  then have mem: "Some (Inr x) \<in> set ?rs \<longleftrightarrow>
      (\<exists>i < length (mp_mirrors mp). reply (i + 1) (mp_mirrors mp ! i) = Some (Inr x))" for x
    unfolding set_map image_iff by (auto intro: sym)
  have won: "\<exists>i < length (mp_mirrors mp). reply (i + 1) (mp_mirrors mp ! i) = Some (Inr x)"
    if "mirror_race reply order label mp = Inr x" for x
    using race_loop_Inr[OF that[unfolded mirror_race_def]] mem[of x] by simp
  then show "mirror_race reply order label mp = Inr x \<Longrightarrow>
      \<exists>i < length (mp_mirrors mp). reply (i + 1) (mp_mirrors mp ! i) = Some (Inr x)" .
  show "(\<exists>x. mirror_race reply order label mp = Inr x) \<longleftrightarrow>
      (\<exists>i < length (mp_mirrors mp). \<exists>x. reply (i + 1) (mp_mirrors mp ! i) = Some (Inr x))"
  proof (cases "mirror_race reply order label mp")
    case (Inl e)
    have "Some (Inr x) \<notin> set ?rs" for x
      by (rule race_loop_Inl[OF Inl[unfolded mirror_race_def]])
    then show ?thesis using Inl mem by simp
  next
    case (Inr x)
    then show ?thesis using won[OF Inr] by auto
  qed
qed

section \<open>Properties\<close>

text \<open>
  C26. Before a source is selected, a download asks the primary for the URL and, when the primary is
  late or fails, each mirror for its own URL; it succeeds exactly when the primary succeeds in time
  or some mirror does, with the data of such a source. Otherwise it fails with the error of the mirror
  that failed first; without mirrors the primary's own error is lost.
\<close>

theorem mirror_race_outcome:
  assumes "mp_selected mp = None" "mset order = mset [0..<length (mp_mirrors mp)]"
    and "in_time \<longrightarrow> reply 0 url \<noteq> None"
  shows "\<exists>reqs r. race_download reply in_time order label url mp = (reqs, Some r) \<and>
    (\<forall>(s, u) \<in> set reqs. s \<le> length (mp_mirrors mp) \<and> u = source_url mp url s) \<and>
    (is_ok r \<longleftrightarrow> in_time \<and> (\<exists>x. reply 0 url = Some (Inr x)) \<or>
      (\<exists>i < length (mp_mirrors mp). \<exists>x. reply (i + 1) (mp_mirrors mp ! i) = Some (Inr x))) \<and>
    (\<forall>x. r = Inr x \<longrightarrow> (\<exists>s \<le> length (mp_mirrors mp). reply s (source_url mp url s) = Some (Inr x))) \<and>
    (\<forall>e. r = Inl e \<longrightarrow>
      e = (case order of i # _ \<Rightarrow> projl (joined (reply (i + 1) (mp_mirrors mp ! i)))
           | [] \<Rightarrow> Protocol (''all mirrors failed'' @ label)))"
proof (cases "in_time \<and> (\<exists>x. reply 0 url = Some (Inr x))")
  case True
  then show ?thesis using assms(1) by (auto simp: race_download_def source_url_def Let_def)
next
  case False
  let ?r = "mirror_race reply order label mp"
  let ?reqs = "(0, url) # map (\<lambda>i. (i + 1, mp_mirrors mp ! i)) [0..<length (mp_mirrors mp)]"
  have race: "race_download reply in_time order label url mp = (?reqs, Some ?r)"
    using False assms(1,3) by (auto simp: race_download_def Let_def split: option.splits sum.splits)
  have "is_ok ?r \<longleftrightarrow> (\<exists>x. ?r = Inr x)" by (cases ?r) simp_all
  moreover have "e = (case order of i # _ \<Rightarrow> projl (joined (reply (i + 1) (mp_mirrors mp ! i)))
      | [] \<Rightarrow> Protocol (''all mirrors failed'' @ label))" if "?r = Inl e" for e
    using race_loop_error[OF that[unfolded mirror_race_def]] by (cases order) simp_all
  moreover have "\<exists>s \<le> length (mp_mirrors mp). reply s (source_url mp url s) = Some (Inr x)" if "?r = Inr x" for x
    using mirror_race_Inr(2)[OF assms(2) that]
    by (metis Suc_eq_plus1 Suc_leI diff_Suc_1 nat.distinct(1) source_url_def)
  ultimately show ?thesis
    using False mirror_race_Inr(1)[OF assms(2), of reply label]
    by (intro exI[of _ ?reqs] exI[of _ ?r] conjI race) (auto simp: source_url_def)
qed

text \<open>
  What a probe selects and what the downloads after it ask. A probe succeeds exactly when some
  source answers for its own URL; the source that answered first is selected, and from then on every
  download is one request to that source. But it is asked for the primary's URL, not its own, and
  there is no other attempt: when a mirror won because the primary is down, every download fails the
  way the primary's URL fails.
\<close>

theorem mirror_selection:
  assumes "mp_mirrors mp \<noteq> []" "mset order = mset [0..<Suc (length (mp_mirrors mp))]"
  shows "\<exists>mp' r. mirror_probe probe order url mp = (mp', Some r) \<and>
    (is_ok r \<longleftrightarrow> (\<exists>s \<le> length (mp_mirrors mp). \<exists>x. probe s (source_url mp url s) = Some (Inr x))) \<and>
    (is_ok r \<longrightarrow> (\<exists>s \<le> length (mp_mirrors mp). probe s (source_url mp url s) = Some r \<and>
       (\<forall>reply in_time order' label. race_download reply in_time order' label url mp' = ([(s, url)], reply s url)))) \<and>
    (\<not> is_ok r \<longrightarrow> mp' = mp)"
proof -
  let ?rs = "map (\<lambda>s. (s, probe s (source_url mp url s))) order"
  have "set order = {0..<Suc (length (mp_mirrors mp))}"
    using assms(2) by (metis set_mset_mset set_upt)
  then have mem: "(s, r) \<in> set ?rs \<longleftrightarrow> s \<le> length (mp_mirrors mp) \<and> r = probe s (source_url mp url s)" for s r
    by (auto simp: less_Suc_eq_le)
  show ?thesis
  proof (cases "probe_loop None ?rs")
    case (Inl e)
    then have "\<not> (\<exists>s \<le> length (mp_mirrors mp). \<exists>x. probe s (source_url mp url s) = Some (Inr x))"
      using probe_loop_Inl[OF Inl] mem by metis
    with Inl assms(1) show ?thesis by (simp add: mirror_probe_def)
  next
    case (Inr p)
    obtain s meta where p: "p = (s, meta)" by fastforce
    then have "s \<le> length (mp_mirrors mp)" "probe s (source_url mp url s) = Some (Inr meta)"
      using probe_loop_Inr[of None ?rs] Inr mem by metis+
    with Inr p assms(1) show ?thesis by (auto simp: mirror_probe_def race_download_def)
  qed
qed

text \<open>A primary that is down and a mirror that has the file.\<close>

definition demo_mirror :: mirror_protocol where
  "demo_mirror = mirror_new [''http://m/f'']"

definition demo_fetch :: "'a \<Rightarrow> 'a replies" where
  "demo_fetch x s u = Some (if u = ''http://m/f'' then Inr x else Inl (Network ''down''))"

theorem mirror_race_outcome_witness:
  "\<exists>reqs r. race_download (demo_fetch [1 :: u8]) True [0] '''' ''http://p/f'' demo_mirror = (reqs, Some r) \<and>
    is_ok r"
  using mirror_race_outcome[of demo_mirror "[0]" True "demo_fetch [1 :: u8]" "''http://p/f''" "''''"]
  by (auto simp: demo_mirror_def mirror_new_def demo_fetch_def source_url_def)

theorem mirror_selection_witness:
  "\<exists>mp' meta. mirror_probe (demo_fetch \<lparr>md_file_name = ''f'', md_file_size = None, md_content_type = None,
      md_supports_range = False, md_etag = None, md_last_modified = None\<rparr>) [0, 1] ''http://p/f'' demo_mirror
      = (mp', Some (Inr meta)) \<and>
    race_download (demo_fetch [1 :: u8]) True [0] '''' ''http://p/f'' mp' =
      ([(1, ''http://p/f'')], Some (Inl (Network ''down'')))"
proof -
  let ?meta = "\<lparr>md_file_name = ''f'', md_file_size = None, md_content_type = None,
    md_supports_range = False, md_etag = None, md_last_modified = None\<rparr>"
  have m: "mp_mirrors demo_mirror = [''http://m/f'']" by (simp add: demo_mirror_def mirror_new_def)
  obtain mp' r where r: "mirror_probe (demo_fetch ?meta) [0, 1] ''http://p/f'' demo_mirror = (mp', Some r)"
    "is_ok r \<longleftrightarrow> (\<exists>s \<le> 1. \<exists>x. demo_fetch ?meta s (source_url demo_mirror ''http://p/f'' s) = Some (Inr x))"
    "is_ok r \<longrightarrow> (\<exists>s \<le> 1. demo_fetch ?meta s (source_url demo_mirror ''http://p/f'' s) = Some r \<and>
       (\<forall>(reply :: u8 list replies) in_time order' label.
          race_download reply in_time order' label ''http://p/f'' mp' = ([(s, ''http://p/f'')], reply s ''http://p/f'')))"
    using mirror_selection[of demo_mirror "[0, 1]" "demo_fetch ?meta" "''http://p/f''"] unfolding m by auto
  have "is_ok r" unfolding r(2) by (rule exI[of _ 1]) (simp add: demo_fetch_def source_url_def m)
  with r(3) obtain s where s: "s \<le> 1" "demo_fetch ?meta s (source_url demo_mirror ''http://p/f'' s) = Some r"
    "race_download (demo_fetch [1 :: u8]) True [0] '''' ''http://p/f'' mp'
      = ([(s, ''http://p/f'')], demo_fetch [1] s ''http://p/f'')" by blast
  have "s = 1" using s(1,2) \<open>is_ok r\<close> by (auto simp: demo_fetch_def source_url_def le_Suc_eq)
  with s r(1) \<open>is_ok r\<close> show ?thesis by (auto simp: demo_fetch_def is_ok_iff)
qed

end
