(* ===== verification/Decimal.thy ===== *)
theory Decimal
  imports Prelude Utf8
begin

text \<open>
  Unsigned integers as text, the way the standard library prints and parses them.
\<close>

section \<open>Decimal numbers\<close>

text \<open>\<open>Display\<close> of an unsigned integer and \<open>str::parse\<close> into one: a leading plus sign is accepted.\<close>

fun decimal :: "nat \<Rightarrow> string" where
  "decimal n = (if n < 10 then [char_of (48 + n)] else decimal (n div 10) @ [char_of (48 + n mod 10)])"

declare decimal.simps [simp del]

definition is_digit :: "nat \<Rightarrow> bool" where
  "is_digit c = (48 \<le> c \<and> c \<le> 57)"

definition dec_value :: "ustr \<Rightarrow> nat" where
  "dec_value ds = foldl (\<lambda>n c. n * 10 + (c - 48)) 0 ds"

definition parse_unsigned :: "ustr \<Rightarrow> 'a::len word option" where
  "parse_unsigned s =
     (let ds = (case s of [] \<Rightarrow> [] | c # cs \<Rightarrow> if c = 43 then cs else s)
      in if ds \<noteq> [] \<and> list_all is_digit ds \<and> dec_value ds < 2 ^ LENGTH('a)
         then Some (of_nat (dec_value ds)) else None)"

section \<open>Parsing and printing\<close>

lemma is_digit_char: "of_char c < (48 :: nat) + 10 \<Longrightarrow> 48 \<le> (of_char c :: nat) \<Longrightarrow> is_digit (of_char c)"
  by (simp add: is_digit_def)

lemma digit_code: "k < 10 \<Longrightarrow> (of_char (char_of (48 + k)) :: nat) = 48 + k"
  by (simp add: of_char_of)

lemma decimal_not_Nil [simp]: "decimal n \<noteq> []"
  by (simp add: decimal.simps[of n])

lemma decimal_digits: "list_all is_digit (to_ustr (decimal n))"
proof (induction n rule: decimal.induct)
  case (1 n)
  have "n mod 10 < 10" by simp
  from digit_code[OF this] this have "is_digit (of_char (char_of (48 + n mod 10)))" by (simp add: is_digit_def)
  with 1 show ?case
    by (cases "n < 10") (simp_all add: decimal.simps[of n] to_ustr_def)
qed

lemma dec_value_snoc [simp]: "dec_value (ds @ [c]) = dec_value ds * 10 + (c - 48)"
  by (simp add: dec_value_def)

lemma dec_value_decimal [simp]: "dec_value (to_ustr (decimal n)) = n"
proof (induction n rule: decimal.induct)
  case (1 n)
  show ?case
  proof (cases "n < 10")
    case True
    then show ?thesis by (subst decimal.simps) (simp add: to_ustr_def dec_value_def digit_code)
  next
    case False
    have d: "(of_char (char_of (48 + n mod 10)) :: nat) = 48 + n mod 10" by (rule digit_code) simp
    have "dec_value (to_ustr (decimal n)) =
        dec_value (to_ustr (decimal (n div 10)) @ [of_char (char_of (48 + n mod 10))])"
      using False by (subst decimal.simps) (simp add: to_ustr_def)
    also have "\<dots> = n div 10 * 10 + n mod 10" using 1 False d by simp
    finally show ?thesis by simp
  qed
qed

lemma parse_unsigned_digits:
  assumes "ds \<noteq> []" "list_all is_digit ds" "dec_value ds < 2 ^ LENGTH('a::len)"
  shows "parse_unsigned ds = Some (of_nat (dec_value ds) :: 'a word)"
proof -
  obtain c cs where ds: "ds = c # cs" using assms(1) by (cases ds) auto
  then have "c \<noteq> 43" using assms(2) by (auto simp: is_digit_def)
  then show ?thesis using assms ds by (simp add: parse_unsigned_def)
qed

lemma parse_unsigned_decimal: "parse_unsigned (to_ustr (decimal (unat w))) = Some (w :: 'a::len word)"
proof -
  have "to_ustr (decimal (unat w)) \<noteq> []" by (simp add: to_ustr_def)
  then show ?thesis
    using parse_unsigned_digits[of "to_ustr (decimal (unat w))", where 'a = 'a] decimal_digits[of "unat w"]
    by simp
qed

lemma parse_unsigned_not_digit:
  "c \<noteq> 43 \<Longrightarrow> \<not> is_digit c \<Longrightarrow> parse_unsigned (c # cs) = None"
  by (simp add: parse_unsigned_def)

end
