(* ===== verification/Http_Client.thy ===== *)
theory Http_Client
  imports Decimal Url_Safety Filename Core_Types Config_Types "HOL-Library.AList" "HOL-Library.Sublist"
begin

text \<open>
  \<open>tachyon-protocol/src/http.rs\<close>: the HTTP client over reqwest. \<open>Url::parse\<close> is the parameter
  \<open>parse\<close>, the answer of the servers behind reqwest the parameter \<open>send\<close>; a header is what
  \<open>headers.get(name)\<close> followed by \<open>to_str\<close> gives, so it is ASCII.
\<close>

section \<open>Errors\<close>

definition month_num :: "ustr \<Rightarrow> u32 option" where
  "month_num name =
     map_of (zip (map to_ustr [''Jan'', ''Feb'', ''Mar'', ''Apr'', ''May'', ''Jun'',
                               ''Jul'', ''Aug'', ''Sep'', ''Oct'', ''Nov'', ''Dec''])
                 [1, 2, 3, 4, 5, 6, 7, 8, 9, 10, 11, 12]) name"

text \<open>
  The arguments are 32 bits wide, so the \<open>i64\<close> computation does not overflow and is written on
  integers; the month is shifted as \<open>u32\<close>. Rust rounds a quotient towards zero.
\<close>

definition rust_div :: "int \<Rightarrow> int \<Rightarrow> int" where
  "rust_div a b = sgn a * sgn b * (\<bar>a\<bar> div \<bar>b\<bar>)"

definition days_from_epoch :: "u32 \<Rightarrow> u32 \<Rightarrow> u32 \<Rightarrow> int" where
  "days_from_epoch year month day =
     (let y = (if month \<le> 2 then uint year - 1 else uint year);
          m = (if month \<le> 2 then month + 9 else month - 3);
          era = rust_div (if y \<ge> 0 then y else y - 399) 400;
          yoe = y - era * 400;
          doy = rust_div (153 * uint m + 2) 5 + uint day - 1;
          doe = yoe * 365 + rust_div yoe 4 - rust_div yoe 100 + doy
      in era * 146097 + doe - 719468)"

definition parse_http_date_to_secs :: "u64 \<Rightarrow> ustr \<Rightarrow> u64 option" where
  "parse_http_date_to_secs now_epoch date_str =
     (let parts = split_whitespace date_str
      in if length parts < 6 then None
         else
           Option.bind (parse_unsigned (parts ! 1)) (\<lambda>day :: u32.
           Option.bind (month_num (parts ! 2)) (\<lambda>month.
           Option.bind (parse_unsigned (parts ! 3)) (\<lambda>year :: u32.
             let time_parts = split_on (\<lambda>c. c = 58) (parts ! 4)
             in if length time_parts \<noteq> 3 then None
                else
                  Option.bind (parse_unsigned (time_parts ! 0)) (\<lambda>hour :: u32.
                  Option.bind (parse_unsigned (time_parts ! 1)) (\<lambda>minute :: u32.
                  Option.bind (parse_unsigned (time_parts ! 2)) (\<lambda>second :: u32.
                    let target_epoch =
                      word_of_int (days_from_epoch year month day) * 86400
                      + ucast hour * 3600 + ucast minute * 60 + ucast second
                    in Some (saturating_sub target_epoch now_epoch))))))))"

definition parse_retry_after :: "u64 \<Rightarrow> ustr \<Rightarrow> u64 option" where
  "parse_retry_after now_epoch value =
     (case parse_unsigned (trim value) of
        Some secs \<Rightarrow> Some secs
      | None \<Rightarrow> parse_http_date_to_secs now_epoch (trim value))"

definition classify_http_error :: "u64 \<Rightarrow> u16 \<Rightarrow> (string \<Rightarrow> string option) \<Rightarrow> download_error" where
  "classify_http_error now_epoch code hs =
     (if code = 429 \<or> code = 503 then
        Throttled (Option.bind (hs ''retry-after'') (\<lambda>v. parse_retry_after now_epoch (to_ustr v)))
      else if code = 401 \<or> code = 403 then Forbidden code
      else Protocol (''HTTP '' @ decimal (unat code)))"

section \<open>The client\<close>

record client_settings =
  cs_user_agent :: string
  cs_pool_max_idle_per_host :: nat
  cs_tcp_keepalive :: u64
  cs_connect_timeout :: "u64 option"
  cs_read_timeout :: "u64 option"
  cs_http2_adaptive_window :: bool

definition build_client :: "u64 \<Rightarrow> u64 \<Rightarrow> bool \<Rightarrow> client_settings" where
  "build_client connect_secs read_secs http2 =
     \<lparr>cs_user_agent = USER_AGENT, cs_pool_max_idle_per_host = 16, cs_tcp_keepalive = 30,
      cs_connect_timeout = (if connect_secs > 0 then Some connect_secs else None),
      cs_read_timeout = (if read_secs > 0 then Some read_secs else None),
      cs_http2_adaptive_window = http2\<rparr>"

definition with_timeouts :: "u64 \<Rightarrow> u64 \<Rightarrow> client_settings" where
  "with_timeouts connect_secs read_secs = build_client connect_secs read_secs False"

definition http_client_new :: client_settings where
  "http_client_new = with_timeouts 10 30"

definition with_connection_config :: "connection_config \<Rightarrow> u64 \<Rightarrow> u64 \<Rightarrow> client_settings" where
  "with_connection_config config connect_secs read_secs =
     build_client connect_secs read_secs (enable_http2 config)"

section \<open>Name resolution\<close>

definition DNS_CACHE_TTL_SECS :: nat where "DNS_CACHE_TTL_SECS = 60"
definition DNS_CACHE_MAX_ENTRIES :: nat where "DNS_CACHE_MAX_ENTRIES = 10000"

type_synonym dns_cache = "(string \<times> ip_addr list \<times> nat) list"

record dns_resolver =
  dr_cache :: dns_cache

definition resolver_new :: dns_resolver where
  "resolver_new = \<lparr>dr_cache = []\<rparr>"

definition retain_fresh :: "nat \<Rightarrow> dns_cache \<Rightarrow> dns_cache" where
  "retain_fresh now cache = filter (\<lambda>(_, _, ts). now - ts < DNS_CACHE_TTL_SECS) cache"

definition evict_expired :: "nat \<Rightarrow> dns_resolver \<Rightarrow> dns_resolver" where
  "evict_expired now r = r\<lparr>dr_cache := retain_fresh now (dr_cache r)\<rparr>"

definition cached :: "nat \<Rightarrow> string \<Rightarrow> dns_cache \<Rightarrow> ip_addr list option" where
  "cached now host cache =
     (case map_of cache host of
        Some (addrs, ts) \<Rightarrow> if now - ts < DNS_CACHE_TTL_SECS then Some addrs else None
      | None \<Rightarrow> None)"

definition remember :: "nat \<Rightarrow> string \<Rightarrow> ip_addr list \<Rightarrow> dns_cache \<Rightarrow> dns_cache" where
  "remember now host addrs cache =
     (let cache = (if length cache \<ge> DNS_CACHE_MAX_ENTRIES then retain_fresh now cache else cache)
      in if length cache < DNS_CACHE_MAX_ENTRIES then AList.update host (addrs, now) cache else cache)"

text \<open>
  \<open>DashMap::clone\<close> copies the map: what the future looks at, and what it adds to, is a copy. The
  result is the resolver, the copy at the end of the future and the answer. \<open>lookup\<close> is
  \<open>to_socket_addrs\<close>; \<open>now\<close> and \<open>after\<close> are the times of the two looks at the clock, in seconds.
\<close>

definition resolve ::
    "(string \<Rightarrow> string + ip_addr list) \<Rightarrow> nat \<Rightarrow> nat \<Rightarrow> string \<Rightarrow> dns_resolver \<Rightarrow>
     dns_resolver \<times> dns_cache \<times> ip_addr list download_result" where
  "resolve lookup now after host r =
     (let cache = dr_cache r
      in case cached now host cache of
           Some addrs \<Rightarrow> (r, cache, Inr addrs)
         | None \<Rightarrow>
             (case lookup host of
                Inl e \<Rightarrow> (r, cache, Inl (Io e))
              | Inr addrs \<Rightarrow>
                  (case check_resolved addrs [] of
                     Inl e \<Rightarrow> (r, cache, Inl e)
                   | Inr _ \<Rightarrow> (r, remember after host addrs cache, Inr addrs))))"

section \<open>Redirects\<close>

datatype redirect_action = RedirectError string | RedirectRefused download_error | Follow

definition validate_redirect_target :: "url_view \<Rightarrow> unit download_result" where
  "validate_redirect_target url = validate_public_http_url url"

definition safe_redirect_policy :: "url_view list \<Rightarrow> url_view \<Rightarrow> redirect_action" where
  "safe_redirect_policy previous url =
     (if length previous \<ge> 10 then RedirectError ''more than 10 redirects''
      else (case validate_redirect_target url of
              Inl err \<Rightarrow> RedirectRefused err
            | Inr _ \<Rightarrow> Follow))"

section \<open>Requests\<close>

datatype http_method = HEAD | GET

record http_request =
  rq_method :: http_method
  rq_url :: string
  rq_range :: "string option"

record http_response =
  rs_status :: u16
  rs_header :: "string \<Rightarrow> string option"
  rs_length :: "u64 option"
  rs_body :: "(string + u8 list) list"

type_synonym http_send = "http_request \<Rightarrow> string + http_response"

text \<open>Every operation parses and checks the URL first.\<close>

definition checked_url :: "(string \<Rightarrow> string + url_view) \<Rightarrow> string \<Rightarrow> unit download_result" where
  "checked_url parse url = and_then (map_err UrlParse (parse url)) (\<lambda>parsed_url. validate_public_http_url parsed_url)"

definition is_success :: "u16 \<Rightarrow> bool" where
  "is_success status = (200 \<le> status \<and> status < 300)"

definition range_header :: "u64 \<Rightarrow> u64 \<Rightarrow> string" where
  "range_header s e = ''bytes='' @ decimal (unat s) @ ''-'' @ decimal (unat e)"

text \<open>\<open>response.bytes()\<close> gathers the body up to its first error; the stream hands on each piece.\<close>

fun read_body :: "(string + u8 list) list \<Rightarrow> u8 list download_result" where
  "read_body [] = Inr []"
| "read_body (Inl e # _) = Inl (Network (''body: '' @ e))"
| "read_body (Inr chunk # rest) = and_then (read_body rest) (\<lambda>bytes. Inr (chunk @ bytes))"

definition body_stream :: "(string + u8 list) list \<Rightarrow> u8 list download_result list" where
  "body_stream body = map (map_err (\<lambda>e. Network (''stream: '' @ e))) body"

text \<open>A \<open>String\<close> as its UTF-8 bytes.\<close>

definition of_ustr :: "ustr \<Rightarrow> string" where
  "of_ustr s = map (\<lambda>b. char_of (unat b)) (utf8_encode s)"

definition response_metadata :: "(ustr \<Rightarrow> ustr option) \<Rightarrow> string \<Rightarrow> (string \<Rightarrow> string option) \<Rightarrow> file_metadata" where
  "response_metadata url_path url hs =
     \<lparr>md_file_name =
        of_ustr (extract_filename url_path (to_ustr url) (map_option to_ustr (hs ''content-disposition''))),
      md_file_size = Option.bind (hs ''content-length'') (\<lambda>v. parse_unsigned (to_ustr v)),
      md_content_type = hs ''content-type'',
      md_supports_range =
        (case hs ''accept-ranges'' of Some v \<Rightarrow> sublist ''bytes'' v | None \<Rightarrow> False),
      md_etag = hs ''etag'',
      md_last_modified = hs ''last-modified''\<rparr>"

definition http_probe ::
    "(string \<Rightarrow> string + url_view) \<Rightarrow> (ustr \<Rightarrow> ustr option) \<Rightarrow> http_send \<Rightarrow> u64 \<Rightarrow> string \<Rightarrow>
     file_metadata download_result" where
  "http_probe parse url_path send now_epoch url =
     and_then (checked_url parse url) (\<lambda>_.
     and_then (map_err (\<lambda>e. Network (''HEAD: '' @ e))
                 (send \<lparr>rq_method = HEAD, rq_url = url, rq_range = None\<rparr>)) (\<lambda>response.
       if \<not> is_success (rs_status response)
       then Inl (classify_http_error now_epoch (rs_status response) (rs_header response))
       else Inr (response_metadata url_path url (rs_header response))))"

text \<open>The request for a range, up to the body: both range downloads start with it.\<close>

definition range_response ::
    "(string \<Rightarrow> string + url_view) \<Rightarrow> http_send \<Rightarrow> u64 \<Rightarrow> string \<Rightarrow> u64 \<Rightarrow> u64 \<Rightarrow>
     http_response download_result" where
  "range_response parse send now_epoch url s e =
     and_then (checked_url parse url) (\<lambda>_.
     and_then (map_err (\<lambda>e. Network (''Range: '' @ e))
                 (send \<lparr>rq_method = GET, rq_url = url, rq_range = Some (range_header s e)\<rparr>)) (\<lambda>response.
       if rs_status response = 200 then Inl (Protocol ''Range ignored: HTTP 200'')
       else if rs_status response \<noteq> 206 then
         Inl (classify_http_error now_epoch (rs_status response) (rs_header response))
       else Inr response))"

definition http_download_range ::
    "(string \<Rightarrow> string + url_view) \<Rightarrow> http_send \<Rightarrow> u64 \<Rightarrow> string \<Rightarrow> u64 \<Rightarrow> u64 \<Rightarrow>
     u8 list download_result" where
  "http_download_range parse send now_epoch url s e =
     and_then (range_response parse send now_epoch url s e) (\<lambda>response. read_body (rs_body response))"

definition http_download_range_stream ::
    "(string \<Rightarrow> string + url_view) \<Rightarrow> http_send \<Rightarrow> u64 \<Rightarrow> string \<Rightarrow> u64 \<Rightarrow> u64 \<Rightarrow>
     u8 list download_result list download_result" where
  "http_download_range_stream parse send now_epoch url s e =
     and_then (range_response parse send now_epoch url s e) (\<lambda>response. Inr (body_stream (rs_body response)))"

text \<open>The request for the whole body, up to the body.\<close>

definition full_response ::
    "(string \<Rightarrow> string + url_view) \<Rightarrow> http_send \<Rightarrow> u64 \<Rightarrow> string \<Rightarrow> http_response download_result" where
  "full_response parse send now_epoch url =
     and_then (checked_url parse url) (\<lambda>_.
     and_then (map_err (\<lambda>e. Network (''GET: '' @ e))
                 (send \<lparr>rq_method = GET, rq_url = url, rq_range = None\<rparr>)) (\<lambda>response.
       if \<not> is_success (rs_status response)
       then Inl (classify_http_error now_epoch (rs_status response) (rs_header response))
       else Inr response))"

definition MAX_DOWNLOAD_SIZE :: u64 where "MAX_DOWNLOAD_SIZE = 10 * 1024 * 1024"

definition http_download_full ::
    "(string \<Rightarrow> string + url_view) \<Rightarrow> http_send \<Rightarrow> u64 \<Rightarrow> string \<Rightarrow> u8 list download_result" where
  "http_download_full parse send now_epoch url =
     and_then (full_response parse send now_epoch url) (\<lambda>response.
       case rs_length response of
         Some content_length \<Rightarrow>
           if content_length > MAX_DOWNLOAD_SIZE then Inl (Protocol ''body too large'')
           else read_body (rs_body response)
       | None \<Rightarrow> read_body (rs_body response))"

definition http_download_full_stream ::
    "(string \<Rightarrow> string + url_view) \<Rightarrow> http_send \<Rightarrow> u64 \<Rightarrow> string \<Rightarrow>
     u8 list download_result list download_result" where
  "http_download_full_stream parse send now_epoch url =
     and_then (full_response parse send now_epoch url) (\<lambda>response. Inr (body_stream (rs_body response)))"

section \<open>The calendar\<close>

text \<open>The Gregorian calendar, year by year and month by month.\<close>

definition leap_year :: "nat \<Rightarrow> bool" where
  "leap_year y = (y mod 4 = 0 \<and> (y mod 100 \<noteq> 0 \<or> y mod 400 = 0))"

definition month_length :: "nat \<Rightarrow> nat \<Rightarrow> nat" where
  "month_length y m =
     (if m = 2 then if leap_year y then 29 else 28
      else if m = 4 \<or> m = 6 \<or> m = 9 \<or> m = 11 then 30 else 31)"

definition calendar_days :: "nat \<Rightarrow> nat \<Rightarrow> nat \<Rightarrow> nat" where
  "calendar_days y m d =
     sum_list (map (\<lambda>i. if leap_year i then 366 else 365) [1970..<y])
     + sum_list (map (month_length y) [1..<m]) + (d - 1)"

definition year_days :: "int \<Rightarrow> int" where
  "year_days y = 365 * y + y div 4 - y div 100 + y div 400"

lemma div_step: "0 < k \<Longrightarrow> int (Suc n) div int k = int n div int k + (if Suc n mod k = 0 then 1 else 0)"
  unfolding zdiv_int[symmetric] by (simp add: div_Suc)
lemma year_days_step:
  "year_days (int (Suc n)) = year_days (int n) + (if leap_year (Suc n) then 366 else 365)"
proof -
  have d: "Suc n mod 100 = 0 \<Longrightarrow> Suc n mod 4 = 0" "Suc n mod 400 = 0 \<Longrightarrow> Suc n mod 100 = 0"
    by presburger+
  have q4: "int (Suc n) div 4 = int n div 4 + (if Suc n mod 4 = 0 then 1 else 0)"
    by (rule div_step[of 4 n, unfolded of_nat_numeral]) simp
  have q100: "int (Suc n) div 100 = int n div 100 + (if Suc n mod 100 = 0 then 1 else 0)"
    by (rule div_step[of 100 n, unfolded of_nat_numeral]) simp
  have q400: "int (Suc n) div 400 = int n div 400 + (if Suc n mod 400 = 0 then 1 else 0)"
    by (rule div_step[of 400 n, unfolded of_nat_numeral]) simp
  show ?thesis unfolding year_days_def leap_year_def q4 q100 q400 using d by (simp split: if_splits)
qed

lemma year_days_sum:
  assumes "1970 \<le> y"
  shows "int (sum_list (map (\<lambda>i. if leap_year i then 366 else 365) [1970..<y])) =
    year_days (int y - 1) - 719162"
  using assms
proof (induction y rule: dec_induct)
  case base
  then show ?case by (simp add: year_days_def)
next
  case (step n)
  obtain k where k: "n = Suc k" using step.hyps(1) by (cases n) auto
  have s: "year_days (int n) = year_days (int n - 1) + (if leap_year n then 366 else 365)"
    using year_days_step[of k] by (simp add: k)
  have u: "[1970..<Suc n] = [1970..<n] @ [n]" using step.hyps(1) by simp
  show ?case unfolding u map_append sum_list_append of_nat_add step.IH using s by simp
qed

lemma days_closed:
  assumes "0 \<le> y" "era = y div 400" "yoe = y - era * (400::int)"
  shows "era * 146097 + (yoe * 365 + yoe div 4 - yoe div 100 + doy) - 719468 = year_days y + doy - 719468"
proof -
  have y: "y = yoe + (era * 100) * 4" "y = yoe + (era * 4) * 100" using assms(3) by simp_all
  have "y div 4 = yoe div 4 + era * 100" by (subst y(1)) (simp only: div_mult_self1 zero_neq_numeral)
  moreover have "y div 100 = yoe div 100 + era * 4" by (subst y(2)) simp
  moreover have "year_days y = 365 * y + y div 4 - y div 100 + era" by (simp add: year_days_def assms(2))
  ultimately show ?thesis using y(1) by linarith
qed

lemma rust_div_nonneg: "0 \<le> a \<Longrightarrow> 0 < b \<Longrightarrow> rust_div a b = a div b"
  by (cases "a = 0") (auto simp: rust_div_def)

text \<open>The number of the day in a year that starts in March.\<close>

definition march_day :: "nat \<Rightarrow> int" where
  "march_day m = (153 * ((int m + 9) mod 12) + 2) div 5"

lemma month_cases:
  assumes "1 \<le> m" "m \<le> (12 :: nat)"
  obtains "m = 1" | "m = 2" | "m = 3" | "m = 4" | "m = 5" | "m = 6" | "m = 7" | "m = 8" | "m = 9"
    | "m = 10" | "m = 11" | "m = 12"
proof -
  have "m = 1 \<or> m = 2 \<or> m = 3 \<or> m = 4 \<or> m = 5 \<or> m = 6 \<or> m = 7 \<or> m = 8 \<or> m = 9 \<or> m = 10 \<or> m = 11 \<or> m = 12"
    using assms by presburger
  then show ?thesis by (elim disjE) (fact that)+
qed

lemma days_from_epoch_closed:
  assumes "1 \<le> y" "y < 2 ^ 32" "1 \<le> m" "m \<le> 12" "d < 2 ^ 32"
  shows "days_from_epoch (of_nat y) (of_nat m) (of_nat d) =
    year_days (if m \<le> 2 then int y - 1 else int y) + march_day m + int d - 719469"
proof -
  have u: "uint (of_nat y :: u32) = int y" "uint (of_nat d :: u32) = int d"
    using assms by (simp_all add: uint_nat unat_of_nat_eq)
  define yy where "yy = (if m \<le> 2 then int y - 1 else int y)"
  have yy: "0 \<le> yy" using assms(1) by (simp add: yy_def)
  define era where "era = yy div 400"
  define yoe where "yoe = yy - era * 400"
  have yoe: "0 \<le> yoe" using yy by (simp add: yoe_def era_def minus_div_mult_eq_mod)
  define mm where "mm = (if (of_nat m :: u32) \<le> 2 then of_nat m + 9 else of_nat m - 3 :: u32)"
  have mm: "rust_div (153 * uint mm + 2) 5 = march_day m" and small: "((of_nat m :: u32) \<le> 2) = (m \<le> 2)"
    using assms(3,4) by (cases m rule: month_cases; simp add: mm_def march_day_def rust_div_def)+
  have "days_from_epoch (of_nat y) (of_nat m) (of_nat d) =
      (let e = rust_div (if yy \<ge> 0 then yy else yy - 399) 400; yo = yy - e * 400;
           doe = yo * 365 + rust_div yo 4 - rust_div yo 100 + (rust_div (153 * uint mm + 2) 5 + int d - 1)
       in e * 146097 + doe - 719468)"
    unfolding days_from_epoch_def u small Let_def yy_def[symmetric] mm_def[symmetric]
    by (simp only: mm_def small yy_def)
  also have "\<dots> = era * 146097 + (yoe * 365 + yoe div 4 - yoe div 100 + (march_day m + int d - 1)) - 719468"
    unfolding mm Let_def using yy yoe by (simp add: rust_div_nonneg era_def[symmetric] yoe_def[symmetric])
  also have "\<dots> = year_days yy + (march_day m + int d - 1) - 719468"
    by (rule days_closed[OF yy era_def yoe_def])
  finally show ?thesis by (simp add: yy_def)
qed

lemma month_days_sum:
  assumes "1 \<le> m" "m \<le> 12"
  shows "int (sum_list (map (month_length y) [1..<m])) =
    march_day m + (if m \<le> 2 then - 306 else if leap_year y then 60 else 59)"
  using assms by (cases m rule: month_cases) (simp_all add: upt_rec month_length_def march_day_def)

lemma days_from_epoch_calendar:
  assumes "1970 \<le> y" "y < 2 ^ 32" "1 \<le> m" "m \<le> 12" "1 \<le> d" "d < 2 ^ 32"
  shows "days_from_epoch (of_nat y) (of_nat m) (of_nat d) = int (calendar_days y m d)"
proof -
  obtain k where k: "y = Suc k" using assms(1) by (cases y) auto
  have "year_days (int y) = year_days (int y - 1) + (if leap_year y then 366 else 365)"
    using year_days_step[of k] by (simp add: k)
  moreover have "int (d - 1) = int d - 1" using assms(5) by simp
  ultimately show ?thesis
    using assms unfolding calendar_days_def of_nat_add month_days_sum[OF assms(3,4)] year_days_sum[OF assms(1)]
    by (simp add: days_from_epoch_closed split: if_splits)
qed

section \<open>Retry-After\<close>

text \<open>The format of RFC 7231, with the weekday's name: \<open>Wed, 21 Oct 2026 07:28:00 GMT\<close>.\<close>

definition weekday_names :: "ustr list" where
  "weekday_names = map to_ustr [''Mon'', ''Tue'', ''Wed'', ''Thu'', ''Fri'', ''Sat'', ''Sun'']"

definition month_names :: "ustr list" where
  "month_names = map to_ustr [''Jan'', ''Feb'', ''Mar'', ''Apr'', ''May'', ''Jun'',
                              ''Jul'', ''Aug'', ''Sep'', ''Oct'', ''Nov'', ''Dec'']"

definition two_digits :: "nat \<Rightarrow> ustr" where
  "two_digits n = [48 + n div 10, 48 + n mod 10]"

definition clock_time :: "nat \<Rightarrow> nat \<Rightarrow> nat \<Rightarrow> ustr" where
  "clock_time h mi s = join [58] [two_digits h, two_digits mi, two_digits s]"

definition imf_fixdate :: "ustr \<Rightarrow> nat \<Rightarrow> nat \<Rightarrow> nat \<Rightarrow> nat \<Rightarrow> nat \<Rightarrow> nat \<Rightarrow> ustr" where
  "imf_fixdate wd y m d h mi s =
     join [32] [wd @ [44], two_digits d, month_names ! (m - 1), two_digits (y div 100) @ two_digits (y mod 100),
                clock_time h mi s, to_ustr ''GMT'']"

lemma month_name_codes:
  "month_names = [[74, 97, 110], [70, 101, 98], [77, 97, 114], [65, 112, 114], [77, 97, 121], [74, 117, 110],
     [74, 117, 108], [65, 117, 103], [83, 101, 112], [79, 99, 116], [78, 111, 118], [68, 101, 99]]"
  by (simp add: month_names_def to_ustr_def)

lemma month_num_name:
  assumes "1 \<le> m" "m \<le> 12"
  shows "month_num (month_names ! (m - 1)) = Some (of_nat m)"
  using assms unfolding month_num_def month_names_def[symmetric] month_name_codes
  by (cases m rule: month_cases) simp_all

lemma parse_two_digits:
  assumes "n < 100"
  shows "parse_unsigned (two_digits n) = Some (of_nat n :: u32)"
proof -
  have "dec_value (two_digits n) = n" by (simp add: two_digits_def dec_value_def)
  moreover have "list_all is_digit (two_digits n)" using assms by (auto simp: two_digits_def is_digit_def)
  ultimately show ?thesis
    using parse_unsigned_digits[of "two_digits n", where 'a = 32] assms by (simp add: two_digits_def)
qed

lemma parse_four_digits:
  assumes "n < 10000"
  shows "parse_unsigned (two_digits (n div 100) @ two_digits (n mod 100)) = Some (of_nat n :: u32)"
proof -
  let ?ds = "two_digits (n div 100) @ two_digits (n mod 100)"
  have "n mod 100 = n mod 100 div 10 * 10 + n mod 100 mod 10" by simp
  moreover have "dec_value ?ds = (n div 100 div 10 * 10 + n div 100 mod 10) * 100
      + (n mod 100 div 10 * 10 + n mod 100 mod 10)"
    by (simp add: two_digits_def dec_value_def)
  ultimately have "dec_value ?ds = n" by simp
  moreover have "list_all is_digit ?ds" using assms by (auto simp: two_digits_def is_digit_def)
  ultimately show ?thesis
    using parse_unsigned_digits[of ?ds, where 'a = 32] assms by (simp add: two_digits_def)
qed

lemma not_whitespace_code: "33 \<le> c \<Longrightarrow> c \<le> 126 \<Longrightarrow> \<not> is_whitespace c"
  by (simp add: is_whitespace_def)

lemma two_digits_codes: "n < 100 \<Longrightarrow> c \<in> set (two_digits n) \<Longrightarrow> 48 \<le> c \<and> c \<le> 57"
  by (auto simp: two_digits_def)

lemma two_digits_visible: "n < 100 \<Longrightarrow> \<forall>c \<in> set (two_digits n). 33 \<le> c \<and> c \<le> 126"
  using two_digits_codes by fastforce

lemma sum_list_bound: "\<forall>x \<in> set xs. f x \<le> k \<Longrightarrow> sum_list (map f xs) \<le> length xs * (k :: nat)"
  by (induction xs) auto

lemma calendar_days_bound:
  assumes "y < 10000" "m \<le> 12" "d < 100"
  shows "calendar_days y m d < 2 ^ 32"
proof -
  have "sum_list (map (\<lambda>i. if leap_year i then 366 else 365) [1970..<y]) \<le> length [1970..<y] * 366"
    by (rule sum_list_bound) simp
  moreover have "length [1970..<y] * 366 \<le> 10000 * 366" using assms(1) by (intro mult_right_mono) simp_all
  moreover have "sum_list (map (month_length y) [1..<m]) \<le> length [1..<m] * 31"
    by (rule sum_list_bound) (simp add: month_length_def)
  ultimately show ?thesis using assms(2,3) by (simp add: calendar_days_def)
qed

lemma trim_visible:
  assumes "\<not> is_whitespace c" "\<not> is_whitespace e"
  shows "trim (c # cs @ [e]) = c # cs @ [e]"
  using assms by (simp add: trim_def trim_matches_def)

lemma split_date:
  assumes "wd \<in> set weekday_names" "1970 \<le> y" "y < 10000" "1 \<le> m" "m \<le> 12" "d < 100" "h < 100" "mi < 100" "s < 100"
  shows "split_whitespace (imf_fixdate wd y m d h mi s) =
      [wd @ [44], two_digits d, month_names ! (m - 1), two_digits (y div 100) @ two_digits (y mod 100),
       clock_time h mi s, to_ustr ''GMT'']"
    and "split_on (\<lambda>c. c = 58) (clock_time h mi s) = [two_digits h, two_digits mi, two_digits s]"
proof -
  have wd: "wd \<noteq> []" "\<forall>c \<in> set wd. 33 \<le> c \<and> c \<le> 126"
    using assms(1) by (auto simp: weekday_names_def to_ustr_def)
  have mo: "month_names ! (m - 1) \<noteq> []" "\<forall>c \<in> set (month_names ! (m - 1)). 33 \<le> c \<and> c \<le> 126"
    unfolding month_name_codes using assms(4,5) by (cases m rule: month_cases; simp)+
  have cl: "\<forall>c \<in> set (clock_time h mi s). 33 \<le> c \<and> c \<le> 126" "clock_time h mi s \<noteq> []"
    using two_digits_visible[OF assms(7)] two_digits_visible[OF assms(8)] two_digits_visible[OF assms(9)]
    by (simp_all add: clock_time_def ball_Un)
  have ye: "\<forall>c \<in> set (two_digits (y div 100) @ two_digits (y mod 100)). 33 \<le> c \<and> c \<le> 126"
    using two_digits_visible[of "y div 100"] two_digits_visible[of "y mod 100"] assms(3) by (simp add: ball_Un)
  let ?ps = "[wd @ [44], two_digits d, month_names ! (m - 1), two_digits (y div 100) @ two_digits (y mod 100),
       clock_time h mi s, to_ustr ''GMT'']"
  have v: "33 \<le> c \<and> c \<le> 126" if "p \<in> set ?ps" "c \<in> set p" for p c
    using that wd(2) mo(2) cl(1) ye two_digits_visible[OF assms(6)] by (auto simp: to_ustr_def)
  then have "\<forall>p \<in> set ?ps. \<forall>c \<in> set p. \<not> is_whitespace c" using not_whitespace_code by blast
  moreover have "is_whitespace 32" by (simp add: is_whitespace_def)
  ultimately have "split_on is_whitespace (join [32] ?ps) = ?ps" by (intro split_on_join) auto
  moreover have "p \<noteq> []" if "p \<in> set ?ps" for p
    using that mo(1) cl(2) by (auto simp: to_ustr_def two_digits_def)
  ultimately show "split_whitespace (imf_fixdate wd y m d h mi s) = ?ps"
    unfolding split_whitespace_def imf_fixdate_def by (simp only: filter_id_conv) (intro ballI)
  show "split_on (\<lambda>c. c = 58) (clock_time h mi s) = [two_digits h, two_digits mi, two_digits s]"
    unfolding clock_time_def
    using two_digits_codes[OF assms(7), of 58] two_digits_codes[OF assms(8), of 58] two_digits_codes[OF assms(9), of 58]
    by (intro split_on_join) auto
qed

lemma date_ends:
  assumes "wd \<in> set weekday_names"
  obtains c cs where "imf_fixdate wd y m d h mi s = c # cs @ [84]" "65 \<le> c" "c \<le> 90"
proof -
  obtain c w where w: "wd = c # w" "65 \<le> c" "c \<le> 90"
    using assms by (auto simp: weekday_names_def to_ustr_def)
  then show ?thesis
    using that[of c "w @ 44 # 32 # two_digits d @ 32 # month_names ! (m - 1) @ 32 #
      (two_digits (y div 100) @ two_digits (y mod 100)) @ 32 # clock_time h mi s @ [32, 71, 77]"]
    by (simp add: imf_fixdate_def to_ustr_def)
qed

text \<open>
  C27. A server that asks to wait until a date is obeyed to the second. The client reads any date of
  the years 1970 to 9999 in the format of RFC 7231 as the seconds from the clock to that date, with
  none for a date that has passed: parsing undoes printing, and the constant-time day count agrees
  with a calendar counted year by year and month by month, leap years included.
\<close>

theorem retry_after_date:
  assumes "wd \<in> set weekday_names" "1970 \<le> y" "y < 10000" "1 \<le> m" "m \<le> 12" "1 \<le> d" "d \<le> month_length y m"
    and "h < 24" "mi < 60" "s \<le> 60"
  shows "parse_retry_after now (imf_fixdate wd y m d h mi s) =
    Some (of_nat (calendar_days y m d * 86400 + h * 3600 + mi * 60 + s - unat now))"
proof -
  obtain c cs where ends: "imf_fixdate wd y m d h mi s = c # cs @ [84]" "65 \<le> c" "c \<le> 90"
    using date_ends[OF assms(1)] by blast
  then have nw: "\<not> is_whitespace c" "\<not> is_digit c" "c \<noteq> 43" "\<not> is_whitespace 84"
    by (simp_all add: is_whitespace_def is_digit_def)
  have tr: "trim (imf_fixdate wd y m d h mi s) = imf_fixdate wd y m d h mi s"
    unfolding ends(1) by (rule trim_visible[OF nw(1,4)])
  have none: "parse_unsigned (imf_fixdate wd y m d h mi s) = (None :: u64 option)"
    unfolding ends(1) by (rule parse_unsigned_not_digit[OF nw(3,2)])
  have d: "d < 100" using assms(7) by (auto simp: month_length_def split: if_splits)
  have sp: "split_whitespace (imf_fixdate wd y m d h mi s) =
      [wd @ [44], two_digits d, month_names ! (m - 1), two_digits (y div 100) @ two_digits (y mod 100),
       clock_time h mi s, to_ustr ''GMT'']"
    "split_on (\<lambda>c. c = 58) (clock_time h mi s) = [two_digits h, two_digits mi, two_digits s]"
    using split_date[OF assms(1-5) d] assms(8-10) by auto
  define cd where "cd = calendar_days y m d"
  have days: "days_from_epoch (of_nat y) (of_nat m) (of_nat d) = int cd"
    unfolding cd_def using assms(3,6) d by (intro days_from_epoch_calendar) (use assms in auto)
  have bound: "cd < 2 ^ 32"
    unfolding cd_def by (rule calendar_days_bound[OF assms(3,5) d])
  let ?t = "cd * 86400 + h * 3600 + mi * 60 + s"
  have t: "?t < 2 ^ 64" using bound assms(8-10) by simp
  have w: "(of_nat cd * 86400 + ucast (of_nat h :: u32) * 3600 + ucast (of_nat mi :: u32) * 60
      + ucast (of_nat s :: u32) :: u64) = of_nat ?t"
    using assms(8-10) by (simp add: unsigned_of_nat take_bit_nat_eq_self)
  have "parse_http_date_to_secs now (imf_fixdate wd y m d h mi s) =
      Some (saturating_sub (of_nat ?t) now)"
    unfolding parse_http_date_to_secs_def sp Let_def
    using assms(3,8-10) d
    by (simp add: parse_two_digits parse_four_digits month_num_name[OF assms(4,5), unfolded One_nat_def] sp(2) days w
        del: of_nat_add of_nat_mult)
  moreover have "saturating_sub (of_nat ?t :: u64) now = of_nat (?t - unat now)"
    by (rule word_unat_eq_iff[THEN iffD2]) (use t in \<open>simp add: unat_of_nat_eq del: of_nat_add of_nat_mult\<close>)
  ultimately show ?thesis by (simp add: parse_retry_after_def tr none cd_def del: of_nat_add of_nat_mult)
qed

theorem retry_after_date_witness:
  "parse_retry_after 1792567670 (imf_fixdate (to_ustr ''Wed'') 2026 10 21 7 28 0) = Some 10"
proof -
  have "calendar_days 2026 10 21 = 20747"
    by (simp add: calendar_days_def upt_rec leap_year_def month_length_def)
  then show ?thesis
    using retry_after_date[of "to_ustr ''Wed''" 2026 10 21 7 28 0 1792567670]
    by (simp add: weekday_names_def month_length_def)
qed

text \<open>A date before 1970 is read as one in the far future: the day count is cast to \<open>u64\<close>.\<close>

lemma retry_after_before_1970:
  "parse_retry_after now (to_ustr ''Wed, 31 Dec 1969 23:59:59 GMT'') = Some (- 1 - now)"
proof -
  let ?d = "[87, 101, 100, 44, 32, 51, 49, 32, 68, 101, 99, 32, 49, 57, 54, 57, 32, 50, 51, 58, 53, 57, 58, 53, 57,
      32, 71, 77, 84] :: ustr"
  have d: "to_ustr ''Wed, 31 Dec 1969 23:59:59 GMT'' = ?d" by (simp add: to_ustr_def)
  have t: "trim ?d = ?d" by (simp add: trim_def trim_matches_def is_whitespace_def)
  have w: "split_whitespace ?d = [[87, 101, 100, 44], [51, 49], [68, 101, 99], [49, 57, 54, 57],
      [50, 51, 58, 53, 57, 58, 53, 57], [71, 77, 84]]"
    by (simp add: split_whitespace_def is_whitespace_def)
  have m: "month_num [68, 101, 99] = Some 12"
    using month_num_name[of 12] by (simp add: month_name_codes)
  have n: "parse_unsigned ?d = (None :: u64 option)"
    by (rule parse_unsigned_not_digit) (simp_all add: is_digit_def)
  have e: "days_from_epoch 1969 12 31 = - 1"
    by (simp add: days_from_epoch_def rust_div_def)
  have "parse_http_date_to_secs now ?d = Some (saturating_sub (- 1) now)"
    unfolding parse_http_date_to_secs_def w Let_def
    by (simp add: m parse_unsigned_def dec_value_def is_digit_def e)
  then show ?thesis by (simp add: parse_retry_after_def d t n saturating_sub_def)
qed

section \<open>Outcomes\<close>

lemma is_retryable_classified: "is_retryable (classify_http_error now code hs) \<longleftrightarrow> code \<noteq> 401 \<and> code \<noteq> 403"
  by (simp add: classify_http_error_def)

lemma reject_forbidden_ip_Inl: "reject_forbidden_ip ip = Inl e \<Longrightarrow> \<exists>msg. e = Config msg"
proof -
  have v4: "reject_forbidden_ipv4 a = Inl e \<Longrightarrow> \<exists>msg. e = Config msg" for a
    by (cases a) (auto split: if_splits)
  then show "reject_forbidden_ip ip = Inl e \<Longrightarrow> \<exists>msg. e = Config msg"
    by (cases ip) (auto simp: reject_forbidden_ipv6_def Let_def split: option.splits if_splits)
qed

lemma validate_public_http_url_Inl:
  "validate_public_http_url url = Inl e \<Longrightarrow> \<exists>msg. e = Config msg"
  by (auto simp: validate_public_http_url_def and_then_Inl_iff ok_or_def Let_def
      reject_forbidden_ip_Inl split: if_splits option.splits)

lemma read_body_Inl: "read_body body = Inl e \<Longrightarrow> \<exists>msg. e = Network msg"
  by (induction body rule: read_body.induct) (auto simp: and_then_Inl_iff)

lemma read_body_Inr_iff:
  "read_body body = Inr bytes \<longleftrightarrow> list_all is_ok body \<and> bytes = concat (map projr body)"
proof (induction body arbitrary: bytes)
  case (Cons x rest)
  show ?case
  proof (cases x)
    case (Inr chunk)
    have "read_body (x # rest) = Inr bytes \<longleftrightarrow> (\<exists>b. read_body rest = Inr b \<and> chunk @ b = bytes)"
      by (simp add: Inr)
    then show ?thesis unfolding Cons.IH by (auto simp: Inr)
  qed simp
qed auto

lemma range_response_Inr_iff:
  "range_response parse send now url s e = Inr response \<longleftrightarrow>
     checked_url parse url = Inr () \<and> rs_status response = 206 \<and>
     send \<lparr>rq_method = GET, rq_url = url, rq_range = Some (range_header s e)\<rparr> = Inr response"
  by (auto simp: range_response_def)

text \<open>
  C28. Which failures of a range download are final. The engine does not try again when the URL is
  refused as unsafe or the server answers 401 or 403, and in no other case: a missing file (404), a
  server that ignores the range (200) and a URL that cannot be parsed are all tried again.
\<close>

theorem http_range_final_errors:
  assumes "http_download_range parse send now url s e = Inl err"
  shows "\<not> is_retryable err \<longleftrightarrow>
    (\<exists>v m. parse url = Inr v \<and> validate_public_http_url v = Inl (Config m)) \<or>
    (\<exists>response. checked_url parse url = Inr () \<and>
       send \<lparr>rq_method = GET, rq_url = url, rq_range = Some (range_header s e)\<rparr> = Inr response \<and>
       (rs_status response = 401 \<or> rs_status response = 403))"
proof (cases "parse url")
  case (Inl m)
  then show ?thesis using assms by (auto simp: http_download_range_def range_response_def checked_url_def)
next
  case v: (Inr v)
  show ?thesis
  proof (cases "validate_public_http_url v")
    case (Inl m)
    then show ?thesis
      using assms v validate_public_http_url_Inl[OF Inl]
      by (auto simp: http_download_range_def range_response_def checked_url_def)
  next
    case (Inr _)
    let ?rq = "\<lparr>rq_method = GET, rq_url = url, rq_range = Some (range_header s e)\<rparr>"
    have c: "checked_url parse url = Inr ()" using v Inr by (simp add: checked_url_def)
    show ?thesis
    proof (cases "send ?rq")
      case (Inl m)
      then show ?thesis using assms v Inr c by (auto simp: http_download_range_def range_response_def)
    next
      case r: (Inr response)
      have "err = Protocol ''Range ignored: HTTP 200'' \<and> rs_status response = 200 \<or>
          err = classify_http_error now (rs_status response) (rs_header response) \<or>
          rs_status response = 206 \<and> (\<exists>msg. err = Network msg)"
        using assms c r read_body_Inl[of "rs_body response" err]
        by (simp add: http_download_range_def range_response_def split: if_splits)
      then show ?thesis
        using v Inr c r is_retryable_classified[of now "rs_status response" "rs_header response"] by auto
    qed
  qed
qed

definition sample_response :: "u16 \<Rightarrow> http_response" where
  "sample_response status = \<lparr>rs_status = status, rs_header = (\<lambda>_. None), rs_length = None, rs_body = []\<rparr>"

theorem http_range_final_errors_witness:
  "\<not> is_retryable (Forbidden 403)"
proof -
  have v: "validate_public_http_url (sample_url ''host.io'') = Inr ()"
    by (simp add: validate_public_http_url_def sample_url_def trim_end_dots_def eval_host Let_def)
  then have c: "checked_url (\<lambda>_. Inr (sample_url ''host.io'')) ''u'' = Inr ()" by (simp add: checked_url_def)
  then have "http_download_range (\<lambda>_. Inr (sample_url ''host.io'')) (\<lambda>_. Inr (sample_response 403)) 0 ''u'' 0 9
      = Inl (Forbidden 403)"
    by (simp add: http_download_range_def range_response_def sample_response_def classify_http_error_def)
  from http_range_final_errors[OF this] c show ?thesis by (auto simp: sample_response_def)
qed

text \<open>The body is not compared with the range that was asked for: any length is accepted.\<close>

lemma http_download_range_Inr_iff:
  "http_download_range parse send now url s e = Inr bytes \<longleftrightarrow>
     (\<exists>response. checked_url parse url = Inr () \<and>
        send \<lparr>rq_method = GET, rq_url = url, rq_range = Some (range_header s e)\<rparr> = Inr response \<and>
        rs_status response = 206 \<and> list_all is_ok (rs_body response) \<and>
        bytes = concat (map projr (rs_body response)))"
  by (auto simp: http_download_range_def range_response_Inr_iff read_body_Inr_iff)

text \<open>The limit of 10 MiB holds only for a body that announces its length.\<close>

lemma http_download_full_unlimited:
  assumes "full_response parse send now url = Inr response" "rs_length response = None"
  shows "http_download_full parse send now url = read_body (rs_body response)"
  using assms by (simp add: http_download_full_def)

section \<open>Names and redirects\<close>

fun resolve_run ::
    "((string \<Rightarrow> string + ip_addr list) \<times> nat \<times> nat \<times> string) list \<Rightarrow> dns_resolver \<Rightarrow>
     dns_resolver \<times> ip_addr list download_result list" where
  "resolve_run [] r = (r, [])"
| "resolve_run ((lookup, now, after, host) # reqs) r =
     (case resolve lookup now after host r of
        (r, _, answer) \<Rightarrow> (case resolve_run reqs r of (r, answers) \<Rightarrow> (r, answer # answers)))"

lemma check_resolved_same:
  "check_resolved ips [] = Inr out \<Longrightarrow> out = ips" "Inr out = check_resolved ips [] \<Longrightarrow> x \<in> set out \<Longrightarrow> public_ip x"
  by (auto simp: check_resolved_Inr_iff dest!: sym[of "Inr out"])

lemma resolve_uncached:
  "resolve lookup now after host resolver_new = (resolver_new, snd (resolve lookup now after host resolver_new))"
  "snd (snd (resolve lookup now after host resolver_new)) =
     (case lookup host of Inl e \<Rightarrow> Inl (Io e) | Inr addrs \<Rightarrow> check_resolved addrs [])"
  by (auto simp: resolve_def resolver_new_def cached_def dest: check_resolved_same(1) split: sum.splits)

text \<open>
  The resolver never answers from its cache, and never with an address that is not public. In
  every sequence of requests to a new resolver, whatever the lookups return and the clock shows, the
  resolver stays as it was made, since each request works on a copy of the cache, and each answer is
  the one of a fresh lookup; every address in it is outside the forbidden blocks.
\<close>

theorem resolver_answers:
  "resolve_run reqs resolver_new = (resolver_new,
      map (\<lambda>(lookup, now, after, host).
             case lookup host of Inl e \<Rightarrow> Inl (Io e) | Inr addrs \<Rightarrow> check_resolved addrs []) reqs) \<and>
   (\<Union>addrs \<in> {addrs. Inr addrs \<in> set (snd (resolve_run reqs resolver_new))}. set addrs) \<subseteq> Collect public_ip"
proof -
  have eq: "resolve_run reqs resolver_new = (resolver_new,
      map (\<lambda>(lookup, now, after, host).
             case lookup host of Inl e \<Rightarrow> Inl (Io e) | Inr addrs \<Rightarrow> check_resolved addrs []) reqs)"
  proof (induction reqs)
    case (Cons q qs)
    obtain lookup now after host where q: "q = (lookup, now, after, host)" by (cases q)
    show ?case
      using resolve_uncached[of lookup now after host] Cons
      by (cases "resolve lookup now after host resolver_new") (auto simp: q)
  qed simp
  then show ?thesis by (auto dest: check_resolved_same(2) split: sum.splits)
qed

text \<open>
  reqwest documents \<open>previous\<close> as the URLs already requested, the first one included. A chain of
  redirects that the policy follows.
\<close>

fun follows :: "url_view list \<Rightarrow> url_view list \<Rightarrow> bool" where
  "follows previous [] = True"
| "follows previous (u # us) = (safe_redirect_policy previous u = Follow \<and> follows (previous @ [u]) us)"

lemma follows_limit:
  "follows previous us \<Longrightarrow> us \<noteq> [] \<Longrightarrow> length previous + length us \<le> 10"
  by (induction previous us rule: follows.induct)
    (fastforce simp: safe_redirect_policy_def split: if_splits)+

text \<open>At most nine redirects are followed, one fewer than the message says, each to an accepted URL.\<close>

lemma redirects_followed:
  assumes "follows [first] us"
  shows "length us \<le> 9" "u \<in> set us \<Longrightarrow> validate_public_http_url u = Inr ()"
proof -
  show "length us \<le> 9" using follows_limit[OF assms] by (cases us) auto
  have "follows previous us \<Longrightarrow> u \<in> set us \<Longrightarrow> validate_public_http_url u = Inr ()" for previous
    by (induction previous us rule: follows.induct)
      (auto simp: safe_redirect_policy_def validate_redirect_target_def split: if_splits sum.splits)
  then show "u \<in> set us \<Longrightarrow> validate_public_http_url u = Inr ()" using assms by blast
qed

end
