(* ===== verification/Byte_Reader.thy ===== *)
theory Byte_Reader
  imports Prelude
begin

text \<open>
  What tokio's \<open>AsyncRead\<close> shows its reader, shared by the protocols and the hashing: a source is the
  list of pieces it will offer, an error among them. One read takes as much of the first piece as its
  buffer holds; a read of nothing is the end, as is an empty piece.
\<close>

type_synonym byte_source = "(string + u8 list) list"

fun data_read :: "nat \<Rightarrow> byte_source \<Rightarrow> (string + u8 list) \<times> byte_source" where
  "data_read n [] = (Inr [], [])"
| "data_read n (Inl e # ds) = (Inl e, ds)"
| "data_read n (Inr p # ds) =
     (if length p \<le> n then (Inr p, ds) else (Inr (take n p), Inr (drop n p) # ds))"

fun data_size :: "byte_source \<Rightarrow> nat" where
  "data_size [] = 0"
| "data_size (Inl _ # ds) = Suc (data_size ds)"
| "data_size (Inr p # ds) = Suc (length p + data_size ds)"

text \<open>Every loop that stops at a read of nothing ends.\<close>

lemma data_read_decreases:
  "data_read n ds = (Inr b, ds') \<Longrightarrow> b \<noteq> [] \<Longrightarrow> data_size ds' < data_size ds"
  by (cases "(n, ds)" rule: data_read.cases) (auto split: if_splits)

text \<open>A source that delivers the bytes \<open>bs\<close> and then ends.\<close>

definition delivers :: "byte_source \<Rightarrow> u8 list \<Rightarrow> bool" where
  "delivers ds bs = (list_all (\<lambda>p. is_ok p \<and> p \<noteq> Inr []) ds \<and> concat (map projr ds) = bs)"

lemma delivers_bytes: "delivers (map (\<lambda>b. Inr [b]) bs) bs"
  by (induction bs) (simp_all add: delivers_def)

lemma data_read_delivers:
  assumes "delivers ds bs" "0 < n"
  obtains b ds' where "data_read n ds = (Inr b, ds')" "delivers ds' (drop (length b) bs)" "bs = b @ drop (length b) bs"
    "length b \<le> n" "b = [] \<longleftrightarrow> bs = []"
proof (cases ds)
  case Nil
  then show ?thesis using assms that[of "[]" "[]"] by (simp add: delivers_def)
next
  case (Cons p rest)
  then obtain x where x: "p = Inr x" "x \<noteq> []" "delivers rest (concat (map projr rest))" "bs = x @ concat (map projr rest)"
    using assms(1) by (cases p) (auto simp: delivers_def)
  show ?thesis
  proof (cases "length x \<le> n")
    case True
    then show ?thesis using Cons x that[of x rest] by simp
  next
    case False
    then have "delivers (Inr (drop n x) # rest) (drop n x @ concat (map projr rest))"
      using x(3) by (simp add: delivers_def)
    then show ?thesis
      using Cons x(1,2,4) False assms(2) that[of "take n x" "Inr (drop n x) # rest"]
      by (simp add: append_take_drop_id[symmetric])
  qed
qed

end
