(* ===== verification/Ftp_Client.thy ===== *)
theory Ftp_Client
  imports Url_Safety Core_Types Config_Types Byte_Reader
begin

text \<open>
  \<open>tachyon-protocol/src/ftp.rs\<close>: the FTP client over suppaftp. The commands of suppaftp, the parser
  of URLs and the name resolution are parameters. All clones of a client share one connection: an
  operation takes the connection and returns it.
\<close>

section \<open>State\<close>

datatype ftp_state = FtpDisconnected | FtpConnected | FtpAuthenticated

record 'c ftp_conn =
  fc_state :: ftp_state
  fc_stream :: "'c option"
  fc_host :: string
  fc_port :: u16
  fc_username :: "string option"

definition ftp_new :: "'c ftp_conn" where
  "ftp_new = \<lparr>fc_state = FtpDisconnected, fc_stream = None, fc_host = [], fc_port = 0, fc_username = None\<rparr>"

text \<open>Where a control connection goes: the code prints the pair.\<close>

datatype ftp_target = ByIp ip_addr u16 | ByName string u16

record 'c ftp_ops =
  fo_connect :: "ftp_target \<Rightarrow> string + 'c"
  fo_login :: "string \<Rightarrow> string \<Rightarrow> 'c \<Rightarrow> 'c \<times> (string + unit)"
  fo_size :: "string \<Rightarrow> 'c \<Rightarrow> 'c \<times> (string + usize)"
  fo_binary :: "'c \<Rightarrow> 'c \<times> (string + unit)"
  fo_rest :: "usize \<Rightarrow> 'c \<Rightarrow> 'c \<times> (string + unit)"
  fo_retr :: "string \<Rightarrow> 'c \<Rightarrow> 'c \<times> (string + byte_source)"
  fo_finalize :: "byte_source \<Rightarrow> 'c \<Rightarrow> 'c \<times> (string + unit)"

section \<open>Connecting\<close>

text \<open>The loop over the resolved addresses: all of them are checked, the first one is kept.\<close>

fun first_validated :: "ip_addr option \<Rightarrow> ip_addr list \<Rightarrow> ip_addr option download_result" where
  "first_validated validated [] = Inr validated"
| "first_validated validated (ip # ips) =
     (case reject_forbidden_ip ip of
        Inl e \<Rightarrow> Inl (Protocol ''DNS rebinding'')
      | Inr _ \<Rightarrow> first_validated (if validated = None then Some ip else validated) ips)"

definition strip_brackets :: "string \<Rightarrow> string" where
  "strip_brackets h = rev (dropWhile (\<lambda>c. c = CHR '']'') (rev (dropWhile (\<lambda>c. c = CHR ''['') h)))"

definition connect_target ::
    "(string \<Rightarrow> u16 \<Rightarrow> string + ip_addr list) \<Rightarrow> string \<Rightarrow> u16 \<Rightarrow> ftp_target download_result" where
  "connect_target to_socket_addrs host port =
     (let normalized_host = trim_end_dots host
      in if eq_ignore_ascii_case normalized_host ''localhost'' then Inl (Protocol ''localhost'')
         else
           (let stripped = strip_brackets normalized_host
            in case parse_ip_addr stripped of
                 Some ip \<Rightarrow>
                   (case reject_forbidden_ip ip of
                      Inl e \<Rightarrow> Inl (Protocol ''forbidden address'')
                    | Inr _ \<Rightarrow> Inr (ByIp ip port))
               | None \<Rightarrow>
                   (case to_socket_addrs stripped port of
                      Inl e \<Rightarrow> Inl (Network (''DNS: '' @ e))
                    | Inr addrs \<Rightarrow>
                        (case first_validated None addrs of
                           Inl e \<Rightarrow> Inl e
                         | Inr validated \<Rightarrow>
                             if addrs = [] then Inl (Network ''DNS: no result'')
                             else (case validated of
                                     Some ip \<Rightarrow> Inr (ByIp ip port)
                                   | None \<Rightarrow> Inr (ByName host port))))))"

definition ftp_connect ::
    "'c ftp_ops \<Rightarrow> (string \<Rightarrow> u16 \<Rightarrow> string + ip_addr list) \<Rightarrow> string \<Rightarrow> u16 \<Rightarrow> 'c ftp_conn \<Rightarrow>
     'c ftp_conn \<times> unit download_result" where
  "ftp_connect ops to_socket_addrs host port conn =
     (case connect_target to_socket_addrs host port of
        Inl e \<Rightarrow> (conn, Inl e)
      | Inr addr \<Rightarrow>
          (case fo_connect ops addr of
             Inl e \<Rightarrow> (conn, Inl (Network (''connect: '' @ e)))
           | Inr stream \<Rightarrow>
               (conn\<lparr>fc_stream := Some stream, fc_host := host, fc_port := port, fc_state := FtpConnected\<rparr>,
                Inr ())))"

definition ftp_disconnect :: "'c ftp_conn \<Rightarrow> 'c ftp_conn" where
  "ftp_disconnect conn =
     conn\<lparr>fc_stream := None, fc_state := FtpDisconnected, fc_host := [], fc_port := 0, fc_username := None\<rparr>"

section \<open>Commands\<close>

text \<open>A command on the stream: its error becomes one of the client's.\<close>

definition command ::
    "('c \<Rightarrow> 'c \<times> (string + 'a)) \<Rightarrow> (string \<Rightarrow> download_error) \<Rightarrow> 'c ftp_conn \<Rightarrow>
     'c ftp_conn \<times> 'a download_result" where
  "command f err conn =
     (case fc_stream conn of
        None \<Rightarrow> (conn, Inl (Protocol ''not connected''))
      | Some stream \<Rightarrow>
          (case f stream of (stream, r) \<Rightarrow> (conn\<lparr>fc_stream := Some stream\<rparr>, map_err err r)))"

text \<open>One command after another; the first error ends the sequence.\<close>

definition then_do ::
    "('s \<times> 'a download_result) \<Rightarrow> ('a \<Rightarrow> 's \<Rightarrow> 's \<times> 'b download_result) \<Rightarrow> 's \<times> 'b download_result" where
  "then_do p k = (case p of (s, Inl e) \<Rightarrow> (s, Inl e) | (s, Inr a) \<Rightarrow> k a s)"

definition ftp_login ::
    "'c ftp_ops \<Rightarrow> string \<Rightarrow> string \<Rightarrow> 'c ftp_conn \<Rightarrow> 'c ftp_conn \<times> unit download_result" where
  "ftp_login ops user pass conn =
     (if fc_state conn \<noteq> FtpConnected then (conn, Inl (Protocol ''not connected: login''))
      else
        then_do (command (fo_login ops user pass) (\<lambda>e. Protocol (''login: '' @ e)) conn) (\<lambda>_ conn.
          (conn\<lparr>fc_username := Some user, fc_state := FtpAuthenticated\<rparr>, Inr ())))"

definition ftp_file_size :: "'c ftp_ops \<Rightarrow> string \<Rightarrow> 'c ftp_conn \<Rightarrow> 'c ftp_conn \<times> u64 download_result" where
  "ftp_file_size ops path conn = command (fo_size ops path) (\<lambda>e. Protocol (''size: '' @ e)) conn"

definition set_binary :: "'c ftp_ops \<Rightarrow> 'c ftp_conn \<Rightarrow> 'c ftp_conn \<times> unit download_result" where
  "set_binary ops = command (fo_binary ops) (\<lambda>e. Protocol (''type: '' @ e))"

definition resume_at :: "'c ftp_ops \<Rightarrow> u64 \<Rightarrow> 'c ftp_conn \<Rightarrow> 'c ftp_conn \<times> unit download_result" where
  "resume_at ops start conn =
     (if start > 0 then command (fo_rest ops start) (\<lambda>e. Protocol (''REST: '' @ e)) conn else (conn, Inr ()))"

definition open_retr :: "'c ftp_ops \<Rightarrow> string \<Rightarrow> 'c ftp_conn \<Rightarrow> 'c ftp_conn \<times> byte_source download_result" where
  "open_retr ops path = command (fo_retr ops path) (\<lambda>e. Protocol (''RETR: '' @ e))"

definition finalize_retr_stream ::
    "'c ftp_ops \<Rightarrow> byte_source \<Rightarrow> 'c ftp_conn \<Rightarrow> 'c ftp_conn \<times> unit download_result" where
  "finalize_retr_stream ops ds = command (fo_finalize ops ds) (\<lambda>e. Protocol (''finalize: '' @ e))"

datatype retrieved = Whole byte_source "u8 list" | TooLarge byte_source | ReadError string

function retrieve_loop :: "byte_source \<Rightarrow> u8 list \<Rightarrow> retrieved" where
  "retrieve_loop ds buf =
     (case data_read 8192 ds of
        (Inl e, ds) \<Rightarrow> ReadError e
      | (Inr tmp, ds') \<Rightarrow>
          if tmp = [] then Whole ds' buf
          else if length buf + length tmp > unat MAX_FULL_DOWNLOAD_SIZE then TooLarge ds'
          else retrieve_loop ds' (buf @ tmp))"
  by pat_completeness auto
termination
  by (relation "measure (\<lambda>(ds, buf). data_size ds)") (auto dest: data_read_decreases[OF sym])

definition ftp_retrieve :: "'c ftp_ops \<Rightarrow> string \<Rightarrow> 'c ftp_conn \<Rightarrow> 'c ftp_conn \<times> u8 list download_result" where
  "ftp_retrieve ops path conn =
     then_do (set_binary ops conn) (\<lambda>_ conn.
     then_do (open_retr ops path conn) (\<lambda>ds conn.
       case retrieve_loop ds [] of
         ReadError e \<Rightarrow> (conn, Inl (Network (''read: '' @ e)))
       | TooLarge ds \<Rightarrow>
           (case finalize_retr_stream ops ds conn of (conn, _) \<Rightarrow> (conn, Inl (Protocol ''too large'')))
       | Whole ds buf \<Rightarrow>
           then_do (finalize_retr_stream ops ds conn) (\<lambda>_ conn. (conn, Inr buf))))"

text \<open>Reads into a buffer of \<open>need\<close> bytes until it is full or the stream has ended.\<close>

function range_loop :: "nat \<Rightarrow> byte_source \<Rightarrow> u8 list \<Rightarrow> string + u8 list \<times> byte_source" where
  "range_loop need ds buf =
     (if length buf < need then
        (case data_read (need - length buf) ds of
           (Inl e, ds') \<Rightarrow> Inl e
         | (Inr tmp, ds') \<Rightarrow> if tmp = [] then Inr (buf, ds') else range_loop need ds' (buf @ tmp))
      else Inr (buf, ds))"
  by pat_completeness auto
termination
  by (relation "measure (\<lambda>(need, ds, buf). data_size ds)") (auto dest: data_read_decreases[OF sym])

text \<open>\<^term>\<open>None\<close>: \<open>vec!\<close> panics on a size that does not fit into \<open>isize\<close>.\<close>

definition ftp_retrieve_range ::
    "'c ftp_ops \<Rightarrow> string \<Rightarrow> u64 \<Rightarrow> u64 \<Rightarrow> 'c ftp_conn \<Rightarrow> ('c ftp_conn \<times> u8 list download_result) option" where
  "ftp_retrieve_range ops path s e conn =
     (case set_binary ops conn of
        (conn, Inl err) \<Rightarrow> Some (conn, Inl err)
      | (conn, Inr _) \<Rightarrow>
          if e < s then Some (conn, Inl (Protocol ''end < start''))
          else
            (let need = unat (e - s + 1)
             in case then_do (resume_at ops s conn) (\<lambda>_. open_retr ops path) of
                  (conn, Inl err) \<Rightarrow> Some (conn, Inl err)
                | (conn, Inr ds) \<Rightarrow>
                    if need \<ge> 2 ^ 63 then None
                    else
                      Some (case range_loop need ds [] of
                              Inl e \<Rightarrow> (conn, Inl (Network (''read: '' @ e)))
                            | Inr (buf, ds) \<Rightarrow>
                                then_do (finalize_retr_stream ops ds conn) (\<lambda>_ conn. (conn, Inr buf)))))"

definition open_data_stream ::
    "'c ftp_ops \<Rightarrow> string \<Rightarrow> u64 option \<Rightarrow> 'c ftp_conn \<Rightarrow> 'c ftp_conn \<times> byte_source download_result" where
  "open_data_stream ops path start conn =
     then_do (set_binary ops conn) (\<lambda>_ conn.
     then_do (case start of Some offset \<Rightarrow> resume_at ops offset conn | None \<Rightarrow> (conn, Inr ())) (\<lambda>_ conn.
       open_retr ops path conn))"

definition is_connected :: "'c ftp_conn \<Rightarrow> bool" where
  "is_connected conn = (fc_state conn = FtpConnected \<or> fc_state conn = FtpAuthenticated)"

definition is_authenticated :: "'c ftp_conn \<Rightarrow> bool" where
  "is_authenticated conn = (fc_state conn = FtpAuthenticated)"

section \<open>URLs\<close>

datatype url_host = HostIpv4 ipv4 | HostIpv6 ipv6 | Domain string

record ftp_url_view =
  fv_scheme :: string
  fv_host :: "url_host option"
  fv_host_str :: "string option"
  fv_port :: "u16 option"
  fv_username :: string
  fv_password :: "string option"
  fv_path :: string

record ftp_url =
  fu_host :: string
  fu_port :: u16
  fu_username :: string
  fu_password :: string
  fu_path :: string

definition check_host :: "url_host option \<Rightarrow> unit download_result" where
  "check_host host =
     (case host of
        Some (HostIpv4 v4) \<Rightarrow> map_err (\<lambda>_. Protocol ''forbidden address'') (reject_forbidden_ip (V4 v4))
      | Some (HostIpv6 v6) \<Rightarrow> map_err (\<lambda>_. Protocol ''forbidden address'') (reject_forbidden_ip (V6 v6))
      | Some (Domain domain) \<Rightarrow>
          if eq_ignore_ascii_case (trim_end_dots domain) ''localhost'' then Inl (Protocol ''localhost'')
          else Inr ()
      | None \<Rightarrow> Inl (Protocol ''no host''))"

definition parse_ftp_url :: "(string \<Rightarrow> string + ftp_url_view) \<Rightarrow> string \<Rightarrow> ftp_url download_result" where
  "parse_ftp_url parse url =
     and_then (map_err (\<lambda>e. Protocol (''URL: '' @ e)) (parse url)) (\<lambda>parsed.
       if fv_scheme parsed \<noteq> ''ftp'' then Inl (Protocol (''not ftp: '' @ fv_scheme parsed))
       else
         and_then (check_host (fv_host parsed)) (\<lambda>_.
         and_then (ok_or (fv_host_str parsed) (Protocol ''no host'')) (\<lambda>host.
           Inr \<lparr>fu_host = host,
                fu_port = (case fv_port parsed of Some p \<Rightarrow> p | None \<Rightarrow> 21),
                fu_username = (if fv_username parsed = [] then ''anonymous'' else fv_username parsed),
                fu_password =
                  (case fv_password parsed of Some p \<Rightarrow> p | None \<Rightarrow> ''anonymous@aimodeldownloader''),
                fu_path = fv_path parsed\<rparr>)))"

text \<open>The part behind the last slash.\<close>

definition extract_filename_from_path :: "string \<Rightarrow> string" where
  "extract_filename_from_path path =
     (let name = rev (takeWhile (\<lambda>c. c \<noteq> CHR ''/'') (rev path))
      in if name = [] then ''download'' else name)"

section \<open>The protocol\<close>

text \<open>The common start: connect and log in; a failed login disconnects.\<close>

type_synonym 'c ftp_net =
  "'c ftp_ops \<times> (string \<Rightarrow> u16 \<Rightarrow> string + ip_addr list) \<times> (string \<Rightarrow> string + ftp_url_view)"

definition ftp_session ::
    "'c ftp_net \<Rightarrow> string \<Rightarrow> 'c ftp_conn \<Rightarrow> 'c ftp_conn \<times> ftp_url download_result" where
  "ftp_session net url conn =
     (case net of (ops, to_socket_addrs, parse) \<Rightarrow>
        (case parse_ftp_url parse url of
           Inl e \<Rightarrow> (conn, Inl e)
         | Inr info \<Rightarrow>
             then_do (ftp_connect ops to_socket_addrs (fu_host info) (fu_port info) conn) (\<lambda>_ conn.
               case ftp_login ops (fu_username info) (fu_password info) conn of
                 (conn, Inl e) \<Rightarrow> (ftp_disconnect conn, Inl e)
               | (conn, Inr _) \<Rightarrow> (conn, Inr info))))"

definition ftp_probe :: "'c ftp_net \<Rightarrow> string \<Rightarrow> 'c ftp_conn \<Rightarrow> 'c ftp_conn \<times> file_metadata download_result" where
  "ftp_probe net url conn =
     then_do (ftp_session net url conn) (\<lambda>info conn.
       case ftp_file_size (fst net) (fu_path info) conn of
         (conn, Inl e) \<Rightarrow> (ftp_disconnect conn, Inl e)
       | (conn, Inr bytes) \<Rightarrow>
           (ftp_disconnect conn,
            Inr \<lparr>md_file_name = extract_filename_from_path (fu_path info), md_file_size = Some bytes,
                 md_content_type = None, md_supports_range = False, md_etag = None, md_last_modified = None\<rparr>))"

definition ftp_download_full ::
    "'c ftp_net \<Rightarrow> string \<Rightarrow> 'c ftp_conn \<Rightarrow> 'c ftp_conn \<times> u8 list download_result" where
  "ftp_download_full net url conn =
     then_do (ftp_session net url conn) (\<lambda>info conn.
       case ftp_retrieve (fst net) (fu_path info) conn of (conn, r) \<Rightarrow> (ftp_disconnect conn, r))"

definition ftp_download_range ::
    "'c ftp_net \<Rightarrow> string \<Rightarrow> u64 \<Rightarrow> u64 \<Rightarrow> 'c ftp_conn \<Rightarrow> ('c ftp_conn \<times> u8 list download_result) option" where
  "ftp_download_range net url s e conn =
     (if s = 0 \<and> e = 0 then Some (ftp_download_full net url conn)
      else
        (case ftp_session net url conn of
           (conn, Inl err) \<Rightarrow> Some (conn, Inl err)
         | (conn, Inr info) \<Rightarrow>
             (case ftp_retrieve_range (fst net) (fu_path info) s e conn of
                None \<Rightarrow> None
              | Some (conn, r) \<Rightarrow> Some (ftp_disconnect conn, r))))"

text \<open>
  The streams: what the closure of \<open>unfold\<close> carries is the data connection, \<^term>\<open>None\<close> after an
  error, and whether it was finalized is the flag of the guard.
\<close>

record 'c ftp_byte_stream =
  bs_data :: "byte_source option"
  bs_finalized :: bool
  bs_conn :: "'c ftp_conn"

definition ftp_poll ::
    "'c ftp_ops \<Rightarrow> 'c ftp_byte_stream \<Rightarrow> 'c ftp_byte_stream \<times> u8 list download_result option" where
  "ftp_poll ops bs =
     (case bs_data bs of
        None \<Rightarrow> (bs, None)
      | Some ds \<Rightarrow>
          (case data_read (64 * 1024) ds of
             (Inl e, ds) \<Rightarrow>
               (\<lparr>bs_data = None, bs_finalized = True,
                 bs_conn = ftp_disconnect (fst (finalize_retr_stream ops ds (bs_conn bs)))\<rparr>,
                Some (Inl (Network (''read: '' @ e))))
           | (Inr buf, ds) \<Rightarrow>
               if buf = [] then
                 (\<lparr>bs_data = None, bs_finalized = True,
                   bs_conn = ftp_disconnect (fst (finalize_retr_stream ops ds (bs_conn bs)))\<rparr>, None)
               else (bs\<lparr>bs_data := Some ds\<rparr>, Some (Inr buf))))"

text \<open>\<open>FtpDataGuard::drop\<close>: a stream that was not read to its end disconnects.\<close>

definition ftp_drop :: "'c ftp_byte_stream \<Rightarrow> 'c ftp_conn" where
  "ftp_drop bs = (if bs_finalized bs then bs_conn bs else ftp_disconnect (bs_conn bs))"

definition ftp_stream_from ::
    "'c ftp_net \<Rightarrow> string \<Rightarrow> u64 option \<Rightarrow> 'c ftp_conn \<Rightarrow> ('c ftp_conn \<times> download_error) + 'c ftp_byte_stream" where
  "ftp_stream_from net url start conn =
     (case ftp_session net url conn of
        (conn, Inl e) \<Rightarrow> Inl (conn, e)
      | (conn, Inr info) \<Rightarrow>
          (case open_data_stream (fst net) (fu_path info) start conn of
             (conn, Inl e) \<Rightarrow> Inl (ftp_disconnect conn, e)
           | (conn, Inr ds) \<Rightarrow> Inr \<lparr>bs_data = Some ds, bs_finalized = False, bs_conn = conn\<rparr>))"

definition ftp_download_full_stream ::
    "'c ftp_net \<Rightarrow> string \<Rightarrow> 'c ftp_conn \<Rightarrow> ('c ftp_conn \<times> download_error) + 'c ftp_byte_stream" where
  "ftp_download_full_stream net url conn = ftp_stream_from net url None conn"

definition ftp_download_range_stream ::
    "'c ftp_net \<Rightarrow> string \<Rightarrow> u64 \<Rightarrow> u64 \<Rightarrow> 'c ftp_conn \<Rightarrow> ('c ftp_conn \<times> download_error) + 'c ftp_byte_stream" where
  "ftp_download_range_stream net url s e conn =
     (if s = 0 \<and> e = 0 then ftp_download_full_stream net url conn
      else ftp_stream_from net url (Some s) conn)"

section \<open>Reads\<close>

declare retrieve_loop.simps [simp del] range_loop.simps [simp del]

lemma retrieve_loop_delivers:
  assumes "delivers ds bs" "length buf + length bs \<le> unat MAX_FULL_DOWNLOAD_SIZE"
  shows "\<exists>ds'. retrieve_loop ds buf = Whole ds' (buf @ bs)"
  using assms
proof (induction "length bs" arbitrary: ds bs buf rule: less_induct)
  case less
  obtain b ds' where b: "data_read 8192 ds = (Inr b, ds')" "delivers ds' (drop (length b) bs)"
    "bs = b @ drop (length b) bs" "length b \<le> 8192" "b = [] \<longleftrightarrow> bs = []"
    by (rule data_read_delivers[OF less.prems(1), of 8192]) simp_all
  show ?case
  proof (cases "b = []")
    case True
    then show ?thesis using b by (simp add: retrieve_loop.simps[of ds])
  next
    case False
    then have "length (drop (length b) bs) < length bs" using b(5) by (cases bs) auto
    moreover have "length (buf @ b) + length (drop (length b) bs) = length buf + length bs"
      using arg_cong[OF b(3), of length] by simp
    ultimately obtain ds'' where "retrieve_loop ds' (buf @ b) = Whole ds'' ((buf @ b) @ drop (length b) bs)"
      using less.hyps[of "drop (length b) bs" ds' "buf @ b"] b(2) less.prems(2) by auto
    moreover have "length buf + length b \<le> unat MAX_FULL_DOWNLOAD_SIZE"
      using less.prems(2) by (subst (asm) b(3)) simp
    ultimately show ?thesis using b(1) False b(3) by (simp add: retrieve_loop.simps[of ds])
  qed
qed

lemma range_loop_delivers:
  assumes "delivers ds bs"
  shows "\<exists>ds'. range_loop need ds buf = Inr (buf @ take (need - length buf) bs, ds')"
  using assms
proof (induction "length bs" arbitrary: ds bs buf rule: less_induct)
  case less
  show ?case
  proof (cases "length buf < need")
    case False
    then show ?thesis by (simp add: range_loop.simps[of need ds])
  next
    case True
    then obtain b ds' where b: "data_read (need - length buf) ds = (Inr b, ds')" "delivers ds' (drop (length b) bs)"
      "bs = b @ drop (length b) bs" "length b \<le> need - length buf" "b = [] \<longleftrightarrow> bs = []"
      using data_read_delivers[OF less.prems, of "need - length buf"] by auto
    show ?thesis
    proof (cases "b = []")
      case True
      then show ?thesis using b by (simp add: range_loop.simps[of need ds])
    next
      case False
      then have "length (drop (length b) bs) < length bs" using b(5) by (cases bs) auto
      then obtain ds'' where "range_loop need ds' (buf @ b)
          = Inr ((buf @ b) @ take (need - length (buf @ b)) (drop (length b) bs), ds'')"
        using less.hyps[of "drop (length b) bs" ds' "buf @ b"] b(2) by auto
      moreover have "take (need - length buf) bs = b @ take (need - length (buf @ b)) (drop (length b) bs)"
        using b(4) by (subst b(3)) simp
      ultimately show ?thesis using b(1) False True by (simp add: range_loop.simps[of need ds])
    qed
  qed
qed

section \<open>Where connections go\<close>

lemma first_validated_Inr:
  "first_validated v ips = Inr w \<longleftrightarrow>
     (\<forall>ip \<in> set ips. public_ip ip) \<and> w = (if v = None then (case ips of [] \<Rightarrow> None | ip # _ \<Rightarrow> Some ip) else v)"
proof (induction ips arbitrary: v)
  case (Cons ip ips)
  show ?case
  proof (cases "reject_forbidden_ip ip")
    case (Inl e)
    then have "\<not> public_ip ip" using reject_forbidden_ip_iff[of ip] by simp
    then show ?thesis using Inl by simp
  next
    case (Inr u)
    then have "public_ip ip" using reject_forbidden_ip_iff[of ip] by simp
    then show ?thesis using Inr Cons.IH by (auto split: list.splits)
  qed
qed auto

text \<open>
  The FTP client connects only to public addresses. Whatever the name resolves to, a connection
  is attempted to an address that is outside the forbidden blocks and never to a name that would be
  resolved a second time; if one of the resolved addresses is forbidden there is no connection.
\<close>

theorem ftp_connects_public:
  assumes "connect_target dns host port = Inr target"
  shows "\<exists>ip. target = ByIp ip port \<and> public_ip ip \<and>
    (parse_ip_addr (strip_brackets (trim_end_dots host)) = Some ip \<or>
     (\<exists>ips. dns (strip_brackets (trim_end_dots host)) port = Inr (ip # ips) \<and> list_all public_ip ips))"
proof (cases "parse_ip_addr (strip_brackets (trim_end_dots host))")
  case (Some ip)
  then show ?thesis
    using assms reject_forbidden_ip_iff[of ip] by (auto simp: connect_target_def Let_def split: if_splits sum.splits)
next
  case None
  then obtain addrs where d: "dns (strip_brackets (trim_end_dots host)) port = Inr addrs"
    using assms by (auto simp: connect_target_def Let_def split: if_splits sum.splits)
  then obtain v where v: "first_validated None addrs = Inr v" "addrs \<noteq> []"
      "target = (case v of Some ip \<Rightarrow> ByIp ip port | None \<Rightarrow> ByName host port)"
    using assms None by (auto simp: connect_target_def Let_def split: if_splits sum.splits option.splits)
  then obtain ip ips where a: "addrs = ip # ips" by (cases addrs) auto
  from v(1) have "list_all public_ip (ip # ips) \<and> v = Some ip"
    unfolding first_validated_Inr a by (simp add: list_all_iff)
  then show ?thesis using v(3) d a by auto
qed

theorem ftp_connects_public_witness:
  "connect_target sample_dns ''host.io'' 21 = Inr (ByIp (V4 (V4Addr 8 8 8 8)) 21) \<and>
   public_ip (V4 (V4Addr 8 8 8 8))"
proof -
  have "connect_target sample_dns ''host.io'' 21 = Inr (ByIp (V4 (V4Addr 8 8 8 8)) 21)"
    by (simp add: connect_target_def Let_def trim_end_dots_def strip_brackets_def eval_host sample_dns_def
        eval_addr[simplified])
  then show ?thesis using ftp_connects_public by blast
qed

section \<open>No connection is left open\<close>

lemma command_None: "fc_stream conn = None \<Longrightarrow> command f err conn = (conn, Inl (Protocol ''not connected''))"
  by (simp add: command_def)

lemma ftp_disconnect_stream [simp]: "fc_stream (ftp_disconnect conn) = None" "fc_state (ftp_disconnect conn) = FtpDisconnected"
  by (simp_all add: ftp_disconnect_def)

lemma ftp_session_Inl:
  assumes "ftp_session net url conn = (conn', Inl e)"
  shows "conn' = conn \<or> fc_stream conn' = None \<and> fc_state conn' = FtpDisconnected"
  using assms
  by (auto simp: ftp_session_def then_do_def ftp_connect_def split: prod.splits sum.splits)

definition closed_conn :: "'c ftp_conn \<Rightarrow> bool" where
  "closed_conn conn = (fc_stream conn = None \<and> fc_state conn = FtpDisconnected)"

lemma closed_disconnect [simp]: "closed_conn (ftp_disconnect conn)"
  by (simp add: closed_conn_def)

lemma closed_new [simp]: "closed_conn ftp_new"
  by (simp add: closed_conn_def ftp_new_def)

lemma ftp_session_closed: "closed_conn conn \<Longrightarrow> ftp_session net url conn = (conn', Inl e) \<Longrightarrow> closed_conn conn'"
  using ftp_session_Inl by (fastforce simp: closed_conn_def)

lemma ftp_probe_closed: "closed_conn conn \<Longrightarrow> closed_conn (fst (ftp_probe net url conn))"
  by (auto simp: ftp_probe_def then_do_def dest: ftp_session_closed split: prod.splits sum.splits)

lemma ftp_download_full_closed: "closed_conn conn \<Longrightarrow> closed_conn (fst (ftp_download_full net url conn))"
  by (auto simp: ftp_download_full_def then_do_def dest: ftp_session_closed split: prod.splits sum.splits)

lemma ftp_download_range_closed:
  "closed_conn conn \<Longrightarrow> ftp_download_range net url s e conn = Some (conn', r) \<Longrightarrow> closed_conn conn'"
  using ftp_download_full_closed[of conn net url]
  by (auto simp: ftp_download_range_def dest: ftp_session_closed split: if_splits prod.splits sum.splits option.splits)

definition stream_ok :: "'c ftp_byte_stream \<Rightarrow> bool" where
  "stream_ok bs = ((bs_finalized bs \<longleftrightarrow> bs_data bs = None) \<and> (bs_finalized bs \<longrightarrow> closed_conn (bs_conn bs)))"

lemma ftp_stream_from_closed:
  assumes "closed_conn conn"
  shows "case ftp_stream_from net url start conn of Inl (conn', _) \<Rightarrow> closed_conn conn' | Inr bs \<Rightarrow> stream_ok bs"
  using assms
  by (auto simp: ftp_stream_from_def stream_ok_def dest: ftp_session_closed split: prod.splits sum.splits)

lemma ftp_poll_ok: "stream_ok bs \<Longrightarrow> stream_ok (fst (ftp_poll ops bs))"
  by (auto simp: ftp_poll_def stream_ok_def split: option.splits prod.splits sum.splits)

text \<open>A reader that polls some times and then drops the stream.\<close>

definition read_then_drop :: "'c ftp_ops \<Rightarrow> nat \<Rightarrow> 'c ftp_byte_stream \<Rightarrow> 'c ftp_conn" where
  "read_then_drop ops n bs = ftp_drop (((fst \<circ> ftp_poll ops) ^^ n) bs)"

text \<open>
  C29. No FTP connection is left open, whatever the server answers. A download of a new client's URL
  ends disconnected: a download into memory when it returns, with or without an error, and a stream
  once its reader drops it, after any number of reads, at the end of the data or before it.
\<close>

theorem ftp_download_disconnects:
  assumes "closed_conn conn"
  shows "(case ftp_download_range net url s e conn of Some (conn', _) \<Rightarrow> closed_conn conn' | None \<Rightarrow> True) \<and>
    (case ftp_download_range_stream net url s e conn of
       Inl (conn', _) \<Rightarrow> closed_conn conn'
     | Inr bs \<Rightarrow> closed_conn (read_then_drop ops n bs))"
proof -
  have drop: "closed_conn (read_then_drop ops n bs)" if "stream_ok bs" for bs
  proof -
    have "stream_ok (((fst \<circ> ftp_poll ops) ^^ n) bs)"
      using that by (induction n) (simp_all add: ftp_poll_ok)
    then show ?thesis by (simp add: read_then_drop_def ftp_drop_def stream_ok_def)
  qed
  have "case ftp_download_range_stream net url s e conn of
      Inl (conn', _) \<Rightarrow> closed_conn conn' | Inr bs \<Rightarrow> stream_ok bs"
    using ftp_stream_from_closed[OF assms] by (simp add: ftp_download_range_stream_def ftp_download_full_stream_def)
  then show ?thesis
    using drop ftp_download_range_closed[OF assms] by (auto split: option.splits sum.splits)
qed

section \<open>What arrives\<close>

text \<open>
  A server that holds \<open>file\<close> under every path, in the terms of RFC 959: \<open>REST\<close> sets the offset of the
  next transfer, \<open>RETR\<close> delivers the file from there, and every command succeeds. \<open>off\<close> reads the
  offset of a control connection, zero on a new one.
\<close>

definition serves :: "'c ftp_ops \<Rightarrow> ('c \<Rightarrow> nat) \<Rightarrow> u8 list \<Rightarrow> bool" where
  "serves ops off file =
     ((\<forall>t. \<exists>c. fo_connect ops t = Inr c \<and> off c = 0) \<and>
      (\<forall>u p c. \<exists>c'. fo_login ops u p c = (c', Inr ()) \<and> off c' = off c) \<and>
      (\<forall>c. \<exists>c'. fo_binary ops c = (c', Inr ()) \<and> off c' = off c) \<and>
      (\<forall>n c. \<exists>c'. fo_rest ops n c = (c', Inr ()) \<and> off c' = unat n) \<and>
      (\<forall>path c. \<exists>c' ds. fo_retr ops path c = (c', Inr ds) \<and> delivers ds (drop (off c) file)) \<and>
      (\<forall>ds c. \<exists>c'. fo_finalize ops ds c = (c', Inr ())))"

lemma command_ok:
  "fc_stream conn = Some c \<Longrightarrow> f c = (c', Inr a) \<Longrightarrow> command f err conn = (conn\<lparr>fc_stream := Some c'\<rparr>, Inr a)"
  by (simp add: command_def)

lemma serves_session:
  assumes "serves ops off file" "parse_ftp_url parse url = Inr info"
    and "connect_target dns (fu_host info) (fu_port info) = Inr target"
  obtains conn' c where "ftp_session (ops, dns, parse) url conn = (conn', Inr info)" "fc_stream conn' = Some c" "off c = 0"
proof -
  obtain c where c: "fo_connect ops target = Inr c" "off c = 0" using assms(1) unfolding serves_def by blast
  obtain c' where c': "fo_login ops (fu_username info) (fu_password info) c = (c', Inr ())" "off c' = off c"
    using assms(1) unfolding serves_def by blast
  show ?thesis
    by (rule that[of "conn\<lparr>fc_stream := Some c', fc_host := fu_host info, fc_port := fu_port info,
          fc_state := FtpAuthenticated, fc_username := Some (fu_username info)\<rparr>" c'])
      (use assms(2,3) c c' in \<open>simp_all add: ftp_session_def then_do_def ftp_connect_def ftp_login_def command_def\<close>)
qed

lemma serves_binary:
  assumes "serves ops off file" "fc_stream conn = Some c"
  obtains conn' c' where "set_binary ops conn = (conn', Inr ())" "fc_stream conn' = Some c'" "off c' = off c"
proof -
  obtain c' where "fo_binary ops c = (c', Inr ())" "off c' = off c" using assms(1) unfolding serves_def by blast
  then show ?thesis using that[of "conn\<lparr>fc_stream := Some c'\<rparr>" c'] assms(2) by (simp add: set_binary_def command_def)
qed

lemma serves_rest:
  assumes "serves ops off file" "fc_stream conn = Some c" "off c = 0"
  obtains conn' c' where "resume_at ops n conn = (conn', Inr ())" "fc_stream conn' = Some c'" "off c' = unat n"
proof (cases "n > 0")
  case True
  obtain c' where "fo_rest ops n c = (c', Inr ())" "off c' = unat n" using assms(1) unfolding serves_def by blast
  then show ?thesis
    using that[of "conn\<lparr>fc_stream := Some c'\<rparr>" c'] assms(2) True by (simp add: resume_at_def command_def)
next
  case False
  then have "n = 0" by (simp add: word_gt_0)
  then show ?thesis using that[of conn c] assms(2,3) by (simp add: resume_at_def)
qed

lemma serves_retr:
  assumes "serves ops off file" "fc_stream conn = Some c"
  obtains conn' c' ds where "open_retr ops path conn = (conn', Inr ds)" "fc_stream conn' = Some c'"
    "delivers ds (drop (off c) file)"
proof -
  obtain c' ds where "fo_retr ops path c = (c', Inr ds)" "delivers ds (drop (off c) file)"
    using assms(1) unfolding serves_def by blast
  then show ?thesis
    using that[of "conn\<lparr>fc_stream := Some c'\<rparr>" ds c'] assms(2) by (simp add: open_retr_def command_def)
qed

lemma serves_finalize:
  assumes "serves ops off file" "fc_stream conn = Some c"
  shows "\<exists>conn'. finalize_retr_stream ops ds conn = (conn', Inr ())"
proof -
  obtain c' where "fo_finalize ops ds c = (c', Inr ())" using assms(1) unfolding serves_def by blast
  then show ?thesis using assms(2) by (simp add: finalize_retr_stream_def command_def)
qed

lemma serves_retrieve:
  assumes "serves ops off file" "fc_stream conn = Some c" "off c = 0" "length file \<le> unat MAX_FULL_DOWNLOAD_SIZE"
  shows "\<exists>conn'. ftp_retrieve ops path conn = (conn', Inr file)"
proof -
  obtain c1 s1 where 1: "set_binary ops conn = (c1, Inr ())" "fc_stream c1 = Some s1" "off s1 = off c"
    by (rule serves_binary[OF assms(1,2)])
  obtain c2 s2 ds where 2: "open_retr ops path c1 = (c2, Inr ds)" "fc_stream c2 = Some s2"
    "delivers ds (drop (off s1) file)"
    by (rule serves_retr[OF assms(1) 1(2)])
  obtain ds' where 3: "retrieve_loop ds [] = Whole ds' file"
    using retrieve_loop_delivers[OF 2(3), of "[]"] assms(3,4) 1(3) by auto
  obtain c3 where "finalize_retr_stream ops ds' c2 = (c3, Inr ())"
    using serves_finalize[OF assms(1) 2(2)] by blast
  then show ?thesis using 1(1) 2(1) 3 by (simp add: ftp_retrieve_def then_do_def)
qed

lemma serves_retrieve_range:
  assumes "serves ops off file" "fc_stream conn = Some c" "off c = 0" "s \<le> e" "unat (e - s + 1) < 2 ^ 63"
  shows "\<exists>conn'. ftp_retrieve_range ops path s e conn =
    Some (conn', Inr (take (unat (e - s + 1)) (drop (unat s) file)))"
proof -
  obtain c1 s1 where 1: "set_binary ops conn = (c1, Inr ())" "fc_stream c1 = Some s1" "off s1 = off c"
    by (rule serves_binary[OF assms(1,2)])
  obtain c2 s2 where 2: "resume_at ops s c1 = (c2, Inr ())" "fc_stream c2 = Some s2" "off s2 = unat s"
    by (rule serves_rest[OF assms(1) 1(2)]) (use 1(3) assms(3) in auto)
  obtain c3 s3 ds where 3: "open_retr ops path c2 = (c3, Inr ds)" "fc_stream c3 = Some s3"
    "delivers ds (drop (off s2) file)"
    by (rule serves_retr[OF assms(1) 2(2)])
  obtain ds' where 4: "range_loop (unat (e - s + 1)) ds [] =
      Inr (take (unat (e - s + 1)) (drop (unat s) file), ds')"
    using range_loop_delivers[OF 3(3), of _ "[]"] 2(3) by fastforce
  obtain c4 where "finalize_retr_stream ops ds' c3 = (c4, Inr ())"
    using serves_finalize[OF assms(1) 3(2)] by blast
  then show ?thesis
    using 1(1) 2(1) 3(1) 4 assms(4,5) by (simp add: ftp_retrieve_range_def then_do_def not_less)
qed

text \<open>
  C30. What a range download over FTP returns, from a server that behaves as RFC 959 says: the bytes of
  the range, cut off without an error where the file ends before it does. The range of the first
  byte alone is taken for the whole file.
\<close>

theorem ftp_range_content:
  assumes "serves ops off file" "parse_ftp_url parse url = Inr info"
    and "connect_target dns (fu_host info) (fu_port info) = Inr target"
    and "s \<le> e" "unat (e - s + 1) < 2 ^ 63" "length file \<le> unat MAX_FULL_DOWNLOAD_SIZE"
  shows "map_option snd (ftp_download_range (ops, dns, parse) url s e conn) =
    Some (Inr (if s = 0 \<and> e = 0 then file else take (unat (e - s + 1)) (drop (unat s) file)))"
proof -
  obtain conn' c where c: "ftp_session (ops, dns, parse) url conn = (conn', Inr info)" "fc_stream conn' = Some c" "off c = 0"
    by (rule serves_session[OF assms(1-3)])
  obtain conn1 where 1: "ftp_retrieve ops (fu_path info) conn' = (conn1, Inr file)"
    using serves_retrieve[OF assms(1) c(2,3) assms(6)] by blast
  obtain conn2 where 2: "ftp_retrieve_range ops (fu_path info) s e conn' =
      Some (conn2, Inr (take (unat (e - s + 1)) (drop (unat s) file)))"
    using serves_retrieve_range[OF assms(1) c(2,3) assms(4,5)] by blast
  show ?thesis
    using c(1) 1 2 by (simp add: ftp_download_range_def ftp_download_full_def then_do_def)
qed

text \<open>The stream of a range: what a reader that polls until the end receives.\<close>

fun poll_all :: "'c ftp_ops \<Rightarrow> nat \<Rightarrow> 'c ftp_byte_stream \<Rightarrow> u8 list download_result list" where
  "poll_all ops 0 bs = []"
| "poll_all ops (Suc fuel) bs =
     (case ftp_poll ops bs of
        (bs, None) \<Rightarrow> []
      | (bs, Some item) \<Rightarrow> item # poll_all ops fuel bs)"

lemma poll_all_delivers:
  assumes "bs_data bs = Some ds" "delivers ds bytes" "length bytes < fuel"
  shows "list_all is_ok (poll_all ops fuel bs) \<and> concat (map projr (poll_all ops fuel bs)) = bytes"
  using assms
proof (induction fuel arbitrary: bs ds bytes)
  case (Suc fuel)
  obtain b ds' where b: "data_read (64 * 1024) ds = (Inr b, ds')" "delivers ds' (drop (length b) bytes)"
    "bytes = b @ drop (length b) bytes" "length b \<le> 64 * 1024" "b = [] \<longleftrightarrow> bytes = []"
    by (rule data_read_delivers[OF Suc.prems(2), of "64 * 1024"]) simp_all
  show ?case
  proof (cases "b = []")
    case True
    then show ?thesis using b Suc.prems(1) by (simp add: ftp_poll_def)
  next
    case False
    then have "length (drop (length b) bytes) < fuel" using b(5) Suc.prems(3) by (cases b; cases bytes) auto
    then have "list_all is_ok (poll_all ops fuel (bs\<lparr>bs_data := Some ds'\<rparr>)) \<and>
        concat (map projr (poll_all ops fuel (bs\<lparr>bs_data := Some ds'\<rparr>))) = drop (length b) bytes"
      using Suc.IH[of "bs\<lparr>bs_data := Some ds'\<rparr>" ds'] b(2) by simp
    then show ?thesis using b(1,3) False Suc.prems(1) by (simp add: ftp_poll_def)
  qed
qed simp

text \<open>
  A range stream over FTP does not end at the end of the range. From a server that behaves as RFC
  959 says, and with more polls than the file has bytes, the stream delivers everything from the
  start of the range to the end of the file, without an error: \<open>end\<close> has no effect.
\<close>

theorem ftp_range_stream_to_eof:
  assumes "serves ops off file" "parse_ftp_url parse url = Inr info"
    and "connect_target dns (fu_host info) (fu_port info) = Inr target" "length file < fuel"
  shows "\<exists>bs. ftp_download_range_stream (ops, dns, parse) url s e conn = Inr bs \<and>
    list_all is_ok (poll_all ops fuel bs) \<and> concat (map projr (poll_all ops fuel bs)) = drop (unat s) file"
proof -
  obtain conn' c where c: "ftp_session (ops, dns, parse) url conn = (conn', Inr info)" "fc_stream conn' = Some c" "off c = 0"
    by (rule serves_session[OF assms(1-3)])
  obtain c1 s1 where 1: "set_binary ops conn' = (c1, Inr ())" "fc_stream c1 = Some s1" "off s1 = 0"
    by (rule serves_binary[OF assms(1) c(2)]) (use c(3) in auto)
  obtain c2 s2 where 2: "resume_at ops s c1 = (c2, Inr ())" "fc_stream c2 = Some s2" "off s2 = unat s"
    by (rule serves_rest[OF assms(1) 1(2,3)])
  have poll: "list_all is_ok (poll_all ops fuel \<lparr>bs_data = Some ds, bs_finalized = False, bs_conn = k\<rparr>) \<and>
      concat (map projr (poll_all ops fuel \<lparr>bs_data = Some ds, bs_finalized = False, bs_conn = k\<rparr>)) = drop n file"
    if "delivers ds (drop n file)" for ds k n
    by (rule poll_all_delivers) (use that assms(4) in auto)
  obtain c3 s3 ds where 3: "open_retr ops (fu_path info) c2 = (c3, Inr ds)" "delivers ds (drop (unat s) file)"
    by (rule serves_retr[OF assms(1) 2(2)]) (use 2(3) in auto)
  obtain c4 s4 ds' where 4: "open_retr ops (fu_path info) c1 = (c4, Inr ds')" "delivers ds' (drop 0 file)"
    by (rule serves_retr[OF assms(1) 1(2)]) (use 1(3) in auto)
  show ?thesis
    using c(1) 1(1) 2(1) 3(1) 4(1) poll[OF 3(2)] poll[OF 4(2)]
    by (simp add: ftp_download_range_stream_def ftp_download_full_stream_def ftp_stream_from_def
        open_data_stream_def then_do_def)
qed

section \<open>A sample server\<close>

definition sample_server :: "u8 list \<Rightarrow> nat ftp_ops" where
  "sample_server file =
     \<lparr>fo_connect = (\<lambda>_. Inr 0), fo_login = (\<lambda>_ _ c. (c, Inr ())), fo_size = (\<lambda>_ c. (c, Inr (of_nat (length file)))),
      fo_binary = (\<lambda>c. (c, Inr ())), fo_rest = (\<lambda>n c. (unat n, Inr ())),
      fo_retr = (\<lambda>_ c. (0, Inr (map (\<lambda>b. Inr [b]) (drop c file)))), fo_finalize = (\<lambda>_ c. (c, Inr ()))\<rparr>"

lemma sample_server_serves: "serves (sample_server file) (\<lambda>c. c) file"
proof -
  show ?thesis by (simp add: serves_def sample_server_def delivers_bytes)
qed

definition sample_ftp_url :: ftp_url_view where
  "sample_ftp_url =
     \<lparr>fv_scheme = ''ftp'', fv_host = Some (Domain ''host.io''), fv_host_str = Some ''host.io'', fv_port = None,
      fv_username = [], fv_password = None, fv_path = ''/f''\<rparr>"

abbreviation sample_net :: "u8 list \<Rightarrow> nat ftp_net" where
  "sample_net file \<equiv> (sample_server file, sample_dns, \<lambda>_. Inr sample_ftp_url)"

lemma sample_ftp_facts:
  "parse_ftp_url (\<lambda>_. Inr sample_ftp_url) url = Inr \<lparr>fu_host = ''host.io'', fu_port = 21,
     fu_username = ''anonymous'', fu_password = ''anonymous@aimodeldownloader'', fu_path = ''/f''\<rparr>"
  "connect_target sample_dns ''host.io'' 21 = Inr (ByIp (V4 (V4Addr 8 8 8 8)) 21)"
  by (simp_all add: parse_ftp_url_def sample_ftp_url_def check_host_def connect_target_def Let_def trim_end_dots_def
      strip_brackets_def eval_host sample_dns_def eval_addr[simplified])

theorem ftp_range_content_witness:
  "map_option snd (ftp_download_range (sample_net [1, 2, 3]) ''u'' 1 9 ftp_new) = Some (Inr [2, 3]) \<and>
   map_option snd (ftp_download_range (sample_net [1, 2, 3]) ''u'' 0 0 ftp_new) = Some (Inr [1, 2, 3])"
proof -
  have "map_option snd (ftp_download_range (sample_net [1, 2, 3]) ''u'' 1 9 ftp_new) =
      Some (Inr (if (1 :: u64) = 0 \<and> (9 :: u64) = 0 then [1, 2, 3]
                 else take (unat (9 - 1 + 1 :: u64)) (drop (unat (1 :: u64)) [1, 2, 3])))"
    by (rule ftp_range_content[OF sample_server_serves sample_ftp_facts(1)])
      (simp_all add: sample_ftp_facts MAX_FULL_DOWNLOAD_SIZE_def)
  moreover have "map_option snd (ftp_download_range (sample_net [1, 2, 3]) ''u'' 0 0 ftp_new) =
      Some (Inr (if (0 :: u64) = 0 \<and> (0 :: u64) = 0 then [1, 2, 3]
                 else take (unat (0 - 0 + 1 :: u64)) (drop (unat (0 :: u64)) [1, 2, 3])))"
    by (rule ftp_range_content[OF sample_server_serves sample_ftp_facts(1)])
      (simp_all add: sample_ftp_facts MAX_FULL_DOWNLOAD_SIZE_def)
  ultimately show ?thesis by simp
qed

theorem ftp_range_stream_to_eof_witness:
  "concat (map projr (poll_all (sample_server [1, 2, 3]) 4
     (projr (ftp_download_range_stream (sample_net [1, 2, 3]) ''u'' 1 1 ftp_new)))) = [2, 3]"
proof -
  have "\<exists>bs. ftp_download_range_stream (sample_net [1, 2, 3]) ''u'' 1 1 ftp_new = Inr bs \<and>
      list_all is_ok (poll_all (sample_server [1, 2, 3]) 4 bs) \<and>
      concat (map projr (poll_all (sample_server [1, 2, 3]) 4 bs)) = drop (unat (1 :: u64)) [1, 2, 3]"
    by (rule ftp_range_stream_to_eof[OF sample_server_serves sample_ftp_facts(1)]) (simp_all add: sample_ftp_facts)
  then show ?thesis by auto
qed

theorem ftp_download_disconnects_witness:
  "closed_conn (read_then_drop (sample_server [1, 2, 3]) 1
     (projr (ftp_download_range_stream (sample_net [1, 2, 3]) ''u'' 1 1 ftp_new)))"
proof -
  have "\<exists>bs. ftp_download_range_stream (sample_net [1, 2, 3]) ''u'' 1 1 ftp_new = Inr bs"
    by (simp add: ftp_download_range_stream_def ftp_stream_from_def ftp_session_def sample_ftp_facts then_do_def
        ftp_connect_def ftp_login_def command_def sample_server_def open_data_stream_def set_binary_def
        resume_at_def open_retr_def)
  then show ?thesis
    using ftp_download_disconnects[OF closed_new, of "sample_net [1, 2, 3]" "''u''" 1 1 "sample_server [1, 2, 3]" 1]
    by (auto split: option.splits)
qed

section \<open>One connection for all callers\<close>

text \<open>
  Clones share the connection: while one caller is logged in, another's login fails, and after another
  caller's \<open>connect\<close> a caller works on the stream of the other.
\<close>

lemma shared_login_fails:
  assumes "fst (ftp_login ops u p conn) = conn'" "snd (ftp_login ops u p conn) = Inr ()"
  shows "ftp_login ops u' p' conn' = (conn', Inl (Protocol ''not connected: login''))"
  using assms by (auto simp: ftp_login_def then_do_def command_def split: if_splits prod.splits sum.splits option.splits)

text \<open>Commands need a stream, not a login, though the comments ask for one.\<close>

lemma file_size_before_login:
  assumes "fo_connect ops target = Inr c" "connect_target dns host port = Inr target" "fo_size ops path c = (c', Inr n)"
  shows "snd (ftp_file_size ops path (fst (ftp_connect ops dns host port conn))) = Inr n"
  using assms by (simp add: ftp_connect_def ftp_file_size_def command_def)

end
