(* ===== verification/Quic_Client.thy ===== *)
theory Quic_Client
  imports Http_Client
begin

text \<open>
  \<open>tachyon-protocol/src/quic.rs\<close>: HTTP/3 over one QUIC connection, with a cache of the hosts for which
  a 0-RTT handshake is tried. quinn, h3, the URL parser and name resolution are parameters; a
  connection is the value they hand out, and \<open>alive\<close> says whether it has been closed since.
\<close>

section \<open>State\<close>

type_synonym sessions = "(string \<times> u8 list \<times> nat) list"

record ('c, 'h) quic_transport =
  qt_connection :: "'c option"
  qt_crypto :: bool
  qt_sessions :: sessions
  qt_h3_send :: "'h option"
  qt_h3_conn :: bool

definition SESSION_TOKEN_TTL :: nat where "SESSION_TOKEN_TTL = 3600"
definition MAX_SESSION_TOKENS :: nat where "MAX_SESSION_TOKENS = 256"

definition quic_new :: "('c, 'h) quic_transport" where
  "quic_new = \<lparr>qt_connection = None, qt_crypto = True, qt_sessions = [], qt_h3_send = None, qt_h3_conn = False\<rparr>"

definition with_endpoint :: "('c, 'h) quic_transport" where
  "with_endpoint = \<lparr>qt_connection = None, qt_crypto = False, qt_sessions = [], qt_h3_send = None, qt_h3_conn = False\<rparr>"

definition quic_is_connected :: "('c \<Rightarrow> bool) \<Rightarrow> ('c, 'h) quic_transport \<Rightarrow> bool" where
  "quic_is_connected alive qt = (case qt_connection qt of Some c \<Rightarrow> alive c | None \<Rightarrow> False)"

definition quic_disconnect :: "('c, 'h) quic_transport \<Rightarrow> ('c, 'h) quic_transport" where
  "quic_disconnect qt = qt\<lparr>qt_h3_send := None, qt_h3_conn := False, qt_connection := None\<rparr>"

definition cleanup_expired_sessions :: "nat \<Rightarrow> sessions \<Rightarrow> sessions" where
  "cleanup_expired_sessions now = filter (\<lambda>(_, _, cached_at). now - cached_at < SESSION_TOKEN_TTL)"

section \<open>Connecting\<close>

text \<open>
  \<open>qn_zero_rtt\<close>: a 0-RTT attempt fails at once, is not available, so that the same attempt goes on as
  1-RTT, or is answered by the server. \<open>qn_connect\<close> is a 1-RTT connection.
\<close>

datatype 'c zero_rtt = ZeroFails string | ZeroUnavailable "string + 'c" | ZeroAccepted 'c | ZeroRejected

record ('c, 'h) quic_net =
  qn_lookup :: "string \<Rightarrow> u16 \<Rightarrow> string + ip_addr list"
  qn_zero_rtt :: "ip_addr \<Rightarrow> u16 \<Rightarrow> string \<Rightarrow> 'c zero_rtt"
  qn_connect :: "ip_addr \<Rightarrow> u16 \<Rightarrow> string \<Rightarrow> string + 'c"
  qn_h3 :: "'c \<Rightarrow> string + 'h"
  qn_cert :: "'c \<Rightarrow> u8 list option"

definition connect_error :: "string + 'c \<Rightarrow> 'c download_result" where
  "connect_error r = map_err (\<lambda>e. Network (''QUIC: '' @ e)) r"

definition open_connection ::
    "('c, 'h) quic_net \<Rightarrow> nat \<Rightarrow> ip_addr \<Rightarrow> u16 \<Rightarrow> string \<Rightarrow> bool \<Rightarrow> sessions \<Rightarrow> sessions \<times> 'c download_result" where
  "open_connection net now ip port host crypto sessions =
     (if crypto then
        (let has_valid_session =
           (case map_of sessions host of
              Some (_, cached_at) \<Rightarrow> now - cached_at < SESSION_TOKEN_TTL
            | None \<Rightarrow> False)
         in if has_valid_session then
              (case qn_zero_rtt net ip port host of
                 ZeroFails e \<Rightarrow> (sessions, Inl (Network (''0-RTT: '' @ e)))
               | ZeroAccepted c \<Rightarrow> (sessions, Inr c)
               | ZeroRejected \<Rightarrow> (AList.delete host sessions, connect_error (qn_connect net ip port host))
               | ZeroUnavailable r \<Rightarrow> (sessions, connect_error r))
            else (AList.delete host sessions, connect_error (qn_connect net ip port host)))
      else (sessions, connect_error (qn_connect net ip port host)))"

text \<open>The oldest entry: the first with the least time in the order of the map.\<close>

fun oldest_key :: "sessions \<Rightarrow> string option" where
  "oldest_key [] = None"
| "oldest_key [(k, _, t)] = Some k"
| "oldest_key ((k, c, t) # (k', c', t') # es) =
     (if t \<le> t' then oldest_key ((k, c, t) # es) else oldest_key ((k', c', t') # es))"

definition remember_session :: "nat \<Rightarrow> string \<Rightarrow> u8 list option \<Rightarrow> sessions \<Rightarrow> sessions" where
  "remember_session now host cert sessions =
     (case cert of
        Some cert \<Rightarrow>
          if map_of sessions host \<noteq> None then sessions
          else
            (let sessions =
               (if length sessions \<ge> MAX_SESSION_TOKENS then
                  (let sessions = cleanup_expired_sessions now sessions
                   in if length sessions \<ge> MAX_SESSION_TOKENS
                      then (case oldest_key sessions of Some k \<Rightarrow> AList.delete k sessions | None \<Rightarrow> sessions)
                      else sessions)
                else sessions)
             in AList.update host (cert, now) sessions)
      | None \<Rightarrow> sessions)"

record quic_url =
  qu_host :: "string option"
  qu_port :: "u16 option"
  qu_path :: string
  qu_query :: "string option"

definition quic_connect ::
    "('c, 'h) quic_net \<Rightarrow> (string \<Rightarrow> string + quic_url) \<Rightarrow> nat \<Rightarrow> string \<Rightarrow> ('c, 'h) quic_transport \<Rightarrow>
     ('c, 'h) quic_transport \<times> unit download_result" where
  "quic_connect net parse now url qt =
     (case and_then (map_err (\<lambda>e. Network (''URL: '' @ e)) (parse url)) (\<lambda>parsed.
           and_then (ok_or (qu_host parsed) (Network ''no host'')) (\<lambda>host.
             let port = (case qu_port parsed of Some p \<Rightarrow> p | None \<Rightarrow> 443) in
             and_then (map_err (\<lambda>e. Network (''DNS: '' @ e)) (qn_lookup net host port)) (\<lambda>addrs.
             and_then (case addrs of [] \<Rightarrow> Inl (Network ''DNS: no result'') | ip # _ \<Rightarrow> Inr ip) (\<lambda>ip.
             and_then (reject_forbidden_ip ip) (\<lambda>_. Inr (host, port, ip)))))) of
        Inl e \<Rightarrow> (qt, Inl e)
      | Inr (host, port, ip) \<Rightarrow>
          (case open_connection net now ip port host (qt_crypto qt) (qt_sessions qt) of
             (sessions, Inl e) \<Rightarrow> (qt\<lparr>qt_sessions := sessions\<rparr>, Inl e)
           | (sessions, Inr c) \<Rightarrow>
               (let qt = qt\<lparr>qt_connection := Some c, qt_sessions := sessions\<rparr>;
                    qt = (case qn_h3 net c of
                            Inr h \<Rightarrow> qt\<lparr>qt_h3_send := Some h, qt_h3_conn := True\<rparr>
                          | Inl _ \<Rightarrow> qt\<lparr>qt_h3_send := None\<rparr>)
                in (qt\<lparr>qt_sessions := remember_session now host (qn_cert net c) (qt_sessions qt)\<rparr>, Inr ()))))"

section \<open>Requests\<close>

record h3_request =
  hr_method :: http_method
  hr_uri :: string
  hr_headers :: "(string \<times> string) list"

definition build_h3_request ::
    "(string \<Rightarrow> string + quic_url) \<Rightarrow> http_method \<Rightarrow> string \<Rightarrow> (string \<times> string) list \<Rightarrow> h3_request download_result" where
  "build_h3_request parse meth url extra_headers =
     and_then (map_err (\<lambda>e. Network (''URL: '' @ e)) (parse url)) (\<lambda>parsed.
     and_then (ok_or (qu_host parsed) (Network ''no host'')) (\<lambda>host.
       let path = (if qu_path parsed = [] then ''/'' else qu_path parsed);
           full_path = (case qu_query parsed of Some q \<Rightarrow> path @ ''?'' @ q | None \<Rightarrow> path)
       in Inr \<lparr>hr_method = meth, hr_uri = full_path,
               hr_headers = [(''host'', host), (''user-agent'', USER_AGENT), (''accept-encoding'', ''identity'')]
                            @ extra_headers\<rparr>))"

text \<open>Unlike the HTTP client, the name of a Content-Disposition header is not cleaned.\<close>

definition parse_h3_metadata ::
    "(ustr \<Rightarrow> ustr option) \<Rightarrow> http_response \<Rightarrow> string \<Rightarrow> file_metadata download_result" where
  "parse_h3_metadata url_path response url =
     (if \<not> is_success (rs_status response) then Inl (Protocol (''HTTP '' @ decimal (unat (rs_status response))))
      else
        (let hs = rs_header response in
         Inr \<lparr>md_file_name =
                of_ustr (case Option.bind (hs ''content-disposition'') (\<lambda>v. parse_content_disposition (to_ustr v)) of
                           Some n \<Rightarrow> n
                         | None \<Rightarrow> extract_filename_from_url url_path (to_ustr url)),
              md_file_size = Option.bind (hs ''content-length'') (\<lambda>v. parse_unsigned (to_ustr v)),
              md_content_type = hs ''content-type'',
              md_supports_range = (case hs ''accept-ranges'' of Some v \<Rightarrow> sublist ''bytes'' v | None \<Rightarrow> False),
              md_etag = hs ''etag'', md_last_modified = hs ''last-modified''\<rparr>))"

text \<open>The stream of the body: what a reader that never stops polling gets. An empty frame ends it.\<close>

fun h3_recv_streaming :: "(string + u8 list) list \<Rightarrow> u8 list download_result list" where
  "h3_recv_streaming [] = []"
| "h3_recv_streaming (Inr data # frames) = (if data = [] then [] else Inr data # h3_recv_streaming frames)"
| "h3_recv_streaming (Inl e # frames) = Inl (Network (''HTTP/3: '' @ e)) # h3_recv_streaming frames"

text \<open>
  The requests share their start. \<open>urls\<close> are the two views of a parsed URL, for the check and for the
  request; \<open>send\<close> is \<open>send_request\<close> with \<open>recv_response\<close> on the handle of the connection.
\<close>

type_synonym 'h h3_send = "'h \<Rightarrow> h3_request \<Rightarrow> string + http_response"

definition quic_request ::
    "('c \<Rightarrow> bool) \<Rightarrow> (string \<Rightarrow> string + url_view) \<times> (string \<Rightarrow> string + quic_url) \<Rightarrow> 'h h3_send \<Rightarrow>
     http_method \<Rightarrow> string \<Rightarrow> (string \<times> string) list \<Rightarrow> ('c, 'h) quic_transport \<Rightarrow> http_response download_result" where
  "quic_request alive urls send meth url extra qt =
     (if \<not> quic_is_connected alive qt then Inl (Protocol ''not connected'')
      else
        and_then (ok_or (qt_h3_send qt) (Protocol ''no HTTP/3 client'')) (\<lambda>h3.
        and_then (map_err (\<lambda>e. Network (''URL: '' @ e)) (fst urls url)) (\<lambda>parsed.
        and_then (validate_public_http_url parsed) (\<lambda>_.
        and_then (build_h3_request (snd urls) meth url extra) (\<lambda>request.
          map_err (\<lambda>e. Network (''HTTP/3: '' @ e)) (send h3 request))))))"

definition quic_probe ::
    "('c \<Rightarrow> bool) \<Rightarrow> (string \<Rightarrow> string + url_view) \<times> (string \<Rightarrow> string + quic_url) \<Rightarrow> 'h h3_send \<Rightarrow>
     (ustr \<Rightarrow> ustr option) \<Rightarrow> string \<Rightarrow> ('c, 'h) quic_transport \<Rightarrow> file_metadata download_result" where
  "quic_probe alive urls send url_path url qt =
     and_then (quic_request alive urls send HEAD url [] qt) (\<lambda>response. parse_h3_metadata url_path response url)"

definition quic_range_response ::
    "('c \<Rightarrow> bool) \<Rightarrow> (string \<Rightarrow> string + url_view) \<times> (string \<Rightarrow> string + quic_url) \<Rightarrow> 'h h3_send \<Rightarrow>
     string \<Rightarrow> u64 \<Rightarrow> u64 \<Rightarrow> ('c, 'h) quic_transport \<Rightarrow> http_response download_result" where
  "quic_range_response alive urls send url s e qt =
     and_then (quic_request alive urls send GET url [(''range'', range_header s e)] qt) (\<lambda>response.
       if rs_status response \<noteq> 206 then Inl (Protocol (''Range ignored: HTTP '' @ decimal (unat (rs_status response))))
       else Inr response)"

text \<open>The loops over the chunks: the first error ends them; only the whole download has a limit.\<close>

fun collect_chunks :: "u8 list \<Rightarrow> u8 list download_result list \<Rightarrow> u8 list download_result" where
  "collect_chunks acc [] = Inr acc"
| "collect_chunks acc (Inl e # _) = Inl e"
| "collect_chunks acc (Inr chunk # items) = collect_chunks (acc @ chunk) items"

fun collect_limited :: "usize \<Rightarrow> u8 list \<Rightarrow> u8 list download_result list \<Rightarrow> u8 list download_result" where
  "collect_limited total_size acc [] = Inr acc"
| "collect_limited total_size acc (Inl e # _) = Inl e"
| "collect_limited total_size acc (Inr chunk # items) =
     (let total_size = saturating_add total_size (of_nat (length chunk))
      in if total_size > MAX_FULL_DOWNLOAD_SIZE then Inl (Protocol ''too large'')
         else collect_limited total_size (acc @ chunk) items)"

definition quic_download_range ::
    "('c \<Rightarrow> bool) \<Rightarrow> (string \<Rightarrow> string + url_view) \<times> (string \<Rightarrow> string + quic_url) \<Rightarrow> 'h h3_send \<Rightarrow>
     string \<Rightarrow> u64 \<Rightarrow> u64 \<Rightarrow> ('c, 'h) quic_transport \<Rightarrow> u8 list download_result" where
  "quic_download_range alive urls send url s e qt =
     and_then (quic_range_response alive urls send url s e qt) (\<lambda>response.
       collect_chunks [] (h3_recv_streaming (rs_body response)))"

definition quic_download_range_stream ::
    "('c \<Rightarrow> bool) \<Rightarrow> (string \<Rightarrow> string + url_view) \<times> (string \<Rightarrow> string + quic_url) \<Rightarrow> 'h h3_send \<Rightarrow>
     string \<Rightarrow> u64 \<Rightarrow> u64 \<Rightarrow> ('c, 'h) quic_transport \<Rightarrow> u8 list download_result list download_result" where
  "quic_download_range_stream alive urls send url s e qt =
     and_then (quic_range_response alive urls send url s e qt) (\<lambda>response.
       Inr (h3_recv_streaming (rs_body response)))"

text \<open>The status of the response is not looked at.\<close>

definition quic_download_full ::
    "('c \<Rightarrow> bool) \<Rightarrow> (string \<Rightarrow> string + url_view) \<times> (string \<Rightarrow> string + quic_url) \<Rightarrow> 'h h3_send \<Rightarrow>
     string \<Rightarrow> ('c, 'h) quic_transport \<Rightarrow> u8 list download_result" where
  "quic_download_full alive urls send url qt =
     and_then (quic_request alive urls send GET url [] qt) (\<lambda>response.
       collect_limited 0 [] (h3_recv_streaming (rs_body response)))"

section \<open>The cache of sessions\<close>

lemma length_delete: "length (AList.delete k es) \<le> length es"
  by (simp add: AList.delete_eq)

lemma oldest_key_mem: "es \<noteq> [] \<Longrightarrow> \<exists>k \<in> fst ` set es. oldest_key es = Some k"
  by (induction es rule: oldest_key.induct) auto

lemma length_delete_mem: "k \<in> fst ` set es \<Longrightarrow> length (AList.delete k es) < length es"
  by (auto simp: AList.delete_eq intro!: length_filter_less)

lemma distinct_cleanup: "distinct (map fst es) \<Longrightarrow> distinct (map fst (cleanup_expired_sessions now es))"
  by (induction es) (auto simp: cleanup_expired_sessions_def)

definition sessions_ok :: "sessions \<Rightarrow> bool" where
  "sessions_ok es = (length es \<le> MAX_SESSION_TOKENS \<and> distinct (map fst es))"

lemma sessions_ok_delete: "sessions_ok es \<Longrightarrow> sessions_ok (AList.delete k es)"
  using length_delete[of k es] by (auto simp: sessions_ok_def AList.distinct_delete)

lemma open_connection_ok:
  "sessions_ok es \<Longrightarrow> sessions_ok (fst (open_connection net now ip port host crypto es))"
  by (simp add: open_connection_def Let_def sessions_ok_delete split: zero_rtt.split option.split)

lemma length_update_new: "map_of es k = None \<Longrightarrow> length (AList.update k v es) = Suc (length es)"
  by (induction es) (auto split: if_splits)

lemma remember_session_ok:
  assumes "sessions_ok es"
  shows "sessions_ok (remember_session now host cert es)"
proof -
  have room: "sessions_ok (AList.update host v es')" if "sessions_ok es'" "length es' < MAX_SESSION_TOKENS" for v es'
  proof (cases "map_of es' host")
    case None
    then show ?thesis using that by (simp add: sessions_ok_def length_update_new AList.distinct_update)
  next
    case (Some w)
    then have "length (AList.update host v es') = length es'"
      by (induction es') (auto split: if_splits)
    then show ?thesis using that by (simp add: sessions_ok_def AList.distinct_update)
  qed
  define es1 where "es1 = cleanup_expired_sessions now es"
  have 1: "sessions_ok es1"
    using assms distinct_cleanup[of es now]
      le_trans[OF length_filter_le[of "\<lambda>(_, _, t). now - t < SESSION_TOKEN_TTL" es], of MAX_SESSION_TOKENS]
    by (simp add: es1_def sessions_ok_def cleanup_expired_sessions_def)
  have 2: "\<exists>k. oldest_key es1 = Some k \<and> length (AList.delete k es1) < MAX_SESSION_TOKENS"
    if "length es1 \<ge> MAX_SESSION_TOKENS"
  proof -
    have "es1 \<noteq> []" using that by (auto simp: MAX_SESSION_TOKENS_def)
    then obtain k where k: "k \<in> fst ` set es1" "oldest_key es1 = Some k" using oldest_key_mem by blast
    then have "length (AList.delete k es1) < length es1" by (intro length_delete_mem)
    then show ?thesis using k(2) 1 by (auto simp: sessions_ok_def)
  qed
  show ?thesis
    using assms room 1 2 sessions_ok_delete[OF 1]
    by (auto simp: remember_session_def Let_def es1_def[symmetric] not_le split: option.splits)
qed

text \<open>
  However often a transport connects, to whatever hosts and with whatever outcomes, it remembers at
  most 256 hosts, each once; and it holds a connection only to an address that is public.
\<close>

fun quic_run ::
    "(('c, 'h) quic_net \<times> (string \<Rightarrow> string + quic_url) \<times> nat \<times> string) list \<Rightarrow> ('c, 'h) quic_transport \<Rightarrow>
     ('c, 'h) quic_transport" where
  "quic_run [] qt = qt"
| "quic_run ((net, parse, now, url) # calls) qt = quic_run calls (fst (quic_connect net parse now url qt))"

lemma quic_connect_ok:
  "sessions_ok (qt_sessions qt) \<Longrightarrow> sessions_ok (qt_sessions (fst (quic_connect net parse now url qt)))"
  using open_connection_ok[of "qt_sessions qt" net now]
  by (auto simp: quic_connect_def Let_def intro!: remember_session_ok split: sum.split prod.split)
    (metis fst_conv)+

theorem quic_sessions_bounded:
  "length (qt_sessions (quic_run calls quic_new)) \<le> 256 \<and> distinct (map fst (qt_sessions (quic_run calls quic_new)))"
proof -
  have "sessions_ok (qt_sessions qt) \<Longrightarrow> sessions_ok (qt_sessions (quic_run calls qt))" for qt
    by (induction calls qt rule: quic_run.induct) (simp_all add: quic_connect_ok)
  moreover have "sessions_ok (qt_sessions quic_new)" by (simp add: quic_new_def sessions_ok_def)
  ultimately show ?thesis by (metis MAX_SESSION_TOKENS_def sessions_ok_def)
qed

section \<open>What a download returns\<close>

text \<open>A body is returned as the file whatever the status says, the page of a missing file for example.\<close>

lemma quic_download_full_any_status:
  assumes "quic_request alive urls send GET url [] qt = Inr response"
  shows "quic_download_full alive urls send url qt = collect_limited 0 [] (h3_recv_streaming (rs_body response))"
  using assms by (simp add: quic_download_full_def)

text \<open>The connection is not the one of the URL: a request goes to whatever host was connected to.\<close>

lemma quic_request_any_host:
  assumes "quic_is_connected alive qt" "qt_h3_send qt = Some h" "fst urls url = Inr v"
    and "validate_public_http_url v = Inr ()" "build_h3_request (snd urls) meth url extra = Inr rq"
  shows "quic_request alive urls send meth url extra qt = map_err (\<lambda>e. Network (''HTTP/3: '' @ e)) (send h rq)"
  using assms by (simp add: quic_request_def)

text \<open>A name with a path in it reaches the metadata.\<close>

lemma parse_h3_metadata_unsafe_name:
  assumes "rs_status response = 200" "rs_header response ''content-disposition'' = Some ''attachment;filename=../../x''"
  shows "\<exists>md. parse_h3_metadata url_path response url = Inr md \<and> md_file_name md = ''../../x''"
proof -
  have "parse_content_disposition (to_ustr ''attachment;filename=../../x'') = Some (to_ustr ''../../x'')"
    by (simp add: parse_content_disposition_def to_ustr_def trim_def trim_matches_def is_whitespace_def)
  moreover have "of_ustr (to_ustr ''../../x'') = ''../../x''"
    by (simp add: of_ustr_def to_ustr_def utf8_encode_def utf8_char_def char_of_eq_iff)
  ultimately show ?thesis using assms by (simp add: parse_h3_metadata_def is_success_def Let_def)
qed

end
