(* ===== verification/Cpu_Verifier.thy ===== *)
theory Cpu_Verifier
  imports Errors Utf8 Byte_Reader
begin

text \<open>
  \<open>tachyon-crypto/src/cpu.rs\<close> and the trait \<open>Verifier\<close> of \<open>tachyon-core/src/traits.rs\<close>: hashing in one
  go and from a stream, and the comparison with an expected digest. BLAKE3 and SHA-256 come from
  crates: their incremental states, and the digest in hexadecimal of \<open>blake3::hash\<close>, are parameters.
\<close>

section \<open>Hashing\<close>

datatype hash_algorithm = Blake3 | Sha256

record cpu_verifier =
  cv_algorithm :: hash_algorithm

definition verifier_blake3 :: cpu_verifier where
  "verifier_blake3 = \<lparr>cv_algorithm = Blake3\<rparr>"

definition verifier_sha256 :: cpu_verifier where
  "verifier_sha256 = \<lparr>cv_algorithm = Sha256\<rparr>"

definition auto_select_verifier :: "u64 \<Rightarrow> cpu_verifier" where
  "auto_select_verifier _ = verifier_blake3"

record ('b, 's) hashers =
  b3_new :: 'b
  b3_update :: "u8 list \<Rightarrow> 'b \<Rightarrow> 'b"
  b3_finalize_hex :: "'b \<Rightarrow> string"
  b3_hash_hex :: "u8 list \<Rightarrow> string"
  sha_new :: 's
  sha_update :: "u8 list \<Rightarrow> 's \<Rightarrow> 's"
  sha_finalize :: "'s \<Rightarrow> u8 list"

definition HEX :: string where "HEX = ''0123456789abcdef''"

definition hex_encode :: "u8 list \<Rightarrow> string" where
  "hex_encode bytes = concat (map (\<lambda>b. [HEX ! unat (drop_bit 4 b), HEX ! unat (b AND 0x0f)]) bytes)"

definition compute_hash :: "('b, 's) hashers \<Rightarrow> cpu_verifier \<Rightarrow> u8 list \<Rightarrow> string download_result" where
  "compute_hash hs v data =
     (case cv_algorithm v of
        Blake3 \<Rightarrow> Inr (b3_hash_hex hs data)
      | Sha256 \<Rightarrow> Inr (hex_encode (sha_finalize hs (sha_update hs data (sha_new hs)))))"

text \<open>The loop over the reads; both algorithms have it.\<close>

function update_loop :: "(u8 list \<Rightarrow> 'h \<Rightarrow> 'h) \<Rightarrow> nat \<Rightarrow> byte_source \<Rightarrow> 'h \<Rightarrow> 'h download_result" where
  "update_loop upd chunk_size reader h =
     (case data_read chunk_size reader of
        (Inl e, _) \<Rightarrow> Inl (Io e)
      | (Inr buf, reader') \<Rightarrow> if buf = [] then Inr h else update_loop upd chunk_size reader' (upd buf h))"
  by pat_completeness auto
termination
  by (relation "measure (\<lambda>(upd, chunk_size, reader, h). data_size reader)") (auto dest: data_read_decreases[OF sym])

declare update_loop.simps [simp del]

definition compute_hash_streaming ::
    "('b, 's) hashers \<Rightarrow> cpu_verifier \<Rightarrow> byte_source \<Rightarrow> nat \<Rightarrow> string download_result" where
  "compute_hash_streaming hs v reader chunk_size =
     (case cv_algorithm v of
        Blake3 \<Rightarrow>
          and_then (update_loop (b3_update hs) chunk_size reader (b3_new hs)) (\<lambda>h.
            Inr (b3_finalize_hex hs h))
      | Sha256 \<Rightarrow>
          and_then (update_loop (sha_update hs) chunk_size reader (sha_new hs)) (\<lambda>h.
            Inr (hex_encode (sha_finalize hs h))))"

definition compute_hash_from_path ::
    "('b, 's) hashers \<Rightarrow> (string \<Rightarrow> string + byte_source) \<Rightarrow> cpu_verifier \<Rightarrow> string \<Rightarrow> nat \<Rightarrow> string download_result" where
  "compute_hash_from_path hs open_file v path chunk_size =
     and_then (map_err Io (open_file path)) (\<lambda>file. compute_hash_streaming hs v file chunk_size)"

section \<open>Comparison\<close>

text \<open>Strings are their bytes, one character each.\<close>

definition str_bytes :: "string \<Rightarrow> u8 list" where
  "str_bytes s = map (\<lambda>c. of_nat (of_char c)) s"

definition get_or_zero :: "u8 list \<Rightarrow> nat \<Rightarrow> u8" where
  "get_or_zero a i = (if i < length a then a ! i else 0)"

definition constant_time_eq_str :: "u8 list \<Rightarrow> u8 list \<Rightarrow> bool" where
  "constant_time_eq_str a b =
     (let len = max (length a) (length b);
          diff = foldl (\<lambda>diff i. diff OR (get_or_zero a i XOR get_or_zero b i))
                   (if length a \<noteq> length b then 1 else 0) [0..<len]
      in diff = 0)"

definition verify_data ::
    "(u8 list \<Rightarrow> string download_result) \<Rightarrow> u8 list \<Rightarrow> string \<Rightarrow> unit download_result" where
  "verify_data compute data expected_hash =
     and_then (compute data) (\<lambda>actual.
       if constant_time_eq_str (str_bytes actual) (str_bytes expected_hash) then Inr ()
       else Inl (ChecksumMismatch expected_hash actual))"

section \<open>The comparison is equality\<close>

lemma or_eq_0: "x OR y = 0 \<longleftrightarrow> x = 0 \<and> y = (0 :: 'a::len word)"
  by (auto simp: bit_eq_iff bit_or_iff)

lemma xor_eq_0: "x XOR y = 0 \<longleftrightarrow> x = (y :: 'a::len word)"
  by (auto simp: bit_eq_iff bit_xor_iff)

lemma foldl_or_eq_0:
  "foldl (\<lambda>d i. d OR f i) d0 is = (0 :: 'a::len word) \<longleftrightarrow> d0 = 0 \<and> (\<forall>i \<in> set is. f i = 0)"
  by (induction "is" arbitrary: d0) (auto simp: or_eq_0)

lemma constant_time_eq_iff: "constant_time_eq_str a b \<longleftrightarrow> a = b"
proof
  assume eq: "constant_time_eq_str a b"
  then have len: "length a = length b"
    by (simp add: constant_time_eq_str_def foldl_or_eq_0 split: if_splits)
  then have "\<forall>i < length a. a ! i = b ! i"
    using eq by (simp add: constant_time_eq_str_def foldl_or_eq_0 get_or_zero_def xor_eq_0)
  then show "a = b" using len by (intro nth_equalityI) auto
next
  assume "a = b"
  then show "constant_time_eq_str a b"
    unfolding constant_time_eq_str_def Let_def foldl_or_eq_0 by simp
qed

lemma str_bytes_inject [simp]: "str_bytes s = str_bytes t \<longleftrightarrow> s = t"
proof -
  have "inj (\<lambda>c. of_nat (of_char c) :: u8)"
  proof (rule injI)
    fix c d :: char
    assume "(of_nat (of_char c) :: u8) = of_nat (of_char d)"
    then have "unat (of_nat (of_char c) :: u8) = unat (of_nat (of_char d) :: u8)" by simp
    moreover have "(of_char c :: nat) < 256" "(of_char d :: nat) < 256"
      by (metis of_char_eq_iff nat_of_char_less_256)+
    ultimately have "(of_char c :: nat) = of_char d" by (simp add: unat_of_nat)
    then show "c = d" by simp
  qed
  then show ?thesis unfolding str_bytes_def by (simp add: inj_map_eq_map)
qed

text \<open>
  A verifier accepts data exactly when the digest it computes is the expected one, letter by
  letter, and reports both digests otherwise: the comparison that does not leave early is equality of
  strings, for strings of any lengths.
\<close>

theorem verify_data_iff:
  "verify_data (compute_hash hs v) data expected =
     (case compute_hash hs v data of
        Inl e \<Rightarrow> Inl e
      | Inr actual \<Rightarrow> if actual = expected then Inr () else Inl (ChecksumMismatch expected actual))"
  by (cases "compute_hash hs v data") (simp_all add: verify_data_def constant_time_eq_iff)

section \<open>Streams\<close>

text \<open>
  What the crates document: hashing in pieces is hashing the whole, and both ways of BLAKE3 agree.
\<close>

definition hashes :: "('b, 's) hashers \<Rightarrow> (u8 list \<Rightarrow> u8 list) \<Rightarrow> bool" where
  "hashes hs sha =
     ((\<forall>chunks. b3_finalize_hex hs (fold (b3_update hs) chunks (b3_new hs)) = b3_hash_hex hs (concat chunks)) \<and>
      (\<forall>chunks. sha_finalize hs (fold (sha_update hs) chunks (sha_new hs)) = sha (concat chunks)))"

lemma update_loop_delivers:
  assumes "delivers reader bytes" "0 < chunk_size"
  shows "\<exists>chunks. update_loop upd chunk_size reader h = Inr (fold upd chunks h) \<and> concat chunks = bytes"
  using assms(1)
proof (induction "length bytes" arbitrary: reader bytes h rule: less_induct)
  case less
  obtain b reader' where b: "data_read chunk_size reader = (Inr b, reader')"
    "delivers reader' (drop (length b) bytes)" "bytes = b @ drop (length b) bytes"
    "length b \<le> chunk_size" "b = [] \<longleftrightarrow> bytes = []"
    by (rule data_read_delivers[OF less.prems assms(2)])
  show ?case
  proof (cases "b = []")
    case True
    then show ?thesis using b by (auto simp: update_loop.simps[of upd chunk_size reader] intro: exI[of _ "[]"])
  next
    case False
    then have "length (drop (length b) bytes) < length bytes" using b(5) by (cases bytes) auto
    then obtain chunks where "update_loop upd chunk_size reader' (upd b h) = Inr (fold upd chunks (upd b h))"
      "concat chunks = drop (length b) bytes"
      using less.hyps b(2) by blast
    then show ?thesis
      using b(1,3) False by (intro exI[of _ "b # chunks"]) (simp add: update_loop.simps[of upd chunk_size reader])
  qed
qed

lemma update_loop_zero:
  assumes "delivers reader bytes"
  shows "update_loop upd 0 reader h = Inr h"
proof -
  obtain reader' where "data_read 0 reader = (Inr [], reader')"
    using assms by (cases "(0 :: nat, reader)" rule: data_read.cases) (auto simp: delivers_def)
  then show ?thesis by (subst update_loop.simps) simp
qed

text \<open>
  Hashing a stream is hashing its bytes: however the reads cut the stream into pieces, for any
  buffer size above zero and for both algorithms, the digest is the one of the whole data. A buffer
  of size zero reads nothing and gives the digest of the empty data, whatever the stream holds.
\<close>

theorem streaming_hash_equiv:
  assumes "hashes hs sha" "delivers reader bytes"
  shows "compute_hash_streaming hs v reader chunk_size =
    compute_hash hs v (if chunk_size = 0 then [] else bytes)"
proof -
  have b3: "b3_finalize_hex hs (fold (b3_update hs) chunks (b3_new hs)) = b3_hash_hex hs (concat chunks)" for chunks
    using assms(1) by (simp add: hashes_def)
  have sha: "sha_finalize hs (fold (sha_update hs) chunks (sha_new hs)) = sha (concat chunks)" for chunks
    using assms(1) by (simp add: hashes_def)
  have one: "sha_finalize hs (sha_update hs data (sha_new hs)) = sha data" for data
    using sha[of "[data]"] by simp
  show ?thesis
  proof (cases "chunk_size = 0")
    case True
    note z = update_loop_zero[OF assms(2)]
    have "b3_finalize_hex hs (b3_new hs) = b3_hash_hex hs []" "sha_finalize hs (sha_new hs) = sha []"
      using b3[of "[]"] sha[of "[]"] by simp_all
    then show ?thesis
      using True by (cases "cv_algorithm v") (simp_all add: compute_hash_streaming_def compute_hash_def z one)
  next
    case False
    obtain chunks where c: "update_loop (b3_update hs) chunk_size reader (b3_new hs) = Inr (fold (b3_update hs) chunks (b3_new hs))"
      "concat chunks = bytes"
      using update_loop_delivers[OF assms(2), of chunk_size "b3_update hs" "b3_new hs"] False by auto
    obtain chunks' where c': "update_loop (sha_update hs) chunk_size reader (sha_new hs) = Inr (fold (sha_update hs) chunks' (sha_new hs))"
      "concat chunks' = bytes"
      using update_loop_delivers[OF assms(2), of chunk_size "sha_update hs" "sha_new hs"] False by auto
    show ?thesis
      using False c c' by (cases "cv_algorithm v") (simp_all add: compute_hash_streaming_def compute_hash_def b3 sha one)
  qed
qed

text \<open>Hashers that keep the data, for the witness.\<close>

definition sample_hashers :: "(u8 list, u8 list) hashers" where
  "sample_hashers = \<lparr>b3_new = [], b3_update = (\<lambda>d h. h @ d), b3_finalize_hex = hex_encode, b3_hash_hex = hex_encode,
     sha_new = [], sha_update = (\<lambda>d h. h @ d), sha_finalize = (\<lambda>h. h)\<rparr>"

theorem streaming_hash_equiv_witness:
  "compute_hash_streaming sample_hashers verifier_sha256 [Inr [1, 2, 3], Inr [0xab]] 2 = Inr ''010203ab''"
proof -
  have "fold (\<lambda>d h. h @ d) chunks h = h @ concat chunks" for chunks and h :: "u8 list"
    by (induction chunks arbitrary: h) auto
  then have "hashes sample_hashers (\<lambda>d. d)" by (simp add: hashes_def sample_hashers_def)
  from streaming_hash_equiv[OF this, of "[Inr [1, 2, 3], Inr [0xab]]" "[1, 2, 3, 0xab]" verifier_sha256 2]
  show ?thesis
    by (simp add: delivers_def compute_hash_def verifier_sha256_def sample_hashers_def hex_encode_def HEX_def)
qed

section \<open>Hexadecimal\<close>

text \<open>Different data have different names in hexadecimal; digests in capital letters never match.\<close>

lemma length_HEX: "length HEX = 16"
  by (simp add: HEX_def)

lemma hex_encode_digits: "set (hex_encode bytes) \<subseteq> set HEX"
proof -
  have "unat (drop_bit 4 b) < 16" "unat (b AND 0x0f) < 16" for b :: u8
  proof -
    show "unat (drop_bit 4 b) < 16"
    proof -
      have "unat b < 2 ^ LENGTH(8)" by (rule unsigned_less)
      moreover have "unat (drop_bit 4 b) = unat b div 16"
        unfolding unat_drop_bit_eq by (simp add: drop_bit_eq_div)
      ultimately show ?thesis by simp
    qed
    show "unat (b AND 0x0f) < 16"
      using word_and_le1[of b "0x0f"] by (simp add: word_le_nat_alt)
  qed
  then have "HEX ! unat (drop_bit 4 b) \<in> set HEX" "HEX ! unat (b AND 0x0f) \<in> set HEX" for b :: u8
    by (auto intro!: nth_mem simp: length_HEX)
  then show ?thesis by (auto simp: hex_encode_def)
qed

lemma uppercase_digest_refused:
  assumes "c \<in> set expected" "c \<notin> set HEX"
  shows "verify_data (compute_hash hs verifier_sha256) data expected \<noteq> Inr ()"
proof -
  have "hex_encode d \<noteq> expected" for d using hex_encode_digits[of d] assms by blast
  then show ?thesis by (simp add: verify_data_iff compute_hash_def verifier_sha256_def)
qed

end
