(* ===== verification/Blake3_Gpu.thy ===== *)
theory Blake3_Gpu
  imports Cpu_Verifier
begin

text \<open>
  \<open>tachyon-crypto/src/gpu.rs\<close>: BLAKE3 on the GPU. The host side, the compute shader that the file holds
  as text, and the reduction of the chunk values to a root are translated; the device (whether it runs
  the work it is given), a read of the shader outside its buffer, \<open>blake3::hash\<close> and the two merge
  functions of \<open>blake3::hazmat\<close> are parameters. Chaining values are lists of eight words.
\<close>

section \<open>Compression\<close>

definition FLAG_PARENT :: u32 where "FLAG_PARENT = 4"
definition FLAG_ROOT :: u32 where "FLAG_ROOT = 8"

definition IV :: "u32 list" where
  "IV = [0x6A09E667, 0xBB67AE85, 0x3C6EF372, 0xA54FF53A, 0x510E527F, 0x9B05688C, 0x1F83D9AB, 0x5BE0CD19]"

definition MSG_PERMUTATION :: "nat list" where
  "MSG_PERMUTATION = [2, 6, 3, 10, 7, 0, 4, 13, 1, 11, 12, 5, 9, 14, 15, 8]"

definition GPU_MIN_SIZE :: nat where "GPU_MIN_SIZE = 64 * 1024 * 1024"
definition CHUNK_SIZE :: nat where "CHUNK_SIZE = 1024"
definition BLOCK_SIZE :: nat where "BLOCK_SIZE = 64"

text \<open>\<open>u32::rotate_right\<close>, by less than 32.\<close>

definition rotate_right :: "nat \<Rightarrow> u32 \<Rightarrow> u32" where
  "rotate_right n w = drop_bit n w OR push_bit (32 - n) w"

definition blake3_g :: "nat \<Rightarrow> nat \<Rightarrow> nat \<Rightarrow> nat \<Rightarrow> u32 \<Rightarrow> u32 \<Rightarrow> u32 list \<Rightarrow> u32 list" where
  "blake3_g a b c d mx my state =
     (let state = state[a := state ! a + state ! b + mx];
          state = state[d := rotate_right 16 (state ! d XOR state ! a)];
          state = state[c := state ! c + state ! d];
          state = state[b := rotate_right 12 (state ! b XOR state ! c)];
          state = state[a := state ! a + state ! b + my];
          state = state[d := rotate_right 8 (state ! d XOR state ! a)];
          state = state[c := state ! c + state ! d];
          state = state[b := rotate_right 7 (state ! b XOR state ! c)]
      in state)"

text \<open>A round: columns, diagonals, and the permutation of the message.\<close>

fun blake3_round :: "u32 list \<times> u32 list \<Rightarrow> u32 list \<times> u32 list" where
  "blake3_round (state, m) =
     (let state = blake3_g 0 4 8 12 (m ! 0) (m ! 1) state;
          state = blake3_g 1 5 9 13 (m ! 2) (m ! 3) state;
          state = blake3_g 2 6 10 14 (m ! 4) (m ! 5) state;
          state = blake3_g 3 7 11 15 (m ! 6) (m ! 7) state;
          state = blake3_g 0 5 10 15 (m ! 8) (m ! 9) state;
          state = blake3_g 1 6 11 12 (m ! 10) (m ! 11) state;
          state = blake3_g 2 7 8 13 (m ! 12) (m ! 13) state;
          state = blake3_g 3 4 9 14 (m ! 14) (m ! 15) state
      in (state, map (\<lambda>i. m ! i) MSG_PERMUTATION))"

text \<open>The seven rounds, in Rust and in the shader.\<close>

definition compress_inplace :: "u32 list \<Rightarrow> u32 list \<Rightarrow> u32 list" where
  "compress_inplace state m = fst ((blake3_round ^^ 7) (state, m))"

definition xor_fold :: "u32 list \<Rightarrow> u32 list" where
  "xor_fold state = map (\<lambda>i. state ! i XOR state ! (i + 8)) [0..<8]"

definition blake3_compress :: "u32 list \<Rightarrow> u32 list \<Rightarrow> u64 \<Rightarrow> u32 \<Rightarrow> u32 \<Rightarrow> u32 list" where
  "blake3_compress chaining block_words counter block_len flags =
     xor_fold (compress_inplace
       (chaining @ take 4 IV @ [ucast counter, ucast (drop_bit 32 counter), block_len, flags]) block_words)"

section \<open>Bytes and words\<close>

definition from_le_bytes :: "u8 list \<Rightarrow> u32" where
  "from_le_bytes bs = foldr (\<lambda>b w. push_bit 8 w OR ucast b) bs 0"

definition to_le_bytes :: "u32 \<Rightarrow> u8 list" where
  "to_le_bytes w = map (\<lambda>i. ucast (drop_bit (8 * i) w)) [0..<4]"

text \<open>\<open>chunks(4)\<close> of a list whose length is a multiple of four.\<close>

fun le_words :: "u8 list \<Rightarrow> u32 list" where
  "le_words (a # b # c # d # bs) = from_le_bytes [a, b, c, d] # le_words bs"
| "le_words bs = []"

definition cv_bytes :: "u32 list \<Rightarrow> u8 list" where
  "cv_bytes cv = concat (map to_le_bytes cv)"

definition hash_to_u32 :: "u8 list \<Rightarrow> u32 list" where
  "hash_to_u32 hash = le_words hash"

definition u32_to_hex :: "u32 list \<Rightarrow> string" where
  "u32_to_hex ws = hex_encode (concat (map to_le_bytes (take 8 ws)))"

section \<open>The reduction of the tree\<close>

record 'v merges =
  merge_non_root :: "'v \<Rightarrow> 'v \<Rightarrow> 'v"
  merge_root :: "'v \<Rightarrow> 'v \<Rightarrow> 'v"

text \<open>
  The stack has its top first. Popping an empty stack panics, as \<^term>\<open>None\<close>: the recursion over the
  stack is the loop over \<open>total_chunks\<close>.
\<close>

fun merge_even :: "'v merges \<Rightarrow> nat \<Rightarrow> 'v \<Rightarrow> 'v list \<Rightarrow> 'v list option" where
  "merge_even mg total_chunks new_cv [] = (if even total_chunks then None else Some [new_cv])"
| "merge_even mg total_chunks new_cv (left_cv # stack) =
     (if even total_chunks
      then merge_even mg (total_chunks div 2) (merge_non_root mg left_cv new_cv) stack
      else Some (new_cv # left_cv # stack))"

fun absorb :: "'v merges \<Rightarrow> nat \<Rightarrow> 'v list \<Rightarrow> 'v list \<Rightarrow> 'v list option" where
  "absorb mg chunk_idx stack [] = Some stack"
| "absorb mg chunk_idx stack (chunk_cv # cvs) =
     (case merge_even mg (chunk_idx + 1) chunk_cv stack of
        None \<Rightarrow> None
      | Some stack \<Rightarrow> absorb mg (chunk_idx + 1) stack cvs)"

text \<open>What is left on the stack, from the right: the root, or the only value there is.\<close>

datatype 'v collapsed = RootHash 'v | SingleCv 'v

fun collapse :: "'v merges \<Rightarrow> 'v list \<Rightarrow> 'v collapsed option" where
  "collapse mg [] = None"
| "collapse mg [cv] = Some (SingleCv cv)"
| "collapse mg [right_cv, left_cv] = Some (RootHash (merge_root mg left_cv right_cv))"
| "collapse mg (right_cv # left_cv # stack) = collapse mg (merge_non_root mg left_cv right_cv # stack)"

definition blake3_tree_reduce :: "u8 list merges \<Rightarrow> u32 list list \<Rightarrow> u32 list option" where
  "blake3_tree_reduce mg chunk_cvs =
     (if chunk_cvs = [] then None
      else
        (case absorb mg 0 [] (map cv_bytes chunk_cvs) of
           None \<Rightarrow> None
         | Some stack \<Rightarrow>
             (case collapse mg stack of
                None \<Rightarrow> None
              | Some (RootHash h) \<Rightarrow> Some (hash_to_u32 h)
              | Some (SingleCv cv) \<Rightarrow>
                  Some (blake3_compress IV (le_words cv @ replicate 8 0) 0 (of_nat BLOCK_SIZE)
                          (FLAG_PARENT OR FLAG_ROOT)))))"

section \<open>The shader\<close>

definition gpu_read :: "(nat \<Rightarrow> u32) \<Rightarrow> u32 list \<Rightarrow> u32 \<Rightarrow> u32" where
  "gpu_read oob input i = (if unat i < length input then input ! unat i else oob (unat i))"

text \<open>One block of a chunk; \<open>b\<close> is its number in the chunk.\<close>

definition shader_block ::
    "(nat \<Rightarrow> u32) \<Rightarrow> u32 list \<Rightarrow> u32 \<Rightarrow> u32 \<Rightarrow> u32 \<Rightarrow> u32 \<Rightarrow> u32 \<Rightarrow> u32 list \<Rightarrow> u32 list" where
  "shader_block oob input total_words chunk_idx chunk_data_len num_blocks b cv =
     (let block_start_word = (chunk_idx * 16 + b) * 16;
          m = map (\<lambda>j. if block_start_word + of_nat j < total_words
                       then gpu_read oob input (block_start_word + of_nat j) else 0) [0..<16];
          flags = (if b = 0 then 1 else 0) OR (if b = num_blocks - 1 then 2 else 0);
          block_len = (if b = num_blocks - 1 then chunk_data_len - b * 64 else 64)
      in xor_fold (compress_inplace (cv @ take 4 IV @ [b * 64, 0, block_len, flags]) m))"

definition shader_main :: "(nat \<Rightarrow> u32) \<Rightarrow> u32 list \<Rightarrow> u32 \<Rightarrow> u32 list option" where
  "shader_main oob input chunk_idx =
     (let total_words = gpu_read oob input 0;
          data_len = gpu_read oob input total_words;
          total_chunks = gpu_read oob input (total_words + 2)
      in if chunk_idx \<ge> total_chunks then None
         else
           (let chunk_start_byte = chunk_idx * 1024;
                chunk_end_byte = min (chunk_start_byte + 1024) data_len;
                chunk_data_len = chunk_end_byte - chunk_start_byte;
                num_blocks = (chunk_data_len + 63) div 64
            in Some (foldl (\<lambda>cv b. shader_block oob input total_words chunk_idx chunk_data_len num_blocks (of_nat b) cv)
                       IV [0..<unat num_blocks])))"

section \<open>The host\<close>

text \<open>Buffers are cached between calls; a buffer is the words in it, zeros when it is new.\<close>

record gpu_verifier =
  gv_input :: "u32 list option"
  gv_output :: "u32 list option"
  gv_staging :: "u32 list option"
  gv_capacity :: nat

definition gpu_new :: gpu_verifier where
  "gpu_new = \<lparr>gv_input = None, gv_output = None, gv_staging = None, gv_capacity = 0\<rparr>"

definition overwrite :: "u32 list \<Rightarrow> u32 list \<Rightarrow> u32 list" where
  "overwrite ws buf = ws @ drop (length ws) buf"

definition input_buffer :: "u32 list \<Rightarrow> gpu_verifier \<Rightarrow> gpu_verifier \<times> u32 list" where
  "input_buffer ws gv =
     (case gv_input gv of
        Some buf \<Rightarrow>
          if gv_capacity gv \<ge> 4 * length ws
          then (gv\<lparr>gv_input := Some (overwrite ws buf)\<rparr>, overwrite ws buf)
          else (gv\<lparr>gv_input := Some ws, gv_capacity := 4 * length ws\<rparr>, ws)
      | None \<Rightarrow> (gv\<lparr>gv_input := Some ws, gv_capacity := 4 * length ws\<rparr>, ws))"

definition sized_buffer :: "nat \<Rightarrow> u32 list option \<Rightarrow> u32 list" where
  "sized_buffer n cached =
     (case cached of
        Some buf \<Rightarrow> if length buf \<ge> n then buf else replicate n 0
      | None \<Rightarrow> replicate n 0)"

definition chunk_count :: "u8 list \<Rightarrow> nat" where
  "chunk_count data = (max (length data) 1 + CHUNK_SIZE - 1) div CHUNK_SIZE"

definition padded :: "u8 list \<Rightarrow> u8 list" where
  "padded data = data @ replicate ((length data + BLOCK_SIZE - 1) div BLOCK_SIZE * BLOCK_SIZE - length data) 0"

definition gpu_words :: "u8 list \<Rightarrow> u32 list" where
  "gpu_words data =
     (let input_words = le_words (padded data)
      in input_words @ [of_nat (length data), of_nat (length input_words), 0, of_nat (chunk_count data)])"

definition write_cv :: "(nat \<Rightarrow> u32) \<Rightarrow> u32 list \<Rightarrow> u32 list \<Rightarrow> nat \<Rightarrow> u32 list" where
  "write_cv oob input out i =
     (case shader_main oob input (of_nat i) of
        None \<Rightarrow> out
      | Some cv \<Rightarrow> take (8 * i) out @ cv @ drop (8 * i + 8) out)"

definition dispatch :: "(nat \<Rightarrow> u32) \<Rightarrow> u32 list \<Rightarrow> nat \<Rightarrow> u32 list \<Rightarrow> u32 list" where
  "dispatch oob input groups out = foldl (write_cv oob input) out [0..<groups]"

fun chunks8 :: "nat \<Rightarrow> u32 list \<Rightarrow> u32 list list" where
  "chunks8 0 ws = []"
| "chunks8 (Suc n) ws = take 8 ws # chunks8 n (drop 8 ws)"

text \<open>
  \<open>compute_blake3\<close>. \<open>device\<close> says what becomes of work for so many workgroups: it runs, fails with an
  error, or panics. \<open>fst hash\<close> is \<open>blake3::hash\<close> in hexadecimal.
\<close>

definition compute_blake3 ::
    "(u8 list \<Rightarrow> string) \<times> u8 list merges \<Rightarrow> (nat \<Rightarrow> u32) \<Rightarrow> (u32 \<Rightarrow> (string + unit) option) \<Rightarrow> u8 list \<Rightarrow>
     gpu_verifier \<Rightarrow> (gpu_verifier \<times> string download_result) option" where
  "compute_blake3 hash oob device data gv =
     (if length data < GPU_MIN_SIZE then Some (gv, Inr (fst hash data))
      else
        (let num_chunks = chunk_count data;
             groups = (of_nat num_chunks :: u32);
             (gv, input) = input_buffer (gpu_words data) gv;
             out = sized_buffer (num_chunks * 8) (gv_output gv);
             staging = sized_buffer (num_chunks * 8) (gv_staging gv)
         in case device groups of
              None \<Rightarrow> None
            | Some (Inl e) \<Rightarrow> Some (gv\<lparr>gv_output := Some out, gv_staging := Some staging\<rparr>, Inl (Other e))
            | Some (Inr _) \<Rightarrow>
                (let out = dispatch oob input (unat groups) out;
                     staging = overwrite (take (num_chunks * 8) out) staging;
                     gv = gv\<lparr>gv_output := Some out, gv_staging := Some staging\<rparr>
                 in if length staging < num_chunks * 8 then Some (gv, Inl (Other ''output too short''))
                    else if num_chunks = 1 then Some (gv, Inr (fst hash data))
                    else
                      map_option (\<lambda>root. (gv, Inr (u32_to_hex root)))
                        (blake3_tree_reduce (snd hash) (chunks8 num_chunks staging)))))"

text \<open>\<open>auto_select_and_hash\<close>: a new verifier each time, or none when there is no usable device.\<close>

definition auto_select_and_hash ::
    "(u8 list \<Rightarrow> string) \<times> u8 list merges \<Rightarrow> (nat \<Rightarrow> u32) \<Rightarrow> (u32 \<Rightarrow> (string + unit) option) \<Rightarrow> bool \<Rightarrow>
     gpu_verifier download_result \<Rightarrow> u8 list \<Rightarrow> string download_result option" where
  "auto_select_and_hash hash oob device available made data =
     (if length data \<ge> GPU_MIN_SIZE \<and> available then
        (case made of
           Inl _ \<Rightarrow> Some (Inr (fst hash data))
         | Inr gv \<Rightarrow>
             (case compute_blake3 hash oob device data gv of
                None \<Rightarrow> None
              | Some (_, Inr h) \<Rightarrow> Some (Inr h)
              | Some (_, Inl _) \<Rightarrow> Some (Inr (fst hash data))))
      else Some (Inr (fst hash data)))"


section \<open>The tree of the specification\<close>

text \<open>The left subtree has the greatest power of two of chunks that leaves at least one to the right.\<close>

fun left_len :: "nat \<Rightarrow> nat" where
  "left_len n = (if n \<le> 2 then 1 else 2 * left_len ((n + 1) div 2))"

declare left_len.simps [simp del]

lemma left_len_pow: "2 ^ e < n \<Longrightarrow> n \<le> 2 ^ Suc e \<Longrightarrow> left_len n = 2 ^ e"
proof (induction e arbitrary: n)
  case 0
  then show ?case by (simp add: left_len.simps[of n])
next
  case (Suc e)
  have "2 < n" using Suc.prems(1) by (rule le_less_trans[rotated]) simp
  moreover have "2 ^ e < (n + 1) div 2" "(n + 1) div 2 \<le> 2 ^ Suc e" using Suc.prems by simp_all
  ultimately show ?case using Suc.IH by (simp add: left_len.simps[of n])
qed

lemma left_len_bounds: "2 \<le> n \<Longrightarrow> 0 < left_len n \<and> left_len n < n"
proof (induction n rule: left_len.induct)
  case (1 n)
  show ?case
  proof (cases "n \<le> 2")
    case True
    then have "left_len n = 1" by (simp add: left_len.simps[of n])
    then show ?thesis using 1(2) by simp
  next
    case False
    then have "0 < left_len ((n + 1) div 2) \<and> left_len ((n + 1) div 2) < (n + 1) div 2" using 1(1) by simp
    then show ?thesis using False by (simp add: left_len.simps[of n]) linarith
  qed
qed

function subtree :: "'v merges \<Rightarrow> 'v list \<Rightarrow> 'v" where
  "subtree mg cvs =
     (if length cvs \<le> 1 then hd cvs
      else merge_non_root mg (subtree mg (take (left_len (length cvs)) cvs))
             (subtree mg (drop (left_len (length cvs)) cvs)))"
  by pat_completeness auto
termination
proof (relation "measure (\<lambda>(mg, cvs). length cvs)", goal_cases)
  case (2 mg cvs)
  then show ?case using left_len_bounds[of "length cvs"] by simp
next
  case (3 mg cvs)
  then have "0 < left_len (length cvs)" using left_len_bounds[of "length cvs"] by simp
  then show ?case using 3 by simp
qed simp

declare subtree.simps [simp del]

definition root_hash :: "'v merges \<Rightarrow> 'v list \<Rightarrow> 'v" where
  "root_hash mg cvs =
     merge_root mg (subtree mg (take (left_len (length cvs)) cvs)) (subtree mg (drop (left_len (length cvs)) cvs))"

lemma subtree_single [simp]: "subtree mg [c] = c"
  by (simp add: subtree.simps)

lemma subtree_append:
  assumes "length xs = 2 ^ e" "0 < length ys" "length ys \<le> 2 ^ e"
  shows "subtree mg (xs @ ys) = merge_non_root mg (subtree mg xs) (subtree mg ys)"
    and "root_hash mg (xs @ ys) = merge_root mg (subtree mg xs) (subtree mg ys)"
proof -
  have "left_len (length (xs @ ys)) = 2 ^ e" using assms by (intro left_len_pow) simp_all
  moreover have "0 < length xs" using assms(1) by simp
  then have "\<not> length (xs @ ys) \<le> 1" using assms(2) unfolding length_append by linarith
  ultimately show "subtree mg (xs @ ys) = merge_non_root mg (subtree mg xs) (subtree mg ys)"
    "root_hash mg (xs @ ys) = merge_root mg (subtree mg xs) (subtree mg ys)"
    using assms(1) by (simp_all add: subtree.simps[of mg "xs @ ys"] root_hash_def)
qed

section \<open>The stack\<close>

text \<open>The chunks under the entries of the stack, from its top: ascending powers of two.\<close>

fun pow_segs :: "nat \<Rightarrow> 'v list list \<Rightarrow> bool" where
  "pow_segs j [] = True"
| "pow_segs j (s # ss) = (\<exists>e \<ge> j. length s = 2 ^ e \<and> pow_segs (Suc e) ss)"

abbreviation total_len :: "'v list list \<Rightarrow> nat" where
  "total_len ss \<equiv> sum_list (map length ss)"

lemma pow_segs_mono: "pow_segs j ss \<Longrightarrow> i \<le> j \<Longrightarrow> pow_segs i ss"
  by (cases ss) (auto intro: le_trans)

lemma pow_segs_dvd: "pow_segs j ss \<Longrightarrow> 2 ^ j dvd total_len ss"
proof (induction ss arbitrary: j)
  case (Cons s ss)
  then obtain e where e: "j \<le> e" "length s = 2 ^ e" "pow_segs (Suc e) ss" by auto
  have d: "(2 :: nat) ^ j dvd 2 ^ e" "(2 :: nat) ^ j dvd 2 ^ Suc e" using e(1) by (auto intro!: le_imp_power_dvd simp del: power_Suc)
  have "2 ^ j dvd total_len ss" by (rule dvd_trans[OF d(2) Cons.IH[OF e(3)]])
  then show ?case using e(2) d(1) by simp
qed simp

lemma merge_even_spec:
  assumes "pow_segs j ss" "length cur = 2 ^ j" "total_len ss + 2 ^ j = t * 2 ^ j"
  shows "\<exists>ss'. merge_even mg t (subtree mg cur) (map (subtree mg) ss) = Some (map (subtree mg) ss') \<and>
    pow_segs 0 ss' \<and> ss' \<noteq> [] \<and> concat (rev ss') = concat (rev ss) @ cur"
  using assms
proof (induction ss arbitrary: j cur t)
  case Nil
  then have "t = 1" by simp
  then show ?case using Nil by (intro exI[of _ "[cur]"]) auto
next
  case (Cons s ss)
  then obtain e where e: "j \<le> e" "length s = 2 ^ e" "pow_segs (Suc e) ss" by auto
  have dvd: "2 ^ Suc e dvd total_len ss" by (rule pow_segs_dvd[OF e(3)])
  show ?case
  proof (cases "e = j")
    case True
    obtain k where k: "total_len ss = 2 ^ Suc j * k" using dvd True by (auto elim: dvdE)
    have "t * 2 ^ j = 2 * (k + 1) * 2 ^ j"
      using Cons.prems(3) e(2) True k by (simp add: algebra_simps)
    then have t: "t = 2 * (k + 1)" by (simp only: mult_cancel2) simp
    have "length (s @ cur) = 2 ^ Suc j" using e(2) True Cons.prems(2) by simp
    moreover have "pow_segs (Suc j) ss" using e(3) True by simp
    moreover have "total_len ss + 2 ^ Suc j = (t div 2) * 2 ^ Suc j" using k t by (simp add: algebra_simps)
    ultimately obtain ss' where "merge_even mg (t div 2) (subtree mg (s @ cur)) (map (subtree mg) ss) = Some (map (subtree mg) ss')"
      "pow_segs 0 ss'" "ss' \<noteq> []" "concat (rev ss') = concat (rev ss) @ (s @ cur)"
      using Cons.IH by blast
    moreover have "subtree mg (s @ cur) = merge_non_root mg (subtree mg s) (subtree mg cur)"
      using e(2) True Cons.prems(2) by (intro subtree_append(1)[of s j cur]) simp_all
    ultimately show ?thesis using t by auto
  next
    case False
    then have "Suc j \<le> e" using e(1) by simp
    then have d: "(2 :: nat) ^ Suc j dvd 2 ^ e" "(2 :: nat) ^ Suc j dvd 2 ^ Suc e" by (auto intro!: le_imp_power_dvd simp del: power_Suc)
    have "2 ^ Suc j dvd total_len ss" by (rule dvd_trans[OF d(2) dvd])
    then have "2 ^ Suc j dvd total_len (s # ss)" using e(2) d(1) by (simp del: power_Suc)
    then obtain k where "total_len (s # ss) = 2 ^ Suc j * k" by (auto elim: dvdE)
    then have "t * 2 ^ j = (2 * k + 1) * 2 ^ j" using Cons.prems(3) by (simp add: algebra_simps)
    then have "t = 2 * k + 1" by (simp only: mult_cancel2) simp
    then have "odd t" by simp
    moreover have "pow_segs 0 (cur # s # ss)"
      using Cons.prems(2) e \<open>Suc j \<le> e\<close> by (auto intro!: exI[of _ j] exI[of _ e])
    ultimately show ?thesis by (intro exI[of _ "cur # s # ss"]) auto
  qed
qed

lemma absorb_spec:
  assumes "pow_segs 0 ss" "total_len ss = i"
  shows "\<exists>ss'. absorb mg i (map (subtree mg) ss) cvs = Some (map (subtree mg) ss') \<and> pow_segs 0 ss' \<and>
    concat (rev ss') = concat (rev ss) @ cvs"
  using assms
proof (induction cvs arbitrary: i ss)
  case (Cons c cvs)
  obtain ss1 where 1: "merge_even mg (i + 1) (subtree mg [c]) (map (subtree mg) ss) = Some (map (subtree mg) ss1)"
    "pow_segs 0 ss1" "concat (rev ss1) = concat (rev ss) @ [c]"
    using merge_even_spec[of 0 ss "[c]" "i + 1" mg] Cons.prems by auto
  have "total_len ss1 = length (concat (rev ss1))" by (simp add: length_concat rev_map[symmetric])
  also have "\<dots> = i + 1" using 1(3) Cons.prems(2) by (simp add: length_concat rev_map[symmetric])
  finally obtain ss' where "absorb mg (i + 1) (map (subtree mg) ss1) cvs = Some (map (subtree mg) ss')" "pow_segs 0 ss'"
    "concat (rev ss') = concat (rev ss1) @ cvs"
    using Cons.IH[OF 1(2)] by blast
  then show ?case using 1 by auto
qed auto

lemma collapse_spec:
  assumes "pow_segs j (s # ss)" "0 < length r" "length r \<le> 2 ^ j"
  shows "collapse mg (subtree mg r # map (subtree mg) (s # ss)) =
    Some (RootHash (root_hash mg (concat (rev (s # ss)) @ r)))"
  using assms
proof (induction ss arbitrary: j s r)
  case Nil
  then obtain e where "length s = 2 ^ e" "j \<le> e" by auto
  moreover have "length r \<le> 2 ^ e"
    using Nil.prems(3) \<open>j \<le> e\<close> by (meson le_trans one_le_numeral power_increasing)
  ultimately show ?case using subtree_append(2)[of s e r mg] Nil.prems(2) by simp
next
  case (Cons s' ss)
  then obtain e where e: "length s = 2 ^ e" "j \<le> e" "pow_segs (Suc e) (s' # ss)" by auto
  have r: "length r \<le> 2 ^ e" using Cons.prems(3) e(2) by (meson le_trans one_le_numeral power_increasing)
  have "collapse mg (subtree mg (s @ r) # map (subtree mg) (s' # ss)) =
      Some (RootHash (root_hash mg (concat (rev (s' # ss)) @ (s @ r))))"
    by (rule Cons.IH[OF e(3)]) (use e(1) r Cons.prems(2) in simp_all)
  moreover have "subtree mg (s @ r) = merge_non_root mg (subtree mg s) (subtree mg r)"
    by (rule subtree_append(1)[OF e(1) Cons.prems(2) r])
  ultimately show ?case by simp
qed

lemma pow_segs_not_pow:
  assumes "pow_segs j (s # ss)" "0 < n" "n < 2 ^ j"
  shows "\<exists>k. 2 ^ k < total_len (s # ss) + n \<and> total_len (s # ss) + n < 2 ^ Suc k"
  using assms
proof (induction ss arbitrary: j s n)
  case Nil
  then obtain e where "length s = 2 ^ e" "j \<le> e" by auto
  moreover have "n < 2 ^ e"
    using Nil.prems(3) \<open>j \<le> e\<close> by (meson less_le_trans one_le_numeral power_increasing)
  ultimately show ?case using Nil.prems(2) by (intro exI[of _ e]) simp
next
  case (Cons s' ss)
  then obtain e where e: "length s = 2 ^ e" "j \<le> e" "pow_segs (Suc e) (s' # ss)" by auto
  have "n < 2 ^ e" using Cons.prems(3) e(2) by (meson less_le_trans one_le_numeral power_increasing)
  then show ?case using Cons.IH[OF e(3), of "2 ^ e + n"] e(1) Cons.prems(2) by (simp add: add_ac)
qed

text \<open>
  C31. When the reduction on the GPU path gives the BLAKE3 root. For any number of chunks that is not a
  power of two the stack of partial trees computes the root of the tree of the specification. For
  every power of two, one included, it does not: the value of the whole tree, merged as an inner
  node, is compressed once more with an empty right child, and the root merge never happens.
\<close>

theorem tree_reduce_outcome:
  assumes "chunk_cvs \<noteq> []"
  shows "blake3_tree_reduce mg chunk_cvs =
    Some (if \<exists>e. length chunk_cvs = 2 ^ e
          then blake3_compress IV (le_words (subtree mg (map cv_bytes chunk_cvs)) @ replicate 8 0) 0 64 12
          else hash_to_u32 (root_hash mg (map cv_bytes chunk_cvs)))"
proof -
  obtain ss where ss: "absorb mg 0 [] (map cv_bytes chunk_cvs) = Some (map (subtree mg) ss)" "pow_segs 0 ss"
    "concat (rev ss) = map cv_bytes chunk_cvs"
    using absorb_spec[of "[]" 0 mg "map cv_bytes chunk_cvs"] by auto
  then obtain r rest where r: "ss = r # rest" using assms by (cases ss) auto
  then obtain e where e: "length r = 2 ^ e" "pow_segs (Suc e) rest" using ss(2) by auto
  have len: "length chunk_cvs = total_len ss"
    using arg_cong[OF ss(3), of length] by (simp add: length_concat rev_map[symmetric])
  have flags: "FLAG_PARENT OR FLAG_ROOT = 12" "of_nat BLOCK_SIZE = (64 :: u32)"
    by (simp_all add: FLAG_PARENT_def FLAG_ROOT_def BLOCK_SIZE_def)
  show ?thesis
  proof (cases rest)
    case Nil
    then have "length chunk_cvs = 2 ^ e" "map cv_bytes chunk_cvs = r" using len r e(1) ss(3) by simp_all
    then show ?thesis using ss(1) r Nil assms flags by (auto simp: blake3_tree_reduce_def)
  next
    case (Cons s rest')
    have "\<exists>k. 2 ^ k < total_len rest + length r \<and> total_len rest + length r < 2 ^ Suc k"
      using pow_segs_not_pow[of "Suc e" s rest' "length r"] e Cons by simp
    then obtain k where k: "2 ^ k < length chunk_cvs" "length chunk_cvs < 2 ^ Suc k" using len r by (auto simp: add_ac)
    have no: "\<not> (\<exists>e. length chunk_cvs = 2 ^ e)"
    proof
      assume "\<exists>e. length chunk_cvs = 2 ^ e"
      then obtain e' where "length chunk_cvs = 2 ^ e'" ..
      then have "(2 :: nat) ^ k < 2 ^ e'" "(2 :: nat) ^ e' < 2 ^ Suc k" using k by simp_all
      then have "k < e'" "e' < Suc k" by (meson one_less_numeral_iff power_less_imp_less_exp semiring_norm(76))+
      then show False by simp
    qed
    have "collapse mg (map (subtree mg) ss) = Some (RootHash (root_hash mg (concat (rev ss))))"
      using collapse_spec[of "Suc e" s rest' r mg] e Cons r by simp
    then show ?thesis using ss(1,3) r assms no by (auto simp: blake3_tree_reduce_def)
  qed
qed

definition sample_merges :: "u8 list merges" where
  "sample_merges = \<lparr>merge_non_root = (\<lambda>l r. r), merge_root = (\<lambda>l r. l)\<rparr>"

theorem tree_reduce_outcome_witness:
  "blake3_tree_reduce sample_merges
     [[1, 0, 0, 0, 0, 0, 0, 0], [2, 0, 0, 0, 0, 0, 0, 0], [3, 0, 0, 0, 0, 0, 0, 0]] = Some [2, 0, 0, 0, 0, 0, 0, 0]"
proof -
  let ?cvs = "[[1, 0, 0, 0, 0, 0, 0, 0], [2, 0, 0, 0, 0, 0, 0, 0], [3, 0, 0, 0, 0, 0, 0, 0]] :: u32 list list"
  have no: "\<not> (\<exists>e. length ?cvs = 2 ^ e)"
  proof
    assume "\<exists>e. length ?cvs = 2 ^ e"
    then obtain e where "length ?cvs = 2 ^ e" ..
    then have e: "3 = (2 :: nat) ^ e" by simp
    then show False by (cases e) (simp_all, presburger)
  qed
  have l: "left_len (Suc (Suc (Suc 0))) = 2" by (simp add: left_len.simps)
  have s: "subtree sample_merges [a, b] = b" for a b
    by (simp add: subtree.simps left_len.simps sample_merges_def)
  have b: "to_le_bytes 0 = [0, 0, 0, 0]" "to_le_bytes 2 = [2, 0, 0, 0]" by (simp_all add: to_le_bytes_def upt_rec)
  have r: "root_hash sample_merges (map cv_bytes ?cvs) = cv_bytes [2, 0, 0, 0, 0, 0, 0, 0]"
  proof -
    have "merge_root sample_merges a b = a" for a b by (simp add: sample_merges_def)
    then show ?thesis by (simp add: root_hash_def l s)
  qed
  have "blake3_tree_reduce sample_merges ?cvs = Some (hash_to_u32 (cv_bytes [2, 0, 0, 0, 0, 0, 0, 0]))"
    using tree_reduce_outcome[of ?cvs sample_merges] unfolding if_not_P[OF no] r by simp
  then show ?thesis by (simp add: cv_bytes_def b hash_to_u32_def from_le_bytes_def)
qed

section \<open>What the shader reads\<close>

text \<open>
  The host appends the length, the number of words, a zero and the number of chunks behind the data;
  the shader takes the first word of the data for the number of words and reads the rest from there.
\<close>

definition seen_chunks :: "(nat \<Rightarrow> u32) \<Rightarrow> u32 list \<Rightarrow> u32" where
  "seen_chunks oob input = gpu_read oob input (gpu_read oob input 0 + 2)"

lemma shader_main_None: "seen_chunks oob input = 0 \<Longrightarrow> shader_main oob input i = None"
  by (simp add: shader_main_def seen_chunks_def Let_def)

lemma dispatch_unseen:
  assumes "seen_chunks oob input = 0"
  shows "dispatch oob input groups out = out"
proof -
  have "foldl (write_cv oob input) out is = out" for "is"
    by (induction "is") (simp_all add: write_cv_def shader_main_None[OF assms])
  then show ?thesis by (simp add: dispatch_def)
qed

lemma input_buffer_new: "snd (input_buffer ws gpu_new) = ws" "gv_output (fst (input_buffer ws gpu_new)) = None"
  "gv_staging (fst (input_buffer ws gpu_new)) = None"
  by (simp_all add: input_buffer_def gpu_new_def)

text \<open>More workgroups than the default limit of 65535 in one direction are asked for, always.\<close>

lemma dispatch_over_limit: "GPU_MIN_SIZE \<le> length data \<Longrightarrow> 65535 < chunk_count data"
proof -
  assume "GPU_MIN_SIZE \<le> length data"
  then have "65536 * CHUNK_SIZE \<le> max (length data) 1 + CHUNK_SIZE - 1"
    by (simp add: GPU_MIN_SIZE_def CHUNK_SIZE_def)
  then have "65536 \<le> chunk_count data" unfolding chunk_count_def
    by (metis CHUNK_SIZE_def div_le_mono nonzero_mult_div_cancel_right zero_neq_numeral)
  then show ?thesis by simp
qed

text \<open>
  The GPU digest does not depend on the data. If the shader, for two data of the same length, finds
  a chunk count of zero where it looks for one, a new verifier gives the same result for both,
  whatever the device does: nothing is computed and the zeros of a new buffer are reduced.
\<close>

theorem gpu_digest_ignores_data:
  assumes "length data = length data'" "GPU_MIN_SIZE \<le> length data"
    and "seen_chunks oob (gpu_words data) = 0" "seen_chunks oob (gpu_words data') = 0"
  shows "map_option snd (compute_blake3 (hash, mg) oob device data gpu_new) =
    map_option snd (compute_blake3 (hash, mg) oob device data' gpu_new)"
proof -
  have c: "chunk_count data' = chunk_count data" using assms(1) by (simp add: chunk_count_def)
  have n1: "chunk_count data \<noteq> 1" using dispatch_over_limit[OF assms(2)] by simp
  have "map_option snd (compute_blake3 (hash, mg) oob device d gpu_new) =
      (let n = chunk_count data in
       case device (of_nat n) of
         None \<Rightarrow> None
       | Some (Inl e) \<Rightarrow> Some (Inl (Other e))
       | Some (Inr _) \<Rightarrow>
           (let staging = overwrite (take (n * 8) (replicate (n * 8) 0)) (replicate (n * 8) 0)
            in if length staging < n * 8 then Some (Inl (Other ''output too short''))
               else map_option (\<lambda>root. Inr (u32_to_hex root)) (blake3_tree_reduce mg (chunks8 n staging))))"
    if d: "length d = length data" "seen_chunks oob (gpu_words d) = 0" for d
  proof -
    obtain gv where gv: "input_buffer (gpu_words d) gpu_new = (gv, gpu_words d)" "gv_output gv = None" "gv_staging gv = None"
      using input_buffer_new[of "gpu_words d"] by (cases "input_buffer (gpu_words d) gpu_new") auto
    have "chunk_count d = chunk_count data" using d(1) by (simp add: chunk_count_def)
    then show ?thesis
      using assms(2) d(1) n1
      by (auto simp: compute_blake3_def gv Let_def sized_buffer_def dispatch_unseen[OF d(2)] option.map_comp comp_def
          split: option.splits sum.splits)
  qed
  from this[OF refl assms(3)] this[OF assms(1)[symmetric] assms(4)] show ?thesis by simp
qed

text \<open>
  Model files of the GGUF format start with four letters that point behind every buffer below four
  gigabytes; where reads outside a buffer give zero, the shader finds no chunks in any of them.
\<close>

lemma length_le_words: "length (le_words bs) = length bs div 4"
  by (induction bs rule: le_words.induct) simp_all

lemma padded_append: "\<exists>t. padded (p @ data) = p @ t"
  by (simp add: padded_def)

lemma gguf_unseen:
  assumes "length (gpu_words ([0x47, 0x47, 0x55, 0x46] @ data)) \<le> 0x46554747"
  shows "seen_chunks (\<lambda>_. 0) (gpu_words ([0x47, 0x47, 0x55, 0x46] @ data)) = 0"
proof -
  define input where "input = gpu_words ([0x47, 0x47, 0x55, 0x46] @ data)"
  obtain t where "padded ([0x47, 0x47, 0x55, 0x46] @ data) = [0x47, 0x47, 0x55, 0x46] @ t"
    using padded_append by blast
  then have "input ! 0 = 0x46554747 \<and> 0 < length input"
    by (simp add: input_def gpu_words_def from_le_bytes_def)
  then have "gpu_read (\<lambda>_. 0) input 0 = 0x46554747" by (simp add: gpu_read_def)
  moreover have "\<not> 0x46554749 < length input" using assms by (simp add: input_def)
  then have "gpu_read (\<lambda>_. 0) input (0x46554747 + 2) = 0" by (simp add: gpu_read_def)
  ultimately show ?thesis unfolding input_def[symmetric] seen_chunks_def by simp
qed

theorem gpu_digest_ignores_data_witness:
  "map_option snd (compute_blake3 (hex_encode, sample_merges) (\<lambda>_. 0) (\<lambda>_. Some (Inr ()))
       (replicate 12 0 @ replicate 67108852 1) gpu_new) =
   map_option snd (compute_blake3 (hex_encode, sample_merges) (\<lambda>_. 0) (\<lambda>_. Some (Inr ()))
       (replicate 12 0 @ replicate 67108852 7) gpu_new)"
proof -
  have z: "seen_chunks (\<lambda>_. 0) (gpu_words (replicate 12 0 @ data)) = 0" for data
  proof -
    have r: "replicate 12 0 = [0, 0, 0, 0, 0, 0, 0, 0, 0, 0, 0, (0 :: u8)]" by (simp add: numeral_eq_Suc)
    obtain t where "padded (replicate 12 0 @ data) = replicate 12 0 @ t"
      using padded_append by blast
    then obtain rest where "gpu_words (replicate 12 0 @ data) = 0 # 0 # 0 # rest"
      unfolding r by (simp add: gpu_words_def from_le_bytes_def)
    then show ?thesis by (simp add: seen_chunks_def gpu_read_def)
  qed
  show ?thesis
    by (rule gpu_digest_ignores_data[OF _ _ z z]) (simp_all add: GPU_MIN_SIZE_def)
qed

end
