(* ===== verification/App_Types.thy ===== *)
theory App_Types
  imports Recovery Url_Safety Filename
begin

text \<open>
  The data of \<open>tachyon-app\<close>: \<open>AppError\<close>, \<open>TaskInfo\<close> and the progress records of
  \<open>commands/mod.rs\<close>, and the conversions between a task and its snapshot in \<open>task_store.rs\<close>.
  Identifiers, names and paths that reach a snapshot are \<^typ>\<open>ustr\<close>, like its fields.
\<close>

datatype app_error =
    AppTaskNotFound ustr
  | TaskAlreadyExists string
  | AppNetwork string
  | AppConfig string
  | UnsupportedProtocol string
  | AppCore download_error

type_synonym 'a app_result = "app_error + 'a"

record task_info =
  ti_id :: ustr
  ti_url :: ustr
  ti_file_name :: ustr
  ti_file_size :: "u64 option"
  ti_downloaded :: u64
  ti_speed :: u64
  ti_status :: download_state
  ti_progress :: f64
  ti_fragments_total :: u32
  ti_fragments_done :: u32
  ti_created_at :: ustr

record task_progress_info =
  tp_id :: ustr
  tp_progress :: f64
  tp_speed :: u64
  tp_downloaded :: u64
  tp_status :: download_state
  tp_fragments_done :: u32

record download_progress =
  dp_task_id :: ustr
  dp_status :: download_state
  dp_progress :: f64
  dp_downloaded :: u64
  dp_file_size :: "u64 option"
  dp_speed :: u64
  dp_fragments_total :: u32
  dp_fragments_done :: u32

section \<open>Tasks and snapshots\<close>

definition normalize_recovered_status :: "download_state \<Rightarrow> download_state" where
  "normalize_recovered_status status =
     (if status = Downloading \<or> status = Verifying then Pending else status)"

definition snapshot_to_task_info :: "task_snapshot \<Rightarrow> task_info" where
  "snapshot_to_task_info s =
     \<lparr>ti_id = sn_id s, ti_url = sn_url s, ti_file_name = sn_file_name s, ti_file_size = sn_file_size s,
      ti_downloaded = sn_downloaded s, ti_speed = 0,
      ti_status = normalize_recovered_status (sn_status s),
      ti_progress =
        (case sn_file_size s of
           None \<Rightarrow> Fin 0
         | Some n \<Rightarrow> if n = 0 then Fin 0 else f64_div (f64_of_word (sn_downloaded s)) (f64_of_word n)),
      ti_fragments_total = sn_total_fragments s,
      ti_fragments_done = of_nat (length (sn_completed_fragments s)),
      ti_created_at = sn_created_at s\<rparr>"

definition task_info_to_snapshot ::
    "ustr \<Rightarrow> task_info \<Rightarrow> ustr \<Rightarrow> u64 \<Rightarrow> u32 list \<Rightarrow> ustr option \<Rightarrow> ustr option \<Rightarrow> task_snapshot" where
  "task_info_to_snapshot now t save_path fragment_size completed etag last_modified =
     \<lparr>sn_id = ti_id t, sn_url = ti_url t, sn_save_path = save_path, sn_file_name = ti_file_name t,
      sn_file_size = ti_file_size t, sn_downloaded = ti_downloaded t,
      sn_completed_fragments = completed, sn_total_fragments = ti_fragments_total t,
      sn_fragment_size = fragment_size, sn_status = ti_status t, sn_etag = etag,
      sn_last_modified = last_modified, sn_content_length = ti_file_size t,
      sn_created_at = ti_created_at t, sn_updated_at = now, sn_fail_reason = None, sn_retry_count = 0\<rparr>"

text \<open>What a restart keeps of a task: everything but the running state, the speed and the progress.\<close>

lemma task_of_snapshot_of_task:
  "snapshot_to_task_info (task_info_to_snapshot now t path frag_size completed etag lm) =
     t\<lparr>ti_speed := 0, ti_status := normalize_recovered_status (ti_status t),
       ti_progress := (case ti_file_size t of
           None \<Rightarrow> Fin 0
         | Some n \<Rightarrow> if n = 0 then Fin 0 else f64_div (f64_of_word (ti_downloaded t)) (f64_of_word n)),
       ti_fragments_done := of_nat (length completed)\<rparr>"
  by (cases t) (simp add: snapshot_to_task_info_def task_info_to_snapshot_def
      cong: option.case_cong if_cong)

end
