(* ===== verification/Hub.thy ===== *)
theory Hub
  imports Decimal App_Types "HOL-Library.Sublist"
begin

text \<open>
  \<open>tachyon-hub\<close> (\<open>token.rs\<close>, \<open>lfs.rs\<close>, \<open>api.rs\<close>) and \<open>hub_commands.rs\<close> of \<open>tachyon-app\<close>: the access
  token, pointers of Git LFS, the URLs of the model hub and the checks of what the front end sends.
  The environment, the file of the token, the server, JSON and the letters of Unicode are parameters.
\<close>

section \<open>Token and endpoint\<close>

record hub_env =
  he_var :: "string \<Rightarrow> ustr option"
  he_home :: "ustr option"
  he_token_file :: "ustr \<Rightarrow> ustr option"

text \<open>\<open>he_home\<close>: \<open>HOME\<close> or \<open>USERPROFILE\<close>; \<open>he_token_file\<close>: the file \<open>.huggingface/token\<close> below it.\<close>

definition trimmed :: "ustr option \<Rightarrow> ustr option" where
  "trimmed t = (case t of Some t \<Rightarrow> if trim t = [] then None else Some (trim t) | None \<Rightarrow> None)"

definition load_token :: "hub_env \<Rightarrow> ustr option" where
  "load_token env =
     (case trimmed (he_var env ''HF_TOKEN'') of
        Some t \<Rightarrow> Some t
      | None \<Rightarrow>
          (case trimmed (he_var env ''HUGGINGFACE_HUB_TOKEN'') of
             Some t \<Rightarrow> Some t
           | None \<Rightarrow>
               (case he_home env of
                  None \<Rightarrow> None
                | Some home \<Rightarrow> trimmed (he_token_file env home))))"

definition hf_endpoint :: "hub_env \<Rightarrow> ustr" where
  "hf_endpoint env =
     (case he_var env ''HF_ENDPOINT'' of
        Some e \<Rightarrow> if e = [] then to_ustr ''https://huggingface.co'' else e
      | None \<Rightarrow> to_ustr ''https://huggingface.co'')"

section \<open>LFS pointers\<close>

record lfs_pointer =
  lp_oid :: ustr
  lp_size :: u64

definition lfs_version :: ustr where
  "lfs_version = to_ustr ''version https://git-lfs.github.com/spec/v1''"

definition is_lfs_pointer :: "u8 list \<Rightarrow> bool" where
  "is_lfs_pointer data = (50 \<le> length data \<and> strip_prefix (utf8_encode lfs_version) data \<noteq> None)"

text \<open>\<open>str::lines\<close>: no empty line at the end, and no carriage return before a line feed.\<close>

definition strip_cr :: "ustr \<Rightarrow> ustr" where
  "strip_cr l = (if l \<noteq> [] \<and> last l = 13 then butlast l else l)"

definition str_lines :: "ustr \<Rightarrow> ustr list" where
  "str_lines s =
     (let pieces = split_on (\<lambda>c. c = 10) s
      in map strip_cr (butlast pieces) @ (if last pieces = [] then [] else [last pieces]))"

fun pointer_lines :: "ustr list \<Rightarrow> ustr option \<times> u64 option \<Rightarrow> ustr option \<times> u64 option" where
  "pointer_lines [] acc = acc"
| "pointer_lines (line # ls) (oid, bytes) =
     (case strip_prefix (to_ustr ''oid sha256:'') line of
        Some hash \<Rightarrow> pointer_lines ls (Some (trim hash), bytes)
      | None \<Rightarrow>
          (case strip_prefix (to_ustr ''size '') line of
             Some s \<Rightarrow>
               (case parse_unsigned (trim s) of
                  Some n \<Rightarrow> pointer_lines ls (oid, Some n)
                | None \<Rightarrow> pointer_lines ls (oid, bytes))
           | None \<Rightarrow> pointer_lines ls (oid, bytes)))"

definition parse_lfs_pointer :: "u8 list \<Rightarrow> lfs_pointer option" where
  "parse_lfs_pointer data =
     (if \<not> is_lfs_pointer data then None
      else
        (case pointer_lines (str_lines (from_utf8_lossy data)) (None, None) of
           (Some oid, Some bytes) \<Rightarrow> Some \<lparr>lp_oid = oid, lp_size = bytes\<rparr>
         | _ \<Rightarrow> None))"

definition build_resolve_url :: "ustr \<Rightarrow> ustr \<Rightarrow> ustr \<Rightarrow> ustr \<Rightarrow> ustr" where
  "build_resolve_url endpoint repo_id revision file_path =
     endpoint @ [47] @ repo_id @ to_ustr ''/resolve/'' @ revision @ [47] @ file_path"

definition build_tree_url :: "ustr \<Rightarrow> ustr \<Rightarrow> ustr \<Rightarrow> ustr" where
  "build_tree_url endpoint repo_id revision =
     endpoint @ to_ustr ''/api/models/'' @ repo_id @ to_ustr ''/tree/'' @ revision @ to_ustr ''?recursive=true''"

section \<open>The client\<close>

record hub_api =
  ha_endpoint :: ustr
  ha_token :: "ustr option"

definition hub_from_env :: "hub_env \<Rightarrow> hub_api" where
  "hub_from_env env = \<lparr>ha_endpoint = hf_endpoint env, ha_token = load_token env\<rparr>"

definition hub_with_endpoint :: "hub_env \<Rightarrow> ustr \<Rightarrow> hub_api" where
  "hub_with_endpoint env endpoint = \<lparr>ha_endpoint = endpoint, ha_token = load_token env\<rparr>"

definition hub_is_authenticated :: "hub_api \<Rightarrow> bool" where
  "hub_is_authenticated api = (ha_token api \<noteq> None)"

text \<open>
  The server answers a URL and an \<open>Authorization\<close> header with an error, or a status and what reading
  the body gives; \<open>decode\<close> is the JSON decoder.
\<close>

definition hub_list_files ::
    "(ustr \<Rightarrow> ustr option \<Rightarrow> string + u16 \<times> (string + ustr)) \<Rightarrow> (ustr \<Rightarrow> string + 'f list) \<Rightarrow> ustr \<Rightarrow> ustr \<Rightarrow>
     hub_api \<Rightarrow> 'f list download_result" where
  "hub_list_files send decode repo_id revision api =
     (let url = build_tree_url (ha_endpoint api) repo_id revision in
      and_then (map_err (\<lambda>e. Network (''HF API: '' @ e))
                  (send url (map_option (\<lambda>t. to_ustr ''Bearer '' @ t) (ha_token api)))) (\<lambda>(status, body).
        if \<not> (200 \<le> status \<and> status < 300) then Inl (Http status ''HF API'')
        else
          and_then (map_err (\<lambda>e. Network (''HF API body: '' @ e)) body) (\<lambda>text.
            map_err Serialization (decode text))))"

definition hub_download_url :: "ustr \<Rightarrow> ustr \<Rightarrow> ustr \<Rightarrow> hub_api \<Rightarrow> ustr" where
  "hub_download_url repo_id revision file_path api =
     build_resolve_url (ha_endpoint api) repo_id revision file_path"

section \<open>Commands\<close>

definition str_len :: "ustr \<Rightarrow> nat" where
  "str_len s = length (utf8_encode s)"

definition validate_repo_id :: "ustr \<Rightarrow> unit app_result" where
  "validate_repo_id repo_id =
     (if repo_id = [] \<or> str_len repo_id > 256 then Inl (AppConfig ''repo_id: length'')
      else if sublist [46, 46] repo_id \<or> 92 \<in> set repo_id then Inl (AppConfig ''repo_id: character'')
      else
        (let parts = split_on (\<lambda>c. c = 47) repo_id
         in if length parts \<noteq> 2 \<or> parts ! 0 = [] \<or> parts ! 1 = [] then Inl (AppConfig ''repo_id: owner/repo'')
            else Inr ()))"

definition validate_revision :: "(nat \<Rightarrow> bool) \<Rightarrow> ustr \<Rightarrow> unit app_result" where
  "validate_revision is_alphanumeric revision =
     (if revision = [] \<or> str_len revision > 128 then Inl (AppConfig ''revision: length'')
      else if \<not> list_all (\<lambda>c. is_alphanumeric c \<or> c = 45 \<or> c = 95 \<or> c = 46) revision
      then Inl (AppConfig ''revision: character'')
      else Inr ())"

definition validate_file_path :: "ustr \<Rightarrow> unit app_result" where
  "validate_file_path path =
     (if path = [] \<or> str_len path > 1024 then Inl (AppConfig ''file_path: length'')
      else if sublist [46, 46] path \<or> hd path = 47 \<or> hd path = 92 then Inl (AppConfig ''file_path: absolute'')
      else Inr ())"

definition main_revision :: "ustr option \<Rightarrow> ustr" where
  "main_revision revision = (case revision of Some r \<Rightarrow> r | None \<Rightarrow> to_ustr ''main'')"

definition list_repo_files ::
    "(ustr \<Rightarrow> ustr option \<Rightarrow> string + u16 \<times> (string + ustr)) \<Rightarrow> (ustr \<Rightarrow> string + 'f list) \<Rightarrow> (nat \<Rightarrow> bool) \<Rightarrow>
     hub_env \<Rightarrow> ustr \<Rightarrow> ustr option \<Rightarrow> 'f list app_result" where
  "list_repo_files send decode is_alphanumeric env repo_id revision =
     and_then (validate_repo_id repo_id) (\<lambda>_.
     and_then (validate_revision is_alphanumeric (main_revision revision)) (\<lambda>_.
       map_err AppCore (hub_list_files send decode repo_id (main_revision revision) (hub_from_env env))))"

definition get_hf_download_url ::
    "(nat \<Rightarrow> bool) \<Rightarrow> hub_env \<Rightarrow> ustr \<Rightarrow> ustr option \<Rightarrow> ustr \<Rightarrow> ustr app_result" where
  "get_hf_download_url is_alphanumeric env repo_id revision file_path =
     and_then (validate_repo_id repo_id) (\<lambda>_.
     and_then (validate_revision is_alphanumeric (main_revision revision)) (\<lambda>_.
     and_then (validate_file_path file_path) (\<lambda>_.
       Inr (hub_download_url repo_id (main_revision revision) file_path (hub_from_env env)))))"

section \<open>Reading a pointer back\<close>

text \<open>The pointer file as Git LFS writes it.\<close>

definition pointer_text :: "ustr \<Rightarrow> u64 \<Rightarrow> ustr" where
  "pointer_text oid n =
     join [10] [lfs_version, to_ustr ''oid sha256:'' @ oid, to_ustr ''size '' @ to_ustr (decimal (unat n)), []]"

lemma strip_prefix_append [simp]: "strip_prefix p (p @ s) = Some s"
  by (induction p) auto

lemma trim_no_space: "\<forall>c \<in> set s. \<not> is_whitespace c \<Longrightarrow> trim s = s"
proof -
  assume s: "\<forall>c \<in> set s. \<not> is_whitespace c"
  then have "dropWhile is_whitespace s = s" "dropWhile is_whitespace (rev s) = rev s"
    by (auto simp: dropWhile_eq_self_iff hd_rev intro: hd_in_set last_in_set)
  then show ?thesis by (simp add: trim_def trim_matches_def)
qed

lemma digits_visible: "c \<in> set (to_ustr (decimal n)) \<Longrightarrow> 48 \<le> c \<and> c \<le> 57"
  using decimal_digits[of n] by (auto simp: list_all_iff is_digit_def)

text \<open>
  A pointer that Git LFS wrote for an object name of hexadecimal digits, and any size, is read back
  as that name and size.
\<close>

theorem lfs_pointer_roundtrip:
  assumes "\<forall>c \<in> set oid. 48 \<le> c \<and> c \<le> 102"
  shows "parse_lfs_pointer (utf8_encode (pointer_text oid n)) = Some \<lparr>lp_oid = oid, lp_size = n\<rparr>"
proof -
  let ?d = "to_ustr (decimal (unat n))"
  let ?l2 = "to_ustr ''oid sha256:'' @ oid" and ?l3 = "to_ustr ''size '' @ ?d"
  have d: "\<forall>c \<in> set ?d. 48 \<le> c \<and> c \<le> 57" using digits_visible by blast
  have ps: "\<forall>p \<in> set [lfs_version, ?l2, ?l3, []]. \<forall>c \<in> set p. 32 \<le> c \<and> c < 128"
  proof -
    have "\<forall>c \<in> set oid. 32 \<le> c \<and> c < 128" "\<forall>c \<in> set ?d. 32 \<le> c \<and> c < 128"
      using assms d by fastforce+
    then show ?thesis by (simp add: lfs_version_def to_ustr_def ball_Un)
  qed
  then have "\<forall>p \<in> set [lfs_version, ?l2, ?l3, []]. \<forall>c \<in> set p. \<not> c = 10" by fastforce
  then have split: "split_on (\<lambda>c. c = 10) (pointer_text oid n) = [lfs_version, ?l2, ?l3, []]"
    unfolding pointer_text_def by (intro split_on_join) simp_all
  have cr: "strip_cr p = p" if "\<forall>c \<in> set p. 32 \<le> c \<and> c < 128" for p
    using that by (cases p rule: rev_cases) (auto simp: strip_cr_def)
  have lines: "str_lines (pointer_text oid n) = [lfs_version, ?l2, ?l3]"
    using ps by (simp add: str_lines_def split cr)
  have tr: "trim oid = oid" "trim ?d = ?d"
    using assms d by (auto intro!: trim_no_space simp: is_whitespace_def)
  have v: "strip_prefix (to_ustr ''oid sha256:'') lfs_version = None" "strip_prefix (to_ustr ''size '') lfs_version = None"
    "strip_prefix (to_ustr ''oid sha256:'') ?l3 = None"
    by (simp_all add: lfs_version_def to_ustr_def)
  have parsed: "pointer_lines (str_lines (pointer_text oid n)) (None, None) = (Some oid, Some n)"
    by (simp add: lines v tr parse_unsigned_decimal)
  have small: "\<forall>c \<in> set (pointer_text oid n). c < 128"
  proof
    fix c assume "c \<in> set (pointer_text oid n)"
    then have "c \<in> {10} \<union> (\<Union>p \<in> set [lfs_version, ?l2, ?l3, []]. set p)"
      using set_join[of "[10]" "[lfs_version, ?l2, ?l3, []]"] unfolding pointer_text_def by auto
    then show "c < 128" using ps by (elim UnE UN_E) auto
  qed
  have scalar: "\<forall>c \<in> set (pointer_text oid n). scalar c"
    using small by (fastforce simp: scalar_def)
  have pre: "pointer_text oid n = lfs_version @ [10] @ join [10] [?l2, ?l3, []]"
    by (simp add: pointer_text_def)
  have "utf8_encode (pointer_text oid n) = utf8_encode lfs_version @ utf8_encode ([10] @ join [10] [?l2, ?l3, []])"
    unfolding pre by (simp add: utf8_encode_def)
  moreover have "50 \<le> length (utf8_encode (pointer_text oid n))"
  proof -
    have "\<forall>c \<in> set s. c < 128 \<Longrightarrow> length (utf8_encode s) = length s" for s
      by (induction s) (auto simp: utf8_encode_def utf8_char_def)
    with small have "length (utf8_encode (pointer_text oid n)) = length (pointer_text oid n)" by blast
    then show ?thesis by (simp add: pre lfs_version_def to_ustr_def)
  qed
  ultimately have "is_lfs_pointer (utf8_encode (pointer_text oid n))" by (simp add: is_lfs_pointer_def)
  then show ?thesis
    by (simp add: parse_lfs_pointer_def from_utf8_lossy_encode[OF scalar] parsed)
qed

section \<open>The download URL\<close>

lemma join_split_on: "join [d] (split_on (\<lambda>c. c = d) s) = s"
proof (induction s)
  case (Cons c s)
  obtain p ps where p: "split_on (\<lambda>c. c = d) s = p # ps" by (cases "split_on (\<lambda>c. c = d) s") auto
  then show ?case using Cons by (cases ps) auto
qed simp

text \<open>
  An accepted request for a URL names a file of one repository: below the endpoint come the owner and
  the repository, each a single component that is not empty, and the file; nothing in them climbs up.
\<close>

theorem hf_download_url_shape:
  assumes "get_hf_download_url alnum env repo_id revision file_path = Inr url"
  shows "\<exists>owner repo. repo_id = owner @ [47] @ repo \<and> owner \<noteq> [] \<and> repo \<noteq> [] \<and> 47 \<notin> set owner \<union> set repo \<and>
    92 \<notin> set owner \<union> set repo \<and> \<not> sublist [46, 46] repo_id \<and> \<not> sublist [46, 46] file_path \<and> hd file_path \<noteq> 47 \<and>
    url = hf_endpoint env @ [47] @ owner @ [47] @ repo @ to_ustr ''/resolve/'' @ main_revision revision @ [47] @ file_path"
proof -
  have v: "validate_repo_id repo_id = Inr ()" "validate_file_path file_path = Inr ()"
    and url: "url = build_resolve_url (hf_endpoint env) repo_id (main_revision revision) file_path"
    using assms by (auto simp: get_hf_download_url_def hub_download_url_def hub_from_env_def)
  obtain owner repo where parts: "split_on (\<lambda>c. c = 47) repo_id = [owner, repo]" "owner \<noteq> []" "repo \<noteq> []"
    and nodots: "\<not> sublist [46, 46] repo_id" "92 \<notin> set repo_id"
    using v(1) by (auto simp: validate_repo_id_def Let_def length_Suc_conv numeral_2_eq_2 split: if_splits)
  have r: "repo_id = owner @ [47] @ repo" using join_split_on[of 47 repo_id] parts(1) by simp
  have "47 \<notin> set owner" "47 \<notin> set repo"
    using split_on_pieces[of owner "\<lambda>c. c = 47" repo_id] split_on_pieces[of repo "\<lambda>c. c = 47" repo_id] parts(1) by auto
  then show ?thesis
    using v(2) url r parts(2,3) nodots
    by (auto simp: validate_file_path_def build_resolve_url_def split: if_splits)
qed

text \<open>
  The name is not a plain one, though: a question mark in it, which no check refuses, ends the path.
\<close>

lemma repo_id_with_query: "validate_repo_id (to_ustr ''a?/b'') = Inr ()"
  by (simp add: validate_repo_id_def to_ustr_def str_len_def utf8_encode_def utf8_char_def sublist_code)

end
