(* ===== verification/Sniffer.thy ===== *)
theory Sniffer
  imports App_Types "HOL-Library.AList" "HOL-Library.Multiset" "HOL-Library.Sublist"
begin

text \<open>
  \<open>tachyon-sniffer\<close> (\<open>capture.rs\<close>, \<open>filter.rs\<close>, \<open>resources.rs\<close>) and \<open>sniffer_commands.rs\<close> of
  \<open>tachyon-app\<close>: which requests of a browser are kept as resources, and the list the front end sees.
  The URL parser, the lower case of Unicode, the hash of a URL and the clock are parameters.
\<close>

section \<open>Types of resources\<close>

datatype resource_type = RVideo | RAudio | RDocument | RArchive | RExecutable | RImage | RModel | ROther

fun resource_type_str :: "resource_type \<Rightarrow> string" where
  "resource_type_str RVideo = ''video''"
| "resource_type_str RAudio = ''audio''"
| "resource_type_str RDocument = ''document''"
| "resource_type_str RArchive = ''archive''"
| "resource_type_str RExecutable = ''executable''"
| "resource_type_str RImage = ''image''"
| "resource_type_str RModel = ''model''"
| "resource_type_str ROther = ''other''"

definition extensions :: "(string list \<times> resource_type) list" where
  "extensions =
     [([''mp4'', ''webm'', ''m3u8'', ''flv'', ''avi'', ''mkv'', ''mov'', ''ts''], RVideo),
      ([''mp3'', ''aac'', ''flac'', ''ogg'', ''wav'', ''wma'', ''m4a''], RAudio),
      ([''pdf'', ''doc'', ''docx'', ''ppt'', ''pptx'', ''xls'', ''xlsx''], RDocument),
      ([''zip'', ''rar'', ''7z'', ''tar'', ''gz'', ''bz2'', ''xz''], RArchive),
      ([''exe'', ''msi'', ''dmg'', ''appimage'', ''deb'', ''rpm''], RExecutable),
      ([''jpg'', ''jpeg'', ''png'', ''gif'', ''webp'', ''svg'', ''bmp''], RImage),
      ([''safetensors'', ''gguf'', ''bin'', ''pt'', ''pth'', ''onnx'', ''tflite'', ''h5'', ''pkl'', ''model''], RModel)]"

text \<open>What the code asks of a parsed URL: its path, its query pairs, and its text with other pairs.\<close>

record 'u sniff_env =
  se_parse :: "ustr \<Rightarrow> 'u option"
  se_path :: "'u \<Rightarrow> ustr"
  se_query_pairs :: "'u \<Rightarrow> (ustr \<times> ustr) list"
  se_with_pairs :: "'u \<Rightarrow> (ustr \<times> ustr) list \<Rightarrow> ustr"
  se_lowercase :: "ustr \<Rightarrow> ustr"
  se_hash :: "ustr \<Rightarrow> u64"

definition identify_resource :: "'u sniff_env \<Rightarrow> ustr \<Rightarrow> resource_type" where
  "identify_resource env url =
     (let path = (case se_parse env url of
                    Some u \<Rightarrow> se_path env u
                  | None \<Rightarrow> hd (split_on (\<lambda>c. c = 63) url));
          ext = last (split_on (\<lambda>c. c = 46) (se_lowercase env path))
      in case List.find (\<lambda>(exts, _). ext \<in> set (map to_ustr exts)) extensions of
           Some (_, t) \<Rightarrow> t
         | None \<Rightarrow> ROther)"

definition starts_with_str :: "ustr \<Rightarrow> string \<Rightarrow> bool" where
  "starts_with_str s p = (strip_prefix (to_ustr p) s \<noteq> None)"

definition from_content_type :: "(ustr \<Rightarrow> ustr) \<Rightarrow> ustr \<Rightarrow> resource_type option" where
  "from_content_type lowercase content_type =
     (let ct = lowercase content_type
      in if starts_with_str ct ''video/'' then Some RVideo
         else if starts_with_str ct ''audio/'' then Some RAudio
         else if starts_with_str ct ''image/'' then Some RImage
         else if list_ex (starts_with_str ct)
                   [''application/pdf'', ''application/msword'', ''application/vnd.openxmlformats''] then Some RDocument
         else if list_ex (starts_with_str ct)
                   [''application/zip'', ''application/x-rar'', ''application/x-7z'', ''application/gzip''] then Some RArchive
         else if starts_with_str ct ''application/octet-stream'' then Some ROther
         else None)"

section \<open>Capturing\<close>

record capture_config =
  cc_enabled_types :: "resource_type set"
  cc_min_size :: u64
  cc_url_filters :: "ustr list"

definition capture_config_default :: capture_config where
  "capture_config_default =
     \<lparr>cc_enabled_types = {RVideo, RAudio, RDocument, RArchive, RExecutable, RModel}, cc_min_size = 1024,
      cc_url_filters = []\<rparr>"

definition should_capture :: "'u sniff_env \<Rightarrow> ustr \<Rightarrow> capture_config \<Rightarrow> bool" where
  "should_capture env url config =
     (identify_resource env url \<in> cc_enabled_types config \<and>
      (cc_url_filters config = [] \<or> list_ex (\<lambda>f. sublist f url) (cc_url_filters config)))"

definition SENSITIVE_PARAM_NAMES :: "string list" where
  "SENSITIVE_PARAM_NAMES =
     [''token'', ''key'', ''secret'', ''auth'', ''session'', ''password'', ''passwd'', ''credential'',
      ''access_token'', ''api_key'', ''apikey'', ''jwt'', ''bearer'', ''sig'', ''signature'', ''client_secret'',
      ''refresh_token'']"

definition ascii_lowercase :: "ustr \<Rightarrow> ustr" where
  "ascii_lowercase s = map (\<lambda>c. if 65 \<le> c \<and> c \<le> 90 then c + 32 else c) s"

definition sensitive_key :: "ustr \<Rightarrow> bool" where
  "sensitive_key key = list_ex (\<lambda>n. sublist (to_ustr n) (ascii_lowercase key)) SENSITIVE_PARAM_NAMES"

definition redact_pair :: "ustr \<times> ustr \<Rightarrow> ustr \<times> ustr" where
  "redact_pair p = (if sensitive_key (fst p) then (fst p, to_ustr ''[REDACTED]'') else p)"

definition redact_sensitive_params :: "'u sniff_env \<Rightarrow> ustr \<Rightarrow> ustr" where
  "redact_sensitive_params env url =
     (case se_parse env url of
        None \<Rightarrow> url
      | Some parsed \<Rightarrow>
          if \<not> list_ex (\<lambda>(key, _). sensitive_key key) (se_query_pairs env parsed) then url
          else se_with_pairs env parsed (map redact_pair (se_query_pairs env parsed)))"

text \<open>The identifier is a number, which the code prints with sixteen digits, or a UUID.\<close>

record 'i sniffer_resource =
  sr_id :: 'i
  sr_url :: ustr
  sr_file_name :: ustr
  sr_type :: string
  sr_file_size :: "u64 option"
  sr_content_type :: "ustr option"
  sr_discovered_at :: u64
  sr_source_page :: "ustr option"

record resource_manager =
  rm_resources :: "(u64 \<times> u64 sniffer_resource) list"
  rm_config :: capture_config

definition manager_new :: "capture_config \<Rightarrow> resource_manager" where
  "manager_new config = \<lparr>rm_resources = [], rm_config = config\<rparr>"

text \<open>\<open>url_path\<close> is the parameter of \<open>extract_filename_from_url\<close>.\<close>

definition on_request ::
    "'u sniff_env \<Rightarrow> (ustr \<Rightarrow> ustr option) \<Rightarrow> u64 \<Rightarrow> ustr \<Rightarrow> ustr option \<Rightarrow> u64 option \<Rightarrow> ustr option \<Rightarrow>
     resource_manager \<Rightarrow> resource_manager \<times> bool" where
  "on_request env url_path now url content_type bytes source_page rm =
     (if \<not> should_capture env url (rm_config rm) then (rm, False)
      else if (case bytes of Some b \<Rightarrow> b < cc_min_size (rm_config rm) | None \<Rightarrow> False) then (rm, False)
      else if map_of (rm_resources rm) (se_hash env url) \<noteq> None then (rm, False)
      else
        (rm\<lparr>rm_resources := (se_hash env url,
            \<lparr>sr_id = se_hash env url, sr_url = redact_sensitive_params env url,
             sr_file_name = extract_filename_from_url url_path url,
             sr_type = resource_type_str (identify_resource env url), sr_file_size = bytes,
             sr_content_type = content_type, sr_discovered_at = now, sr_source_page = source_page\<rparr>)
           # rm_resources rm\<rparr>, True))"

text \<open>
  The stable sort of \<open>get_all\<close>. The order of a hash map is not specified; the model takes the last inserted
  first, which shows only among resources of one second.
\<close>

definition sort_newest :: "'i sniffer_resource list \<Rightarrow> 'i sniffer_resource list" where
  "sort_newest order = sort_key (\<lambda>r. - int (unat (sr_discovered_at r))) order"

definition manager_get_all :: "resource_manager \<Rightarrow> u64 sniffer_resource list" where
  "manager_get_all rm = sort_newest (map snd (rm_resources rm))"

definition manager_get_by_type :: "string \<Rightarrow> resource_manager \<Rightarrow> u64 sniffer_resource list" where
  "manager_get_by_type t rm = filter (\<lambda>r. sr_type r = t) (manager_get_all rm)"

definition manager_remove :: "u64 \<Rightarrow> resource_manager \<Rightarrow> resource_manager \<times> bool" where
  "manager_remove i rm =
     (rm\<lparr>rm_resources := AList.delete i (rm_resources rm)\<rparr>, map_of (rm_resources rm) i \<noteq> None)"

definition manager_clear :: "resource_manager \<Rightarrow> resource_manager" where
  "manager_clear rm = rm\<lparr>rm_resources := []\<rparr>"

definition manager_count :: "resource_manager \<Rightarrow> nat" where
  "manager_count rm = length (rm_resources rm)"

definition manager_set_config :: "capture_config \<Rightarrow> resource_manager \<Rightarrow> resource_manager" where
  "manager_set_config config rm = rm\<lparr>rm_config := config\<rparr>"

section \<open>Commands\<close>

record 'i sniffer_state =
  ss_store :: "'i sniffer_resource list"
  ss_filters :: "ustr list"

definition MAX_SNIFFER_RESOURCES :: nat where "MAX_SNIFFER_RESOURCES = 1000"

definition add_sniffer_resource ::
    "'u sniff_env \<Rightarrow> (ustr \<Rightarrow> ustr option) \<Rightarrow> 'i \<Rightarrow> u64 \<Rightarrow> ustr \<Rightarrow> 'i sniffer_state \<Rightarrow> 'i sniffer_state" where
  "add_sniffer_resource env url_path uuid now url ss =
     (if ss_filters ss \<noteq> [] \<and> \<not> list_ex (\<lambda>f. sublist f url) (ss_filters ss) then ss
      else
        (let resource =
           \<lparr>sr_id = uuid, sr_url = redact_sensitive_params env url,
            sr_file_name = extract_filename_from_url url_path url,
            sr_type = resource_type_str (identify_resource env url), sr_file_size = None,
            sr_content_type = None, sr_discovered_at = now, sr_source_page = None\<rparr>;
             store = ss_store ss
         in if list_ex (\<lambda>r. sr_url r = url) store then ss
            else
              (let store = (if length store \<ge> MAX_SNIFFER_RESOURCES then tl store else store)
               in ss\<lparr>ss_store := store @ [resource]\<rparr>)))"

definition get_sniffer_resources :: "'i sniffer_state \<Rightarrow> 'i sniffer_resource list" where
  "get_sniffer_resources ss = rev (ss_store ss)"

definition add_sniffer_filter :: "ustr \<Rightarrow> 'i sniffer_state \<Rightarrow> 'i sniffer_state \<times> unit app_result" where
  "add_sniffer_filter f ss =
     (if f = [] then (ss, Inl (AppConfig ''empty filter''))
      else if f \<in> set (ss_filters ss) then (ss, Inl (AppConfig ''filter exists''))
      else (ss\<lparr>ss_filters := ss_filters ss @ [f]\<rparr>, Inr ()))"

section \<open>The manager\<close>

datatype 'u manager_op =
    OpRequest "ustr \<Rightarrow> ustr option" u64 ustr "ustr option" "u64 option" "ustr option"
  | OpRemove u64
  | OpClear

fun manager_step :: "'u sniff_env \<Rightarrow> 'u manager_op \<Rightarrow> resource_manager \<Rightarrow> resource_manager" where
  "manager_step env (OpRequest url_path now url ct bytes page) rm = fst (on_request env url_path now url ct bytes page rm)"
| "manager_step env (OpRemove i) rm = fst (manager_remove i rm)"
| "manager_step env OpClear rm = manager_clear rm"

definition manager_inv :: "capture_config \<Rightarrow> resource_manager \<Rightarrow> bool" where
  "manager_inv config rm =
     (rm_config rm = config \<and> distinct (map fst (rm_resources rm)) \<and>
      (\<forall>(i, r) \<in> set (rm_resources rm). sr_id r = i \<and>
         sr_type r \<in> resource_type_str ` cc_enabled_types config \<and>
         (case sr_file_size r of Some b \<Rightarrow> cc_min_size config \<le> b | None \<Rightarrow> True)))"

lemma manager_inv_request:
  assumes "manager_inv config rm"
  shows "manager_inv config (fst (on_request env url_path now url ct bytes page rm))"
  using assms
  by (auto simp: manager_inv_def on_request_def should_capture_def map_of_eq_None_iff image_iff not_less
      split: option.splits)

lemma manager_inv_step: "manager_inv config rm \<Longrightarrow> manager_inv config (manager_step env op rm)"
proof (cases op)
  case (OpRemove i)
  assume "manager_inv config rm"
  then show ?thesis
    by (auto simp: OpRemove manager_remove_def manager_inv_def AList.delete_eq distinct_map_filter)
next
  case OpClear
  assume "manager_inv config rm"
  then show ?thesis by (simp add: OpClear manager_clear_def manager_inv_def)
qed (simp add: manager_inv_request)

text \<open>
  Under one configuration, whatever requests come and whatever is removed, the manager holds one resource for each identifier,
  of an enabled type, and none that is known to be smaller than the configured least size; the list
  it returns has these resources, the newest first.
\<close>

theorem manager_resources:
  assumes "rm = fold (manager_step env) ops (manager_new config)"
  shows "distinct (map sr_id (manager_get_all rm)) \<and>
    set (map sr_type (manager_get_all rm)) \<subseteq> resource_type_str ` cc_enabled_types config \<and>
    sorted (map (\<lambda>r. - int (unat (sr_discovered_at r))) (manager_get_all rm)) \<and>
    mset (manager_get_all rm) = mset (map snd (rm_resources rm))"
proof -
  have "manager_inv config r \<Longrightarrow> manager_inv config (fold (manager_step env) ops r)" for r
    by (induction ops arbitrary: r) (simp_all add: manager_inv_step)
  from this [of "manager_new config"] have inv: "manager_inv config rm"
    unfolding assms by (simp add: manager_inv_def manager_new_def)
  have ids: "map sr_id (map snd (rm_resources rm)) = map fst (rm_resources rm)"
    using inv by (auto simp: manager_inv_def)
  have perm: "mset (manager_get_all rm) = mset (map snd (rm_resources rm))"
    by (simp add: manager_get_all_def sort_newest_def)
  then have "mset (map sr_id (manager_get_all rm)) = mset (map fst (rm_resources rm))"
    by (metis ids mset_map)
  then have "distinct (map sr_id (manager_get_all rm))"
    using inv by (metis manager_inv_def mset_eq_imp_distinct_iff)
  moreover have "set (manager_get_all rm) = snd ` set (rm_resources rm)"
    by (simp add: manager_get_all_def sort_newest_def)
  then have "set (map sr_type (manager_get_all rm)) \<subseteq> resource_type_str ` cc_enabled_types config"
    using inv by (auto simp: manager_inv_def)
  ultimately show ?thesis
    using perm by (simp add: manager_get_all_def sort_newest_def sorted_sort_key)
qed

section \<open>The list of the front end\<close>

text \<open>
  What is kept is at most a thousand resources. A URL with a parameter that is redacted is not found
  again, since the stored text is compared with the whole URL: the same URL is added each time.
\<close>

lemma add_sniffer_resource_bounded:
  "length (ss_store ss) \<le> 1000 \<Longrightarrow> length (ss_store (add_sniffer_resource env url_path uuid now url ss)) \<le> 1000"
  by (auto simp: add_sniffer_resource_def Let_def MAX_SNIFFER_RESOURCES_def)

lemma redacted_url_added_again:
  assumes "\<forall>u. redact_sensitive_params env u \<noteq> url" "ss_filters ss = []" "length (ss_store ss) < 999"
    and "\<forall>r \<in> set (ss_store ss). sr_url r \<noteq> url"
  shows "length (ss_store (add_sniffer_resource env url_path uuid' now' url
      (add_sniffer_resource env url_path uuid now url ss))) = length (ss_store ss) + 2"
  using assms by (auto simp: add_sniffer_resource_def Let_def MAX_SNIFFER_RESOURCES_def list_ex_iff)

lemma add_sniffer_filter_distinct:
  "distinct (ss_filters ss) \<Longrightarrow> distinct (ss_filters (fst (add_sniffer_filter f ss)))"
  by (simp add: add_sniffer_filter_def)

text \<open>No value of a sensitive parameter is kept: the pairs written back have none.\<close>

lemma redact_pairs_safe:
  "(k, v) \<in> set (map redact_pair ps) \<Longrightarrow> sensitive_key k \<Longrightarrow> v = to_ustr ''[REDACTED]''"
  by (auto simp: redact_pair_def split: if_splits)

end
