(* ===== verification/Config_Commands.thy ===== *)
theory Config_Commands
  imports App_Types Config_Types Save_Path
begin

text \<open>
  \<open>tachyon-app/src/commands/config_commands.rs\<close>: the checks of a new configuration and the
  authorisation of a download directory, on the file system model. Texts of paths are kept as the
  code has them: a path that ends with a slash or a dot is followed by \<open>symlink_metadata\<close> and only
  exists when it is a directory.
\<close>

section \<open>Authorised roots\<close>

definition is_absolute :: "path \<Rightarrow> bool" where
  "is_absolute p = (p \<noteq> [] \<and> hd p = RootDir)"

definition is_forbidden_authorized_root :: "real_path \<Rightarrow> bool" where
  "is_forbidden_authorized_root canonical =
     (canonical = [] \<or> hd canonical \<in> {''usr'', ''etc'', ''System''})"

definition ends_open :: "string \<Rightarrow> bool" where
  "ends_open s = (suffix ''/'' s \<or> suffix ''/.'' s \<or> s = ''.'')"

definition text_exists :: "fs \<Rightarrow> real_path \<Rightarrow> string \<Rightarrow> bool" where
  "text_exists fs cwd s =
     (if ends_open s then is_dir fs cwd (parse_path s) else path_exists fs cwd (parse_path s))"

definition canonical_root :: "fs \<Rightarrow> real_path \<Rightarrow> string \<Rightarrow> real_path app_result" where
  "canonical_root fs cwd dir =
     (if dir = [] \<or> \<not> is_absolute (parse_path dir) \<or> \<not> text_exists fs cwd dir
      then Inl (AppConfig ''authorized_dirs path invalid'')
      else case canonicalize fs cwd (parse_path dir) of
        None \<Rightarrow> Inl (AppConfig ''authorized_dirs path unresolved'')
      | Some canonical \<Rightarrow>
          if node_at fs canonical \<noteq> Some FDir \<or> is_forbidden_authorized_root canonical
          then Inl (AppConfig ''authorized_dirs path invalid'')
          else Inr canonical)"

fun collect_roots :: "fs \<Rightarrow> real_path \<Rightarrow> string list \<Rightarrow> real_path list app_result" where
  "collect_roots fs cwd [] = Inr []"
| "collect_roots fs cwd (dir # dirs) =
     and_then (canonical_root fs cwd dir) (\<lambda>r.
     and_then (collect_roots fs cwd dirs) (\<lambda>rs. Inr (r # rs)))"

definition canonical_authorized_roots :: "fs \<Rightarrow> real_path \<Rightarrow> app_config \<Rightarrow> real_path list app_result" where
  "canonical_authorized_roots fs cwd config =
     (if authorized_dirs (download config) = [] then Inl (AppConfig ''authorized_dirs empty'')
      else collect_roots fs cwd (authorized_dirs (download config)))"

section \<open>Authorising a directory\<close>

text \<open>The ancestors of a path, the path itself first; \<open>first\<close> is whether that one exists.\<close>

function existing_ancestor :: "fs \<Rightarrow> real_path \<Rightarrow> path \<Rightarrow> path option" where
  "existing_ancestor fs cwd p =
     (if path_exists fs cwd p then Some p
      else case path_parent p of None \<Rightarrow> None | Some q \<Rightarrow> existing_ancestor fs cwd q)"
  by auto
termination
  by (relation "measure (\<lambda>(fs, cwd, p). length p)") (auto simp: path_parent_def split: if_splits)

declare existing_ancestor.simps [simp del]

definition deepest_existing_ancestor :: "fs \<Rightarrow> real_path \<Rightarrow> string \<Rightarrow> path option" where
  "deepest_existing_ancestor fs cwd s =
     (if text_exists fs cwd s then Some (parse_path s)
      else case path_parent (parse_path s) of
        None \<Rightarrow> None
      | Some q \<Rightarrow> existing_ancestor fs cwd q)"

definition missing_components_after :: "path \<Rightarrow> path \<Rightarrow> string list app_result" where
  "missing_components_after requested ancestor =
     (if prefix ancestor requested
      then Inr (concat (map (\<lambda>c. case c of Normal s \<Rightarrow> [s] | _ \<Rightarrow> []) (drop (length ancestor) requested)))
      else Inl (AppConfig ''download directory unresolved''))"

definition ensure_not_symlink :: "fs \<Rightarrow> real_path \<Rightarrow> bool \<Rightarrow> path \<Rightarrow> unit app_result" where
  "ensure_not_symlink fs cwd follow p =
     (case (if follow then Option.bind (canonicalize fs cwd p) (node_at fs) else lstat fs cwd p) of
        None \<Rightarrow> Inl (AppConfig ''download directory unresolved'')
      | Some (FLink _) \<Rightarrow> Inl (AppConfig ''download directory not authorised'')
      | Some _ \<Rightarrow> Inr ())"

definition ensure_authorized_directory ::
    "fs \<Rightarrow> real_path \<Rightarrow> real_path \<Rightarrow> real_path \<Rightarrow> unit app_result" where
  "ensure_authorized_directory fs cwd candidate base =
     and_then (ensure_not_symlink fs cwd False (path_of candidate)) (\<lambda>_.
       case canonicalize fs cwd (path_of candidate) of
         None \<Rightarrow> Inl (AppConfig ''download directory unresolved'')
       | Some canonical \<Rightarrow>
           if node_at fs canonical \<noteq> Some FDir \<or> \<not> starts_with canonical base
           then Inl (AppConfig ''download directory not authorised'')
           else Inr ())"

fun push_components ::
    "fs \<Rightarrow> real_path \<Rightarrow> real_path \<Rightarrow> string list \<Rightarrow> real_path \<Rightarrow> fs \<times> real_path app_result" where
  "push_components fs cwd candidate [] base = (fs, Inr candidate)"
| "push_components fs cwd candidate (s # ss) base =
     (if path_exists fs cwd (path_of (candidate @ [s])) then
        (case ensure_authorized_directory fs cwd (candidate @ [s]) base of
           Inl e \<Rightarrow> (fs, Inl e)
         | Inr _ \<Rightarrow> push_components fs cwd (candidate @ [s]) ss base)
      else case mkdir fs cwd (path_of (candidate @ [s])) of
        Inl _ \<Rightarrow> (fs, Inl (AppConfig ''create download directory''))
      | Inr fs' \<Rightarrow>
          (case ensure_authorized_directory fs' cwd (candidate @ [s]) base of
             Inl e \<Rightarrow> (fs', Inl e)
           | Inr _ \<Rightarrow> push_components fs' cwd (candidate @ [s]) ss base))"

definition create_authorized_dir_chain ::
    "fs \<Rightarrow> real_path \<Rightarrow> real_path \<Rightarrow> string list \<Rightarrow> real_path \<Rightarrow> fs \<times> real_path app_result" where
  "create_authorized_dir_chain fs cwd candidate missing base =
     (case ensure_authorized_directory fs cwd candidate base of
        Inl e \<Rightarrow> (fs, Inl e)
      | Inr _ \<Rightarrow> push_components fs cwd candidate missing base)"

definition authorize_below ::
    "fs \<Rightarrow> real_path \<Rightarrow> real_path \<Rightarrow> string list \<Rightarrow> real_path \<Rightarrow> fs \<times> real_path app_result" where
  "authorize_below fs cwd ancestor missing base =
     (case create_authorized_dir_chain fs cwd ancestor missing base of
        (fs', Inl e) \<Rightarrow> (fs', Inl e)
      | (fs', Inr candidate) \<Rightarrow>
          (case canonicalize fs' cwd (path_of candidate) of
             None \<Rightarrow> (fs', Inl (AppConfig ''download directory unresolved''))
           | Some r \<Rightarrow>
               if node_at fs' r \<noteq> Some FDir \<or> \<not> starts_with r base
               then (fs', Inl (AppConfig ''download directory not authorised''))
               else (fs', Inr r)))"

text \<open>From the deepest existing ancestor on.\<close>

definition authorize_from ::
    "fs \<Rightarrow> real_path \<Rightarrow> real_path list \<Rightarrow> string \<Rightarrow> path \<Rightarrow> fs \<times> real_path app_result" where
  "authorize_from fs cwd roots s ancestor =
     (let requested = parse_path s
      in case ensure_not_symlink fs cwd (ancestor = requested \<and> ends_open s) ancestor of
           Inl e \<Rightarrow> (fs, Inl e)
         | Inr _ \<Rightarrow>
             if \<not> is_dir fs cwd ancestor then (fs, Inl (AppConfig ''download directory is no directory''))
             else case canonicalize fs cwd ancestor of
               None \<Rightarrow> (fs, Inl (AppConfig ''download directory unresolved''))
             | Some canonical_ancestor \<Rightarrow>
                 (case List.find (\<lambda>base. starts_with canonical_ancestor base) roots of
                    None \<Rightarrow> (fs, Inl (AppConfig ''download directory not authorised''))
                  | Some base \<Rightarrow>
                      (case missing_components_after requested ancestor of
                         Inl e \<Rightarrow> (fs, Inl e)
                       | Inr missing \<Rightarrow>
                           authorize_below fs cwd canonical_ancestor missing base)))"

definition authorize_download_dir ::
    "fs \<Rightarrow> real_path \<Rightarrow> app_config \<Rightarrow> string \<Rightarrow> fs \<times> real_path app_result" where
  "authorize_download_dir fs cwd config requested_dir =
     (let requested = parse_path requested_dir
      in if requested_dir = [] then (fs, Inl (AppConfig ''download directory not authorised: empty''))
         else if \<not> is_absolute requested \<or> ParentDir \<in> set requested
         then (fs, Inl (AppConfig ''download directory not authorised''))
         else case canonical_authorized_roots fs cwd config of
           Inl e \<Rightarrow> (fs, Inl e)
         | Inr roots \<Rightarrow>
             (case deepest_existing_ancestor fs cwd requested_dir of
                None \<Rightarrow> (fs, Inl (AppConfig ''download directory not authorised''))
              | Some ancestor \<Rightarrow> authorize_from fs cwd roots requested_dir ancestor))"

section \<open>The configuration commands\<close>

fun check_dirs :: "fs \<Rightarrow> real_path \<Rightarrow> string list \<Rightarrow> unit app_result" where
  "check_dirs fs cwd [] = Inr ()"
| "check_dirs fs cwd (dir # dirs) =
     (if dir = [] then Inl (AppConfig ''authorized_dirs empty path'')
      else if \<not> is_absolute (parse_path dir) then Inl (AppConfig ''authorized_dirs absolute'')
      else if \<not> text_exists fs cwd dir then Inl (AppConfig ''authorized_dirs missing'')
      else case canonicalize fs cwd (parse_path dir) of
        None \<Rightarrow> Inl (AppConfig ''authorized_dirs unresolved'')
      | Some canonical \<Rightarrow>
          if node_at fs canonical \<noteq> Some FDir then Inl (AppConfig ''authorized_dirs directory'')
          else if is_forbidden_authorized_root canonical then Inl (AppConfig ''authorized_dirs system root'')
          else check_dirs fs cwd dirs)"

fun check_headers :: "(string \<times> string) list \<Rightarrow> unit app_result" where
  "check_headers [] = Inr ()"
| "check_headers ((key, val) # hs) =
     (if map ascii_lower key \<in> {''authorization'', ''cookie'', ''proxy-authorization''}
      then Inl (AppConfig ''headers sensitive'')
      else if CHR 0x0D \<in> set key \<or> CHR 0x0A \<in> set key then Inl (AppConfig ''headers key CR LF'')
      else if CHR 0x0D \<in> set val \<or> CHR 0x0A \<in> set val then Inl (AppConfig ''headers value CR LF'')
      else check_headers hs)"

definition validate_config :: "fs \<Rightarrow> real_path \<Rightarrow> app_config \<Rightarrow> unit app_result" where
  "validate_config fs cwd config =
     (case app_config_validate config of
        Inl (Config msg) \<Rightarrow> Inl (AppConfig msg)
      | Inl e \<Rightarrow> Inl (AppCore e)
      | Inr _ \<Rightarrow>
          and_then (check_dirs fs cwd (authorized_dirs (download config))) (\<lambda>_.
            check_headers (headers (download config))))"

definition update_config :: "fs \<Rightarrow> real_path \<Rightarrow> app_config \<Rightarrow> app_config \<Rightarrow> app_config \<times> unit app_result" where
  "update_config fs cwd config current =
     (case validate_config fs cwd config of
        Inl e \<Rightarrow> (current, Inl e)
      | Inr _ \<Rightarrow> (config, Inr ()))"

section \<open>Lemmas\<close>

lemma resolve_absolute:
  "is_absolute p \<Longrightarrow> resolve links fs cwd p = Some r \<Longrightarrow> link_free fs r"
  using resolve_link_free[of fs "[]" links "tl p" r] by (cases p) (auto simp: is_absolute_def)

lemma existing_ancestor_prefix: "existing_ancestor fs cwd p = Some a \<Longrightarrow> prefix a p \<and> a \<noteq> []"
proof (induction fs cwd p rule: existing_ancestor.induct)
  case (1 fs cwd p)
  show ?case
  proof (cases "path_exists fs cwd p")
    case True
    then have "a = p" using "1.prems" by (simp add: existing_ancestor.simps[of fs cwd p])
    with True show ?thesis by (auto simp: path_exists_def canonicalize_def)
  next
    case False
    then obtain q where q: "path_parent p = Some q" "existing_ancestor fs cwd q = Some a"
      using "1.prems" by (auto simp: existing_ancestor.simps[of fs cwd p] split: option.splits)
    with "1.IH"[OF False q(1)] show ?thesis
      by (auto simp: path_parent_def prefixeq_butlast intro: prefix_order.trans split: if_splits)
  qed
qed

lemma deepest_existing_ancestor_prefix:
  "deepest_existing_ancestor fs cwd s = Some a \<Longrightarrow> prefix a (parse_path s) \<and> a \<noteq> []"
  by (auto simp: deepest_existing_ancestor_def text_exists_def is_dir_def path_exists_def canonicalize_def
      path_parent_def split: if_splits option.splits
      dest!: existing_ancestor_prefix intro: prefix_order.trans prefixeq_butlast)

lemma collect_roots_spec:
  "collect_roots fs cwd dirs = Inr roots \<Longrightarrow> base \<in> set roots \<Longrightarrow>
     \<exists>dir \<in> set dirs. canonicalize fs cwd (parse_path dir) = Some base \<and>
       node_at fs base = Some FDir \<and> \<not> is_forbidden_authorized_root base"
proof (induction dirs arbitrary: roots)
  case (Cons dir dirs)
  from Cons.prems(1) obtain r rs where r: "canonical_root fs cwd dir = Inr r"
    "collect_roots fs cwd dirs = Inr rs" "roots = r # rs" by auto
  from r(1) have "canonicalize fs cwd (parse_path dir) = Some r \<and> node_at fs r = Some FDir \<and>
      \<not> is_forbidden_authorized_root r"
    by (auto simp: canonical_root_def split: if_splits option.splits)
  with Cons.IH[OF r(2)] Cons.prems(2) r(3) show ?case by auto
qed simp

lemma ensure_authorized_directory_Inr:
  assumes "ensure_authorized_directory fs cwd p base = Inr u" "link_free fs (butlast p)"
  shows "link_free fs p \<and> node_at fs p = Some FDir \<and> starts_with p base"
proof -
  from assms(1) obtain r where r: "ensure_not_symlink fs cwd False (path_of p) = Inr ()"
    "canonicalize fs cwd (path_of p) = Some r" "node_at fs r = Some FDir" "starts_with r base"
    by (auto simp: ensure_authorized_directory_def split: if_splits option.splits)
  have lf: "link_free fs p"
  proof (cases p rule: rev_cases)
    case (snoc q x)
    from r(1) obtain d n where d: "resolve max_links fs cwd (path_of q) = Some d"
      "node_at fs (d @ [x]) = Some n" "\<not> (\<exists>t. n = FLink t)"
      by (auto simp: ensure_not_symlink_def lstat_def snoc path_of_def split: option.splits if_splits fnode.splits)
    have "link_free fs q" using assms(2) snoc by simp
    moreover from this have "d = q"
      using canonicalize_own_path[of fs q cwd d] d(1) by (simp add: canonicalize_def path_of_def)
    ultimately show ?thesis using d(2,3) by (cases n) (simp_all add: link_free_snoc snoc)
  qed simp
  with r canonicalize_own_path[OF lf r(2)] show ?thesis by simp
qed

text \<open>The file system grows by directories below \<open>base\<close> only.\<close>

definition grows :: "real_path \<Rightarrow> fs \<Rightarrow> fs \<Rightarrow> bool" where
  "grows base fs fs' \<longleftrightarrow>
     (\<forall>q. fs' q \<noteq> fs q \<longrightarrow> fs q = None \<and> fs' q = Some FDir \<and> starts_with q base)"

lemma grows_refl [simp]: "grows base fs fs"
  by (simp add: grows_def)

lemma grows_trans: "grows base fs fs1 \<Longrightarrow> grows base fs1 fs2 \<Longrightarrow> grows base fs fs2"
  unfolding grows_def by (metis option.distinct(1))

lemma mkdir_own_path:
  assumes "mkdir fs cwd (path_of (p @ [x])) = Inr fs'" "link_free fs p"
  shows "fs' = fs(p @ [x] \<mapsto> FDir) \<and> fs (p @ [x]) = None"
proof -
  from assms(1) obtain d where d: "resolve max_links fs cwd (path_of p) = Some d"
    "node_at fs (d @ [x]) = None" "fs' = fs(d @ [x] \<mapsto> FDir)"
    by (auto simp: mkdir_def path_of_def split: option.splits if_splits)
  have "d = p"
    using canonicalize_own_path[OF assms(2), of cwd d] d(1) by (simp add: canonicalize_def path_of_def)
  with d show ?thesis by (simp add: node_at_def)
qed

lemma push_components_spec:
  assumes "push_components fs cwd candidate ss base = (fs', res)"
    and "link_free fs candidate" "starts_with candidate base"
  shows "grows base fs fs' \<and> (\<forall>r. res = Inr r \<longrightarrow> link_free fs' r \<and> starts_with r base)"
  using assms
proof (induction fs cwd candidate ss base rule: push_components.induct)
  case (2 fs cwd candidate x ss base)
  show ?case
  proof (cases "path_exists fs cwd (path_of (candidate @ [x]))")
    case True
    show ?thesis
    proof (cases "ensure_authorized_directory fs cwd (candidate @ [x]) base")
      case (Inr u)
      with ensure_authorized_directory_Inr[OF Inr] 2 True show ?thesis by simp
    qed (use 2 True in auto)
  next
    case False
    show ?thesis
    proof (cases "mkdir fs cwd (path_of (candidate @ [x]))")
      case (Inr fs1)
      note m = mkdir_own_path[OF Inr "2.prems"(2)]
      then have lf: "link_free fs1 candidate" using "2.prems"(2) by (simp add: link_free_mkdir)
      have g: "grows base fs fs1"
        using m "2.prems"(3) by (auto simp: grows_def starts_with_def)
      show ?thesis
      proof (cases "ensure_authorized_directory fs1 cwd (candidate @ [x]) base")
        case (Inr u)
        with ensure_authorized_directory_Inr[OF Inr] 2 False lf \<open>mkdir _ _ _ = Inr fs1\<close> grows_trans[OF g]
        show ?thesis by simp
      qed (use 2 False \<open>mkdir _ _ _ = Inr fs1\<close> g in auto)
    qed (use 2 False in auto)
  qed
qed auto

lemma find_Some_in: "List.find P xs = Some x \<Longrightarrow> x \<in> set xs \<and> P x"
  by (auto simp: find_Some_iff)

lemma authorize_from_spec:
  assumes "authorize_from fs cwd roots s ancestor = (fs', res)" "is_absolute ancestor"
  shows "fs' = fs \<and> (\<exists>e. res = Inl e) \<or>
    (\<exists>base \<in> set roots. grows base fs fs' \<and>
       (\<forall>r. res = Inr r \<longrightarrow> link_free fs' r \<and> node_at fs' r = Some FDir \<and> starts_with r base))"
proof (cases "fs' = fs \<and> (\<exists>e. res = Inl e)")
  case False
  note def = assms(1)[unfolded authorize_from_def Let_def]
  have e: "ensure_not_symlink fs cwd (ancestor = parse_path s \<and> ends_open s) ancestor = Inr ()"
    using def False by (cases "ensure_not_symlink fs cwd (ancestor = parse_path s \<and> ends_open s) ancestor") auto
  have d: "is_dir fs cwd ancestor"
    by (rule ccontr) (use def e False in auto)
  obtain a where a1: "canonicalize fs cwd ancestor = Some a"
    using def e d False by (cases "canonicalize fs cwd ancestor") auto
  obtain base where a2: "List.find (\<lambda>base. starts_with a base) roots = Some base"
    using def e d a1 False by (cases "List.find (\<lambda>base. starts_with a base) roots") auto
  obtain missing where m: "missing_components_after (parse_path s) ancestor = Inr missing"
    using def e d a1 a2 False by (cases "missing_components_after (parse_path s) ancestor") (simp_all, blast)
  note a = a1 a2
  have below: "authorize_below fs cwd a missing base = (fs', res)" using def e d a m by simp
  note base = find_Some_in[OF a(2)]
  have lf: "link_free fs a"
    using resolve_absolute[OF assms(2)] a(1) by (auto simp: canonicalize_def split: if_splits)
  obtain fs1 res1 where c: "create_authorized_dir_chain fs cwd a missing base = (fs1, res1)" by fastforce
  have g: "grows base fs fs1 \<and> (\<forall>r. res1 = Inr r \<longrightarrow> link_free fs1 r \<and> starts_with r base)"
  proof (cases "ensure_authorized_directory fs cwd a base")
    case (Inr u)
    then show ?thesis
      using c push_components_spec[OF _ lf] base by (auto simp: create_authorized_dir_chain_def)
  qed (use c in \<open>auto simp: create_authorized_dir_chain_def\<close>)
  have "grows base fs fs' \<and>
      (\<forall>r. res = Inr r \<longrightarrow> link_free fs' r \<and> node_at fs' r = Some FDir \<and> starts_with r base)"
    using below g canonicalize_own_path[of fs1] unfolding authorize_below_def c
    by (auto split: sum.splits option.splits if_splits)
  with base show ?thesis by blast
qed simp

section \<open>Properties\<close>

text \<open>
  C32. A download directory that is authorised is an existing directory, without a symbolic link on its
  path, at or below one of the configured roots; that root is neither the file system's root nor in
  \<open>/usr\<close>, \<open>/etc\<close> or \<open>/System\<close>. Whatever the outcome, the only change to the file system are new
  directories below such a root.
\<close>

theorem authorize_download_dir_inside:
  assumes "authorize_download_dir fs cwd config s = (fs', res)"
  shows "(\<forall>q. fs' q \<noteq> fs q \<longrightarrow> fs q = None \<and> fs' q = Some FDir) \<and>
    (fs' \<noteq> fs \<or> is_ok res \<longrightarrow>
      (\<exists>base. (\<exists>dir \<in> set (authorized_dirs (download config)). canonicalize fs cwd (parse_path dir) = Some base) \<and>
         node_at fs base = Some FDir \<and> base \<noteq> [] \<and> hd base \<notin> {''usr'', ''etc'', ''System''} \<and>
         (\<forall>q. fs' q \<noteq> fs q \<longrightarrow> starts_with q base) \<and>
         (\<forall>r. res = Inr r \<longrightarrow> link_free fs' r \<and> node_at fs' r = Some FDir \<and> starts_with r base)))"
proof (cases "fs' = fs \<and> (\<exists>e. res = Inl e)")
  case False
  then obtain roots a where r: "canonical_authorized_roots fs cwd config = Inr roots"
    "deepest_existing_ancestor fs cwd s = Some a" "is_absolute (parse_path s)"
    "authorize_from fs cwd roots s a = (fs', res)"
    using assms by (auto simp: authorize_download_dir_def Let_def split: if_splits sum.splits option.splits)
  have "is_absolute a"
    using deepest_existing_ancestor_prefix[OF r(2)] r(3)
    by (auto simp: is_absolute_def prefix_def)
  from authorize_from_spec[OF r(4) this] False obtain base where base: "base \<in> set roots" "grows base fs fs'"
    "\<forall>r. res = Inr r \<longrightarrow> link_free fs' r \<and> node_at fs' r = Some FDir \<and> starts_with r base"
    by blast
  have "collect_roots fs cwd (authorized_dirs (download config)) = Inr roots"
    using r(1) by (simp add: canonical_authorized_roots_def split: if_splits)
  then obtain dir where dir: "dir \<in> set (authorized_dirs (download config))"
    "canonicalize fs cwd (parse_path dir) = Some base" "node_at fs base = Some FDir"
    "\<not> is_forbidden_authorized_root base"
    using collect_roots_spec[OF _ base(1)] by blast
  from base dir show ?thesis
    unfolding grows_def is_forbidden_authorized_root_def by blast
qed auto

text \<open>A new directory below the configured one.\<close>

definition config_fs :: fs where
  "config_fs = [[''dl''] \<mapsto> FDir]"

lemma authorize_new_dir:
  "authorize_download_dir config_fs [] (app_config_default ''/dl'') ''/dl/a'' =
     (config_fs([''dl'', ''a''] \<mapsto> FDir), Inr [''dl'', ''a''])"
proof -
  have p: "parse_path ''/dl'' = [RootDir, Normal ''dl'']" "parse_path ''/dl/a'' = [RootDir, Normal ''dl'', Normal ''a'']"
    by (simp_all add: parse_path_def segment_component_def)
  have e: "\<not> ends_open ''/dl''" "\<not> ends_open ''/dl/a''"
    by (simp_all add: ends_open_def suffix_def Cons_eq_append_conv)
  have k: "authorized_dirs (download (app_config_default ''/dl'')) = [''/dl'']"
    by (simp add: app_config_default_def download_config_default_def)
  note ev = canonicalize_def path_exists_def is_dir_def path_parent_def path_of_def node_at_def
    config_fs_def starts_with_def max_links_def lstat_def mkdir_def is_absolute_def
  have roots: "canonical_authorized_roots config_fs [] (app_config_default ''/dl'') = Inr [[''dl'']]"
    by (simp add: canonical_authorized_roots_def k canonical_root_def p text_exists_def e
        is_forbidden_authorized_root_def ev)
  have anc: "deepest_existing_ancestor config_fs [] ''/dl/a'' = Some [RootDir, Normal ''dl'']"
    by (simp add: deepest_existing_ancestor_def text_exists_def e p existing_ancestor.simps ev)
  have "authorize_from config_fs [] [[''dl'']] ''/dl/a'' [RootDir, Normal ''dl''] =
      (config_fs([''dl'', ''a''] \<mapsto> FDir), Inr [''dl'', ''a''])"
    by (simp add: Let_def p authorize_from_def e ensure_not_symlink_def
        missing_components_after_def authorize_below_def create_authorized_dir_chain_def
        ensure_authorized_directory_def ev)
  then show ?thesis
    by (simp add: authorize_download_dir_def p roots anc is_absolute_def)
qed

theorem authorize_download_dir_inside_witness:
  "starts_with [''dl'', ''a''] [''dl''] \<and> link_free (config_fs([''dl'', ''a''] \<mapsto> FDir)) [''dl'', ''a'']"
proof -
  have "canonicalize config_fs [] (parse_path ''/dl'') = Some [''dl'']"
    by (simp add: canonicalize_def parse_path_def segment_component_def node_at_def config_fs_def max_links_def)
  moreover have "authorized_dirs (download (app_config_default ''/dl'')) = [''/dl'']"
    by (simp add: app_config_default_def download_config_default_def)
  ultimately show ?thesis using authorize_download_dir_inside[OF authorize_new_dir] by auto
qed

end
