(* ===== verification/Task_Commands.thy ===== *)
theory Task_Commands
  imports Config_Commands Fragment_Download
begin

text \<open>
  \<open>tachyon-app/src/commands\<close> (\<open>mod.rs\<close>, \<open>task_commands.rs\<close>, \<open>progress_commands.rs\<close>) over the task
  store: the commands of the front end and the background task of a download, as steps on one shared
  state. A step is what runs between two points where the code waits, so every interleaving of
  commands and downloads is a sequence of steps. The result of the download itself, a directory
  listing and the clock are arguments of the steps.

  \<open>AppState::tasks\<close> is a \<open>DashMap\<close> and not an \<open>Arc\<close> of one: \<open>create_task_inner\<close> hands its background
  task \<open>state.tasks.clone()\<close>, a copy of the map. A runner therefore has its own task map; all else is
  shared.
\<close>

section \<open>The shared state\<close>

text \<open>\<open>DashMap\<close>: an association list, in an unspecified order of iteration.\<close>

definition dm_insert :: "'k \<Rightarrow> 'v \<Rightarrow> ('k \<times> 'v) list \<Rightarrow> ('k \<times> 'v) list" where
  "dm_insert k v m = (k, v) # filter (\<lambda>e. fst e \<noteq> k) m"

definition dm_remove :: "'k \<Rightarrow> ('k \<times> 'v) list \<Rightarrow> ('k \<times> 'v) list" where
  "dm_remove k m = filter (\<lambda>e. fst e \<noteq> k) m"

definition dm_modify :: "'k \<Rightarrow> ('v \<Rightarrow> 'v) \<Rightarrow> ('k \<times> 'v) list \<Rightarrow> ('k \<times> 'v) list" where
  "dm_modify k f m = map (\<lambda>(k', v). (k', if k' = k then f v else v)) m"

type_synonym task_map = "(ustr \<times> task_info) list"
type_synonym progress_event = "(ustr \<times> task_progress_info) list"

text \<open>A \<open>create_task\<close> that has not started its background task yet.\<close>

record creation =
  cr_url :: string
  cr_dir :: string
  cr_mirrors :: "string list option"
  cr_max_tasks :: nat
  cr_inserted :: bool

datatype runner_phase = RuStart | RuProbing | RuRunning | RuEnding | RuDone

record runner =
  ru_tasks :: task_map
  ru_url :: string
  ru_dir :: string
  ru_config :: download_config
  ru_mirrors :: "string list option"
  ru_phase :: runner_phase
  ru_reader :: bool
  ru_monitor :: bool
  ru_injected :: "u32 list"
  ru_total_frags :: u32
  ru_completed :: "u32 list"
  ru_frag_bytes :: "(u32 \<times> u64) list"
  ru_total_downloaded :: u64
  ru_last_downloaded :: u64

text \<open>
  \<open>as_channels\<close> has the last value sent to the control channel of each task, \<open>as_controls\<close> the tasks
  whose sender is alive.
\<close>

record app_state =
  as_tasks :: task_map
  as_config :: app_config
  as_handles :: "ustr list"
  as_controls :: "ustr list"
  as_channels :: "(ustr \<times> download_state) list"
  as_store :: directory
  as_progress :: progress_event
  as_fs :: fs
  as_creating :: "(ustr \<times> creation) list"
  as_runners :: "(ustr \<times> runner) list"

text \<open>
  The environment: \<open>serde_json\<close>, the working directory, \<open>Url::parse\<close> and the path of a URL, and the
  variable \<open>HF_ENDPOINT\<close>.
\<close>

record app_env =
  ae_json :: json
  ae_cwd :: real_path
  ae_parse :: "string \<Rightarrow> url_view option"
  ae_url_path :: "ustr \<Rightarrow> ustr option"
  ae_hf_endpoint :: "string option"

text \<open>The circumstances of a step that saves a snapshot: the time stamp and what fails on disk.\<close>

record saving =
  sv_now :: ustr
  sv_fault :: set_fault

definition app_new :: "string \<Rightarrow> directory \<Rightarrow> fs \<Rightarrow> app_state" where
  "app_new dir store fs =
     \<lparr>as_tasks = [], as_config = app_config_default dir, as_handles = [], as_controls = [], as_channels = [],
      as_store = store, as_progress = [], as_fs = fs, as_creating = [], as_runners = []\<rparr>"

fun insert_recovered :: "task_snapshot list \<Rightarrow> task_map \<Rightarrow> task_map" where
  "insert_recovered [] m = m"
| "insert_recovered (s # ss) m = insert_recovered ss (dm_insert (sn_id s) (snapshot_to_task_info s) m)"

definition load_recovered_tasks :: "app_env \<Rightarrow> app_state \<Rightarrow> app_state \<times> unit app_result" where
  "load_recovered_tasks env s =
     (case recover_pending_snapshots (ae_json env) (as_store s) of
        Inl e \<Rightarrow> (s, Inl (AppConfig ''load recoverable tasks''))
      | Inr ss \<Rightarrow> (s\<lparr>as_tasks := insert_recovered ss (as_tasks s)\<rparr>, Inr ()))"

section \<open>Shared functions of \<open>mod.rs\<close>\<close>

definition supported_protocols :: "string list" where
  "supported_protocols = [''HTTP'', ''HTTPS'']"

definition ascii_upper :: "char \<Rightarrow> char" where
  "ascii_upper c =
     (if 97 \<le> (of_char c :: nat) \<and> (of_char c :: nat) \<le> 122 then char_of (of_char c - 32 :: nat) else c)"

definition validate_download_url :: "app_env \<Rightarrow> string \<Rightarrow> unit app_result" where
  "validate_download_url env s =
     (case ae_parse env s of
        None \<Rightarrow> Inl (AppNetwork ''invalid URL'')
      | Some url \<Rightarrow>
          (case validate_public_http_url url of
             Inl _ \<Rightarrow> Inl (AppNetwork ''unsafe URL'')
           | Inr _ \<Rightarrow>
               if map ascii_upper (u_scheme url) \<notin> set supported_protocols
               then Inl (UnsupportedProtocol (map ascii_upper (u_scheme url)))
               else Inr ()))"

definition update_task_status :: "ustr \<Rightarrow> download_state \<Rightarrow> task_map \<Rightarrow> task_map" where
  "update_task_status task_id st m =
     dm_modify task_id
       (\<lambda>t. let t = t\<lparr>ti_status := st\<rparr>
            in if st = Completed \<or> st = Failed \<or> st = Cancelled then t\<lparr>ti_speed := 0\<rparr> else t) m"

definition cleanup_runtime :: "ustr \<Rightarrow> app_state \<Rightarrow> app_state" where
  "cleanup_runtime task_id s =
     s\<lparr>as_controls := filter (\<lambda>i. i \<noteq> task_id) (as_controls s),
       as_handles := filter (\<lambda>i. i \<noteq> task_id) (as_handles s)\<rparr>"

definition send_control :: "ustr \<Rightarrow> download_state \<Rightarrow> app_state \<Rightarrow> app_state" where
  "send_control task_id st s =
     (if task_id \<in> set (as_controls s)
      then s\<lparr>as_channels := dm_insert task_id st (as_channels s)\<rparr> else s)"

text \<open>\<open>Path::join\<close> and \<open>to_string_lossy\<close>.\<close>

definition text_join :: "ustr \<Rightarrow> ustr \<Rightarrow> ustr" where
  "text_join dir name =
     (if name \<noteq> [] \<and> hd name = 47 then name
      else if dir = [] \<or> last dir = 47 then dir @ name
      else dir @ [47] @ name)"

definition save_snapshot :: "app_env \<Rightarrow> saving \<Rightarrow> task_snapshot \<Rightarrow> app_state \<Rightarrow> app_state" where
  "save_snapshot env sv sn s =
     s\<lparr>as_store := fst (save_task_snapshot (ae_json env) (sv_fault sv) sn (as_store s))\<rparr>"

text \<open>\<open>load_snapshot\<close> where the code ignores the error.\<close>

definition stored_snapshot :: "app_env \<Rightarrow> ustr \<Rightarrow> app_state \<Rightarrow> task_snapshot option" where
  "stored_snapshot env task_id s =
     (case load_task_snapshot (ae_json env) (as_store s) task_id of Inr r \<Rightarrow> r | Inl _ \<Rightarrow> None)"

text \<open>The snapshot of a task; what only the store knows is taken over from the snapshot before.\<close>

definition persisted_snapshot ::
    "ustr \<Rightarrow> app_config \<Rightarrow> task_snapshot option \<Rightarrow> ustr option \<Rightarrow> task_info \<Rightarrow> task_snapshot" where
  "persisted_snapshot now cfg existing fail_reason task =
     (let save_path = (case existing of
             Some sn \<Rightarrow> sn_save_path sn
           | None \<Rightarrow> text_join (to_ustr (download_dir (download cfg))) (ti_file_name task));
          sn = task_info_to_snapshot now task save_path 0 [] None None;
          sn = (case existing of
             None \<Rightarrow> sn
           | Some old \<Rightarrow> sn\<lparr>sn_fragment_size := sn_fragment_size old,
               sn_completed_fragments := sn_completed_fragments old, sn_etag := sn_etag old,
               sn_last_modified := sn_last_modified old, sn_retry_count := sn_retry_count old\<rparr>)
      in sn\<lparr>sn_fail_reason := fail_reason\<rparr>)"

text \<open>The task map is an argument: a command passes the shared one, a runner its own.\<close>

definition persist_task_snapshot ::
    "app_env \<Rightarrow> saving \<Rightarrow> task_map \<Rightarrow> ustr \<Rightarrow> ustr option \<Rightarrow> app_state \<Rightarrow> app_state" where
  "persist_task_snapshot env sv tasks task_id fail_reason s =
     (case map_of tasks task_id of
        None \<Rightarrow> s
      | Some task \<Rightarrow>
          save_snapshot env sv
            (persisted_snapshot (sv_now sv) (as_config s) (stored_snapshot env task_id s) fail_reason task) s)"

definition build_download_config :: "app_config \<Rightarrow> string \<Rightarrow> download_config" where
  "build_download_config cfg dir = (download cfg)\<lparr>download_dir := dir\<rparr>"

text \<open>\<open>str::replace\<close>: every occurrence from the left, none overlapping; a pattern is not empty.\<close>

fun replace_all :: "nat \<Rightarrow> string \<Rightarrow> string \<Rightarrow> string \<Rightarrow> string" where
  "replace_all 0 pat new s = s"
| "replace_all (Suc n) pat new s =
     (case s of
        [] \<Rightarrow> []
      | c # r \<Rightarrow>
          if prefix pat s then new @ replace_all n pat new (drop (length pat) s)
          else c # replace_all n pat new r)"

definition rewrite_hf_url :: "string option \<Rightarrow> string \<Rightarrow> string" where
  "rewrite_hf_url endpoint url =
     (if \<not> sublist ''huggingface.co'' url then url
      else
        (let mirror = (case endpoint of
                         Some m \<Rightarrow> if m \<noteq> [] then m else ''https://hf-mirror.com''
                       | None \<Rightarrow> ''https://hf-mirror.com'')
         in replace_all (length url) ''https://huggingface.co'' mirror url))"

section \<open>The commands\<close>

fun validate_mirrors :: "app_env \<Rightarrow> string list \<Rightarrow> unit app_result" where
  "validate_mirrors env [] = Inr ()"
| "validate_mirrors env (m # ms) =
     (case validate_download_url env m of
        Inl _ \<Rightarrow> Inl (AppConfig ''mirror URL'')
      | Inr _ \<Rightarrow> validate_mirrors env ms)"

text \<open>\<open>create_task_inner\<close> up to the lock of the creation: checks and the download directory.\<close>

definition create_begin ::
    "app_env \<Rightarrow> ustr \<Rightarrow> string \<Rightarrow> string option \<Rightarrow> string list option \<Rightarrow> app_state \<Rightarrow> app_state \<times> unit app_result" where
  "create_begin env task_id url dir mirrors s =
     (case and_then (validate_download_url env url)
             (\<lambda>_. validate_mirrors env (case mirrors of None \<Rightarrow> [] | Some ms \<Rightarrow> ms)) of
        Inl e \<Rightarrow> (s, Inl e)
      | Inr _ \<Rightarrow>
          (let requested = (case dir of Some d \<Rightarrow> d | None \<Rightarrow> download_dir (download (as_config s)))
           in case authorize_download_dir (as_fs s) (ae_cwd env) (as_config s) requested of
                (fs', Inl e) \<Rightarrow> (s\<lparr>as_fs := fs'\<rparr>, Inl e)
              | (fs', Inr authorized) \<Rightarrow>
                  (s\<lparr>as_fs := fs', as_creating := dm_insert task_id
                       \<lparr>cr_url = url, cr_dir = show_path authorized, cr_mirrors = mirrors,
                        cr_max_tasks = unat (max_concurrent_tasks (as_config s)), cr_inserted = False\<rparr> (as_creating s)\<rparr>,
                   Inr ())))"

definition active :: "task_info \<Rightarrow> bool" where
  "active t = (ti_status t = Downloading \<or> ti_status t = Pending)"

definition unfinished :: "task_info \<Rightarrow> bool" where
  "unfinished t = (ti_status t \<noteq> Cancelled \<and> ti_status t \<noteq> Completed \<and> ti_status t \<noteq> Failed)"

definition new_task :: "app_env \<Rightarrow> ustr \<Rightarrow> string \<Rightarrow> ustr \<Rightarrow> task_info" where
  "new_task env task_id url now =
     \<lparr>ti_id = task_id, ti_url = to_ustr (redact_url_for_log (ae_parse env) url),
      ti_file_name = extract_filename_from_url (ae_url_path env) (to_ustr url),
      ti_file_size = None, ti_downloaded = 0, ti_speed = 0, ti_status = Pending, ti_progress = Fin 0,
      ti_fragments_total = 0, ti_fragments_done = 0, ti_created_at = now\<rparr>"

text \<open>
  The three parts of \<open>create_task_inner\<close> run in this order; \<^const>\<open>cr_inserted\<close> keeps it.
  Under the lock: no unfinished task of the same URL, room for one more, insertion; then the first snapshot.\<close>

definition create_insert :: "app_env \<Rightarrow> saving \<Rightarrow> ustr \<Rightarrow> app_state \<Rightarrow> app_state \<times> unit app_result" where
  "create_insert env sv task_id s =
     (case map_of (as_creating s) task_id of
        None \<Rightarrow> (s, Inl (AppTaskNotFound task_id))
      | Some cr \<Rightarrow>
          if cr_inserted cr then (s, Inl (AppTaskNotFound task_id)) else
          (let task = new_task env task_id (cr_url cr) (sv_now sv)
           in if list_ex (\<lambda>(_, t). ti_url t = ti_url task \<and> unfinished t) (as_tasks s)
              then (s\<lparr>as_creating := dm_remove task_id (as_creating s)\<rparr>, Inl (TaskAlreadyExists ''same URL''))
              else if length (filter (\<lambda>(_, t). active t) (as_tasks s)) \<ge> cr_max_tasks cr
              then (s\<lparr>as_creating := dm_remove task_id (as_creating s)\<rparr>, Inl (AppConfig ''too many tasks''))
              else
                (save_snapshot env sv
                   (task_info_to_snapshot (sv_now sv) task
                      (text_join (to_ustr (cr_dir cr)) (ti_file_name task)) 0 [] None None)
                   (s\<lparr>as_tasks := dm_insert task_id task (as_tasks s),
                      as_creating := dm_insert task_id (cr\<lparr>cr_inserted := True\<rparr>) (as_creating s)\<rparr>),
                 Inr ())))"

text \<open>The rest: the configuration is read again, and the background task gets its copy of the tasks.\<close>

definition create_finish :: "ustr \<Rightarrow> app_state \<Rightarrow> app_state \<times> ustr app_result" where
  "create_finish task_id s =
     (case map_of (as_creating s) task_id of
        None \<Rightarrow> (s, Inl (AppTaskNotFound task_id))
      | Some cr \<Rightarrow>
          if \<not> cr_inserted cr then (s, Inl (AppTaskNotFound task_id)) else
          (let s = s\<lparr>as_creating := dm_remove task_id (as_creating s)\<rparr>
           in if max_concurrent_fragments (download (as_config s)) = 0
              then (s\<lparr>as_tasks := dm_remove task_id (as_tasks s)\<rparr>, Inl (AppConfig ''max_concurrent_fragments''))
              else
                (s\<lparr>as_controls := task_id # filter (\<lambda>i. i \<noteq> task_id) (as_controls s),
                   as_channels := dm_insert task_id Downloading (as_channels s),
                   as_handles := task_id # filter (\<lambda>i. i \<noteq> task_id) (as_handles s),
                   as_runners := dm_insert task_id
                     \<lparr>ru_tasks = as_tasks s, ru_url = cr_url cr, ru_dir = cr_dir cr,
                      ru_config = build_download_config (as_config s) (cr_dir cr),
                      ru_mirrors = (case cr_mirrors cr of Some [] \<Rightarrow> None | ms \<Rightarrow> ms),
                      ru_phase = RuStart, ru_reader = False, ru_monitor = False, ru_injected = [], ru_total_frags = 0, ru_completed = [],
                      ru_frag_bytes = [], ru_total_downloaded = 0, ru_last_downloaded = 0\<rparr>
                     (as_runners s)\<rparr>,
                 Inr task_id)))"

definition set_status :: "download_state \<Rightarrow> task_info \<Rightarrow> task_info" where
  "set_status st t = t\<lparr>ti_status := st\<rparr>"

definition pause_task :: "app_env \<Rightarrow> saving \<Rightarrow> ustr \<Rightarrow> app_state \<Rightarrow> app_state \<times> unit app_result" where
  "pause_task env sv task_id s =
     (case map_of (as_tasks s) task_id of
        None \<Rightarrow> (s, Inl (AppTaskNotFound task_id))
      | Some t \<Rightarrow>
          if ti_status t = Pending \<or> ti_status t = Downloading then
            (let tasks = dm_modify task_id (\<lambda>t. (set_status Paused t)\<lparr>ti_speed := 0\<rparr>) (as_tasks s);
                 s = send_control task_id Paused (s\<lparr>as_tasks := tasks\<rparr>)
             in (persist_task_snapshot env sv tasks task_id None s, Inr ()))
          else (s, Inl (AppConfig ''state does not allow pausing'')))"

definition resume_task :: "app_env \<Rightarrow> saving \<Rightarrow> ustr \<Rightarrow> app_state \<Rightarrow> app_state \<times> unit app_result" where
  "resume_task env sv task_id s =
     (case map_of (as_tasks s) task_id of
        None \<Rightarrow> (s, Inl (AppTaskNotFound task_id))
      | Some t \<Rightarrow>
          if ti_status t = Paused then
            (let tasks = dm_modify task_id (set_status Downloading) (as_tasks s);
                 s = send_control task_id Downloading (s\<lparr>as_tasks := tasks\<rparr>)
             in (persist_task_snapshot env sv tasks task_id None s, Inr ()))
          else (s, Inl (AppConfig ''only a paused task can be resumed'')))"

definition cancel_task :: "app_env \<Rightarrow> saving \<Rightarrow> ustr \<Rightarrow> app_state \<Rightarrow> app_state \<times> unit app_result" where
  "cancel_task env sv task_id s =
     (case map_of (as_tasks s) task_id of
        None \<Rightarrow> (s, Inl (AppTaskNotFound task_id))
      | Some t \<Rightarrow>
          if ti_status t = Completed \<or> ti_status t = Cancelled
          then (s, Inl (AppConfig ''cannot cancel''))
          else
            (let s = send_control task_id Cancelled s;
                 tasks = dm_modify task_id (\<lambda>t. (set_status Cancelled t)\<lparr>ti_speed := 0\<rparr>) (as_tasks s)
             in (persist_task_snapshot env sv tasks task_id None (s\<lparr>as_tasks := tasks\<rparr>), Inr ())))"

definition delete_task :: "ustr \<Rightarrow> app_state \<Rightarrow> app_state \<times> unit app_result" where
  "delete_task task_id s =
     (case map_of (as_tasks s) task_id of
        None \<Rightarrow> (s, Inl (AppTaskNotFound task_id))
      | Some t \<Rightarrow>
          if ti_status t = Completed \<or> ti_status t = Cancelled \<or> ti_status t = Failed
          then (cleanup_runtime task_id (s\<lparr>as_tasks := dm_remove task_id (as_tasks s)\<rparr>), Inr ())
          else (s, Inl (AppConfig ''state does not allow deletion'')))"

definition get_task_list :: "app_state \<Rightarrow> task_info list" where
  "get_task_list s = map snd (as_tasks s)"

definition get_task_detail :: "ustr \<Rightarrow> app_state \<Rightarrow> task_info app_result" where
  "get_task_detail task_id s = ok_or (map_of (as_tasks s) task_id) (AppTaskNotFound task_id)"

definition get_download_progress :: "ustr \<Rightarrow> app_state \<Rightarrow> download_progress app_result" where
  "get_download_progress task_id s =
     (case map_of (as_tasks s) task_id of
        None \<Rightarrow> Inl (AppTaskNotFound task_id)
      | Some t \<Rightarrow> Inr
          \<lparr>dp_task_id = ti_id t, dp_status = ti_status t, dp_progress = ti_progress t,
           dp_downloaded = ti_downloaded t, dp_file_size = ti_file_size t, dp_speed = ti_speed t,
           dp_fragments_total = ti_fragments_total t, dp_fragments_done = ti_fragments_done t\<rparr>)"

section \<open>The background task\<close>

definition control_value :: "ustr \<Rightarrow> app_state \<Rightarrow> download_state" where
  "control_value task_id s =
     (case map_of (as_channels s) task_id of Some st \<Rightarrow> st | None \<Rightarrow> Downloading)"

definition put_runner :: "ustr \<Rightarrow> runner \<Rightarrow> app_state \<Rightarrow> app_state" where
  "put_runner task_id r s = s\<lparr>as_runners := dm_insert task_id r (as_runners s)\<rparr>"

text \<open>An early return: the status is set in the runner's own map.\<close>

definition runner_stop :: "ustr \<Rightarrow> runner \<Rightarrow> app_state \<Rightarrow> app_state" where
  "runner_stop task_id r s = cleanup_runtime task_id (put_runner task_id (r\<lparr>ru_phase := RuDone\<rparr>) s)"

definition runner_fail :: "ustr \<Rightarrow> runner \<Rightarrow> app_state \<Rightarrow> app_state" where
  "runner_fail task_id r s =
     runner_stop task_id (r\<lparr>ru_tasks := update_task_status task_id Failed (ru_tasks r)\<rparr>) s"

text \<open>\<open>task_fn\<close> up to the probe; \<open>client\<close> is the result of creating the \<open>DownloadTask\<close>.\<close>

definition runner_begin :: "app_env \<Rightarrow> unit download_result \<Rightarrow> ustr \<Rightarrow> runner \<Rightarrow> app_state \<Rightarrow> app_state" where
  "runner_begin env client task_id r s =
     (let url = rewrite_hf_url (ae_hf_endpoint env) (ru_url r)
      in case Option.bind (ae_parse env url) u_host of
           None \<Rightarrow> runner_fail task_id r s
         | Some host \<Rightarrow>
             if map_option ti_status (map_of (ru_tasks r) task_id) = Some Cancelled
             then runner_stop task_id r s
             else
               (let r = r\<lparr>ru_url := url, ru_tasks := update_task_status task_id Downloading (ru_tasks r)\<rparr>
                in case create_dir_all (as_fs s) (ae_cwd env) (parse_path (ru_dir r)) of
                     (fs', Inl _) \<Rightarrow> runner_fail task_id r (s\<lparr>as_fs := fs'\<rparr>)
                   | (fs', Inr _) \<Rightarrow>
                       (let s = s\<lparr>as_fs := fs'\<rparr>
                        in case client of
                             Inl _ \<Rightarrow> runner_fail task_id r s
                           | Inr _ \<Rightarrow>
                               (let r = r\<lparr>ru_injected :=
                                      (case stored_snapshot env task_id s of
                                         None \<Rightarrow> [] | Some sn \<Rightarrow> sn_completed_fragments sn)\<rparr>
                                in if control_value task_id s = Cancelled then runner_stop task_id r s
                                   else put_runner task_id (r\<lparr>ru_phase := RuProbing\<rparr>) s))))"

text \<open>\<open>wait_for_cancel_signal\<close>: \<^term>\<open>None\<close> while it waits.\<close>

definition cancel_signal :: "ustr \<Rightarrow> app_state \<Rightarrow> download_error option" where
  "cancel_signal task_id s =
     (if control_value task_id s = Cancelled then Some Cancelled_Error
      else if control_value task_id s = Failed then Some (Other ''task failed'')
      else if task_id \<notin> set (as_controls s) then Some (Other ''control channel closed'')
      else None)"

text \<open>
  The probe races with that signal: \<open>prefer\<close> is whether a signal that is there wins. Then the
  metadata goes to the runner's task and to a snapshot, and reader and monitor are started.
\<close>

definition total_frags_of :: "u64 option \<Rightarrow> u32" where
  "total_frags_of known_size =
     (case known_size of None \<Rightarrow> 0 | Some n \<Rightarrow> ucast (div_ceil (max n 1) (1024 * 1024)))"

definition runner_probed ::
    "app_env \<Rightarrow> saving \<Rightarrow> file_metadata download_result \<Rightarrow> bool \<Rightarrow> ustr \<Rightarrow> runner \<Rightarrow> app_state \<Rightarrow> app_state" where
  "runner_probed env sv own prefer task_id r s =
     (let result = (case cancel_signal task_id s of
                      Some e \<Rightarrow> if prefer then Inl e else own
                    | None \<Rightarrow> own)
      in case result of
           Inl Cancelled_Error \<Rightarrow> runner_stop task_id r s
         | Inl _ \<Rightarrow> runner_fail task_id r s
         | Inr meta \<Rightarrow>
             (let tasks = dm_modify task_id
                    (\<lambda>t. t\<lparr>ti_file_size := md_file_size meta,
                          ti_fragments_total := total_frags_of (md_file_size meta)\<rparr>) (ru_tasks r);
                  s = (case map_of tasks task_id of
                         None \<Rightarrow> s
                       | Some t \<Rightarrow> save_snapshot env sv
                           (task_info_to_snapshot (sv_now sv) t
                              (text_join (to_ustr (ru_dir r)) (to_ustr (md_file_name meta))) 0 []
                              (map_option to_ustr (md_etag meta)) (map_option to_ustr (md_last_modified meta))) s);
                  r = r\<lparr>ru_tasks := tasks\<rparr>
              in if control_value task_id s = Cancelled then runner_stop task_id r s
                 else put_runner task_id
                   (r\<lparr>ru_phase := RuRunning, ru_reader := True, ru_monitor := True,
                      ru_total_frags := (case map_of tasks task_id of Some t \<Rightarrow> ti_fragments_total t | None \<Rightarrow> 0)\<rparr>) s))"

text \<open>The reader of progress messages; \<open>ru_completed\<close> is a \<open>BTreeSet\<close>, so it is sorted.\<close>

definition set_insert :: "u32 \<Rightarrow> u32 list \<Rightarrow> u32 list" where
  "set_insert x xs = (if x \<in> set xs then xs else insort x xs)"

definition count_chunk :: "fragment_progress \<Rightarrow> runner \<Rightarrow> runner" where
  "count_chunk p r =
     (let old = (case map_of (ru_frag_bytes r) (fp_index p) of Some n \<Rightarrow> n | None \<Rightarrow> 0)
      in r\<lparr>ru_completed := (if fp_completed p then set_insert (fp_index p) (ru_completed r) else ru_completed r),
           ru_frag_bytes := dm_insert (fp_index p) (fp_downloaded p) (ru_frag_bytes r),
           ru_total_downloaded := saturating_add (ru_total_downloaded r) (saturating_sub (fp_downloaded p) old)\<rparr>)"

definition show_chunk :: "ustr \<Rightarrow> runner \<Rightarrow> runner" where
  "show_chunk task_id r =
     (let done = of_nat (length (ru_completed r)) :: u32
      in r\<lparr>ru_tasks := dm_modify task_id
             (\<lambda>t. let t = t\<lparr>ti_downloaded := ru_total_downloaded r, ti_fragments_done := done,
                          ti_fragments_total := ru_total_frags r\<rparr>
                  in if ru_total_frags r > 0
                     then t\<lparr>ti_progress := f64_div (f64_of_word done) (f64_of_word (ru_total_frags r))\<rparr> else t)
             (ru_tasks r)\<rparr>)"

definition runner_chunk ::
    "app_env \<Rightarrow> saving \<Rightarrow> fragment_progress \<Rightarrow> ustr \<Rightarrow> runner \<Rightarrow> app_state \<Rightarrow> app_state" where
  "runner_chunk env sv p task_id r s =
     (let r = show_chunk task_id (count_chunk p r);
          s = put_runner task_id r s
      in if \<not> fp_completed p then s
         else case stored_snapshot env task_id s of
                None \<Rightarrow> s
              | Some sn \<Rightarrow> save_snapshot env sv
                  (sn\<lparr>sn_completed_fragments := ru_completed r, sn_downloaded := ru_total_downloaded r\<rparr>) s)"

text \<open>The monitor: a tick of half a second, and a change of the control value.\<close>

definition progress_of :: "task_info \<Rightarrow> ustr \<Rightarrow> u64 \<Rightarrow> u64 \<Rightarrow> task_progress_info" where
  "progress_of t task_id speed downloaded =
     \<lparr>tp_id = task_id, tp_progress = ti_progress t, tp_speed = speed, tp_downloaded = downloaded,
      tp_status = ti_status t, tp_fragments_done = ti_fragments_done t\<rparr>"

definition tick_speed :: "bool \<Rightarrow> u64 \<Rightarrow> u64 \<Rightarrow> u64" where
  "tick_speed elapsed downloaded last_downloaded =
     (if elapsed
      then word_of_f64 (f64_div (f64_sub (f64_of_word downloaded) (f64_of_word last_downloaded)) (Fin (1 / 2)))
      else 0)"

definition monitor_tick :: "bool \<Rightarrow> ustr \<Rightarrow> runner \<Rightarrow> app_state \<Rightarrow> app_state" where
  "monitor_tick elapsed task_id r s =
     (case map_of (ru_tasks r) task_id of
        None \<Rightarrow> s
      | Some t \<Rightarrow>
          (let speed = tick_speed elapsed (ti_downloaded t) (ru_last_downloaded r);
               r = r\<lparr>ru_last_downloaded := ti_downloaded t,
                     ru_tasks := dm_modify task_id (\<lambda>t. t\<lparr>ti_speed := speed\<rparr>) (ru_tasks r)\<rparr>
           in if ti_status t = Completed \<or> ti_status t = Failed
              then put_runner task_id (r\<lparr>ru_monitor := False\<rparr>) s
              else (put_runner task_id r s)\<lparr>as_progress := [(task_id, progress_of t task_id speed (ti_downloaded t))]\<rparr>))"

definition monitor_control :: "ustr \<Rightarrow> runner \<Rightarrow> app_state \<Rightarrow> app_state" where
  "monitor_control task_id r s =
     (if task_id \<notin> set (as_controls s) \<or> control_value task_id s \<in> {Cancelled, Completed, Failed}
      then put_runner task_id (r\<lparr>ru_monitor := False\<rparr>) s
      else if control_value task_id s = Paused
      then put_runner task_id (r\<lparr>ru_tasks := dm_modify task_id (\<lambda>t. t\<lparr>ti_speed := 0\<rparr>) (ru_tasks r)\<rparr>) s
      else s)"

text \<open>The end of the download: \<open>final\<close> is the size in the metadata of the \<open>DownloadTask\<close>.\<close>

definition terminal_task :: "unit download_result \<Rightarrow> u64 option \<Rightarrow> task_info \<Rightarrow> task_info" where
  "terminal_task result final t =
     (case result of
        Inr _ \<Rightarrow>
          (let final_size = (case final of Some n \<Rightarrow> n | None \<Rightarrow> (case ti_file_size t of Some n \<Rightarrow> n | None \<Rightarrow> 0))
           in t\<lparr>ti_progress := Fin 1, ti_file_size := Some final_size, ti_downloaded := final_size,
                ti_speed := 0, ti_status := Completed\<rparr>)
      | Inl _ \<Rightarrow> t\<lparr>ti_status := Failed, ti_speed := 0\<rparr>)"

definition runner_end ::
    "unit download_result \<Rightarrow> u64 option \<Rightarrow> ustr \<Rightarrow> runner \<Rightarrow> app_state \<Rightarrow> app_state" where
  "runner_end result final task_id r s =
     (let r = r\<lparr>ru_phase := RuEnding\<rparr>
      in case map_of (ru_tasks r) task_id of
           None \<Rightarrow> put_runner task_id r s
         | Some t \<Rightarrow>
             if ti_status t = Cancelled then put_runner task_id r s
             else send_control task_id (ti_status (terminal_task result final t))
               (put_runner task_id (r\<lparr>ru_tasks := dm_modify task_id (terminal_task result final) (ru_tasks r)\<rparr>) s))"

text \<open>After the monitor has ended: clean-up, the last progress event and the last snapshot.\<close>

definition runner_close :: "app_env \<Rightarrow> saving \<Rightarrow> ustr \<Rightarrow> runner \<Rightarrow> app_state \<Rightarrow> app_state" where
  "runner_close env sv task_id r s =
     (let s = runner_stop task_id (r\<lparr>ru_monitor := False\<rparr>) s;
          s = s\<lparr>as_progress := map (\<lambda>(i, t). (i, progress_of t i (ti_speed t) (ti_downloaded t))) (ru_tasks r)\<rparr>
      in persist_task_snapshot env sv (ru_tasks r) task_id None s)"

section \<open>Every interleaving\<close>

datatype app_command =
    CmdCreate ustr string "string option" "string list option"
  | CmdInsert saving ustr
  | CmdFinish ustr
  | CmdPause saving ustr
  | CmdResume saving ustr
  | CmdCancel saving ustr
  | CmdDelete ustr
  | CmdConfig app_config

datatype runner_event =
    RunBegin "unit download_result"
  | RunProbed saving "file_metadata download_result" bool
  | RunChunk saving fragment_progress
  | RunTick bool
  | RunControl
  | RunEnd "unit download_result" "u64 option"
  | RunClose saving

datatype app_event = Command app_command | Runs ustr runner_event

fun command_step :: "app_env \<Rightarrow> app_command \<Rightarrow> app_state \<Rightarrow> app_state" where
  "command_step env (CmdCreate i url dir mirrors) s = fst (create_begin env i url dir mirrors s)"
| "command_step env (CmdInsert sv i) s = fst (create_insert env sv i s)"
| "command_step env (CmdFinish i) s = fst (create_finish i s)"
| "command_step env (CmdPause sv i) s = fst (pause_task env sv i s)"
| "command_step env (CmdResume sv i) s = fst (resume_task env sv i s)"
| "command_step env (CmdCancel sv i) s = fst (cancel_task env sv i s)"
| "command_step env (CmdDelete i) s = fst (delete_task i s)"
| "command_step env (CmdConfig c) s =
     s\<lparr>as_config := fst (update_config (as_fs s) (ae_cwd env) c (as_config s))\<rparr>"

fun runner_step :: "app_env \<Rightarrow> ustr \<Rightarrow> runner_event \<Rightarrow> runner \<Rightarrow> app_state \<Rightarrow> app_state" where
  "runner_step env i (RunBegin client) r s = (if ru_phase r = RuStart then runner_begin env client i r s else s)"
| "runner_step env i (RunProbed sv own prefer) r s =
     (if ru_phase r = RuProbing then runner_probed env sv own prefer i r s else s)"
| "runner_step env i (RunChunk sv p) r s = (if ru_reader r then runner_chunk env sv p i r s else s)"
| "runner_step env i (RunTick elapsed) r s = (if ru_monitor r then monitor_tick elapsed i r s else s)"
| "runner_step env i RunControl r s = (if ru_monitor r then monitor_control i r s else s)"
| "runner_step env i (RunEnd result final) r s =
     (if ru_phase r = RuRunning then runner_end result final i r s else s)"
| "runner_step env i (RunClose sv) r s = (if ru_phase r = RuEnding then runner_close env sv i r s else s)"

fun app_step :: "app_env \<Rightarrow> app_event \<Rightarrow> app_state \<Rightarrow> app_state" where
  "app_step env (Command c) s = command_step env c s"
| "app_step env (Runs i ev) s =
     (case map_of (as_runners s) i of None \<Rightarrow> s | Some r \<Rightarrow> runner_step env i ev r s)"

definition app_run :: "app_env \<Rightarrow> app_event list \<Rightarrow> app_state \<Rightarrow> app_state" where
  "app_run env evs s = fold (app_step env) evs s"

end
