(* ===== verification/Task_Runs.thy ===== *)
theory Task_Runs
  imports Task_Commands
begin

text \<open>
  What holds of every interleaving of commands and background tasks: the task list, the admission of
  new tasks, the snapshots on disk, the bookkeeping of the progress reader, and recovery.
\<close>

section \<open>Maps\<close>

lemma map_of_filter_key: "map_of (filter (\<lambda>e. fst e \<noteq> k) m) k' = (if k' = k then None else map_of m k')"
  by (induction m) auto

lemma map_of_dm [simp]:
  "map_of (dm_insert k v m) k' = (if k' = k then Some v else map_of m k')"
  "map_of (dm_remove k m) k' = (if k' = k then None else map_of m k')"
  "map_of (dm_modify k f m) k' = (if k' = k then map_option f (map_of m k') else map_of m k')"
  by (simp_all add: dm_insert_def dm_remove_def map_of_filter_key)
    (induction m, auto simp: dm_modify_def)

lemma distinct_dm [simp]:
  "distinct (map fst m) \<Longrightarrow> distinct (map fst (dm_insert k v m))"
  "distinct (map fst m) \<Longrightarrow> distinct (map fst (dm_remove k m))"
  "distinct (map fst (dm_modify k f m)) = distinct (map fst m)"
  by (auto simp: dm_insert_def dm_remove_def dm_modify_def distinct_map_filter comp_def case_prod_beta)

lemma update_task_status_map [simp]:
  "map_option ti_id (map_of (update_task_status i st m) k) = map_option ti_id (map_of m k)"
  by (cases "k = i"; cases "map_of m k") (simp_all add: update_task_status_def Let_def)

section \<open>What a step of a background task changes\<close>

named_theorems app_frame

lemma cleanup_frame [app_frame, simp]:
  "as_tasks (cleanup_runtime i s) = as_tasks s" "as_config (cleanup_runtime i s) = as_config s"
  "as_creating (cleanup_runtime i s) = as_creating s" "as_store (cleanup_runtime i s) = as_store s"
  "as_runners (cleanup_runtime i s) = as_runners s"
  by (simp_all add: cleanup_runtime_def)

lemma send_control_frame [app_frame, simp]:
  "as_tasks (send_control i st s) = as_tasks s" "as_config (send_control i st s) = as_config s"
  "as_creating (send_control i st s) = as_creating s" "as_store (send_control i st s) = as_store s"
  "as_runners (send_control i st s) = as_runners s" "as_controls (send_control i st s) = as_controls s"
  by (simp_all add: send_control_def)

lemma save_snapshot_frame [app_frame, simp]:
  "as_tasks (save_snapshot env sv sn s) = as_tasks s" "as_config (save_snapshot env sv sn s) = as_config s"
  "as_creating (save_snapshot env sv sn s) = as_creating s" "as_runners (save_snapshot env sv sn s) = as_runners s"
  "as_controls (save_snapshot env sv sn s) = as_controls s" "as_channels (save_snapshot env sv sn s) = as_channels s"
  by (simp_all add: save_snapshot_def)

lemma persist_frame [app_frame, simp]:
  "as_tasks (persist_task_snapshot env sv m i fr s) = as_tasks s"
  "as_config (persist_task_snapshot env sv m i fr s) = as_config s"
  "as_creating (persist_task_snapshot env sv m i fr s) = as_creating s"
  "as_runners (persist_task_snapshot env sv m i fr s) = as_runners s"
  "as_controls (persist_task_snapshot env sv m i fr s) = as_controls s"
  by (simp_all add: persist_task_snapshot_def Let_def split: option.splits)

lemma put_runner_frame [app_frame, simp]:
  "as_tasks (put_runner i r s) = as_tasks s" "as_config (put_runner i r s) = as_config s"
  "as_creating (put_runner i r s) = as_creating s" "as_store (put_runner i r s) = as_store s"
  "as_controls (put_runner i r s) = as_controls s" "as_channels (put_runner i r s) = as_channels s"
  by (simp_all add: put_runner_def)

lemma runner_stop_frame [app_frame, simp]:
  "as_tasks (runner_stop i r s) = as_tasks s" "as_config (runner_stop i r s) = as_config s"
  "as_creating (runner_stop i r s) = as_creating s" "as_store (runner_stop i r s) = as_store s"
  "as_tasks (runner_fail i r s) = as_tasks s" "as_config (runner_fail i r s) = as_config s"
  "as_creating (runner_fail i r s) = as_creating s" "as_store (runner_fail i r s) = as_store s"
  by (simp_all add: runner_stop_def runner_fail_def)

text \<open>The task list, the configuration and the pending creations are not touched.\<close>

definition same_front :: "app_state \<Rightarrow> app_state \<Rightarrow> bool" where
  "same_front s s' \<longleftrightarrow> as_tasks s' = as_tasks s \<and> as_config s' = as_config s \<and> as_creating s' = as_creating s"

lemma runner_ops_frame:
  "same_front s (runner_begin env client i r s)"
  "same_front s (runner_probed env sv own prefer i r s)"
  "same_front s (runner_chunk env sv p i r s)"
  "same_front s (monitor_tick elapsed i r s)"
  "same_front s (monitor_control i r s)"
  "same_front s (runner_end result final i r s)"
  "same_front s (runner_close env sv i r s)"
  by (simp add: same_front_def runner_begin_def Let_def split: option.split prod.split sum.split)
    (simp add: same_front_def runner_probed_def Let_def split: option.split sum.split download_error.split,
     simp add: same_front_def runner_chunk_def Let_def split: option.split,
     simp add: same_front_def monitor_tick_def Let_def split: option.split,
     simp add: same_front_def monitor_control_def,
     simp add: same_front_def runner_end_def Let_def split: option.split,
     simp add: same_front_def runner_close_def Let_def)

lemma runner_step_frame:
  "as_tasks (runner_step env i ev r s) = as_tasks s \<and> as_config (runner_step env i ev r s) = as_config s \<and>
   as_creating (runner_step env i ev r s) = as_creating s"
proof -
  have "same_front s (runner_step env i ev r s)"
    by (cases ev) (simp_all add: runner_ops_frame, simp_all add: same_front_def)
  then show ?thesis by (simp add: same_front_def)
qed

text \<open>The steps of a background task, as one function of the state.\<close>

lemma app_step_runs_frame:
  "as_tasks (app_step env (Runs i ev) s) = as_tasks s \<and> as_config (app_step env (Runs i ev) s) = as_config s \<and>
   as_creating (app_step env (Runs i ev) s) = as_creating s"
  by (simp add: runner_step_frame split: option.split)

lemma app_run_Cons [simp]: "app_run env (ev # evs) s = app_run env evs (app_step env ev s)"
  by (simp add: app_run_def)

lemma app_run_Nil [simp]: "app_run env [] s = s"
  by (simp add: app_run_def)

text \<open>
  C34. No background task ever changes the task list: it works on its own copy of the map. Whatever
  downloads do, complete, fail or make progress, the list shows every task as before, and a task
  whose download has completed still counts as active: when the limit is reached, a new task is
  refused although nothing is running.
\<close>

theorem downloads_never_update_task_list:
  assumes "\<forall>ev \<in> set evs. \<exists>i e. ev = Runs i e"
  shows "get_task_list (app_run env evs s) = get_task_list s \<and>
    (map_of (as_creating s) i = Some cr \<and> \<not> cr_inserted cr \<and>
     cr_max_tasks cr \<le> length (filter (\<lambda>(_, t). active t) (as_tasks s)) \<longrightarrow>
     \<not> is_ok (snd (create_insert env sv i (app_run env evs s))))"
proof -
  have "as_tasks (app_run env evs s) = as_tasks s \<and> as_creating (app_run env evs s) = as_creating s"
    using assms
  proof (induction evs arbitrary: s)
    case (Cons ev evs)
    then show ?case using app_step_runs_frame by (metis app_run_Cons list.set_intros)
  qed simp
  then show ?thesis by (auto simp: get_task_list_def create_insert_def Let_def)
qed

section \<open>The task list\<close>

text \<open>No two unfinished tasks have the same URL, and a task is listed once.\<close>

definition task_list_ok :: "task_map \<Rightarrow> bool" where
  "task_list_ok m \<longleftrightarrow> distinct (map fst m) \<and>
     (\<forall>i j t u. map_of m i = Some t \<and> map_of m j = Some u \<and> unfinished t \<and> unfinished u \<and> ti_url t = ti_url u \<longrightarrow> i = j)"

lemma task_list_ok_modify:
  assumes "task_list_ok m" "\<And>t. ti_url (f t) = ti_url t" "\<And>t. map_of m k = Some t \<Longrightarrow> unfinished (f t) \<Longrightarrow> unfinished t"
  shows "task_list_ok (dm_modify k f m)"
proof -
  have "\<exists>t. map_of m i = Some t \<and> ti_url t = ti_url t' \<and> (unfinished t' \<longrightarrow> unfinished t)"
    if "map_of (dm_modify k f m) i = Some t'" for i t'
    using that assms(2,3) by (cases "i = k") auto
  with assms(1) show ?thesis unfolding task_list_ok_def by (metis distinct_dm(3))
qed

lemma task_list_ok_remove: "task_list_ok m \<Longrightarrow> task_list_ok (dm_remove k m)"
  by (auto simp: task_list_ok_def split: if_splits)

lemma task_list_ok_insert:
  assumes "task_list_ok m" "\<not> list_ex (\<lambda>(_, u). ti_url u = ti_url t \<and> unfinished u) m"
  shows "task_list_ok (dm_insert k t m)"
proof -
  have "\<not> (ti_url u = ti_url t \<and> unfinished u)" if "map_of m i = Some u" for i u
    using assms(2) map_of_SomeD[OF that] by (auto simp: list_ex_iff)
  with assms(1) show ?thesis by (auto simp: task_list_ok_def split: if_splits)
qed

lemma create_begin_frame [simp]:
  "as_tasks (fst (create_begin env i url dir ms s)) = as_tasks s"
  "as_runners (fst (create_begin env i url dir ms s)) = as_runners s"
  "as_store (fst (create_begin env i url dir ms s)) = as_store s"
  by (auto simp: create_begin_def Let_def split: sum.splits option.splits prod.splits)

lemma create_insert_cases:
  obtains (refused) "as_tasks (fst (create_insert env sv i s)) = as_tasks s"
      "as_store (fst (create_insert env sv i s)) = as_store s" "\<not> is_ok (snd (create_insert env sv i s))"
      "as_runners (fst (create_insert env sv i s)) = as_runners s"
  | (inserted) cr sn where "map_of (as_creating s) i = Some cr" "\<not> cr_inserted cr"
      "\<not> list_ex (\<lambda>(_, t). ti_url t = ti_url (new_task env i (cr_url cr) (sv_now sv)) \<and> unfinished t) (as_tasks s)"
      "length (filter (\<lambda>(_, t). active t) (as_tasks s)) < cr_max_tasks cr"
      "create_insert env sv i s = (save_snapshot env sv sn
         (s\<lparr>as_tasks := dm_insert i (new_task env i (cr_url cr) (sv_now sv)) (as_tasks s),
            as_creating := dm_insert i (cr\<lparr>cr_inserted := True\<rparr>) (as_creating s)\<rparr>), Inr ())"
      "sn_id sn = i" "sn_completed_fragments sn = []"
proof (cases "map_of (as_creating s) i")
  case (Some cr)
  let ?t = "new_task env i (cr_url cr) (sv_now sv)"
  let ?dup = "list_ex (\<lambda>(_, t). ti_url t = ti_url ?t \<and> unfinished t) (as_tasks s)"
  let ?full = "cr_max_tasks cr \<le> length (filter (\<lambda>(_, t). active t) (as_tasks s))"
  show thesis
  proof (cases "cr_inserted cr \<or> ?dup \<or> ?full")
    case True
    then show thesis using Some by (intro refused) (auto simp: create_insert_def Let_def)
  next
    case False
    show thesis
      by (rule inserted[OF Some, of "task_info_to_snapshot (sv_now sv) ?t
            (text_join (to_ustr (cr_dir cr)) (ti_file_name ?t)) 0 [] None None"])
        (use False Some in \<open>auto simp: create_insert_def Let_def task_info_to_snapshot_def new_task_def\<close>)
  qed
qed (rule refused, simp_all add: create_insert_def)

lemma create_finish_tasks:
  "as_tasks (fst (create_finish i s)) = as_tasks s \<or> as_tasks (fst (create_finish i s)) = dm_remove i (as_tasks s)"
  by (auto simp: create_finish_def Let_def split: option.splits)

lemma command_step_list_ok:
  assumes "task_list_ok (as_tasks s)"
  shows "task_list_ok (as_tasks (command_step env c s))"
proof (cases c)
  case (CmdInsert sv i)
  show ?thesis
  proof (cases rule: create_insert_cases[of env sv i s])
    case refused
    then show ?thesis using CmdInsert assms by simp
  next
    case (inserted cr sn)
    then show ?thesis using CmdInsert task_list_ok_insert[OF assms inserted(3)] by simp
  qed
next
  case (CmdFinish i)
  then show ?thesis using create_finish_tasks[of i s] assms task_list_ok_remove by fastforce
next
  case (CmdPause sv i)
  then show ?thesis using assms
    by (auto simp: pause_task_def Let_def set_status_def unfinished_def intro!: task_list_ok_modify split: option.splits)
next
  case (CmdResume sv i)
  then show ?thesis using assms
    by (auto simp: resume_task_def Let_def set_status_def unfinished_def intro!: task_list_ok_modify split: option.splits)
next
  case (CmdCancel sv i)
  then show ?thesis using assms
    by (auto simp: cancel_task_def Let_def set_status_def unfinished_def intro!: task_list_ok_modify split: option.splits)
next
  case (CmdDelete i)
  then show ?thesis using assms by (auto simp: delete_task_def task_list_ok_remove split: option.splits)
qed (use assms in simp_all)


section \<open>The progress reader\<close>

definition count_chunks :: "fragment_progress list \<Rightarrow> runner \<Rightarrow> runner" where
  "count_chunks ps r = fold count_chunk ps r"

definition reports_of :: "u32 \<Rightarrow> fragment_progress list \<Rightarrow> u64 list" where
  "reports_of i ps = map fp_downloaded (filter (\<lambda>p. fp_index p = i) ps)"

definition byte_sum :: "(u32 \<times> u64) list \<Rightarrow> nat" where
  "byte_sum m = sum_list (map (\<lambda>e. unat (snd e)) m)"

definition reader_start :: "runner \<Rightarrow> bool" where
  "reader_start r \<longleftrightarrow> ru_completed r = [] \<and> ru_frag_bytes r = [] \<and> ru_total_downloaded r = 0"

lemma count_chunks_snoc [simp]: "count_chunks (ps @ [p]) r = count_chunk p (count_chunks ps r)"
  by (simp add: count_chunks_def)

lemma byte_sum_insert:
  assumes "distinct (map fst m)"
  shows "byte_sum (dm_insert i n m) + (case map_of m i of Some k \<Rightarrow> unat k | None \<Rightarrow> 0) = byte_sum m + unat n"
proof -
  have "byte_sum (filter (\<lambda>e. fst e \<noteq> i) m) + (case map_of m i of Some k \<Rightarrow> unat k | None \<Rightarrow> 0) = byte_sum m"
    using assms
  proof (induction m)
    case (Cons e m)
    have "filter (\<lambda>e. fst e \<noteq> i) m = m" if "i \<notin> fst ` set m"
      using that by (auto intro!: filter_True)
    with Cons show ?case by (auto simp: byte_sum_def map_of_eq_None_iff[THEN iffD2] split: option.splits)
  qed (simp add: byte_sum_def)
  then show ?thesis by (simp add: dm_insert_def byte_sum_def)
qed

lemma set_insert_facts [simp]:
  "set (set_insert x xs) = insert x (set xs)" "sorted xs \<Longrightarrow> sorted (set_insert x xs)"
  "distinct xs \<Longrightarrow> distinct (set_insert x xs)"
  by (auto simp: set_insert_def set_insort_key sorted_insort distinct_insort)

lemma reader_maps:
  assumes "reader_start r"
  shows "distinct (map fst (ru_frag_bytes (count_chunks ps r))) \<and>
    map_of (ru_frag_bytes (count_chunks ps r)) i =
      (if reports_of i ps = [] then None else Some (last (reports_of i ps))) \<and>
    set (ru_completed (count_chunks ps r)) = {fp_index p |p. p \<in> set ps \<and> fp_completed p} \<and>
    sorted (ru_completed (count_chunks ps r)) \<and> distinct (ru_completed (count_chunks ps r))"
proof (induction ps rule: rev_induct)
  case Nil
  then show ?case using assms by (simp add: reader_start_def count_chunks_def reports_of_def)
next
  case (snoc p ps)
  then show ?case by (auto simp: count_chunk_def reports_of_def Let_def)
qed

text \<open>
  The progress reader counts each byte once as long as no fragment reports less than before: the
  total is the sum of what the fragments reported last, and the completed fragments are exactly those
  that said so, in order and once. A fragment that starts again after a failure reports less; the
  total then counts its bytes again.
\<close>

theorem reader_counts_bytes:
  assumes "reader_start r" "\<forall>i. sorted (reports_of i ps)"
    and "byte_sum (ru_frag_bytes (count_chunks ps r)) < 2 ^ 64"
  shows "unat (ru_total_downloaded (count_chunks ps r)) = byte_sum (ru_frag_bytes (count_chunks ps r)) \<and>
    map_of (ru_frag_bytes (count_chunks ps r)) i =
      (if reports_of i ps = [] then None else Some (last (reports_of i ps))) \<and>
    set (ru_completed (count_chunks ps r)) = {fp_index p |p. p \<in> set ps \<and> fp_completed p} \<and>
    sorted (ru_completed (count_chunks ps r)) \<and> distinct (ru_completed (count_chunks ps r))"
proof -
  have "unat (ru_total_downloaded (count_chunks ps r)) = byte_sum (ru_frag_bytes (count_chunks ps r))"
    using assms(2,3)
  proof (induction ps rule: rev_induct)
    case Nil
    then show ?case using assms(1) by (simp add: reader_start_def count_chunks_def byte_sum_def)
  next
    case (snoc p ps)
    let ?m = "ru_frag_bytes (count_chunks ps r)" and ?i = "fp_index p"
    let ?old = "case map_of ?m ?i of Some n \<Rightarrow> n | None \<Rightarrow> 0"
    have sorted: "\<forall>i. sorted (reports_of i ps)"
      using snoc.prems(1) by (auto simp: reports_of_def sorted_append)
    have "sorted (reports_of ?i ps @ [fp_downloaded p])"
      using spec[OF snoc.prems(1), of ?i] by (simp add: reports_of_def)
    then have old: "?old \<le> fp_downloaded p"
      using reader_maps[OF assms(1), of ps ?i] by (auto simp: sorted_append)
    have sum: "byte_sum (dm_insert ?i (fp_downloaded p) ?m) + unat ?old = byte_sum ?m + unat (fp_downloaded p)"
      using byte_sum_insert[of ?m ?i "fp_downloaded p"] reader_maps[OF assms(1), of ps ?i, THEN conjunct1]
      by (cases "map_of ?m ?i") simp_all
    have new: "ru_frag_bytes (count_chunks (ps @ [p]) r) = dm_insert ?i (fp_downloaded p) ?m"
      by (simp add: count_chunk_def Let_def)
    have le: "unat ?old \<le> unat (fp_downloaded p)" using old by (simp add: word_le_nat_alt)
    with sum snoc.prems(2) new have "byte_sum ?m < 2 ^ 64" by simp
    from snoc.IH[OF sorted this] sum le snoc.prems(2) new show ?case
      by (simp add: count_chunk_def Let_def unat_saturating_add)
  qed
  with reader_maps[OF assms(1)] show ?thesis by blast
qed

text \<open>Ten bytes, a retry from the start, the same ten bytes.\<close>

lemma reader_counts_retry_twice:
  "ru_total_downloaded (count_chunks
     [\<lparr>fp_index = 0, fp_completed = False, fp_downloaded = 10\<rparr>,
      \<lparr>fp_index = 0, fp_completed = False, fp_downloaded = 0\<rparr>,
      \<lparr>fp_index = 0, fp_completed = True, fp_downloaded = 10\<rparr>]
     (r\<lparr>ru_frag_bytes := [], ru_total_downloaded := 0\<rparr>)) = 20"
  by (simp add: count_chunks_def count_chunk_def Let_def saturating_add_def saturating_sub_def dm_insert_def)

section \<open>Recovered tasks\<close>

lemma put_runner_runners [simp]:
  "as_runners (put_runner i r s) = dm_insert i r (as_runners s)"
  "as_runners (runner_stop i r s) = dm_insert i (r\<lparr>ru_phase := RuDone\<rparr>) (as_runners s)"
  by (simp_all add: put_runner_def runner_stop_def)

lemma runner_fail_runners [simp]:
  "as_runners (runner_fail i r s) =
     dm_insert i (r\<lparr>ru_tasks := update_task_status i Failed (ru_tasks r), ru_phase := RuDone\<rparr>) (as_runners s)"
  by (simp add: runner_fail_def)

text \<open>A step of a background task replaces its own entry and no other.\<close>

definition replaces_runner :: "ustr \<Rightarrow> app_state \<Rightarrow> app_state \<Rightarrow> bool" where
  "replaces_runner i s s' \<longleftrightarrow>
     as_runners s' = as_runners s \<or> (\<exists>r. as_runners s' = dm_insert i r (as_runners s))"

lemma replaces_runnerI:
  "as_runners s' = as_runners s \<Longrightarrow> replaces_runner i s s'"
  "as_runners s' = dm_insert i r (as_runners s) \<Longrightarrow> replaces_runner i s s'"
  by (auto simp: replaces_runner_def)

lemma runner_ops_replace:
  "replaces_runner i s (runner_begin env client i r s)"
  "replaces_runner i s (runner_probed env sv own prefer i r s)"
  "replaces_runner i s (runner_chunk env sv p i r s)"
  "replaces_runner i s (monitor_tick elapsed i r s)"
  "replaces_runner i s (monitor_control i r s)"
  "replaces_runner i s (runner_end result final i r s)"
  "replaces_runner i s (runner_close env sv i r s)"
  by (auto simp: runner_begin_def Let_def intro: replaces_runnerI split: option.split prod.split sum.split)
    (auto simp: runner_probed_def Let_def intro: replaces_runnerI split: option.split sum.split download_error.split,
     auto simp: runner_chunk_def Let_def intro: replaces_runnerI split: option.split,
     auto simp: monitor_tick_def Let_def intro: replaces_runnerI split: option.split,
     auto simp: monitor_control_def intro: replaces_runnerI,
     auto simp: runner_end_def Let_def intro: replaces_runnerI split: option.split,
     auto simp: runner_close_def Let_def intro: replaces_runnerI)

lemma runner_step_replaces: "replaces_runner i s (runner_step env i ev r s)"
  by (cases ev) (simp_all add: runner_ops_replace replaces_runnerI(1))

lemma command_step_live:
  assumes "\<And>url dir ms. c \<noteq> CmdCreate k url dir ms"
    and "map_of (as_creating s) k = None" "map_of (as_runners s) k = None"
  shows "map_of (as_creating (command_step env c s)) k = None \<and> map_of (as_runners (command_step env c s)) k = None"
  using assms
  by (cases c)
    (auto simp: create_begin_def create_insert_def create_finish_def pause_task_def resume_task_def
      cancel_task_def delete_task_def Let_def split: option.splits sum.splits prod.splits)

lemma replaces_runner_None:
  "replaces_runner i s s' \<Longrightarrow> map_of (as_runners s) i = Some r \<Longrightarrow> map_of (as_runners s) k = None \<Longrightarrow>
     map_of (as_runners s') k = None"
  by (auto simp: replaces_runner_def)

lemma app_run_never_created:
  assumes "map_of (as_creating s) k = None" "map_of (as_runners s) k = None"
    and "\<forall>ev \<in> set evs. \<forall>url dir ms. ev \<noteq> Command (CmdCreate k url dir ms)"
  shows "map_of (as_runners (app_run env evs s)) k = None"
  using assms
proof (induction evs arbitrary: s)
  case (Cons ev evs)
  have "map_of (as_creating (app_step env ev s)) k = None \<and> map_of (as_runners (app_step env ev s)) k = None"
  proof (cases ev)
    case (Command c)
    with Cons.prems command_step_live[of c k s env] show ?thesis by simp
  next
    case (Runs i e)
    show ?thesis
    proof (cases "map_of (as_runners s) i")
      case (Some r)
      then show ?thesis
        using Runs Cons.prems(1,2) runner_step_frame replaces_runner_None[OF runner_step_replaces Some] by simp
    qed (use Runs Cons.prems in simp)
  qed
  with Cons.IH Cons.prems(3) show ?case by simp
qed simp

text \<open>
  C35. A task that was recovered from the store is never downloaded again: after a restart there is no
  background task for it, and no sequence of commands and steps ever starts one, because only a new
  creation, under a new identifier, does. Resuming it still succeeds and shows it as downloading.
\<close>

theorem recovered_task_never_runs:
  assumes "load_recovered_tasks env (app_new dir store fs) = (s, Inr ())"
    and "\<forall>ev \<in> set evs. \<forall>url dir ms. ev \<noteq> Command (CmdCreate k url dir ms)"
    and "map_of (as_tasks (app_run env evs s)) k = Some t" "ti_status t = Paused"
  shows "map_of (as_runners (app_run env evs s)) k = None \<and>
    snd (resume_task env sv k (app_run env evs s)) = Inr () \<and>
    map_option ti_status (map_of (as_tasks (fst (resume_task env sv k (app_run env evs s)))) k) = Some Downloading \<and>
    map_of (as_runners (fst (resume_task env sv k (app_run env evs s)))) k = None"
proof -
  have "as_creating s = []" "as_runners s = []"
    using assms(1) by (auto simp: load_recovered_tasks_def app_new_def split: sum.splits)
  then have "map_of (as_runners (app_run env evs s)) k = None"
    using app_run_never_created[OF _ _ assms(2)] by simp
  with assms(3,4) show ?thesis by (simp add: resume_task_def Let_def set_status_def)
qed

section \<open>Samples\<close>

definition sample_app_env :: "json \<Rightarrow> app_env" where
  "sample_app_env j =
     \<lparr>ae_json = j, ae_cwd = [], ae_parse = (\<lambda>_. Some (sample_url ''host.io'')), ae_url_path = (\<lambda>_. None),
      ae_hf_endpoint = None\<rparr>"

definition sample_task :: "download_state \<Rightarrow> task_info" where
  "sample_task st =
     \<lparr>ti_id = [49], ti_url = [104], ti_file_name = [97], ti_file_size = Some 10, ti_downloaded = 3, ti_speed = 0,
      ti_status = st, ti_progress = Fin 0, ti_fragments_total = 1, ti_fragments_done = 0, ti_created_at = [50]\<rparr>"

definition sample_runner :: "download_state \<Rightarrow> runner" where
  "sample_runner st =
     \<lparr>ru_tasks = [([49], sample_task st)], ru_url = ''u'', ru_dir = ''/dl'', ru_config = download_config_default ''/dl'',
      ru_mirrors = None, ru_phase = RuRunning, ru_reader = True, ru_monitor = True, ru_injected = [],
      ru_total_frags = 1, ru_completed = [], ru_frag_bytes = [], ru_total_downloaded = 0, ru_last_downloaded = 0\<rparr>"

text \<open>One task is downloading, another is to be created, and one task is the limit.\<close>

definition sample_app :: app_state where
  "sample_app = (app_new ''/dl'' [] config_fs)
     \<lparr>as_tasks := [([49], sample_task Downloading)], as_controls := [[49]],
      as_runners := [([49], sample_runner Downloading)],
      as_creating := [([50], \<lparr>cr_url = ''v'', cr_dir = ''/dl'', cr_mirrors = None, cr_max_tasks = 1, cr_inserted = False\<rparr>)]\<rparr>"

theorem downloads_never_update_task_list_witness:
  "\<not> is_ok (snd (create_insert (sample_app_env unary_json) \<lparr>sv_now = [51], sv_fault = NoFault\<rparr> [50]
     (app_run (sample_app_env unary_json)
        [Runs [49] (RunEnd (Inr ()) (Some 10)), Runs [49] (RunClose \<lparr>sv_now = [51], sv_fault = NoFault\<rparr>)] sample_app)))"
  using downloads_never_update_task_list[of
      "[Runs [49] (RunEnd (Inr ()) (Some 10)), Runs [49] (RunClose \<lparr>sv_now = [51], sv_fault = NoFault\<rparr>)]"
      "sample_app_env unary_json" sample_app "[50]"
      "\<lparr>cr_url = ''v'', cr_dir = ''/dl'', cr_mirrors = None, cr_max_tasks = 1, cr_inserted = False\<rparr>"
      "\<lparr>sv_now = [51], sv_fault = NoFault\<rparr>"]
  by (simp add: sample_app_def app_new_def active_def sample_task_def del: app_run_Cons app_run_Nil)


theorem reader_counts_bytes_witness:
  "unat (ru_total_downloaded (count_chunks
     [\<lparr>fp_index = 1, fp_completed = False, fp_downloaded = 4\<rparr>, \<lparr>fp_index = 0, fp_completed = True, fp_downloaded = 7\<rparr>,
      \<lparr>fp_index = 1, fp_completed = True, fp_downloaded = 9\<rparr>] (sample_runner Downloading))) = 16"
proof -
  let ?ps = "[\<lparr>fp_index = 1, fp_completed = False, fp_downloaded = 4\<rparr>, \<lparr>fp_index = 0, fp_completed = True, fp_downloaded = 7\<rparr>,
      \<lparr>fp_index = 1, fp_completed = True, fp_downloaded = 9\<rparr>] :: fragment_progress list"
  have b: "byte_sum (ru_frag_bytes (count_chunks ?ps (sample_runner Downloading))) = 16"
    by (simp add: count_chunks_def count_chunk_def sample_runner_def dm_insert_def byte_sum_def Let_def)
  have "reader_start (sample_runner Downloading)" by (simp add: reader_start_def sample_runner_def)
  moreover have "\<forall>i. sorted (reports_of i ?ps)" by (auto simp: reports_of_def)
  ultimately show ?thesis using reader_counts_bytes[of "sample_runner Downloading" ?ps] b by simp
qed

lemma insert_recovered_same:
  "\<forall>s \<in> set ss. s = sn \<Longrightarrow> map_of (insert_recovered ss m) (sn_id sn) =
     (if ss = [] then map_of m (sn_id sn) else Some (snapshot_to_task_info sn))"
  by (induction ss arbitrary: m) auto

theorem recovered_task_never_runs_witness:
  "\<exists>s. load_recovered_tasks (sample_app_env (table_json [sample_snapshot Paused]))
       (app_new ''/dl'' (sample_dir Paused) config_fs) = (s, Inr ()) \<and>
     map_of (as_runners (fst (resume_task (sample_app_env (table_json [sample_snapshot Paused]))
       \<lparr>sv_now = [51], sv_fault = NoFault\<rparr> [49] s))) [49] = None"
proof -
  let ?j = "table_json [sample_snapshot Paused]"
  obtain ss where ss: "recover_pending_snapshots ?j (sample_dir Paused) = Inr ss"
    "\<And>s. s \<in> set ss \<Longrightarrow> s = sample_snapshot Paused" using sample_dir_recovers by blast
  let ?s = "(app_new ''/dl'' (sample_dir Paused) config_fs)\<lparr>as_tasks := insert_recovered ss []\<rparr>"
  have load: "load_recovered_tasks (sample_app_env ?j) (app_new ''/dl'' (sample_dir Paused) config_fs) = (?s, Inr ())"
    using ss(1) by (simp add: load_recovered_tasks_def sample_app_env_def app_new_def)
  have id: "sn_id (sample_snapshot Paused) = [49]" "sn_status (sample_snapshot Paused) = Paused" "valid_str [49]"
    by (simp_all add: sample_snapshot_def scalar_def)
  have "sample_snapshot Paused \<in> set ss"
    using recover_pending_mem[OF sample_dir_wf ss(1) id(3) sample_dir_load] id(2) by simp
  then have "ss \<noteq> []" by auto
  then have "map_of (as_tasks (app_run (sample_app_env ?j) [] ?s)) [49] = Some (snapshot_to_task_info (sample_snapshot Paused))"
    using insert_recovered_same[of ss "sample_snapshot Paused" "[]"] ss(2) id(1) by simp
  moreover have "ti_status (snapshot_to_task_info (sample_snapshot Paused)) = Paused"
    using id(2) by (simp add: snapshot_to_task_info_def normalize_recovered_status_def)
  ultimately show ?thesis
    using recovered_task_never_runs[OF load, of "[]" "[49]"] load by auto
qed

end
