(* ===== verification/Task_Snapshots.thy ===== *)
theory Task_Snapshots
  imports Task_Runs
begin

text \<open>
  What the background task leaves in the store: the last snapshot of a download, what is left of a
  cancellation, and why a download never starts from saved fragments. \<open>serde_json\<close> is assumed to
  parse back what it wrote; saves may fail at any step unless stated.
\<close>

section \<open>Saving\<close>

definition json_ok :: "app_env \<Rightarrow> bool" where
  "json_ok env \<longleftrightarrow> (\<forall>sn. json_roundtrip (ae_json env) sn)"

lemma stored_save:
  assumes "dir_wf (as_store s)" "json_ok env" "valid_str (sn_id sn)" "valid_str i"
  shows "stored_snapshot env i (save_snapshot env sv sn s) =
      (if sv_fault sv = NoFault \<and> i = sn_id sn then Some sn else stored_snapshot env i s)"
    "dir_wf (as_store (save_snapshot env sv sn s))"
  using save_any[OF assms(1), of "ae_json env" sn i "sv_fault sv"] assms(2-4)
  by (simp_all add: json_ok_def stored_snapshot_def save_snapshot_def)

lemma stored_cong: "as_store s = as_store s' \<Longrightarrow> stored_snapshot env i s = stored_snapshot env i s'"
  by (simp add: stored_snapshot_def)

text \<open>What a persisted snapshot keeps of the one before.\<close>

definition kept_fields :: "task_snapshot option \<Rightarrow> task_snapshot \<Rightarrow> bool" where
  "kept_fields before sn =
     (case before of
        None \<Rightarrow> sn_completed_fragments sn = [] \<and> sn_etag sn = None \<and> sn_last_modified sn = None
      | Some old \<Rightarrow> sn_save_path sn = sn_save_path old \<and> sn_completed_fragments sn = sn_completed_fragments old \<and>
          sn_etag sn = sn_etag old \<and> sn_last_modified sn = sn_last_modified old \<and>
          sn_fragment_size sn = sn_fragment_size old \<and> sn_retry_count sn = sn_retry_count old)"

lemma persisted_snapshot_fields [simp]:
  "sn_id (persisted_snapshot now cfg old fr t) = ti_id t"
  "sn_status (persisted_snapshot now cfg old fr t) = ti_status t"
  "sn_file_size (persisted_snapshot now cfg old fr t) = ti_file_size t"
  "sn_downloaded (persisted_snapshot now cfg old fr t) = ti_downloaded t"
  "kept_fields old (persisted_snapshot now cfg old fr t)"
  by (cases old; simp add: persisted_snapshot_def task_info_to_snapshot_def kept_fields_def Let_def)+

lemma persist_stored:
  assumes "dir_wf (as_store s)" "json_ok env" "map_of m i = Some t" "ti_id t = i" "valid_str i"
    and "sv_fault sv = NoFault"
  shows "\<exists>sn. stored_snapshot env i (persist_task_snapshot env sv m i fr s) = Some sn \<and>
    sn_status sn = ti_status t \<and> sn_file_size sn = ti_file_size t \<and> sn_downloaded sn = ti_downloaded t \<and>
    kept_fields (stored_snapshot env i s) sn"
  using stored_save(1)[OF assms(1,2), of _ i sv] assms(3-6)
  by (simp add: persist_task_snapshot_def)

lemma persist_wf:
  assumes "dir_wf (as_store s)" "json_ok env" "\<And>t. map_of m i = Some t \<Longrightarrow> valid_str (ti_id t)"
  shows "dir_wf (as_store (persist_task_snapshot env sv m i fr s))"
  using assms stored_save(2)[OF assms(1,2)]
  by (cases "map_of m i") (simp_all add: persist_task_snapshot_def)

section \<open>The end of a download\<close>

text \<open>The last two steps of \<open>task_fn\<close>.\<close>

definition runner_finish :: "app_env \<Rightarrow> saving \<Rightarrow> unit download_result \<Rightarrow> u64 option \<Rightarrow> ustr \<Rightarrow> app_state \<Rightarrow> app_state" where
  "runner_finish env sv result final i s = app_run env [Runs i (RunEnd result final), Runs i (RunClose sv)] s"

lemma finish_stored:
  assumes "dir_wf (as_store s)" "json_ok env" "valid_str i" "sv_fault sv = NoFault"
    and "map_of (as_runners s) i = Some r" "ru_phase r = RuRunning"
    and "map_of (ru_tasks r) i = Some u" "ti_id u = i" "ti_status u \<noteq> Cancelled"
  shows "\<exists>sn. stored_snapshot env i (runner_finish env sv result final i s) = Some sn \<and>
    sn_status sn = ti_status (terminal_task result final u) \<and>
    sn_file_size sn = ti_file_size (terminal_task result final u) \<and>
    sn_downloaded sn = ti_downloaded (terminal_task result final u) \<and>
    kept_fields (stored_snapshot env i s) sn"
proof -
  let ?t = "terminal_task result final u"
  let ?r = "r\<lparr>ru_phase := RuEnding, ru_tasks := dm_modify i (terminal_task result final) (ru_tasks r)\<rparr>"
  let ?s = "send_control i (ti_status ?t) (put_runner i ?r s)"
  have one: "app_step env (Runs i (RunEnd result final)) s = ?s"
    using assms by (simp add: runner_end_def Let_def)
  have r: "map_of (as_runners ?s) i = Some ?r" by (simp add: put_runner_def)
  define s2 where "s2 = (runner_stop i (?r\<lparr>ru_monitor := False\<rparr>) ?s)\<lparr>as_progress :=
      map (\<lambda>(i, t). (i, progress_of t i (ti_speed t) (ti_downloaded t))) (ru_tasks ?r)\<rparr>"
  have two: "app_step env (Runs i (RunClose sv)) ?s = persist_task_snapshot env sv (ru_tasks ?r) i None s2"
    by (simp only: app_step.simps r option.case) (simp add: runner_close_def Let_def s2_def)
  have st: "as_store s2 = as_store s" by (simp add: s2_def)
  have "ti_id ?t = i" using assms(8) by (simp add: terminal_task_def Let_def split: sum.split)
  then have "\<exists>sn. stored_snapshot env i (persist_task_snapshot env sv (ru_tasks ?r) i None s2) = Some sn \<and>
    sn_status sn = ti_status ?t \<and> sn_file_size sn = ti_file_size ?t \<and> sn_downloaded sn = ti_downloaded ?t \<and>
    kept_fields (stored_snapshot env i s2) sn"
    using assms by (intro persist_stored) (simp_all add: st)
  then show ?thesis
    unfolding runner_finish_def app_run_Cons app_run_Nil one two stored_cong[OF st] .
qed


lemma map_of_tasks_cancel:
  assumes "map_of (as_tasks s) i = Some t" "ti_status t \<noteq> Completed" "ti_status t \<noteq> Cancelled"
  shows "\<exists>tasks. fst (cancel_task env sv i s) = persist_task_snapshot env sv tasks i None
      ((send_control i Cancelled s)\<lparr>as_tasks := tasks\<rparr>) \<and> tasks = as_tasks (fst (cancel_task env sv i s)) \<and>
    map_option ti_status (map_of tasks i) = Some Cancelled \<and> map_option ti_id (map_of tasks i) = Some (ti_id t)"
  using assms by (auto simp: cancel_task_def Let_def set_status_def)

text \<open>
  A cancellation does not last: the command writes a snapshot that says cancelled, but when the
  background task then ends with the error of the cancellation, its own copy of the task still says
  downloading, so it writes failed over it. The task list says cancelled, the store failed.
\<close>

theorem cancelled_download_stored_as_failed:
  assumes "dir_wf (as_store s)" "json_ok env" "valid_str i" "sv_fault sv = NoFault" "sv_fault sv' = NoFault"
    and "map_of (as_tasks s) i = Some t" "ti_id t = i" "ti_status t = Downloading \<or> ti_status t = Pending"
    and "map_of (as_runners s) i = Some r" "ru_phase r = RuRunning"
    and "map_of (ru_tasks r) i = Some u" "ti_id u = i" "ti_status u = Downloading"
  shows "let s1 = command_step env (CmdCancel sv i) s;
             s2 = runner_finish env sv' (Inl Cancelled_Error) final i s1
    in map_option sn_status (stored_snapshot env i s1) = Some Cancelled \<and>
       map_option ti_status (map_of (as_tasks s2) i) = Some Cancelled \<and>
       map_option sn_status (stored_snapshot env i s2) = Some Failed"
proof -
  let ?s1 = "command_step env (CmdCancel sv i) s"
  have "ti_status t \<noteq> Completed" "ti_status t \<noteq> Cancelled" using assms(8) by auto
  from map_of_tasks_cancel[OF assms(6) this, of env sv] obtain tasks where c:
    "?s1 = persist_task_snapshot env sv tasks i None ((send_control i Cancelled s)\<lparr>as_tasks := tasks\<rparr>)"
    "as_tasks ?s1 = tasks" "map_option ti_status (map_of tasks i) = Some Cancelled"
    "map_option ti_id (map_of tasks i) = Some (ti_id t)" by (simp, blast)
  then obtain t' where t': "map_of tasks i = Some t'" "ti_status t' = Cancelled" "ti_id t' = i"
    using assms(7) by auto
  let ?s0 = "(send_control i Cancelled s)\<lparr>as_tasks := tasks\<rparr>"
  have s0: "dir_wf (as_store ?s0)" using assms(1) by simp
  have 1: "map_option sn_status (stored_snapshot env i ?s1) = Some Cancelled"
    using persist_stored[OF s0 assms(2) t'(1,3) assms(3,4), of None] t'(2) unfolding c(1) by auto
  have wf: "dir_wf (as_store ?s1)"
    unfolding c(1) by (rule persist_wf[OF s0 assms(2)]) (use t' assms(3) in simp)
  have run: "map_of (as_runners ?s1) i = Some r" unfolding c(1) using assms(9) by simp
  have "ti_status u \<noteq> Cancelled" using assms(13) by simp
  from finish_stored[OF wf assms(2,3,5) run assms(10-12) this, of "Inl Cancelled_Error" final]
  have 2: "map_option sn_status (stored_snapshot env i (runner_finish env sv' (Inl Cancelled_Error) final i ?s1)) = Some Failed"
    by (auto simp: terminal_task_def)
  have "as_tasks (runner_finish env sv' (Inl Cancelled_Error) final i ?s1) = tasks"
    using app_step_runs_frame c(2) by (simp only: runner_finish_def app_run_Cons app_run_Nil)
  then show ?thesis using 1 2 t' by (simp add: Let_def)
qed

section \<open>Breakpoints\<close>

text \<open>
  What holds of the store and the background tasks in every interleaving, when identifiers are fresh:
  the snapshot of a task that is created or run is under its own identifier, and has no completed
  fragment before the background task starts.
\<close>

definition started :: "app_state \<Rightarrow> ustr \<Rightarrow> bool" where
  "started s i \<longleftrightarrow> (case map_of (as_runners s) i of None \<Rightarrow> False | Some r \<Rightarrow> ru_phase r \<noteq> RuStart)"

definition live :: "app_state \<Rightarrow> ustr \<Rightarrow> bool" where
  "live s i \<longleftrightarrow> map_of (as_creating s) i \<noteq> None \<or> map_of (as_runners s) i \<noteq> None"

definition keyed :: "task_map \<Rightarrow> bool" where
  "keyed m \<longleftrightarrow> (\<forall>k t. map_of m k = Some t \<longrightarrow> ti_id t = k \<and> valid_str k)"

definition store_inv :: "app_env \<Rightarrow> app_state \<Rightarrow> bool" where
  "store_inv env s \<longleftrightarrow> dir_wf (as_store s) \<and>
     (\<forall>i. live s i \<longrightarrow> valid_str i \<and>
       (\<forall>sn. stored_snapshot env i s = Some sn \<longrightarrow> sn_id sn = i \<and> (\<not> started s i \<longrightarrow> sn_completed_fragments sn = [])))"

definition runners_inv :: "app_state \<Rightarrow> bool" where
  "runners_inv s \<longleftrightarrow> (\<forall>i r. map_of (as_runners s) i = Some r \<longrightarrow>
     map_of (as_creating s) i = None \<and> keyed (ru_tasks r) \<and> ru_injected r = [] \<and> (ru_reader r \<longrightarrow> ru_phase r \<noteq> RuStart))"

definition app_inv :: "app_env \<Rightarrow> app_state \<Rightarrow> bool" where
  "app_inv env s \<longleftrightarrow> store_inv env s \<and> runners_inv s \<and> keyed (as_tasks s)"

text \<open>A new identifier is a fresh one, as a UUID is.\<close>

fun fresh_event :: "app_env \<Rightarrow> app_event \<Rightarrow> app_state \<Rightarrow> bool" where
  "fresh_event env (Command (CmdCreate i _ _ _)) s \<longleftrightarrow>
     valid_str i \<and> \<not> live s i \<and> map_of (as_tasks s) i = None \<and> stored_snapshot env i s = None"
| "fresh_event env _ s \<longleftrightarrow> True"

fun fresh_run :: "app_env \<Rightarrow> app_event list \<Rightarrow> app_state \<Rightarrow> bool" where
  "fresh_run env [] s \<longleftrightarrow> True"
| "fresh_run env (ev # evs) s \<longleftrightarrow> fresh_event env ev s \<and> fresh_run env evs (app_step env ev s)"

lemma keyed_modify [simp]:
  "(\<And>t. ti_id (f t) = ti_id t) \<Longrightarrow> keyed m \<Longrightarrow> keyed (dm_modify k f m)"
  by (auto simp: keyed_def split: if_splits)

lemma keyed_update_status [simp]: "keyed m \<Longrightarrow> keyed (update_task_status i st m)"
  unfolding update_task_status_def by (rule keyed_modify) (simp_all add: Let_def)

lemma keyed_remove [simp]: "keyed m \<Longrightarrow> keyed (dm_remove k m)"
  by (auto simp: keyed_def split: if_splits)

lemma store_inv_save:
  assumes "store_inv env s" "json_ok env" "valid_str (sn_id sn)"
    and "live s (sn_id sn) \<Longrightarrow> \<not> started s (sn_id sn) \<Longrightarrow> sn_completed_fragments sn = []"
  shows "store_inv env (save_snapshot env sv sn s)"
proof -
  have l: "live (save_snapshot env sv sn s) i = live s i" "started (save_snapshot env sv sn s) i = started s i" for i
    by (simp_all add: live_def started_def)
  have wf: "dir_wf (as_store s)" using assms(1) by (simp add: store_inv_def)
  show ?thesis
    using assms(1,4) stored_save(1)[OF wf assms(2,3), of _ sv] stored_save(2)[OF wf assms(2,3,3), of sv]
    unfolding store_inv_def l by auto
qed

lemma store_inv_persist:
  assumes "store_inv env s" "json_ok env" "keyed m"
  shows "store_inv env (persist_task_snapshot env sv m i fr s)"
proof (cases "map_of m i")
  case (Some t)
  have t: "ti_id t = i" "valid_str i" using assms(3) Some by (auto simp: keyed_def)
  have "sn_completed_fragments (persisted_snapshot (sv_now sv) (as_config s) (stored_snapshot env i s) fr t) = []"
    if "live s i" "\<not> started s i"
    using assms(1) that
    by (cases "stored_snapshot env i s")
      (auto simp: store_inv_def persisted_snapshot_def task_info_to_snapshot_def Let_def)
  then show ?thesis
    using Some t by (simp add: persist_task_snapshot_def) (rule store_inv_save[OF assms(1,2)], simp_all)
qed (use assms(1) in \<open>simp add: persist_task_snapshot_def\<close>)

text \<open>Nothing but the store, the creations and the phases of the background tasks matters.\<close>

lemma store_inv_cong:
  assumes "store_inv env s" "as_store s' = as_store s"
    and "\<And>i. live s' i \<Longrightarrow> live s i \<or> valid_str i \<and> stored_snapshot env i s = None"
    and "\<And>i. live s i \<Longrightarrow> started s i \<Longrightarrow> started s' i"
  shows "store_inv env s'"
proof -
  have "valid_str i \<and> (\<forall>sn. stored_snapshot env i s' = Some sn \<longrightarrow>
      sn_id sn = i \<and> (\<not> started s' i \<longrightarrow> sn_completed_fragments sn = []))" if "live s' i" for i
  proof (cases "live s i")
    case True
    then show ?thesis using assms(1,4) unfolding stored_cong[OF assms(2)] store_inv_def by blast
  next
    case False
    then show ?thesis using assms(3)[OF that] unfolding stored_cong[OF assms(2)] by simp
  qed
  with assms(1,2) show ?thesis by (simp add: store_inv_def)
qed

lemma app_inv_put_runner:
  assumes "app_inv env s" "map_of (as_runners s) i = Some r"
    and "as_runners s' = dm_insert i r' (as_runners s)" "as_store s' = as_store s"
    and "as_creating s' = as_creating s" "as_tasks s' = as_tasks s"
    and "keyed (ru_tasks r')" "ru_injected r' = []" "ru_reader r' \<Longrightarrow> ru_phase r' \<noteq> RuStart"
    and "ru_phase r \<noteq> RuStart \<Longrightarrow> ru_phase r' \<noteq> RuStart"
  shows "app_inv env s'"
proof -
  have "store_inv env s'"
    by (rule store_inv_cong[of env s])
      (use assms in \<open>auto simp: app_inv_def live_def started_def split: if_splits\<close>)
  moreover have "runners_inv s'"
    using assms by (auto simp: app_inv_def runners_inv_def)
  ultimately show ?thesis using assms by (simp add: app_inv_def)
qed

lemma app_inv_save:
  assumes "app_inv env s" "json_ok env" "valid_str (sn_id sn)"
    and "live s (sn_id sn) \<Longrightarrow> \<not> started s (sn_id sn) \<Longrightarrow> sn_completed_fragments sn = []"
  shows "app_inv env (save_snapshot env sv sn s)"
  using assms store_inv_save[of env s sn sv] by (simp add: app_inv_def runners_inv_def)

lemma app_inv_persist:
  assumes "app_inv env s" "json_ok env" "keyed m"
  shows "app_inv env (persist_task_snapshot env sv m i fr s)"
  using assms store_inv_persist[of env s m sv i fr] by (simp add: app_inv_def runners_inv_def)

lemma app_inv_runner:
  assumes "app_inv env s" "map_of (as_runners s) i = Some r"
  shows "keyed (ru_tasks r)" "ru_injected r = []" "ru_reader r \<Longrightarrow> ru_phase r \<noteq> RuStart" "live s i" "valid_str i"
    "started s i \<longleftrightarrow> ru_phase r \<noteq> RuStart"
    "stored_snapshot env i s = Some sn \<Longrightarrow> sn_id sn = i"
    "ru_phase r = RuStart \<Longrightarrow> stored_snapshot env i s = Some sn \<Longrightarrow> sn_completed_fragments sn = []"
proof -
  show live: "live s i" using assms(2) by (simp add: live_def)
  show st: "started s i \<longleftrightarrow> ru_phase r \<noteq> RuStart" using assms(2) by (simp add: started_def)
  show "keyed (ru_tasks r)" "ru_injected r = []" "ru_reader r \<Longrightarrow> ru_phase r \<noteq> RuStart"
    using assms by (auto simp: app_inv_def runners_inv_def)
  show "valid_str i" "stored_snapshot env i s = Some sn \<Longrightarrow> sn_id sn = i"
    "ru_phase r = RuStart \<Longrightarrow> stored_snapshot env i s = Some sn \<Longrightarrow> sn_completed_fragments sn = []"
    using assms(1) live st by (auto simp: app_inv_def store_inv_def)
qed

lemma app_inv_cong:
  assumes "as_store s' = as_store s" "as_creating s' = as_creating s" "as_runners s' = as_runners s"
    "as_tasks s' = as_tasks s"
  shows "app_inv env s' = app_inv env s"
  using stored_cong[OF assms(1), of env] assms
  by (simp add: app_inv_def store_inv_def runners_inv_def live_def started_def)

lemma app_inv_frame [simp]:
  "app_inv env (s\<lparr>as_fs := fs'\<rparr>) = app_inv env s" "app_inv env (s\<lparr>as_progress := e\<rparr>) = app_inv env s"
  "app_inv env (send_control i st s) = app_inv env s"
  by (rule app_inv_cong; simp)+

lemma app_inv_put:
  assumes "app_inv env s" "map_of (as_runners s) i = Some r"
    and "keyed (ru_tasks r')" "ru_injected r' = []" "ru_reader r' \<Longrightarrow> ru_phase r' \<noteq> RuStart"
    and "ru_phase r \<noteq> RuStart \<Longrightarrow> ru_phase r' \<noteq> RuStart"
  shows "app_inv env (put_runner i r' s)"
  by (rule app_inv_put_runner[OF assms(1,2), of _ r']) (use assms in simp_all)

lemma app_inv_stop:
  assumes "app_inv env s" "map_of (as_runners s) i = Some r" "keyed (ru_tasks r')" "ru_injected r' = []"
  shows "app_inv env (runner_stop i r' s)" "app_inv env (runner_fail i r' s)"
proof -
  show "app_inv env (runner_stop i r' s)"
    by (rule app_inv_put_runner[OF assms(1,2), of _ "r'\<lparr>ru_phase := RuDone\<rparr>"]) (use assms in simp_all)
  show "app_inv env (runner_fail i r' s)"
    by (rule app_inv_put_runner[OF assms(1,2), of _
          "r'\<lparr>ru_tasks := update_task_status i Failed (ru_tasks r'), ru_phase := RuDone\<rparr>"])
      (use assms in simp_all)
qed

lemma app_inv_begin:
  assumes "app_inv env s" "map_of (as_runners s) i = Some r" "ru_phase r = RuStart"
  shows "app_inv env (runner_begin env client i r s)"
proof -
  note r = app_inv_runner[OF assms(1,2)]
  have "stored_snapshot env i (s\<lparr>as_fs := fs'\<rparr>) = stored_snapshot env i s" for fs'
    by (rule stored_cong) simp
  moreover have "app_inv env (s\<lparr>as_fs := fs'\<rparr>)" "map_of (as_runners (s\<lparr>as_fs := fs'\<rparr>)) i = Some r" for fs'
    using assms by simp_all
  note app_inv_stop[OF assms(1,2)] app_inv_stop[OF this] app_inv_put[OF this]
  ultimately show ?thesis
    using r(1,2)
    by (simp add: runner_begin_def Let_def r(8)[OF assms(3)] split: option.split prod.split sum.split)
qed

lemma app_inv_probed:
  assumes "app_inv env s" "json_ok env" "map_of (as_runners s) i = Some r" "ru_phase r = RuProbing"
  shows "app_inv env (runner_probed env sv own prefer i r s)"
proof -
  note r = app_inv_runner[OF assms(1,3)]
  have stop: "app_inv env (runner_stop i r s)" "app_inv env (runner_fail i r s)"
    by (rule app_inv_stop[OF assms(1,3)]; simp add: r)+
  let ?result = "case cancel_signal i s of Some e \<Rightarrow> if prefer then Inl e else own | None \<Rightarrow> own"
  show ?thesis
  proof (cases ?result)
    case (Inl e)
    then show ?thesis using stop by (cases e) (simp_all add: runner_probed_def Let_def)
  next
    case (Inr meta)
    define tasks where "tasks = dm_modify i
      (\<lambda>t. t\<lparr>ti_file_size := md_file_size meta, ti_fragments_total := total_frags_of (md_file_size meta)\<rparr>) (ru_tasks r)"
    define s1 where "s1 = (case map_of tasks i of None \<Rightarrow> s
       | Some t \<Rightarrow> save_snapshot env sv (task_info_to_snapshot (sv_now sv) t
           (text_join (to_ustr (ru_dir r)) (to_ustr (md_file_name meta))) 0 []
           (map_option to_ustr (md_etag meta)) (map_option to_ustr (md_last_modified meta))) s)"
    have keyed: "keyed tasks" using r(1) by (simp add: tasks_def)
    have inv: "app_inv env s1"
    proof (cases "map_of tasks i")
      case (Some t)
      then have "ti_id t = i" using keyed by (simp add: keyed_def)
      then show ?thesis
        unfolding s1_def using Some r(5)
        by (simp, intro app_inv_save assms(1,2)) (simp_all add: task_info_to_snapshot_def)
    qed (simp add: s1_def assms(1))
    have run: "map_of (as_runners s1) i = Some r" "as_runners s1 = as_runners s"
      by (simp_all add: s1_def assms(3) split: option.split)
    have eq: "runner_probed env sv own prefer i r s =
        (if control_value i s1 = Cancelled then runner_stop i (r\<lparr>ru_tasks := tasks\<rparr>) s1
         else put_runner i (r\<lparr>ru_tasks := tasks, ru_phase := RuRunning, ru_reader := True, ru_monitor := True,
           ru_total_frags := (case map_of tasks i of Some t \<Rightarrow> ti_fragments_total t | None \<Rightarrow> 0)\<rparr>) s1)"
      using Inr by (simp add: runner_probed_def Let_def s1_def tasks_def)
    have "app_inv env (runner_stop i (r\<lparr>ru_tasks := tasks\<rparr>) s1)"
      by (rule app_inv_stop[OF inv run(1)]; simp add: r keyed)
    moreover have "app_inv env (put_runner i (r\<lparr>ru_tasks := tasks, ru_phase := RuRunning, ru_reader := True, ru_monitor := True,
         ru_total_frags := n\<rparr>) s1)" for n
      by (rule app_inv_put[OF inv run(1)]; simp add: r keyed)
    ultimately show ?thesis unfolding eq by simp
  qed
qed

lemma app_inv_chunk:
  assumes "app_inv env s" "json_ok env" "map_of (as_runners s) i = Some r" "ru_reader r"
  shows "app_inv env (runner_chunk env sv p i r s)"
proof -
  note r = app_inv_runner[OF assms(1,3)]
  let ?r = "show_chunk i (count_chunk p r)" and ?s = "put_runner i (show_chunk i (count_chunk p r)) s"
  have f: "ru_phase ?r = ru_phase r" "ru_injected ?r = []" "keyed (ru_tasks ?r)"
    using r by (simp_all add: show_chunk_def count_chunk_def Let_def)
  have inv: "app_inv env ?s"
    by (rule app_inv_put[OF assms(1,3)]; simp add: f r(3)[OF assms(4)])
  have run: "map_of (as_runners ?s) i = Some ?r" by simp
  note r2 = app_inv_runner[OF inv run]
  have "app_inv env (save_snapshot env sv (sn\<lparr>sn_completed_fragments := c, sn_downloaded := d\<rparr>) ?s)"
    if "stored_snapshot env i ?s = Some sn" for sn c d
    by (rule app_inv_save[OF inv assms(2)]) (use r2(5,6) r2(7)[OF that] r(3)[OF assms(4)] f in simp_all)
  then show ?thesis using inv by (auto simp: runner_chunk_def Let_def split: option.split)
qed

lemma app_inv_close:
  assumes "app_inv env s" "json_ok env" "map_of (as_runners s) i = Some r"
  shows "app_inv env (runner_close env sv i r s)"
proof -
  note r = app_inv_runner[OF assms(1,3)]
  have "app_inv env ((runner_stop i (r\<lparr>ru_monitor := False\<rparr>) s)\<lparr>as_progress := e\<rparr>)" for e
    using app_inv_stop(1)[OF assms(1,3), of "r\<lparr>ru_monitor := False\<rparr>"] r by simp
  then show ?thesis unfolding runner_close_def Let_def by (rule app_inv_persist[OF _ assms(2) r(1)])
qed

lemma app_inv_runner_step:
  assumes "app_inv env s" "json_ok env" "map_of (as_runners s) i = Some r"
  shows "app_inv env (runner_step env i ev r s)"
proof (cases ev)
  case (RunTick elapsed)
  note r = app_inv_runner[OF assms(1,3)]
  have "app_inv env (monitor_tick elapsed i r s)"
  proof (cases "map_of (ru_tasks r) i")
    case (Some t)
    show ?thesis
      by (rule app_inv_put_runner[OF assms(1,3), of _
            "r\<lparr>ru_last_downloaded := ti_downloaded t,
               ru_tasks := dm_modify i (\<lambda>u. u\<lparr>ti_speed := tick_speed elapsed (ti_downloaded t) (ru_last_downloaded r)\<rparr>) (ru_tasks r),
               ru_monitor := (if ti_status t = Completed \<or> ti_status t = Failed then False else ru_monitor r)\<rparr>"])
        (use Some r in \<open>simp_all add: monitor_tick_def Let_def\<close>)
  qed (simp add: monitor_tick_def assms(1))
  then show ?thesis using RunTick assms(1) by simp
next
  case RunControl
  note r = app_inv_runner[OF assms(1,3)]
  have "app_inv env (put_runner i (r\<lparr>ru_monitor := False\<rparr>) s)"
    "app_inv env (put_runner i (r\<lparr>ru_tasks := dm_modify i (\<lambda>t. t\<lparr>ti_speed := 0\<rparr>) (ru_tasks r)\<rparr>) s)"
    by (rule app_inv_put[OF assms(1,3)]; simp add: r)+
  then show ?thesis using RunControl assms(1) by (simp add: monitor_control_def)
next
  case (RunEnd result final)
  note r = app_inv_runner[OF assms(1,3)]
  have t: "ti_id (terminal_task result final t) = ti_id t" for t
    by (simp add: terminal_task_def Let_def split: sum.split)
  have "app_inv env (put_runner i (r\<lparr>ru_phase := RuEnding\<rparr>) s)"
    "app_inv env (put_runner i
       (r\<lparr>ru_phase := RuEnding, ru_tasks := dm_modify i (terminal_task result final) (ru_tasks r)\<rparr>) s)"
    by (rule app_inv_put[OF assms(1,3)]; simp add: r t)+
  then show ?thesis using RunEnd assms(1) by (auto simp: runner_end_def Let_def split: option.split)
qed (use assms app_inv_begin[OF assms(1,3)] app_inv_probed[OF assms] app_inv_chunk[OF assms] app_inv_close[OF assms] in simp_all)

text \<open>The commands.\<close>

lemma app_inv_tasks:
  "app_inv env s \<Longrightarrow> keyed m \<Longrightarrow> as_store s' = as_store s \<Longrightarrow> as_creating s' = as_creating s \<Longrightarrow>
     as_runners s' = as_runners s \<Longrightarrow> as_tasks s' = m \<Longrightarrow> app_inv env s'"
  using app_inv_cong[of "s\<lparr>as_tasks := m\<rparr>" s' env] app_inv_cong[of s "s\<lparr>as_tasks := as_tasks s\<rparr>" env]
  by (auto simp: app_inv_def store_inv_def runners_inv_def live_def started_def stored_snapshot_def)

lemma app_inv_modify_persist:
  assumes "app_inv env s" "json_ok env" "\<And>t. ti_id (f t) = ti_id t"
  shows "app_inv env (persist_task_snapshot env sv (dm_modify i f (as_tasks s)) i None
      (send_control i st (s\<lparr>as_tasks := dm_modify i f (as_tasks s)\<rparr>)))"
    "app_inv env (persist_task_snapshot env sv (dm_modify i f (as_tasks s)) i None
      ((send_control i st s)\<lparr>as_tasks := dm_modify i f (as_tasks s)\<rparr>))"
proof -
  have keyed: "keyed (dm_modify i f (as_tasks s))" using assms(1,3) by (simp add: app_inv_def)
  show "app_inv env (persist_task_snapshot env sv (dm_modify i f (as_tasks s)) i None
      (send_control i st (s\<lparr>as_tasks := dm_modify i f (as_tasks s)\<rparr>)))"
    "app_inv env (persist_task_snapshot env sv (dm_modify i f (as_tasks s)) i None
      ((send_control i st s)\<lparr>as_tasks := dm_modify i f (as_tasks s)\<rparr>))"
    by (rule app_inv_persist[OF app_inv_tasks[OF assms(1) keyed] assms(2) keyed]; simp)+
qed

lemma creating_no_runner:
  "app_inv env s \<Longrightarrow> map_of (as_creating s) i = Some cr \<Longrightarrow> map_of (as_runners s) i = None"
  by (cases "map_of (as_runners s) i") (auto simp: app_inv_def runners_inv_def)

lemma app_inv_insert:
  assumes "app_inv env s" "json_ok env"
  shows "app_inv env (fst (create_insert env sv i s))"
proof (cases rule: create_insert_cases[of env sv i s])
  case refused
  have "as_creating (fst (create_insert env sv i s)) = as_creating s \<or>
      as_creating (fst (create_insert env sv i s)) = dm_remove i (as_creating s)"
    using refused(3) by (auto simp: create_insert_def Let_def split: option.splits)
  then show ?thesis
    using assms(1) refused unfolding app_inv_def store_inv_def runners_inv_def live_def started_def stored_snapshot_def
    by (elim disjE) (auto split: if_splits)
next
  case (inserted cr sn)
  let ?s = "s\<lparr>as_tasks := dm_insert i (new_task env i (cr_url cr) (sv_now sv)) (as_tasks s),
            as_creating := dm_insert i (cr\<lparr>cr_inserted := True\<rparr>) (as_creating s)\<rparr>"
  have live: "live ?s j = live s j" "started ?s j = started s j" for j
    using inserted(1) by (auto simp: live_def started_def)
  note none = creating_no_runner[OF assms(1) inserted(1)]
  have i: "live s i" "valid_str i" "map_of (as_runners s) i = None"
    using inserted(1) assms(1) none by (auto simp: app_inv_def store_inv_def live_def)
  have "stored_snapshot env j ?s = stored_snapshot env j s" for j by (rule stored_cong) simp
  then have "store_inv env ?s" using assms(1) unfolding app_inv_def store_inv_def live by simp
  moreover have "keyed (as_tasks ?s)"
    using assms(1) i(2) by (auto simp: app_inv_def keyed_def new_task_def split: if_splits)
  moreover have "runners_inv ?s"
    using assms(1) i(3) by (auto simp: app_inv_def runners_inv_def)
  ultimately have "app_inv env ?s" by (simp add: app_inv_def)
  then show ?thesis
    unfolding inserted(5) fst_conv by (rule app_inv_save[OF _ assms(2)]) (use inserted(6,7) i(2) in simp_all)
qed

lemma app_inv_finish:
  assumes "app_inv env s"
  shows "app_inv env (fst (create_finish i s))"
proof (cases "\<exists>cr. map_of (as_creating s) i = Some cr \<and> cr_inserted cr")
  case True
  then obtain cr where cr: "map_of (as_creating s) i = Some cr" "cr_inserted cr" by blast
  note none = creating_no_runner[OF assms cr(1)]
  let ?s = "fst (create_finish i s)"
  have st: "stored_snapshot env j ?s = stored_snapshot env j s" "as_store ?s = as_store s" for j
    using cr by (auto simp: create_finish_def Let_def stored_snapshot_def)
  have live: "live ?s j \<Longrightarrow> live s j" "live s j \<Longrightarrow> started ?s j = started s j" for j
    using cr none by (auto simp: create_finish_def Let_def live_def started_def split: if_splits)
  have "store_inv env ?s"
    using assms live unfolding app_inv_def store_inv_def st by blast
  moreover have "runners_inv ?s"
    using assms cr none by (auto simp: app_inv_def runners_inv_def create_finish_def Let_def)
  moreover have "keyed (as_tasks ?s)"
    using assms cr by (auto simp: app_inv_def create_finish_def Let_def)
  ultimately show ?thesis by (simp add: app_inv_def)
qed (use assms in \<open>auto simp: create_finish_def split: option.splits\<close>)

lemma app_inv_command:
  assumes "app_inv env s" "json_ok env" "fresh_event env (Command c) s"
  shows "app_inv env (command_step env c s)"
proof (cases c)
  case (CmdCreate i url dir ms)
  let ?s = "fst (create_begin env i url dir ms s)"
  have cr: "map_of (as_creating ?s) j \<noteq> None \<Longrightarrow> map_of (as_creating s) j \<noteq> None \<or> j = i" for j
    by (auto simp: create_begin_def Let_def split: sum.splits option.splits prod.splits if_splits)
  have fresh: "valid_str i" "\<not> live s i" "stored_snapshot env i s = None" using assms(3) CmdCreate by simp_all
  have "store_inv env ?s"
    by (rule store_inv_cong[of env s])
      (use assms(1) cr fresh in \<open>auto simp: app_inv_def live_def started_def\<close>)
  moreover have "runners_inv ?s"
    using assms(1) cr fresh(2) unfolding app_inv_def runners_inv_def live_def create_begin_frame
    by (metis option.distinct(1))
  ultimately show ?thesis using assms(1) CmdCreate by (simp add: app_inv_def)
next
  case (CmdDelete i)
  have "keyed (dm_remove i (as_tasks s))" using assms(1) by (simp add: app_inv_def)
  from app_inv_tasks[OF assms(1) this, of "cleanup_runtime i (s\<lparr>as_tasks := dm_remove i (as_tasks s)\<rparr>)"]
  show ?thesis using CmdDelete assms(1) by (auto simp: delete_task_def split: option.split)
next
  case (CmdConfig cfg)
  then show ?thesis using assms(1) app_inv_cong[of "s\<lparr>as_config := x\<rparr>" s env for x] by simp
next
  case (CmdPause sv i)
  then show ?thesis
    using assms(1) app_inv_modify_persist(1)[OF assms(1,2)]
    by (simp add: pause_task_def Let_def set_status_def split: option.split)
next
  case (CmdResume sv i)
  then show ?thesis
    using assms(1) app_inv_modify_persist(1)[OF assms(1,2)]
    by (simp add: resume_task_def Let_def set_status_def split: option.split)
next
  case (CmdCancel sv i)
  then show ?thesis
    using assms(1) app_inv_modify_persist(2)[OF assms(1,2)]
    by (simp add: cancel_task_def Let_def set_status_def split: option.split)
qed (use assms app_inv_insert app_inv_finish in simp_all)

lemma app_inv_run:
  "app_inv env s \<Longrightarrow> json_ok env \<Longrightarrow> fresh_run env evs s \<Longrightarrow> app_inv env (app_run env evs s)"
proof (induction evs arbitrary: s)
  case (Cons ev evs)
  have "app_inv env (app_step env ev s)"
  proof (cases ev)
    case (Command c)
    then show ?thesis using app_inv_command[OF Cons.prems(1,2)] Cons.prems(3) by simp
  next
    case (Runs i e)
    then show ?thesis using app_inv_runner_step[OF Cons.prems(1,2)] Cons.prems(1) by (simp split: option.split)
  qed
  with Cons show ?case by simp
qed simp

lemma app_inv_recovered:
  assumes "dir_wf store" "load_recovered_tasks env (app_new dir store fs) = (s, Inr ())" "keyed (as_tasks s)"
  shows "app_inv env s"
  using assms by (auto simp: load_recovered_tasks_def app_new_def app_inv_def store_inv_def runners_inv_def
      live_def split: sum.splits)

text \<open>
  C37. Resuming from saved fragments never happens. In every interleaving of commands and background
  tasks after a start, with any failing writes, the list of completed fragments a background task
  takes from the store is empty: a task starts once, under a fresh identifier, before anything of it
  is complete. What the reader of progress messages saves is never read again.
\<close>

theorem no_breakpoint_resume:
  assumes "dir_wf store" "json_ok env" "load_recovered_tasks env (app_new dir store fs) = (s, Inr ())"
    and "keyed (as_tasks s)" "fresh_run env evs s"
  shows "\<forall>i r. map_of (as_runners (app_run env evs s)) i = Some r \<longrightarrow> ru_injected r = []"
  using app_inv_run[OF app_inv_recovered[OF assms(1,3,4)] assms(2,5)]
  by (simp add: app_inv_def runners_inv_def)

section \<open>Samples\<close>

abbreviation sample_saving :: saving where
  "sample_saving \<equiv> \<lparr>sv_now = [51], sv_fault = NoFault\<rparr>"

lemma sample_json_ok: "json_ok (sample_app_env unary_json)"
  by (simp add: json_ok_def sample_app_env_def unary_json_roundtrip)

lemma sample_app_facts:
  "dir_wf (as_store sample_app)" "map_of (as_tasks sample_app) [49] = Some (sample_task Downloading)"
  "map_of (as_runners sample_app) [49] = Some (sample_runner Downloading)"
  "ru_phase (sample_runner Downloading) = RuRunning"
  "map_of (ru_tasks (sample_runner Downloading)) [49] = Some (sample_task Downloading)"
  "ti_id (sample_task Downloading) = [49]" "ti_status (sample_task Downloading) = Downloading" "valid_str [49]"
  by (simp_all add: sample_app_def app_new_def sample_runner_def sample_task_def dir_wf_def scalar_def)


theorem cancelled_download_stored_as_failed_witness:
  "map_option sn_status (stored_snapshot (sample_app_env unary_json) [49]
     (runner_finish (sample_app_env unary_json) sample_saving (Inl Cancelled_Error) None [49]
       (command_step (sample_app_env unary_json) (CmdCancel sample_saving [49]) sample_app))) = Some Failed"
proof -
  have f: "sv_fault sample_saving = NoFault" by simp
  from cancelled_download_stored_as_failed[OF sample_app_facts(1) sample_json_ok sample_app_facts(8) f f
      sample_app_facts(2,6) disjI1[OF sample_app_facts(7)] sample_app_facts(3-7), of None]
  show ?thesis by (simp add: Let_def del: command_step.simps)
qed

theorem no_breakpoint_resume_witness:
  "ru_injected ` ran (map_of (as_runners (app_run (sample_app_env unary_json)
     [Command (CmdCreate [49] ''u'' None None), Command (CmdInsert sample_saving [49]), Command (CmdFinish [49]),
      Runs [49] (RunBegin (Inr ()))] (app_new ''/dl'' [] config_fs)))) \<subseteq> {[]}"
proof -
  let ?env = "sample_app_env unary_json" and ?s = "app_new ''/dl'' [] config_fs"
  have "kv_keys [] = Inr []" by (simp add: kv_keys_def file_keys_def)
  then have "load_recovered_tasks ?env ?s = (?s, Inr ())"
    by (simp add: load_recovered_tasks_def recover_pending_snapshots_def load_all_task_snapshots_def app_new_def)
  moreover have "stored_snapshot ?env [49] ?s = None"
    by (simp add: stored_snapshot_def app_new_def load_task_snapshot_def load_task_snapshot_by_key_def
        kv_get_raw_def file_get_def Let_def)
  then have "fresh_run ?env [Command (CmdCreate [49] ''u'' None None), Command (CmdInsert sample_saving [49]),
      Command (CmdFinish [49]), Runs [49] (RunBegin (Inr ()))] ?s"
    by (simp add: live_def scalar_def app_new_def del: app_step.simps)
  moreover have "keyed (as_tasks ?s)" "dir_wf []" by (simp_all add: keyed_def app_new_def dir_wf_def)
  ultimately show ?thesis
    using no_breakpoint_resume[OF _ sample_json_ok] unfolding ran_def image_def by blast
qed

end
