(* ===== verification/Spec2Isabelle.thy ===== *)
theory Spec2Isabelle
  imports
    Prelude F64
    Errors Core_Types Config_Types Rate_Limit
    Net_Addr Url_Safety Utf8 Filename File_System Save_Path
    Fragment_Record Circuit_Breaker Connection_Pool Orchestrator
    KV_Store Recovery
    Scheduler_Queue Adaptive_Scheduler
    Storage_IO Write_Pipeline Buffer_Pool
    Dht_Node Dht_Routing Dht_Lookup Kademlia Dht_Transport Peers_Sources
    Fragment_Download Write_Guards Win_File Io_Uring Iocp Fragment_Task Interleaved_Writes Download_Task Download_Run
    Mirror
    Decimal Http_Client Byte_Reader Ftp_Client Quic_Client
    Cpu_Verifier Blake3_Gpu
    App_Types Hub Sniffer Config_Commands Task_Commands Task_Runs Task_Snapshots
begin

text \<open>
  Tachyon is a download manager for large model files: a Rust workspace (\<open>src/crates\<close>) with a
  desktop front end. This development models the decision logic of the crates in HOL and proves what
  makes it correct. Each theory translates one part of the source; a definition keeps the name of
  the function it models, with a prefix or suffix where names clash.

  The parts, from the bottom up.
    \<^item> Machine model. \<open>Prelude\<close>: Rust integers (wrapping \<open>+\<close>, checked and saturating operations,
      \<open>clamp\<close>), results and \<open>?\<close>, list helpers. \<open>F64\<close>: IEEE binary64 over the rationals, with
      rounding to nearest even. \<open>Net_Addr\<close>: the standard library's IP address parser. \<open>Utf8\<close>:
      \<open>str\<close> as scalar values, UTF-8, trimming, splitting. \<open>File_System\<close>: a POSIX tree with
      symbolic links.
    \<^item> \<open>tachyon-core\<close>. \<open>Errors\<close> (\<open>error.rs\<close>), \<open>Core_Types\<close> (\<open>types.rs\<close>: the task state machine,
      pauses, fragments, and the metrics of \<open>lib.rs\<close>), \<open>Config_Types\<close> (\<open>config.rs\<close>),
      \<open>Rate_Limit\<close> (\<open>rate_limit.rs\<close>), \<open>Url_Safety\<close> (\<open>url_safety.rs\<close>), \<open>Filename\<close> and
      \<open>Save_Path\<close> (\<open>filename.rs\<close>).
    \<^item> \<open>tachyon-engine\<close>. \<open>Fragment_Record\<close> (\<open>fragment.rs\<close>: retries, backoff, bandwidth),
      \<open>Circuit_Breaker\<close> (\<open>circuit_breaker.rs\<close>), \<open>Connection_Pool\<close> (\<open>connection.rs\<close>, every
      interleaving of its tasks as a step relation), \<open>Orchestrator\<close> (\<open>orchestrator.rs\<close>: the split of
      a file into fragments), \<open>Mirror\<close> (\<open>mirror.rs\<close>: the races of the probe and of a download), and
      \<open>downloader.rs\<close> in layers: \<open>Fragment_Download\<close> is one attempt at a fragment, the loop over the
      chunks of a stream; \<open>Fragment_Task\<close> repeats attempts with backoff, breaker and control signals;
      \<open>Interleaved_Writes\<close> shows that fragments written in any interleaving are as good as one after
      the other; \<open>Download_Task\<close> is the state of a task with its plan, resume and verification;
      \<open>Download_Run\<close> is the whole run, with the claims on what it leaves on disk.
    \<^item> \<open>tachyon-store\<close>. \<open>KV_Store\<close> (\<open>store.rs\<close>: in-memory and file-backed stores, with crashes in
      the middle of a write) and \<open>Recovery\<close> (\<open>recovery.rs\<close>: task snapshots over the store).
    \<^item> \<open>tachyon-scheduler\<close>. \<open>Scheduler_Queue\<close> (\<open>scheduler.rs\<close>: the versioned priority queue),
      \<open>Adaptive_Scheduler\<close> (\<open>predictor.rs\<close>, \<open>download_scheduler.rs\<close>).
    \<^item> \<open>tachyon-io\<close>. \<open>Storage_IO\<close> (\<open>storage.rs\<close>, \<open>tokio_file.rs\<close>, the choice of a backend in
      \<open>storage_adapter.rs\<close>), \<open>Write_Pipeline\<close> (\<open>pipeline.rs\<close>), \<open>Buffer_Pool\<close> (\<open>buffer.rs\<close>),
      \<open>Write_Guards\<close> (what a download can do on a storage that refuses some writes), \<open>Win_File\<close>
      (\<open>winio.rs\<close>), \<open>Io_Uring\<close> (\<open>iouring.rs\<close>), \<open>Iocp\<close> (\<open>iocp.rs\<close>: who owns the memory of a write
      while the kernel works on it).
    \<^item> \<open>tachyon-p2sp\<close>. \<open>Dht_Node\<close> (\<open>dht/node.rs\<close>), \<open>Dht_Routing\<close> and \<open>Dht_Lookup\<close>
      (\<open>dht/kbucket.rs\<close>), \<open>Kademlia\<close> (\<open>dht/message.rs\<close>, \<open>dht/kademlia.rs\<close>), \<open>Dht_Transport\<close>
      (\<open>dht/transport.rs\<close>: the receive loop with its rate limit, requests, iterative lookups),
      \<open>Peers_Sources\<close> (\<open>peer.rs\<close>, \<open>source.rs\<close>: the weighted choice of a source).
    \<^item> \<open>tachyon-protocol\<close>. \<open>Decimal\<close> (numbers in headers), \<open>Http_Client\<close> (\<open>http.rs\<close>), \<open>Byte_Reader\<close>
      (a reader that returns data in pieces), \<open>Ftp_Client\<close> (\<open>ftp.rs\<close>: the connection shared by the
      clones of a client and every command on it), \<open>Quic_Client\<close> (\<open>quic.rs\<close>).
    \<^item> \<open>tachyon-crypto\<close>. \<open>Cpu_Verifier\<close> (\<open>cpu.rs\<close> and \<open>verify\<close> of \<open>traits.rs\<close>), \<open>Blake3_Gpu\<close>
      (\<open>gpu.rs\<close>: the compression, the shader and the tree reduction on the host).
    \<^item> \<open>tachyon-hub\<close> and \<open>tachyon-sniffer\<close>. \<open>Hub\<close> (\<open>token.rs\<close>, \<open>lfs.rs\<close>, \<open>api.rs\<close> and the commands of
      \<open>hub_commands.rs\<close>), \<open>Sniffer\<close> (\<open>capture.rs\<close>, \<open>filter.rs\<close>, \<open>resources.rs\<close>,
      \<open>sniffer_commands.rs\<close>).
    \<^item> \<open>tachyon-app\<close>. \<open>App_Types\<close> (\<open>mod.rs\<close>, \<open>task_store.rs\<close>), \<open>Config_Commands\<close>
      (\<open>config_commands.rs\<close>), \<open>Task_Commands\<close> (\<open>task_commands.rs\<close>: each command and each step of the
      background task of a download), \<open>Task_Runs\<close> and \<open>Task_Snapshots\<close> (their interleavings as step
      relations: the task list, the snapshots on disk).

  How they meet in a download: a command of \<open>Task_Commands\<close> admits a task and starts its background
  task, which asks a client (\<open>Http_Client\<close>, \<open>Ftp_Client\<close>) for the metadata, plans fragments
  (\<open>Orchestrator\<close>), runs them (\<open>Download_Run\<close> over \<open>Fragment_Task\<close> and \<open>Fragment_Download\<close>) on a file of
  \<open>Storage_IO\<close>, and saves snapshots (\<open>Recovery\<close> over \<open>KV_Store\<close>).

  Interfaces are locales, each interpreted on the model's own definitions: \<open>kv_store\<close> (both stores),
  \<open>per_source\<close> (the breakers of all sources), \<open>download_scheduler\<close> (the adaptive scheduler),
  \<open>async_storage\<close> (a file of the operating system, and a storage that logs its writes, over which the
  attempt at a fragment is proved once), \<open>guarded_storage\<close> (a file without buffering, which takes only
  whole sectors, and the \<open>io_uring\<close> engine). Concurrency is explicit: the connection pool, the buffer pool,
  the completion port and the tasks of the application are step relations over the shared state, one step
  per atomic operation, with the invariants proved by rule induction over every reachable state. Errors and panics
  are values: \<open>Inl\<close> an error of \<open>download_error\<close> or of the application, \<open>None\<close> a panic or a wait that
  never ends.

  Parameters. Code that is not in the repository is an argument of the definitions that use it: a
  semaphore (\<open>sem_ops\<close> with the laws \<open>sem_laws\<close>, which a counter satisfies), the HTTP, FTP, QUIC and
  HTTP/3 libraries with the servers behind them, as responses and streams of chunks, URL parsing, DNS,
  the JSON and postcard formats, the hash functions and Ed25519, \<open>exp\<close>, the clock, the outcomes of
  writes, what the control channel holds at each point where it is looked at, the order in which racing
  mirrors end, the answers of other nodes, what the kernel does with the entries of an \<open>io_uring\<close> queue
  and with pending writes of a completion port, and what a GPU returns for a read out of bounds.

  Bounds and fuel. Integers have the width of the source. The loops of the code are structural
  recursions or functions with a measure; three take fuel or a bound: the walk along symbolic links
  (40, the limit of the kernel), the replacement of all occurrences in a URL (the length of the URL),
  and the polls of an FTP stream (more than the length of the file, since each poll takes a byte or
  ends).

  Not modelled: the Tauri wrappers around the commands and the set-up of the application, the front end,
  benches, test harnesses and tests.
\<close>

end
